(* ===== verification/Unp_Prelude.thy ===== *)
theory Unp_Prelude
  imports Main "HOL-Library.Word"
begin

text \<open>
  Shared vocabulary of the development: the types the C code uses (bytes, descriptors, 16 and
  32 bit unsigned integers), the constants of the configured platform
  (\<^verbatim>\<open>config.h\<close>: x86_64-unknown-linux-gnu, little endian, IPv4, IPv6 and Unix domain sockets),
  the socket address structures, and the generic lemmas on lists that the components share.
\<close>

unbundle bit_operations_syntax

named_theorems unp_consts
  \<open>definitions of the platform and header constants, unfolded together\<close>

named_theorems run_simps
  \<open>how the sequencing operator and the system call layer compute\<close>

section \<open>Types\<close>

type_synonym byte = "8 word"
type_synonym bytes = "byte list"
type_synonym u16 = "16 word"
type_synonym u32 = "32 word"
type_synonym fd = int

section \<open>Constants of the headers\<close>

text \<open>Constants defined by \<^verbatim>\<open>lib/unp.h\<close>.\<close>

definition MAXLINE :: nat where [unp_consts]: "MAXLINE = 4096"
definition BUFFSIZE :: nat where [unp_consts]: "BUFFSIZE = 8192"
definition LISTENQ :: int where [unp_consts]: "LISTENQ = 1024"
definition SERV_PORT :: nat where [unp_consts]: "SERV_PORT = 9877"
definition INET_ADDRSTRLEN :: nat where [unp_consts]: "INET_ADDRSTRLEN = 16"
definition INET6_ADDRSTRLEN :: nat where [unp_consts]: "INET6_ADDRSTRLEN = 46"

lemma MAXLINE_pos [simp]: "0 < MAXLINE" "MAXLINE \<noteq> 0"
  by (simp_all add: MAXLINE_def)

text \<open>Constants of the system headers of the configured platform.\<close>

definition AF_UNSPEC :: int where [unp_consts]: "AF_UNSPEC = 0"
definition AF_UNIX :: int where [unp_consts]: "AF_UNIX = 1"
definition AF_INET :: int where [unp_consts]: "AF_INET = 2"
definition AF_INET6 :: int where [unp_consts]: "AF_INET6 = 10"
definition SOCK_STREAM :: int where [unp_consts]: "SOCK_STREAM = 1"
definition SOCK_DGRAM :: int where [unp_consts]: "SOCK_DGRAM = 2"
definition SOCK_RAW :: int where [unp_consts]: "SOCK_RAW = 3"
definition IPPROTO_IP :: int where [unp_consts]: "IPPROTO_IP = 0"
definition IPPROTO_ICMP :: int where [unp_consts]: "IPPROTO_ICMP = 1"
definition IPPROTO_UDP :: int where [unp_consts]: "IPPROTO_UDP = 17"
definition IPPROTO_IPV6 :: int where [unp_consts]: "IPPROTO_IPV6 = 41"
definition SOL_SOCKET :: int where [unp_consts]: "SOL_SOCKET = 1"
definition SO_REUSEADDR :: int where [unp_consts]: "SO_REUSEADDR = 2"
definition SO_ERROR :: int where [unp_consts]: "SO_ERROR = 4"
definition SCM_RIGHTS :: int where [unp_consts]: "SCM_RIGHTS = 1"
definition SHUT_WR :: int where [unp_consts]: "SHUT_WR = 1"
definition FD_SETSIZE :: nat where [unp_consts]: "FD_SETSIZE = 1024"
definition LOG_ERR :: int where [unp_consts]: "LOG_ERR = 3"
definition LOG_INFO :: int where [unp_consts]: "LOG_INFO = 6"
definition SIGALRM :: int where [unp_consts]: "SIGALRM = 14"

definition ENOENT :: int where [unp_consts]: "ENOENT = 2"
definition EINTR :: int where [unp_consts]: "EINTR = 4"
definition ENXIO :: int where [unp_consts]: "ENXIO = 6"
definition EWOULDBLOCK :: int where [unp_consts]: "EWOULDBLOCK = 11"
definition ENOMEM :: int where [unp_consts]: "ENOMEM = 12"
definition EINVAL :: int where [unp_consts]: "EINVAL = 22"
definition ENOSPC :: int where [unp_consts]: "ENOSPC = 28"
definition EPROTO :: int where [unp_consts]: "EPROTO = 71"
definition EMSGSIZE :: int where [unp_consts]: "EMSGSIZE = 90"
definition EAFNOSUPPORT :: int where [unp_consts]: "EAFNOSUPPORT = 97"
definition ECONNABORTED :: int where [unp_consts]: "ECONNABORTED = 103"
definition ECONNRESET :: int where [unp_consts]: "ECONNRESET = 104"
definition ETIMEDOUT :: int where [unp_consts]: "ETIMEDOUT = 110"
definition ECONNREFUSED :: int where [unp_consts]: "ECONNREFUSED = 111"
definition EHOSTUNREACH :: int where [unp_consts]: "EHOSTUNREACH = 113"
definition EINPROGRESS :: int where [unp_consts]: "EINPROGRESS = 115"

section \<open>Byte order\<close>

text \<open>
  A 16 bit value in memory is two bytes. The platform is little endian: the byte at the lower
  address is the low byte. \<^verbatim>\<open>ntohs\<close> and \<^verbatim>\<open>htons\<close> swap the two.
\<close>

definition le16 :: "byte \<Rightarrow> byte \<Rightarrow> u16" where
  "le16 b0 b1 = word_of_nat (unat b0 + 256 * unat b1)"

definition be16 :: "byte \<Rightarrow> byte \<Rightarrow> u16" where
  "be16 b0 b1 = word_of_nat (256 * unat b0 + unat b1)"

definition lo8 :: "u16 \<Rightarrow> byte" where "lo8 x = word_of_nat (unat x mod 256)"

definition hi8 :: "u16 \<Rightarrow> byte" where "hi8 x = word_of_nat (unat x div 256)"

definition ntohs :: "u16 \<Rightarrow> u16" where "ntohs x = le16 (hi8 x) (lo8 x)"

definition htons :: "u16 \<Rightarrow> u16" where "htons x = ntohs x"

lemma unat_byte_less [simp]: "unat (b :: byte) < 256"
  using unsigned_less [of b] by simp

lemma unat_u16_less [simp]: "unat (x :: u16) < 65536"
  using unsigned_less [of x] by simp

lemma unat_of_nat_byte: "n < 256 \<Longrightarrow> unat (word_of_nat n :: byte) = n"
  by (simp add: unat_of_nat take_bit_nat_eq_self)

lemma unat_of_nat_u16: "n < 65536 \<Longrightarrow> unat (word_of_nat n :: u16) = n"
  by (simp add: unat_of_nat take_bit_nat_eq_self)

lemma two_bytes_less: "a < 256 \<Longrightarrow> b < 256 \<Longrightarrow> a + 256 * b < (65536 :: nat)"
  by simp

lemma unat_lo8 [simp]: "unat (lo8 x) = unat x mod 256"
  by (simp add: lo8_def unat_of_nat_byte)

lemma unat_hi8 [simp]: "unat (hi8 x) = unat x div 256"
  using unat_u16_less [of x] by (simp add: hi8_def unat_of_nat_byte less_mult_imp_div_less)

lemma unat_le16: "unat (le16 a b) = unat a + 256 * unat b"
  unfolding le16_def using unat_byte_less [of a] unat_byte_less [of b]
  by (intro unat_of_nat_u16 two_bytes_less)

lemma unat_be16: "unat (be16 a b) = 256 * unat a + unat b"
  unfolding be16_def using two_bytes_less [OF unat_byte_less [of b] unat_byte_less [of a]]
  by (intro unat_of_nat_u16) (simp add: add.commute)

lemma lo8_le16 [simp]: "lo8 (le16 a b) = a"
  by (rule word_unat_eq_iff [THEN iffD2]) (simp add: unat_le16)

lemma hi8_le16 [simp]: "hi8 (le16 a b) = b"
  by (rule word_unat_eq_iff [THEN iffD2]) (simp add: unat_le16)

lemma le16_lo8_hi8 [simp]: "le16 (lo8 x) (hi8 x) = x"
  by (rule word_unat_eq_iff [THEN iffD2]) (simp add: unat_le16)

lemma ntohs_ntohs [simp]: "ntohs (ntohs x) = x"
  by (simp add: ntohs_def)

lemma unat_ntohs: "unat (ntohs x) = unat x div 256 + 256 * (unat x mod 256)"
  by (simp add: ntohs_def unat_le16)

lemma ntohs_eq_0_iff [simp]: "ntohs x = 0 \<longleftrightarrow> x = 0"
  by (metis ntohs_ntohs unat_0 unat_ntohs div_0 mod_0 mult_zero_right add_0 unat_eq_zero)

text \<open>Numbers of any size in memory, the low byte first.\<close>

fun le_bytes :: "nat \<Rightarrow> nat \<Rightarrow> bytes" where
  "le_bytes 0 n = []"
| "le_bytes (Suc k) n = word_of_nat n # le_bytes k (n div 256)"

fun le_nat :: "bytes \<Rightarrow> nat" where
  "le_nat [] = 0"
| "le_nat (b # bs) = unat b + 256 * le_nat bs"

lemma length_le_bytes [simp]: "length (le_bytes k n) = k"
  by (induction k n rule: le_bytes.induct) simp_all

lemma unat_of_nat_byte_mod: "unat (word_of_nat n :: byte) = n mod 256"
  by (simp add: unat_of_nat take_bit_nat_def)

lemma le_nat_le_bytes: "le_nat (le_bytes k n) = n mod 256 ^ k"
  by (induction k n rule: le_bytes.induct) (simp_all add: unat_of_nat_byte_mod mod_mult2_eq)

section \<open>Socket address structures\<close>

text \<open>
  The protocol specific address structures behind a \<^verbatim>\<open>struct sockaddr *\<close>. Port fields hold the
  value as stored, in network byte order; addresses are their bytes in memory.
  \<^verbatim>\<open>SA_other\<close> is a structure of a family the code has no case for.
\<close>

datatype sockaddr =
    SA_in (sin_port: u16) (sin_addr: bytes)
  | SA_in6 (sin6_port: u16) (sin6_flowinfo: u32) (sin6_addr: bytes) (sin6_scope_id: u32)
  | SA_un (sun_path: string)
  | SA_other int

fun sa_family :: "sockaddr \<Rightarrow> int" where
  "sa_family (SA_in p a) = AF_INET"
| "sa_family (SA_in6 p f a s) = AF_INET6"
| "sa_family (SA_un path) = AF_UNIX"
| "sa_family (SA_other f) = f"

text \<open>
  A well formed structure: the address arrays have their declared sizes, a path fits
  \<^verbatim>\<open>sun_path\<close> (108 bytes on the platform, terminator included) and has no embedded
  terminator, and \<^verbatim>\<open>SA_other\<close> is only used for families without a case.
\<close>

fun wf_sockaddr :: "sockaddr \<Rightarrow> bool" where
  "wf_sockaddr (SA_in p a) \<longleftrightarrow> length a = 4"
| "wf_sockaddr (SA_in6 p f a s) \<longleftrightarrow> length a = 16"
| "wf_sockaddr (SA_un path) \<longleftrightarrow> length path < 108 \<and> CHR 0x00 \<notin> set path"
| "wf_sockaddr (SA_other f) \<longleftrightarrow> f \<noteq> AF_INET \<and> f \<noteq> AF_INET6 \<and> f \<noteq> AF_UNIX"

lemma family_cases [simp]:
  "AF_INET \<noteq> AF_INET6" "AF_INET6 \<noteq> AF_INET" "AF_INET \<noteq> AF_UNIX" "AF_UNIX \<noteq> AF_INET"
  "AF_INET6 \<noteq> AF_UNIX" "AF_UNIX \<noteq> AF_INET6" "AF_INET \<noteq> AF_UNSPEC" "AF_UNSPEC \<noteq> AF_INET"
  "AF_INET6 \<noteq> AF_UNSPEC" "AF_UNSPEC \<noteq> AF_INET6" "AF_UNIX \<noteq> AF_UNSPEC" "AF_UNSPEC \<noteq> AF_UNIX"
  by (simp_all add: unp_consts)

section \<open>Text\<close>

text \<open>C strings are character lists without terminator; text sent on a descriptor is bytes.\<close>

definition bytes_of_string :: "string \<Rightarrow> bytes" where
  "bytes_of_string s = map (\<lambda>c. word_of_nat (of_char c)) s"

lemma length_bytes_of_string [simp]: "length (bytes_of_string s) = length s"
  by (simp add: bytes_of_string_def)

text \<open>\<^verbatim>\<open>snprintf(buf, size, "%s", s)\<close> leaves the first \<open>size - 1\<close> characters.\<close>

definition snprintf_s :: "nat \<Rightarrow> string \<Rightarrow> string" where
  "snprintf_s sz s = take (sz - 1) s"

lemma length_snprintf_s: "0 < sz \<Longrightarrow> length (snprintf_s sz s) < sz"
  by (cases sz) (simp_all add: snprintf_s_def)

lemma snprintf_s_id [simp]: "length s < sz \<Longrightarrow> snprintf_s sz s = s"
  by (simp add: snprintf_s_def)

text \<open>
  The conversions \<^verbatim>\<open>%d\<close>, \<^verbatim>\<open>%u\<close> and \<^verbatim>\<open>%x\<close> of \<^verbatim>\<open>sprintf\<close> for nonnegative values, and
  \<^verbatim>\<open>strchr\<close> as the offset of the first occurrence.
\<close>

definition digit_char :: "nat \<Rightarrow> char" where
  "digit_char d = ''0123456789abcdef'' ! d"

fun utoa :: "nat \<Rightarrow> nat \<Rightarrow> string" where
  "utoa b n = (if b \<le> 1 \<or> n < b then [digit_char n]
     else utoa b (n div b) @ [digit_char (n mod b)])"

declare utoa.simps [simp del]

definition dec :: "nat \<Rightarrow> string" where "dec n = utoa 10 n"

definition hex :: "nat \<Rightarrow> string" where "hex n = utoa 16 n"

definition decz :: "int \<Rightarrow> string" where
  "decz n = (if n < 0 then ''-'' @ dec (nat (- n)) else dec (nat n))"

primrec strchr :: "string \<Rightarrow> char \<Rightarrow> nat option" where
  "strchr [] c = None"
| "strchr (x # xs) c = (if x = c then Some 0 else map_option Suc (strchr xs c))"

lemma utoa_nonempty [simp]: "utoa b n \<noteq> []"
  by (subst utoa.simps) simp

lemma length_utoa: "1 < b \<Longrightarrow> n < b ^ k \<Longrightarrow> 0 < k \<Longrightarrow> length (utoa b n) \<le> k"
proof (induction k arbitrary: n)
  case (Suc k)
  show ?case
  proof (cases "n < b")
    case False
    then have "k \<noteq> 0" using Suc.prems by (cases k) auto
    moreover have "n div b < b ^ k"
      using Suc.prems by (simp add: less_mult_imp_div_less mult.commute)
    ultimately have "length (utoa b (n div b)) \<le> k" using Suc by simp
    then show ?thesis using False Suc.prems(1) by (subst utoa.simps) simp
  qed (subst utoa.simps, simp)
qed simp

section \<open>Generic lemmas\<close>

lemma append_eq_prefix: "xs @ ys = zs \<Longrightarrow> take (length xs) zs = xs"
  by auto

lemma drop_take_split:
  "n \<le> m \<Longrightarrow> take n xs @ take (m - n) (drop n xs) = take m xs"
  by (metis le_add_diff_inverse take_add)

end
