(* ===== verification/Unp_World.thy ===== *)
theory Unp_World
  imports Unp_Prelude
begin

text \<open>
  The process and its kernel. A C function that makes system calls becomes a function of a
  \<^verbatim>\<open>world\<close>: the kernel's answers that are still to come (its script), the calls made and the
  text printed so far (its trace) and \<^verbatim>\<open>errno\<close>. The script is an argument of every
  definition, so a theorem that holds for every world holds for every behaviour of the kernel;
  a run whose script is used up is \<^verbatim>\<open>Block\<close>: the process waits inside a system call.
  The answers are read through the contracts of POSIX: \<^verbatim>\<open>read\<close> never delivers more than was
  asked for, \<^verbatim>\<open>write\<close> never accepts more than it was given, \<^verbatim>\<open>select\<close> only reports descriptors
  of the sets it was given.

  The second half models \<^verbatim>\<open>lib/error.c\<close>: the functions that print a diagnostic on standard
  error or the system log and, for the fatal ones, end the process.
\<close>

section \<open>Kernel answers and system calls\<close>

record cmsg =
  cmsg_len :: nat
  cmsg_level :: int
  cmsg_type :: int
  cmsg_int :: int

datatype optval =
    OV_int int
  | OV_uchar byte
  | OV_in_addr bytes
  | OV_bytes bytes
  | OV_group_req u32 sockaddr
  | OV_group_source_req u32 sockaddr sockaddr

record answer =
  a_err :: int
  a_val :: nat
  a_data :: bytes
  a_rset :: "fd list"
  a_wset :: "fd list"
  a_addr :: sockaddr
  a_cmsg :: "cmsg list"
  a_opt :: optval
  a_time :: "int \<times> int"
  a_ints :: "int list"

text \<open>A successful answer with nothing in it; concrete answers update its fields.\<close>

definition ans0 :: answer where
  "ans0 = \<lparr>a_err = 0, a_val = 0, a_data = [], a_rset = [], a_wset = [], a_addr = SA_other 0,
     a_cmsg = [], a_opt = OV_int 0, a_time = (0, 0), a_ints = []\<rparr>"

datatype call =
    C_read fd nat
  | C_write fd bytes
  | C_close fd
  | C_accept fd
  | C_bind fd sockaddr
  | C_connect fd sockaddr
  | C_listen fd int
  | C_socket int int int
  | C_shutdown fd int
  | C_getpeername fd
  | C_getsockname fd
  | C_getsockopt fd int int
  | C_setsockopt fd int int optval
  | C_select int "fd set" "fd set" "int option"
  | C_poll "(fd \<times> int) list" int
  | C_recv fd nat int
  | C_recvfrom fd nat int
  | C_recvmsg fd nat
  | C_send fd bytes int
  | C_sendto fd bytes int sockaddr
  | C_sendmsg fd bytes sockaddr "cmsg list"
  | C_fcntl fd int int
  | C_ioctl fd int
  | C_if_ioctl fd int string
  | C_gettimeofday
  | C_alarm int
  | C_sigaction int int int
  | C_sigprocmask int "int set"
  | C_fork
  | C_unlink string
  | C_path string string "int list"
  | C_fgets int nat
  | C_fputs int bytes
  | C_other string "int list"

datatype event =
    Sys call answer
  | Stdout string
  | Stderr string
  | Syslog int string

record world =
  script :: "answer list"
  trace :: "event list"
  errno :: int
  daemon_proc :: int
  strerror_of :: "int \<Rightarrow> string"
  getenv_of :: "string \<Rightarrow> string option"

text \<open>
  The world of a process that starts with the kernel about to answer as in \<open>s\<close>; the concrete
  instances use it, with answers \<open>got bs\<close> (data arrived), \<open>gave n\<close> (a count or a descriptor)
  and \<open>fails e\<close>.
\<close>

definition boot :: "answer list \<Rightarrow> world" where
  "boot s = \<lparr>script = s, trace = [], errno = 0, daemon_proc = 0, strerror_of = (\<lambda>e. []),
     getenv_of = (\<lambda>v. None)\<rparr>"

definition got :: "bytes \<Rightarrow> answer" where "got bs = ans0\<lparr>a_data := bs\<rparr>"

definition gave :: "nat \<Rightarrow> answer" where "gave n = ans0\<lparr>a_val := n\<rparr>"

definition fails :: "int \<Rightarrow> answer" where "fails e = ans0\<lparr>a_err := e\<rparr>"

lemma answer_fields [simp]:
  "a_err (got bs) = 0" "a_data (got bs) = bs" "a_err (gave n) = 0" "a_val (gave n) = n"
  "a_err (fails e) = e" "a_err ans0 = 0" "a_data ans0 = []" "a_val ans0 = 0" "a_data (gave n) = []"
  by (simp_all add: got_def gave_def fails_def ans0_def)

lemma boot_fields [simp]:
  "script (boot s) = s" "trace (boot s) = []" "errno (boot s) = 0" "daemon_proc (boot s) = 0"
  by (simp_all add: boot_def)

section \<open>Outcomes and sequencing\<close>

text \<open>
  How a run ends: with a value, by \<^verbatim>\<open>exit\<close>, by \<^verbatim>\<open>abort\<close>, or not yet (blocked in a call).
\<close>

datatype 'a run =
    Ret 'a world
  | Exit int world
  | Abort world
  | Block world

fun then_run :: "'a run \<Rightarrow> ('a \<Rightarrow> world \<Rightarrow> 'b run) \<Rightarrow> 'b run" where
  "then_run (Ret x w) f = f x w"
| "then_run (Exit s w) f = Exit s w"
| "then_run (Abort w) f = Abort w"
| "then_run (Block w) f = Block w"

declare then_run.simps [run_simps]

lemma then_run_cong [fundef_cong]:
  "m = m' \<Longrightarrow> (\<And>x w. m' = Ret x w \<Longrightarrow> f x w = g x w) \<Longrightarrow> then_run m f = then_run m' g"
  by (cases m') auto

lemma then_run_split:
  "P (then_run m f) \<longleftrightarrow>
     (\<forall>x w. m = Ret x w \<longrightarrow> P (f x w)) \<and> (\<forall>s w. m = Exit s w \<longrightarrow> P (Exit s w)) \<and>
     (\<forall>w. m = Abort w \<longrightarrow> P (Abort w)) \<and> (\<forall>w. m = Block w \<longrightarrow> P (Block w))"
  by (cases m) auto

lemma then_run_Ret_iff:
  "then_run m f = Ret y v \<longleftrightarrow> (\<exists>x w. m = Ret x w \<and> f x w = Ret y v)"
  by (cases m) auto

lemma then_run_assoc: "then_run (then_run m f) g = then_run m (\<lambda>x w. then_run (f x w) g)"
  by (cases m) auto

fun world_of :: "'a run \<Rightarrow> world" where
  "world_of (Ret x w) = w"
| "world_of (Exit s w) = w"
| "world_of (Abort w) = w"
| "world_of (Block w) = w"

fun returns :: "'a run \<Rightarrow> bool" where
  "returns (Ret x w) = True"
| "returns _ = False"

section \<open>System calls\<close>

definition emit :: "event \<Rightarrow> world \<Rightarrow> world" where
  "emit e w = w\<lparr>trace := trace w @ [e]\<rparr>"

definition set_errno :: "int \<Rightarrow> world \<Rightarrow> world" where
  "set_errno e w = w\<lparr>errno := e\<rparr>"

text \<open>The world after the kernel answered call \<open>c\<close> with \<open>a\<close>, \<open>s\<close> being the rest of its script.\<close>

definition called :: "call \<Rightarrow> answer \<Rightarrow> answer list \<Rightarrow> world \<Rightarrow> world" where
  "called c a s w = w\<lparr>script := s, trace := trace w @ [Sys c a],
     errno := (if a_err a = 0 then errno w else a_err a)\<rparr>"

lemma called_fields [simp]:
  "script (called c a s w) = s" "trace (called c a s w) = trace w @ [Sys c a]"
  "errno (called c a s w) = (if a_err a = 0 then errno w else a_err a)"
  "daemon_proc (called c a s w) = daemon_proc w" "strerror_of (called c a s w) = strerror_of w"
  "getenv_of (called c a s w) = getenv_of w"
  by (simp_all add: called_def)

definition sys :: "call \<Rightarrow> world \<Rightarrow> answer run" where
  "sys c w = (case script w of [] \<Rightarrow> Block w | a # s \<Rightarrow> Ret a (called c a s w))"

text \<open>A call that reports only success or failure (\<^verbatim>\<open>close\<close>, \<^verbatim>\<open>bind\<close>, \<^verbatim>\<open>connect\<close>, ...).\<close>

definition sys_unit :: "call \<Rightarrow> world \<Rightarrow> int run" where
  "sys_unit c w = then_run (sys c w) (\<lambda>a w. Ret (if a_err a = 0 then 0 else - 1) w)"

text \<open>A call that returns a nonnegative number or \<open>- 1\<close> (\<^verbatim>\<open>socket\<close>, \<^verbatim>\<open>fcntl\<close>, ...).\<close>

definition sys_int :: "call \<Rightarrow> world \<Rightarrow> int run" where
  "sys_int c w =
     then_run (sys c w) (\<lambda>a w. Ret (if a_err a = 0 then int (a_val a) else - 1) w)"

text \<open>A call that fills a buffer of \<open>n\<close> bytes (\<^verbatim>\<open>read\<close>, \<^verbatim>\<open>recv\<close>): its result and the bytes.\<close>

definition sys_data :: "call \<Rightarrow> nat \<Rightarrow> world \<Rightarrow> (int \<times> bytes) run" where
  "sys_data c n w = then_run (sys c w) (\<lambda>a w.
     Ret (if a_err a = 0 then (int (length (take n (a_data a))), take n (a_data a))
          else (- 1, [])) w)"

definition sys_read :: "fd \<Rightarrow> nat \<Rightarrow> world \<Rightarrow> (int \<times> bytes) run" where
  "sys_read fd n w = sys_data (C_read fd n) n w"

text \<open>A call that accepts a prefix of a buffer (\<^verbatim>\<open>write\<close>, \<^verbatim>\<open>send\<close>): how much it took.\<close>

definition sys_accepts :: "call \<Rightarrow> nat \<Rightarrow> world \<Rightarrow> int run" where
  "sys_accepts c n w = then_run (sys c w) (\<lambda>a w.
     Ret (if a_err a = 0 then int (min n (a_val a)) else - 1) w)"

definition sys_write :: "fd \<Rightarrow> bytes \<Rightarrow> world \<Rightarrow> int run" where
  "sys_write fd buf w = sys_accepts (C_write fd buf) (length buf) w"

text \<open>A call that stores a socket address (\<^verbatim>\<open>accept\<close>, \<^verbatim>\<open>getsockname\<close>).\<close>

definition sys_addr :: "call \<Rightarrow> world \<Rightarrow> (int \<times> sockaddr) run" where
  "sys_addr c w = then_run (sys c w) (\<lambda>a w.
     Ret (if a_err a = 0 then int (a_val a) else - 1, a_addr a) w)"

definition sys_recvfrom :: "fd \<Rightarrow> nat \<Rightarrow> int \<Rightarrow> world \<Rightarrow> (int \<times> bytes \<times> sockaddr) run" where
  "sys_recvfrom fd n flags w = then_run (sys (C_recvfrom fd n flags) w) (\<lambda>a w.
     Ret (if a_err a = 0 then (int (length (take n (a_data a))), take n (a_data a), a_addr a)
          else (- 1, [], a_addr a)) w)"

text \<open>
  \<^verbatim>\<open>select\<close> returns the number of ready descriptors and the two sets reduced to them.
\<close>

definition ready :: "fd set \<Rightarrow> fd list \<Rightarrow> fd set" where
  "ready S r = {x \<in> S. x \<in> set r}"

definition sys_select ::
  "int \<Rightarrow> fd set \<Rightarrow> fd set \<Rightarrow> int option \<Rightarrow> world \<Rightarrow> (int \<times> fd set \<times> fd set) run" where
  "sys_select nfds R W tmo w = then_run (sys (C_select nfds R W tmo) w) (\<lambda>a w.
     Ret (if a_err a = 0
          then (int (card (ready R (a_rset a)) + card (ready W (a_wset a))),
                ready R (a_rset a), ready W (a_wset a))
          else (- 1, R, W)) w)"

text \<open>
  \<^verbatim>\<open>poll\<close> reports the events of each entry and returns how many entries have any; entries with a
  negative descriptor are ignored.
\<close>

definition poll_revents :: "(fd \<times> int) list \<Rightarrow> int list \<Rightarrow> int list" where
  "poll_revents fds evs =
     map2 (\<lambda>p i. if fst p < 0 then 0 else if i < length evs then evs ! i else 0) fds [0..<length fds]"

definition sys_poll :: "(fd \<times> int) list \<Rightarrow> int \<Rightarrow> world \<Rightarrow> (int \<times> int list) run" where
  "sys_poll fds tmo w = then_run (sys (C_poll fds tmo) w) (\<lambda>a w.
     let rev = poll_revents fds (a_ints a) in
     Ret (if a_err a = 0 then (int (length (filter (\<lambda>e. e \<noteq> 0) rev)), rev)
          else (- 1, replicate (length fds) 0)) w)"

text \<open>\<^verbatim>\<open>getsockopt\<close> stores an option value; \<^verbatim>\<open>recvmsg\<close> data, an address and control messages.\<close>

definition sys_opt :: "call \<Rightarrow> world \<Rightarrow> (int \<times> optval) run" where
  "sys_opt c w = then_run (sys c w) (\<lambda>a w. Ret (if a_err a = 0 then 0 else - 1, a_opt a) w)"

definition sys_recvmsg ::
  "fd \<Rightarrow> nat \<Rightarrow> world \<Rightarrow> (int \<times> bytes \<times> sockaddr \<times> cmsg list) run" where
  "sys_recvmsg fd n w = then_run (sys (C_recvmsg fd n) w) (\<lambda>a w.
     Ret (if a_err a = 0
          then (int (length (take n (a_data a))), take n (a_data a), a_addr a, a_cmsg a)
          else (- 1, [], a_addr a, [])) w)"

text \<open>A call whose result is an error number (the thread functions).\<close>

definition sys_code :: "call \<Rightarrow> world \<Rightarrow> int run" where
  "sys_code c w = then_run (sys c w) (\<lambda>a w. Ret (a_err a) w)"

text \<open>Every call that comes back has used one answer of the script.\<close>

lemma sys_consumes [dest]: "sys c w = Ret a v \<Longrightarrow> script w = a # script v"
  by (auto simp: sys_def split: list.splits)

lemma sys_unit_consumes: "sys_unit c w = Ret r v \<Longrightarrow> length (script v) < length (script w)"
  by (auto simp: sys_unit_def then_run_Ret_iff)

lemma sys_int_consumes: "sys_int c w = Ret r v \<Longrightarrow> length (script v) < length (script w)"
  by (auto simp: sys_int_def then_run_Ret_iff)

lemma sys_data_consumes: "sys_data c n w = Ret r v \<Longrightarrow> length (script v) < length (script w)"
  by (auto simp: sys_data_def then_run_Ret_iff)

lemma sys_read_consumes: "sys_read fd n w = Ret r v \<Longrightarrow> length (script v) < length (script w)"
  by (auto simp: sys_read_def dest: sys_data_consumes)

lemma sys_accepts_consumes:
  "sys_accepts c n w = Ret r v \<Longrightarrow> length (script v) < length (script w)"
  by (auto simp: sys_accepts_def then_run_Ret_iff)

lemma sys_write_consumes: "sys_write fd b w = Ret r v \<Longrightarrow> length (script v) < length (script w)"
  by (auto simp: sys_write_def dest: sys_accepts_consumes)

lemma sys_addr_consumes: "sys_addr c w = Ret r v \<Longrightarrow> length (script v) < length (script w)"
  by (auto simp: sys_addr_def then_run_Ret_iff)

lemma sys_recvfrom_consumes:
  "sys_recvfrom fd n f w = Ret r v \<Longrightarrow> length (script v) < length (script w)"
  by (auto simp: sys_recvfrom_def then_run_Ret_iff)

lemma sys_select_consumes:
  "sys_select n R W t w = Ret r v \<Longrightarrow> length (script v) < length (script w)"
  by (auto simp: sys_select_def then_run_Ret_iff)

lemma sys_poll_consumes: "sys_poll n t w = Ret r v \<Longrightarrow> length (script v) < length (script w)"
  by (auto simp: sys_poll_def then_run_Ret_iff Let_def)

lemma sys_opt_consumes: "sys_opt c w = Ret r v \<Longrightarrow> length (script v) < length (script w)"
  by (auto simp: sys_opt_def then_run_Ret_iff)

lemma sys_recvmsg_consumes:
  "sys_recvmsg fd n w = Ret r v \<Longrightarrow> length (script v) < length (script w)"
  by (auto simp: sys_recvmsg_def then_run_Ret_iff)

lemma sys_code_consumes: "sys_code c w = Ret r v \<Longrightarrow> length (script v) < length (script w)"
  by (auto simp: sys_code_def then_run_Ret_iff)

lemmas sys_consumes_less =
  sys_poll_consumes sys_opt_consumes sys_recvmsg_consumes sys_code_consumes
  sys_unit_consumes sys_int_consumes sys_data_consumes sys_read_consumes sys_accepts_consumes
  sys_write_consumes sys_addr_consumes sys_recvfrom_consumes sys_select_consumes

text \<open>No system call ends the process.\<close>

lemma sys_no_exit [simp]:
  "sys c w \<noteq> Exit s v" "sys c w \<noteq> Abort v"
  by (auto simp: sys_def split: list.splits)

lemmas sys_defs = sys_def sys_unit_def sys_int_def sys_data_def sys_read_def sys_accepts_def
  sys_write_def sys_addr_def sys_recvfrom_def sys_select_def sys_poll_def sys_opt_def
  sys_recvmsg_def sys_code_def

section \<open>What a trace says\<close>

text \<open>The bytes the kernel accepted from, and delivered to, the process on a descriptor.\<close>

fun accepted_ev :: "fd \<Rightarrow> event \<Rightarrow> bytes" where
  "accepted_ev fd (Sys (C_write fd' b) a) =
     (if fd' = fd \<and> a_err a = 0 then take (a_val a) b else [])"
| "accepted_ev fd _ = []"

definition accepted :: "fd \<Rightarrow> event list \<Rightarrow> bytes" where
  "accepted fd es = concat (map (accepted_ev fd) es)"

fun delivered_ev :: "fd \<Rightarrow> event \<Rightarrow> bytes" where
  "delivered_ev fd (Sys (C_read fd' n) a) =
     (if fd' = fd \<and> a_err a = 0 then take n (a_data a) else [])"
| "delivered_ev fd _ = []"

definition delivered :: "fd \<Rightarrow> event list \<Rightarrow> bytes" where
  "delivered fd es = concat (map (delivered_ev fd) es)"

lemma accepted_append [simp]: "accepted fd (xs @ ys) = accepted fd xs @ accepted fd ys"
  by (simp add: accepted_def)

lemma accepted_Cons [simp]: "accepted fd (e # es) = accepted_ev fd e @ accepted fd es"
  by (simp add: accepted_def)

lemma accepted_Nil [simp]: "accepted fd [] = []"
  by (simp add: accepted_def)

text \<open>The descriptors a trace opens and closes.\<close>

fun opened_ev :: "event \<Rightarrow> fd list" where
  "opened_ev (Sys (C_socket f t p) a) = (if a_err a = 0 then [int (a_val a)] else [])"
| "opened_ev _ = []"

definition opened :: "event list \<Rightarrow> fd list" where
  "opened es = concat (map opened_ev es)"

fun closed_ev :: "event \<Rightarrow> fd list" where
  "closed_ev (Sys (C_close fd) a) = (if a_err a = 0 then [fd] else [])"
| "closed_ev _ = []"

definition closed :: "event list \<Rightarrow> fd list" where
  "closed es = concat (map closed_ev es)"

lemma opened_simps [simp]:
  "opened [] = []" "opened (e # es) = opened_ev e @ opened es"
  "opened (xs @ ys) = opened xs @ opened ys"
  by (simp_all add: opened_def)

lemma closed_simps [simp]:
  "closed [] = []" "closed (e # es) = closed_ev e @ closed es"
  "closed (xs @ ys) = closed xs @ closed ys"
  by (simp_all add: closed_def)

lemma delivered_append [simp]: "delivered fd (xs @ ys) = delivered fd xs @ delivered fd ys"
  by (simp add: delivered_def)

lemma delivered_Cons [simp]: "delivered fd (e # es) = delivered_ev fd e @ delivered fd es"
  by (simp add: delivered_def)

lemma delivered_Nil [simp]: "delivered fd [] = []"
  by (simp add: delivered_def)

section \<open>Diagnostics: lib/error.c\<close>

text \<open>
  \<^verbatim>\<open>err_doit\<close>: \<open>msg\<close> is what the format string and its arguments expand to. The buffer holds
  \<^verbatim>\<open>MAXLINE + 1\<close> bytes; \<^verbatim>\<open>vsnprintf\<close> is limited to \<^verbatim>\<open>MAXLINE\<close> of them, the text of
  \<^verbatim>\<open>errno\<close> to what is left of these, and \<^verbatim>\<open>strcat\<close> adds the newline.
\<close>

definition err_buf :: "bool \<Rightarrow> string \<Rightarrow> string \<Rightarrow> string" where
  "err_buf errnoflag msg errtext =
     (let buf = snprintf_s MAXLINE msg; n = length buf in
      (if errnoflag then buf @ snprintf_s (MAXLINE - n) ('': '' @ errtext) else buf)
        @ [CHR 0x0A])"

definition err_doit :: "bool \<Rightarrow> int \<Rightarrow> string \<Rightarrow> world \<Rightarrow> world" where
  "err_doit errnoflag level msg w =
     (let buf = err_buf errnoflag msg (strerror_of w (errno w)) in
      if daemon_proc w \<noteq> 0 then emit (Syslog level buf) w else emit (Stderr buf) w)"

definition err_ret :: "string \<Rightarrow> world \<Rightarrow> unit run" where
  "err_ret msg w = Ret () (err_doit True LOG_INFO msg w)"

definition err_sys :: "string \<Rightarrow> world \<Rightarrow> 'a run" where
  "err_sys msg w = Exit 1 (err_doit True LOG_ERR msg w)"

definition err_dump :: "string \<Rightarrow> world \<Rightarrow> 'a run" where
  "err_dump msg w = Abort (err_doit True LOG_ERR msg w)"

definition err_msg :: "string \<Rightarrow> world \<Rightarrow> unit run" where
  "err_msg msg w = Ret () (err_doit False LOG_INFO msg w)"

definition err_quit :: "string \<Rightarrow> world \<Rightarrow> 'a run" where
  "err_quit msg w = Exit 1 (err_doit False LOG_ERR msg w)"

lemma err_buf_length: "length (err_buf errnoflag msg errtext) \<le> MAXLINE"
proof -
  have n: "length (snprintf_s MAXLINE msg) < MAXLINE"
    by (rule length_snprintf_s) (simp add: MAXLINE_def)
  moreover have "length (snprintf_s (MAXLINE - length (snprintf_s MAXLINE msg)) ('': '' @ errtext))
      < MAXLINE - length (snprintf_s MAXLINE msg)"
    using n by (intro length_snprintf_s) simp
  ultimately show ?thesis
    by (auto simp add: err_buf_def Let_def simp del: append_Cons append_Nil)
qed

lemma err_doit_fields [simp]:
  "script (err_doit f l m w) = script w" "errno (err_doit f l m w) = errno w"
  "daemon_proc (err_doit f l m w) = daemon_proc w"
  "strerror_of (err_doit f l m w) = strerror_of w"
  "getenv_of (err_doit f l m w) = getenv_of w"
  by (simp_all add: err_doit_def emit_def Let_def)

lemma emit_fields [simp]:
  "script (emit e w) = script w" "errno (emit e w) = errno w"
  "trace (emit e w) = trace w @ [e]" "daemon_proc (emit e w) = daemon_proc w"
  by (simp_all add: emit_def)

lemma set_errno_fields [simp]:
  "script (set_errno e w) = script w" "errno (set_errno e w) = e"
  "trace (set_errno e w) = trace w"
  by (simp_all add: set_errno_def)

lemma err_doit_trace:
  "\<exists>e. trace (err_doit f l m w) = trace w @ [e] \<and>
     (e = Syslog l (err_buf f m (strerror_of w (errno w))) \<or>
      e = Stderr (err_buf f m (strerror_of w (errno w))))"
  by (auto simp: err_doit_def Let_def)

lemma accepted_err_doit [simp]:
  "accepted fd (trace (err_doit f l m w)) = accepted fd (trace w)"
  by (auto simp: err_doit_def Let_def)

lemma delivered_err_doit [simp]:
  "delivered fd (trace (err_doit f l m w)) = delivered fd (trace w)"
  by (auto simp: err_doit_def Let_def)

end
