(* ===== verification/Stream_IO.thy ===== *)
theory Stream_IO
  imports Unp_World
begin

text \<open>
  Reading and writing byte streams: \<^verbatim>\<open>lib/readn.c\<close>, \<^verbatim>\<open>lib/writen.c\<close> and the three
  implementations of the buffered line reader, \<^verbatim>\<open>lib/readline.c\<close> (static variables),
  \<^verbatim>\<open>threads/readline.c\<close> (one structure per thread) and \<^verbatim>\<open>server/readline_r.c\<close> (the caller's
  structure). The locale \<^verbatim>\<open>byte_source\<close> states what the line loops need from the byte
  reader under them; it is interpreted on the three readers.
\<close>

section \<open>readn and writen\<close>

text \<open>The buffer is represented by the bytes stored in it so far.\<close>

function readn_loop :: "fd \<Rightarrow> nat \<Rightarrow> nat \<Rightarrow> bytes \<Rightarrow> world \<Rightarrow> (int \<times> bytes) run" where
  "readn_loop fd n nleft buf w =
     (if 0 < nleft then
        then_run (sys_read fd nleft w) (\<lambda>r w. case r of (nread, bs) \<Rightarrow>
          if nread < 0 then
            (if errno w = EINTR then readn_loop fd n nleft buf w else Ret (- 1, buf) w)
          else if nread = 0 then Ret (int n - int nleft, buf) w
          else readn_loop fd n (nleft - nat nread) (buf @ bs) w)
      else Ret (int n - int nleft, buf) w)"
  by pat_completeness auto
termination
  by (relation "measure (\<lambda>(fd, n, nleft, buf, w). length (script w))")
     (auto dest: sys_read_consumes)

declare readn_loop.simps [simp del]

definition readn :: "fd \<Rightarrow> nat \<Rightarrow> world \<Rightarrow> (int \<times> bytes) run" where
  "readn fd n w = readn_loop fd n n [] w"

definition Readn :: "fd \<Rightarrow> nat \<Rightarrow> world \<Rightarrow> (int \<times> bytes) run" where
  "Readn fd nbytes w = then_run (readn fd nbytes w) (\<lambda>r w.
     if fst r < 0 then err_sys ''readn error'' w else Ret r w)"

function writen_loop :: "fd \<Rightarrow> nat \<Rightarrow> bytes \<Rightarrow> world \<Rightarrow> int run" where
  "writen_loop fd n rest w =
     (if 0 < length rest then
        then_run (sys_write fd rest w) (\<lambda>nwritten w.
          if nwritten \<le> 0 then
            (if nwritten < 0 \<and> errno w = EINTR then writen_loop fd n rest w else Ret (- 1) w)
          else writen_loop fd n (drop (nat nwritten) rest) w)
      else Ret (int n) w)"
  by pat_completeness auto
termination
  by (relation "measure (\<lambda>(fd, n, rest, w). length (script w))")
     (auto dest: sys_write_consumes)

declare writen_loop.simps [simp del]

definition writen :: "fd \<Rightarrow> bytes \<Rightarrow> world \<Rightarrow> int run" where
  "writen fd buf w = writen_loop fd (length buf) buf w"

definition Writen :: "fd \<Rightarrow> bytes \<Rightarrow> world \<Rightarrow> unit run" where
  "Writen fd buf w = then_run (writen fd buf w) (\<lambda>r w.
     if r \<noteq> int (length buf) then err_sys ''writen error'' w else Ret () w)"

section \<open>Line readers\<close>

subsection \<open>lib/readline.c\<close>

text \<open>
  The static variables: \<^verbatim>\<open>read_cnt\<close>, the index \<^verbatim>\<open>read_ptr\<close> into \<^verbatim>\<open>read_buf\<close>, and
  \<^verbatim>\<open>read_buf\<close> itself, whose first bytes a successful \<^verbatim>\<open>read\<close> overwrites.
\<close>

record rl_state =
  read_cnt :: int
  read_ptr :: nat
  read_buf :: bytes

definition rl_init :: rl_state where
  "rl_init = \<lparr>read_cnt = 0, read_ptr = 0, read_buf = replicate MAXLINE 0\<rparr>"

definition fill :: "bytes \<Rightarrow> bytes \<Rightarrow> bytes" where
  "fill bs buf = bs @ drop (length bs) buf"

function my_read_again :: "fd \<Rightarrow> rl_state \<Rightarrow> world \<Rightarrow> (int \<times> rl_state) run" where
  "my_read_again fd st w =
     then_run (sys_read fd MAXLINE w) (\<lambda>r w. case r of (n, bs) \<Rightarrow>
       let st = st\<lparr>read_cnt := n, read_buf := fill bs (read_buf st)\<rparr> in
       if n < 0 then
         (if errno w = EINTR then my_read_again fd st w else Ret (- 1, st) w)
       else if n = 0 then Ret (0, st) w
       else Ret (1, st\<lparr>read_ptr := 0\<rparr>) w)"
  by pat_completeness auto
termination
  by (relation "measure (\<lambda>(fd, st, w). length (script w))") (auto dest: sys_read_consumes)

declare my_read_again.simps [simp del]

definition take_byte :: "rl_state \<Rightarrow> int \<times> byte \<times> rl_state" where
  "take_byte st =
     (1, read_buf st ! read_ptr st,
      st\<lparr>read_cnt := read_cnt st - 1, read_ptr := Suc (read_ptr st)\<rparr>)"

definition my_read :: "fd \<Rightarrow> rl_state \<Rightarrow> world \<Rightarrow> (int \<times> byte \<times> rl_state) run" where
  "my_read fd st w =
     (if read_cnt st \<le> 0 then
        then_run (my_read_again fd st w) (\<lambda>r w. case r of (rc, st) \<Rightarrow>
          if rc = 1 then Ret (take_byte st) w else Ret (rc, 0, st) w)
      else Ret (take_byte st) w)"

text \<open>
  The loop of \<^verbatim>\<open>readline\<close>, over any byte reader \<open>rd\<close>: the result is the return value, the
  line as stored before the terminating null byte, and the reader's state.
\<close>

function readline_loop ::
  "(fd \<Rightarrow> 's \<Rightarrow> world \<Rightarrow> (int \<times> byte \<times> 's) run) \<Rightarrow> fd \<Rightarrow> nat \<Rightarrow> nat \<Rightarrow> bytes \<Rightarrow> 's \<Rightarrow> world
     \<Rightarrow> (int \<times> bytes \<times> 's) run" where
  "readline_loop rd fd maxlen n line st w =
     (if n < maxlen then
        then_run (rd fd st w) (\<lambda>r w. case r of (rc, c, st) \<Rightarrow>
          if rc = 1 then
            (if c = 10 then Ret (int n, line @ [c], st) w
             else readline_loop rd fd maxlen (Suc n) (line @ [c]) st w)
          else if rc = 0 then Ret (int n - 1, line, st) w
          else Ret (- 1, line, st) w)
      else Ret (int n, line, st) w)"
  by pat_completeness auto
termination
  by (relation "measure (\<lambda>(rd, fd, maxlen, n, line, st, w). maxlen - n)") auto

declare readline_loop.simps [simp del]

definition readline :: "fd \<Rightarrow> nat \<Rightarrow> rl_state \<Rightarrow> world \<Rightarrow> (int \<times> bytes \<times> rl_state) run" where
  "readline fd maxlen st w = readline_loop my_read fd maxlen 1 [] st w"

definition readlinebuf :: "rl_state \<Rightarrow> int \<times> nat option" where
  "readlinebuf st = (read_cnt st, if read_cnt st \<noteq> 0 then Some (read_ptr st) else None)"

definition Readline :: "fd \<Rightarrow> nat \<Rightarrow> rl_state \<Rightarrow> world \<Rightarrow> (int \<times> bytes \<times> rl_state) run" where
  "Readline fd maxlen st w = then_run (readline fd maxlen st w) (\<lambda>r w.
     if fst r < 0 then err_sys ''readline error'' w else Ret r w)"

subsection \<open>threads/readline.c\<close>

text \<open>The thread-specific structure; \<^verbatim>\<open>tsd\<close> maps a thread to the structure it set, if any.\<close>

record Rline_t =
  rl_cnt :: int
  rl_bufptr :: nat
  rl_buf :: bytes

definition Rline_zero :: Rline_t where
  "Rline_zero = \<lparr>rl_cnt = 0, rl_bufptr = 0, rl_buf = replicate MAXLINE 0\<rparr>"

function my_read_t_again :: "fd \<Rightarrow> Rline_t \<Rightarrow> world \<Rightarrow> (int \<times> Rline_t) run" where
  "my_read_t_again fd tsd w =
     then_run (sys_read fd MAXLINE w) (\<lambda>r w. case r of (n, bs) \<Rightarrow>
       let tsd = tsd\<lparr>rl_cnt := n, rl_buf := fill bs (rl_buf tsd)\<rparr> in
       if n < 0 then
         (if errno w = EINTR then my_read_t_again fd tsd w else Ret (- 1, tsd) w)
       else if n = 0 then Ret (0, tsd) w
       else Ret (1, tsd\<lparr>rl_bufptr := 0\<rparr>) w)"
  by pat_completeness auto
termination
  by (relation "measure (\<lambda>(fd, st, w). length (script w))") (auto dest: sys_read_consumes)

declare my_read_t_again.simps [simp del]

definition take_byte_t :: "Rline_t \<Rightarrow> int \<times> byte \<times> Rline_t" where
  "take_byte_t tsd =
     (1, rl_buf tsd ! rl_bufptr tsd,
      tsd\<lparr>rl_cnt := rl_cnt tsd - 1, rl_bufptr := Suc (rl_bufptr tsd)\<rparr>)"

definition my_read_t :: "fd \<Rightarrow> Rline_t \<Rightarrow> world \<Rightarrow> (int \<times> byte \<times> Rline_t) run" where
  "my_read_t fd tsd w =
     (if rl_cnt tsd \<le> 0 then
        then_run (my_read_t_again fd tsd w) (\<lambda>r w. case r of (rc, tsd) \<Rightarrow>
          if rc = 1 then Ret (take_byte_t tsd) w else Ret (rc, 0, tsd) w)
      else Ret (take_byte_t tsd) w)"

definition readline_t ::
  "nat \<Rightarrow> fd \<Rightarrow> nat \<Rightarrow> (nat \<Rightarrow> Rline_t option) \<Rightarrow> world
     \<Rightarrow> (int \<times> bytes \<times> (nat \<Rightarrow> Rline_t option)) run" where
  "readline_t self fd maxlen key w =
     (let tsd = (case key self of Some tsd \<Rightarrow> tsd | None \<Rightarrow> Rline_zero) in
      then_run (readline_loop my_read_t fd maxlen 1 [] tsd w) (\<lambda>r w. case r of (n, line, tsd) \<Rightarrow>
        Ret (n, line, key(self \<mapsto> tsd)) w))"

definition Readline_t ::
  "nat \<Rightarrow> fd \<Rightarrow> nat \<Rightarrow> (nat \<Rightarrow> Rline_t option) \<Rightarrow> world
     \<Rightarrow> (int \<times> bytes \<times> (nat \<Rightarrow> Rline_t option)) run" where
  "Readline_t self fd maxlen key w = then_run (readline_t self fd maxlen key w) (\<lambda>r w.
     if fst r < 0 then err_sys ''readline error'' w else Ret r w)"

subsection \<open>server/readline_r.c\<close>

record Rline_r = Rline_t +
  read_fd_r :: fd
  read_maxlen :: nat

definition readline_rinit :: "fd \<Rightarrow> nat \<Rightarrow> Rline_r \<Rightarrow> Rline_r" where
  "readline_rinit fd maxlen rptr =
     rptr\<lparr>read_fd_r := fd, read_maxlen := maxlen, rl_cnt := 0, rl_bufptr := 0\<rparr>"

function my_read_r_again :: "Rline_r \<Rightarrow> world \<Rightarrow> (int \<times> Rline_r) run" where
  "my_read_r_again rptr w =
     then_run (sys_read (read_fd_r rptr) MAXLINE w) (\<lambda>r w. case r of (n, bs) \<Rightarrow>
       let rptr = rptr\<lparr>rl_cnt := n, rl_buf := fill bs (rl_buf rptr)\<rparr> in
       if n < 0 then
         (if errno w = EINTR then my_read_r_again rptr w else Ret (- 1, rptr) w)
       else if n = 0 then Ret (0, rptr) w
       else Ret (1, rptr\<lparr>rl_bufptr := 0\<rparr>) w)"
  by pat_completeness auto
termination
  by (relation "measure (\<lambda>(st, w). length (script w))") (auto dest: sys_read_consumes)

declare my_read_r_again.simps [simp del]

definition take_byte_r :: "Rline_r \<Rightarrow> int \<times> byte \<times> Rline_r" where
  "take_byte_r rptr =
     (1, (rl_buf rptr ! rl_bufptr rptr) AND 255,
      rptr\<lparr>rl_cnt := rl_cnt rptr - 1, rl_bufptr := Suc (rl_bufptr rptr)\<rparr>)"

definition my_read_r :: "Rline_r \<Rightarrow> world \<Rightarrow> (int \<times> byte \<times> Rline_r) run" where
  "my_read_r rptr w =
     (if rl_cnt rptr \<le> 0 then
        then_run (my_read_r_again rptr w) (\<lambda>r w. case r of (rc, rptr) \<Rightarrow>
          if rc = 1 then Ret (take_byte_r rptr) w else Ret (rc, 0, rptr) w)
      else Ret (take_byte_r rptr) w)"

function readline_r_loop ::
  "nat \<Rightarrow> bytes \<Rightarrow> Rline_r \<Rightarrow> nat \<Rightarrow> world \<Rightarrow> (int \<times> bytes \<times> Rline_r) run" where
  "readline_r_loop n line rptr maxlen w =
     (if n < maxlen then
        then_run (my_read_r rptr w) (\<lambda>r w. case r of (rc, c, rptr) \<Rightarrow>
          if rc = 1 then
            (if c = 10 then Ret (int n, line @ [c], rptr) w
             else readline_r_loop (Suc n) (line @ [c]) rptr maxlen w)
          else if rc = 0 then
            (if n = 1 then Ret (0, line, rptr) w else Ret (int n, line, rptr) w)
          else Ret (- 1, line, rptr) w)
      else Ret (int n, line, rptr) w)"
  by pat_completeness auto
termination
  by (relation "measure (\<lambda>(n, line, rptr, maxlen, w). maxlen - n)") auto

declare readline_r_loop.simps [simp del]

definition readline_r :: "Rline_r \<Rightarrow> world \<Rightarrow> (int \<times> bytes \<times> Rline_r) run" where
  "readline_r rptr w = readline_r_loop 1 [] rptr (read_maxlen rptr) w"

definition Readline_r :: "Rline_r \<Rightarrow> world \<Rightarrow> (int \<times> bytes \<times> Rline_r) run" where
  "Readline_r rptr w = then_run (readline_r rptr w) (\<lambda>r w.
     if fst r = - 1 then err_sys ''readline_r error'' w else Ret r w)"

section \<open>Lemmas about readn and writen\<close>

text \<open>The kernel reported end of file; a call failed for another reason than an interrupt.\<close>

fun eof_event :: "fd \<Rightarrow> event \<Rightarrow> bool" where
  "eof_event fd (Sys (C_read fd' n) a) \<longleftrightarrow> fd' = fd \<and> a_err a = 0 \<and> a_data a = []"
| "eof_event fd _ \<longleftrightarrow> False"

fun failed_event :: "event \<Rightarrow> bool" where
  "failed_event (Sys c a) \<longleftrightarrow> a_err a \<noteq> 0 \<and> a_err a \<noteq> EINTR"
| "failed_event _ \<longleftrightarrow> False"

lemma readn_loop_0 [simp]: "readn_loop fd n 0 buf w = Ret (int n, buf) w"
  by (simp add: readn_loop.simps)

lemma readn_loop_Nil: "script w = [] \<Longrightarrow> 0 < nleft \<Longrightarrow> readn_loop fd n nleft buf w = Block w"
  by (simp add: readn_loop.simps sys_defs)

lemma readn_loop_Cons:
  assumes "script w = a # s" and "0 < nleft"
  shows "readn_loop fd n nleft buf w =
    (let w1 = called (C_read fd nleft) a s w; bs = take nleft (a_data a) in
     if a_err a \<noteq> 0 then
       (if a_err a = EINTR then readn_loop fd n nleft buf w1 else Ret (- 1, buf) w1)
     else if a_data a = [] then Ret (int n - int nleft, buf) w1
     else readn_loop fd n (nleft - length bs) (buf @ bs) w1)"
  using assms by (auto simp: readn_loop.simps [of fd n nleft buf w] sys_defs Let_def min_def)

text \<open>
  Whatever the kernel does, the bytes \<^verbatim>\<open>readn\<close> stored are exactly those delivered to it, in
  order, and the return value tells how many, unless a call failed for another reason than an
  interrupt.
\<close>

lemma readn_loop_spec:
  assumes "readn_loop fd n nleft buf w = Ret (r, buf') w'" and "length buf + nleft = n"
  shows "\<exists>es. trace w' = trace w @ es \<and> buf' = buf @ delivered fd es \<and> length buf' \<le> n \<and>
           (r = int n \<and> length buf' = n
            \<or> r = int (length buf') \<and> es \<noteq> [] \<and> eof_event fd (last es)
            \<or> r = - 1 \<and> es \<noteq> [] \<and> failed_event (last es))"
  using assms
proof (induction "script w" arbitrary: w nleft buf)
  case Nil
  then show ?case by (cases "nleft = 0") (auto simp: readn_loop_Nil)
next
  case (Cons a s)
  show ?case
  proof (cases "nleft = 0")
    case True
    with Cons.prems show ?thesis by auto
  next
    case False
    let ?w = "called (C_read fd nleft) a s w"
    note step = readn_loop_Cons [OF Cons.hyps(2) [symmetric], of nleft fd n buf]
    consider (intr) "a_err a = EINTR" | (err) "a_err a \<noteq> 0" "a_err a \<noteq> EINTR"
      | (eof) "a_err a = 0" "a_data a = []" | (data) "a_err a = 0" "a_data a \<noteq> []"
      by (auto simp: EINTR_def)
    then show ?thesis
    proof cases
      case intr
      with Cons.prems False step have "readn_loop fd n nleft buf ?w = Ret (r, buf') w'"
        by (simp add: Let_def EINTR_def)
      from Cons.hyps(1) [OF _ this] Cons.prems(2) intr show ?thesis
        by (fastforce simp: EINTR_def)
    next
      case data
      with Cons.prems False step
      have "readn_loop fd n (nleft - length (take nleft (a_data a)))
              (buf @ take nleft (a_data a)) ?w = Ret (r, buf') w'"
        by (simp add: Let_def)
      from Cons.hyps(1) [OF _ this] Cons.prems(2) data show ?thesis by fastforce
    qed (use Cons.prems False step in \<open>auto simp: Let_def\<close>)
  qed
qed

text \<open>The bytes of a script on which every call delivers data or is interrupted.\<close>

definition ans_bytes :: "answer \<Rightarrow> bytes" where
  "ans_bytes a = (if a_err a = 0 then a_data a else [])"

definition keeps_coming :: "answer list \<Rightarrow> bool" where
  "keeps_coming s \<longleftrightarrow> (\<forall>a \<in> set s. a_err a = 0 \<and> a_data a \<noteq> [] \<or> a_err a = EINTR)"

lemma readn_loop_complete:
  assumes "keeps_coming (script w)"
    and "nleft \<le> length (concat (map ans_bytes (script w)))" and "length buf + nleft = n"
  shows "\<exists>w'. readn_loop fd n nleft buf w =
           Ret (int n, buf @ take nleft (concat (map ans_bytes (script w)))) w'"
  using assms
proof (induction "script w" arbitrary: w nleft buf)
  case Nil
  from Nil.hyps Nil.prems(2) have "nleft = 0" by (simp flip: Nil.hyps)
  then show ?case by simp
next
  case (Cons a s)
  let ?w = "called (C_read fd nleft) a s w" and ?bs = "take nleft (a_data a)"
  show ?case
  proof (cases "nleft = 0")
    case True
    then show ?thesis by simp
  next
    case False
    note step = readn_loop_Cons [OF Cons.hyps(2) [symmetric], of nleft fd n buf]
    from Cons.prems(1) have ks: "keeps_coming s"
      and a: "a_err a = 0 \<and> a_data a \<noteq> [] \<or> a_err a = EINTR"
      by (auto simp: keeps_coming_def simp flip: Cons.hyps(2))
    show ?thesis
    proof (cases "a_err a = 0")
      case ok: True
      with a False step have "readn_loop fd n nleft buf w =
          readn_loop fd n (nleft - length ?bs) (buf @ ?bs) ?w"
        by (simp add: Let_def EINTR_def)
      moreover have "\<exists>w'. \<dots> =
          Ret (int n, (buf @ ?bs) @ take (nleft - length ?bs) (concat (map ans_bytes (script ?w)))) w'"
        using Cons.prems(2,3) ks ok
        by (intro Cons.hyps(1)) (auto simp: ans_bytes_def simp flip: Cons.hyps(2))
      moreover have "?bs @ take (nleft - length ?bs) xs = take nleft (a_data a @ xs)" for xs
        by (simp add: min_def)
      ultimately show ?thesis
        using ok by (simp add: ans_bytes_def del: length_take flip: Cons.hyps(2))
    next
      case False
      with a \<open>nleft \<noteq> 0\<close> step have "readn_loop fd n nleft buf w = readn_loop fd n nleft buf ?w"
        by (simp add: Let_def)
      moreover have "\<exists>w'. \<dots> = Ret (int n, buf @ take nleft (concat (map ans_bytes (script ?w)))) w'"
        using Cons.prems(2,3) ks False
        by (intro Cons.hyps(1)) (auto simp: ans_bytes_def simp flip: Cons.hyps(2))
      ultimately show ?thesis using False by (simp add: ans_bytes_def flip: Cons.hyps(2))
    qed
  qed
qed

lemma writen_loop_done [simp]: "writen_loop fd n [] w = Ret (int n) w"
  by (simp add: writen_loop.simps)

lemma writen_loop_Nil: "script w = [] \<Longrightarrow> rest \<noteq> [] \<Longrightarrow> writen_loop fd n rest w = Block w"
  by (simp add: writen_loop.simps sys_defs)

lemma writen_loop_Cons:
  assumes "script w = a # s" and "rest \<noteq> []"
  shows "writen_loop fd n rest w =
    (let w1 = called (C_write fd rest) a s w in
     if a_err a \<noteq> 0 then
       (if a_err a = EINTR then writen_loop fd n rest w1 else Ret (- 1) w1)
     else if a_val a = 0 then Ret (- 1) w1
     else writen_loop fd n (drop (a_val a) rest) w1)"
  using assms by (auto simp: writen_loop.simps [of fd n rest w] sys_defs Let_def min_def)

text \<open>
  The kernel accepted exactly a prefix of the caller's buffer; when the return value is not
  \<open>- 1\<close> it accepted all of it.
\<close>

lemma writen_loop_spec:
  assumes "writen_loop fd n rest w = Ret r w'"
  shows "\<exists>es k. trace w' = trace w @ es \<and> accepted fd es = take k rest \<and> k \<le> length rest \<and>
           (r = int n \<and> k = length rest \<or> r = - 1 \<and> k < length rest)"
  using assms
proof (induction "script w" arbitrary: w rest)
  case Nil
  then show ?case by (cases "rest = []") (auto simp: writen_loop_Nil)
next
  case (Cons a s)
  show ?case
  proof (cases "rest = []")
    case True
    with Cons.prems show ?thesis by auto
  next
    case False
    let ?w = "called (C_write fd rest) a s w"
    note step = writen_loop_Cons [OF Cons.hyps(2) [symmetric] False, of fd n]
    consider (intr) "a_err a = EINTR" | (err) "a_err a \<noteq> 0" "a_err a \<noteq> EINTR"
      | (none) "a_err a = 0" "a_val a = 0" | (took) "a_err a = 0" "0 < a_val a"
      by (auto simp: EINTR_def)
    then show ?thesis
    proof cases
      case intr
      with Cons.prems step have "writen_loop fd n rest ?w = Ret r w'"
        by (simp add: Let_def EINTR_def)
      from Cons.hyps(1) [OF _ this] obtain es k where
        "trace w' = trace ?w @ es" "accepted fd es = take k rest" "k \<le> length rest"
        "r = int n \<and> k = length rest \<or> r = - 1 \<and> k < length rest"
        by auto
      with intr show ?thesis
        by (intro exI [of _ "Sys (C_write fd rest) a # es"] exI [of _ k]) (simp add: EINTR_def)
    next
      case took
      with Cons.prems step have "writen_loop fd n (drop (a_val a) rest) ?w = Ret r w'"
        by (simp add: Let_def)
      from Cons.hyps(1) [OF _ this] obtain es k where k:
        "trace w' = trace ?w @ es" "accepted fd es = take k (drop (a_val a) rest)"
        "k \<le> length rest - a_val a"
        "r = int n \<and> k = length rest - a_val a \<or> r = - 1 \<and> k < length rest - a_val a"
        by auto
      with took False show ?thesis
        by (intro exI [of _ "Sys (C_write fd rest) a # es"]
              exI [of _ "min (length rest) (a_val a + k)"])
           (auto simp: take_add min_def)
    next
      case err
      with Cons.prems False step show ?thesis
        by (intro exI [of _ "[Sys (C_write fd rest) a]"] exI [of _ 0]) (auto simp: Let_def)
    next
      case none
      with Cons.prems False step show ?thesis
        by (intro exI [of _ "[Sys (C_write fd rest) a]"] exI [of _ 0]) (auto simp: Let_def)
    qed
  qed
qed

lemma writen_loop_no_exit:
  "writen_loop fd n rest w \<noteq> Exit e v \<and> writen_loop fd n rest w \<noteq> Abort v"
proof (induction "script w" arbitrary: w rest)
  case Nil
  then show ?case by (cases "rest = []") (auto simp: writen_loop_Nil)
next
  case (Cons a s)
  then show ?case
    by (cases "rest = []") (auto simp: writen_loop_Cons [OF Cons.hyps(2) [symmetric]] Let_def)
qed

text \<open>A kernel that accepts at least one byte per call, or is interrupted, takes everything.\<close>

definition keeps_taking :: "answer list \<Rightarrow> bool" where
  "keeps_taking s \<longleftrightarrow> (\<forall>a \<in> set s. a_err a = 0 \<and> 0 < a_val a \<or> a_err a = EINTR)"

lemma writen_loop_complete:
  assumes "keeps_taking (script w)"
    and "length rest \<le> length (filter (\<lambda>a. a_err a = 0) (script w))"
  shows "\<exists>w'. writen_loop fd n rest w = Ret (int n) w'"
  using assms
proof (induction "script w" arbitrary: w rest)
  case Nil
  from Nil.prems(2) have "rest = []" by (simp flip: Nil.hyps)
  then show ?case by simp
next
  case (Cons a s)
  show ?case
  proof (cases "rest = []")
    case True
    then show ?thesis by simp
  next
    case False
    from Cons.prems(1) have ks: "keeps_taking s" and a: "a_err a = 0 \<and> 0 < a_val a \<or> a_err a = EINTR"
      by (auto simp: keeps_taking_def simp flip: Cons.hyps(2))
    have next_ok: "\<exists>w'. writen_loop fd n rest' (called c a s w) = Ret (int n) w'"
      if "length rest' \<le> length (filter (\<lambda>a. a_err a = 0) s)" for rest' c
      using ks that by (intro Cons.hyps(1)) simp_all
    from a show ?thesis
    proof
      assume ok: "a_err a = 0 \<and> 0 < a_val a"
      with Cons.prems(2) have "length (drop (a_val a) rest) \<le> length (filter (\<lambda>a. a_err a = 0) s)"
        by (simp flip: Cons.hyps(2)) linarith
      from next_ok [OF this] ok show ?thesis
        by (simp add: writen_loop_Cons [OF Cons.hyps(2) [symmetric] False] Let_def)
    next
      assume "a_err a = EINTR"
      with Cons.prems(2) next_ok [of rest] show ?thesis
        by (simp add: writen_loop_Cons [OF Cons.hyps(2) [symmetric] False] Let_def EINTR_def
              flip: Cons.hyps(2))
    qed
  qed
qed

section \<open>What a line reader needs: the interface of a byte reader\<close>

text \<open>
  A byte reader keeps bytes it has not handed out (\<open>pend\<close>). Handing out a byte neither loses,
  adds nor reorders any: what was pending and what the kernel delivered during the call is the
  byte and what is pending afterwards. It reports end of file only when the kernel did.
\<close>

locale byte_source =
  fixes rd :: "fd \<Rightarrow> 's \<Rightarrow> world \<Rightarrow> (int \<times> byte \<times> 's) run"
    and pend :: "'s \<Rightarrow> bytes"
    and ok :: "fd \<Rightarrow> 's \<Rightarrow> bool"
  assumes rd_ok: "ok fd st \<Longrightarrow> rd fd st w = Ret (rc, c, st') w' \<Longrightarrow> ok fd st'"
    and rd_rc: "ok fd st \<Longrightarrow> rd fd st w = Ret (rc, c, st') w' \<Longrightarrow> rc \<in> {1, 0, - 1}"
    and rd_conserves: "ok fd st \<Longrightarrow> rd fd st w = Ret (rc, c, st') w' \<Longrightarrow>
      \<exists>es. trace w' = trace w @ es \<and> (rc = 0 \<longrightarrow> es \<noteq> [] \<and> eof_event fd (last es)) \<and>
        pend st @ delivered fd es = (if rc = 1 then c # pend st' else []) \<and>
        (rc \<noteq> 1 \<longrightarrow> pend st' = [])"
    and rd_pending: "ok fd st \<Longrightarrow> pend st = c # cs \<Longrightarrow>
      \<exists>st'. rd fd st w = Ret (1, c, st') w \<and> pend st' = cs \<and> ok fd st'"
begin

text \<open>The outcome of a line loop entered with \<open>n\<close> and the bytes \<open>line\<close> already stored.\<close>

definition loop_post where
  "loop_post fd maxlen st w r line line' st' w' \<longleftrightarrow> ok fd st' \<and>
     (\<exists>es bs. trace w' = trace w @ es \<and> line' = line @ bs \<and>
        pend st @ delivered fd es = bs @ pend st' \<and>
        (\<forall>c \<in> set (butlast bs). c \<noteq> 10) \<and> length line' < maxlen \<and>
        (r = - 1 \<and> 10 \<notin> set bs
         \<or> r = int (length line') \<and> bs \<noteq> [] \<and> last bs = 10
         \<or> r = int (length line') \<and> 10 \<notin> set bs \<and> pend st' = [] \<and> es \<noteq> [] \<and>
             eof_event fd (last es)
         \<or> r = int maxlen \<and> Suc (length line') = maxlen \<and> 10 \<notin> set bs))"

lemma loop_post_step:
  assumes "loop_post fd maxlen st1 w1 r (line @ [c]) line' st' w'" and "c \<noteq> 10"
    and "trace w1 = trace w @ es" and "pend st @ delivered fd es = c # pend st1"
  shows "loop_post fd maxlen st w r line line' st' w'"
proof -
  from assms(1) obtain es' bs where okst: "ok fd st'" and
    tr: "trace w' = trace w1 @ es'" and ln: "line' = (line @ [c]) @ bs" and
    pe: "pend st1 @ delivered fd es' = bs @ pend st'" and
    nl: "\<forall>c \<in> set (butlast bs). c \<noteq> 10" "length line' < maxlen" and
    r: "r = - 1 \<and> 10 \<notin> set bs \<or> r = int (length line') \<and> bs \<noteq> [] \<and> last bs = 10
       \<or> r = int (length line') \<and> 10 \<notin> set bs \<and> pend st' = [] \<and> es' \<noteq> [] \<and>
           eof_event fd (last es')
       \<or> r = int maxlen \<and> Suc (length line') = maxlen \<and> 10 \<notin> set bs"
    unfolding loop_post_def by blast
  have "pend st @ delivered fd (es @ es') = (c # bs) @ pend st'"
    using assms(4) pe by (metis append_Cons append_assoc delivered_append)
  moreover have "\<forall>x \<in> set (butlast (c # bs)). x \<noteq> 10"
    using nl(1) assms(2) by auto
  ultimately show ?thesis
    unfolding loop_post_def using okst tr ln nl(2) r assms(2,3)
    by (intro conjI exI [of _ "es @ es'"] exI [of _ "c # bs"]) auto
qed

lemma readline_loop_post:
  assumes "readline_loop rd fd maxlen n line st w = Ret (r, line', st') w'"
    and "ok fd st" and "n = Suc (length line)" and "n \<le> maxlen"
  shows "loop_post fd maxlen st w r line line' st' w'"
  using assms
proof (induction "maxlen - n" arbitrary: n line st w rule: less_induct)
  case less
  note step = readline_loop.simps [of rd fd maxlen n line st w]
  show ?case
  proof (cases "n < maxlen")
    case False
    with less.prems(1) have "r = int n" "line' = line" "st' = st" "w' = w"
      by (simp_all add: step)
    with False less.prems(2-4) show ?thesis
      by (auto simp: loop_post_def intro!: exI [of _ "[]"])
  next
    case True
    with less.prems(1) obtain rc c st1 w1 where rd: "rd fd st w = Ret (rc, c, st1) w1"
      by (auto simp: step then_run_Ret_iff)
    note okst = rd_ok [OF less.prems(2) rd] and rc = rd_rc [OF less.prems(2) rd]
    obtain es where es: "trace w1 = trace w @ es" "rc = 0 \<longrightarrow> es \<noteq> [] \<and> eof_event fd (last es)"
      "pend st @ delivered fd es = (if rc = 1 then c # pend st1 else [])"
      "rc \<noteq> 1 \<longrightarrow> pend st1 = []"
      using rd_conserves [OF less.prems(2) rd] by blast
    show ?thesis
    proof (cases "rc = 1 \<and> c \<noteq> 10")
      case go: True
      with True rd less.prems(1)
      have run: "readline_loop rd fd maxlen (Suc n) (line @ [c]) st1 w1 = Ret (r, line', st') w'"
        by (simp add: step)
      have "loop_post fd maxlen st1 w1 r (line @ [c]) line' st' w'"
        using go True rd run okst less.prems(3) by (intro less.hyps) auto
      from loop_post_step [OF this _ es(1)] go es(3) show ?thesis by simp
    next
      case False
      with True rd less.prems(1) have res: "st' = st1" "w' = w1"
        "line' = (if rc = 1 then line @ [c] else line)"
        "r = (if rc = 1 then int n else if rc = 0 then int n - 1 else - 1)"
        by (auto simp: step split: if_splits)
      from rc False consider "rc = 1" "c = 10" | "rc = 0" | "rc = - 1" by auto
      then show ?thesis
      proof cases
        case 1
        with es okst True less.prems(3) res show ?thesis
          unfolding loop_post_def
          by (intro conjI exI [of _ es] exI [of _ "[10]"]) simp_all
      qed (use es okst True less.prems(3) res in
             \<open>auto simp: loop_post_def intro!: exI [of _ es] exI [of _ "[]"]\<close>)
    qed
  qed
qed

text \<open>A line that is already buffered is returned without any system call.\<close>

lemma readline_loop_buffered:
  assumes "ok fd st" and "pend st = bs @ 10 # rest" and "10 \<notin> set bs"
    and "n = Suc (length line)" and "n + length bs < maxlen"
  shows "\<exists>st'. readline_loop rd fd maxlen n line st w =
           Ret (int (n + length bs), line @ bs @ [10], st') w \<and> pend st' = rest \<and> ok fd st'"
  using assms
proof (induction bs arbitrary: st n line)
  case Nil
  with rd_pending [of fd st 10 rest w] show ?case
    by (auto simp: readline_loop.simps [of rd fd maxlen _ line st])
next
  case (Cons b bs)
  from Cons.prems rd_pending [of fd st b "bs @ 10 # rest" w] obtain st1 where
    st1: "rd fd st w = Ret (1, b, st1) w" "pend st1 = bs @ 10 # rest" "ok fd st1"
    by auto
  from Cons.IH [OF st1(3,2), of "Suc n" "line @ [b]"] Cons.prems show ?case
    by (auto simp: readline_loop.simps [of rd fd maxlen _ line st] st1(1))
qed

end

section \<open>The byte readers implement the interface\<close>

text \<open>
  What the three readers have in common: a count, a position and a buffer, the code that
  refills the buffer and the code that takes a byte from it.
\<close>

locale line_buffer =
  fixes rd :: "fd \<Rightarrow> 's \<Rightarrow> world \<Rightarrow> (int \<times> byte \<times> 's) run"
    and again :: "fd \<Rightarrow> 's \<Rightarrow> world \<Rightarrow> (int \<times> 's) run"
    and cnt :: "'s \<Rightarrow> int" and ptr :: "'s \<Rightarrow> nat" and buf :: "'s \<Rightarrow> bytes"
    and store :: "int \<Rightarrow> bytes \<Rightarrow> 's \<Rightarrow> 's" and rewind :: "'s \<Rightarrow> 's" and advance :: "'s \<Rightarrow> 's"
    and reads :: "fd \<Rightarrow> 's \<Rightarrow> bool"
  assumes store_fields: "cnt (store n b st) = n" "buf (store n b st) = fill b (buf st)"
      "reads fd (store n b st) = reads fd st"
    and rewind_fields: "ptr (rewind st) = 0" "cnt (rewind st) = cnt st" "buf (rewind st) = buf st"
      "reads fd (rewind st) = reads fd st"
    and advance_fields: "cnt (advance st) = cnt st - 1" "ptr (advance st) = Suc (ptr st)"
      "buf (advance st) = buf st" "reads fd (advance st) = reads fd st"
    and again_eq: "reads fd st \<Longrightarrow> again fd st w = (case script w of [] \<Rightarrow> Block w | a # s \<Rightarrow>
      let w1 = called (C_read fd MAXLINE) a s w; bs = take MAXLINE (a_data a) in
      if a_err a \<noteq> 0 then
        (if a_err a = EINTR then again fd (store (- 1) [] st) w1
         else Ret (- 1, store (- 1) [] st) w1)
      else if a_data a = [] then Ret (0, store 0 [] st) w1
      else Ret (1, rewind (store (int (length bs)) bs st)) w1)"
    and rd_eq: "rd fd st w = (if cnt st \<le> 0 then
      then_run (again fd st w) (\<lambda>r w. case r of (rc, st) \<Rightarrow>
        if rc = 1 then Ret (1, buf st ! ptr st, advance st) w else Ret (rc, 0, st) w)
      else Ret (1, buf st ! ptr st, advance st) w)"
begin

definition pending :: "'s \<Rightarrow> bytes" where
  "pending st = take (nat (cnt st)) (drop (ptr st) (buf st))"

definition good :: "fd \<Rightarrow> 's \<Rightarrow> bool" where
  "good fd st \<longleftrightarrow> reads fd st \<and> length (buf st) = MAXLINE \<and>
     (0 < cnt st \<longrightarrow> ptr st + nat (cnt st) \<le> MAXLINE)"

lemma length_fill: "length bs \<le> length xs \<Longrightarrow> length (fill bs xs) = length xs"
  by (simp add: fill_def)

lemma again_post:
  assumes "again fd st w = Ret (rc, st') w'" and "reads fd st" and "length (buf st) = MAXLINE"
  shows "\<exists>es. trace w' = trace w @ es \<and> good fd st' \<and>
     (rc = 1 \<and> 0 < cnt st' \<and> delivered fd es = pending st'
      \<or> rc = 0 \<and> cnt st' = 0 \<and> delivered fd es = [] \<and> es \<noteq> [] \<and> eof_event fd (last es)
      \<or> rc = - 1 \<and> cnt st' = - 1 \<and> delivered fd es = [])"
  using assms
proof (induction "script w" arbitrary: w st)
  case Nil
  then show ?case by (simp add: again_eq flip: Nil.hyps)
next
  case (Cons a s)
  let ?w = "called (C_read fd MAXLINE) a s w"
  note step = again_eq [OF Cons.prems(2), of w, folded Cons.hyps(2), simplified]
  consider (intr) "a_err a = EINTR" | (other) "a_err a \<noteq> EINTR"
    by auto
  then show ?case
  proof cases
    case intr
    with Cons.prems(1) step have "again fd (store (- 1) [] st) ?w = Ret (rc, st') w'"
      by (simp add: EINTR_def Let_def)
    from Cons.hyps(1) [OF _ this] Cons.prems(2,3) intr show ?thesis
      by (fastforce simp: store_fields EINTR_def fill_def)
  next
    case other
    with Cons.prems step show ?thesis
      by (auto simp: Let_def store_fields rewind_fields good_def pending_def fill_def min_def
          split: if_splits intro!: exI [of _ "[Sys (C_read fd MAXLINE) a]"])
  qed
qed

lemma take_pending:
  assumes "good fd st" and "0 < cnt st"
  shows "pending st = buf st ! ptr st # pending (advance st)" and "good fd (advance st)"
proof -
  from assms have "ptr st < length (buf st)" by (auto simp: good_def)
  then have "drop (ptr st) (buf st) = buf st ! ptr st # drop (Suc (ptr st)) (buf st)"
    by (simp add: Cons_nth_drop_Suc)
  moreover have "nat (cnt st) = Suc (nat (cnt st - 1))"
    using assms(2) by simp
  ultimately show "pending st = buf st ! ptr st # pending (advance st)"
    by (simp add: pending_def advance_fields)
  show "good fd (advance st)"
    using assms by (auto simp: good_def advance_fields)
qed

sublocale byte_source rd pending good
proof
  fix fd st w rc c st' w'
  assume g: "good fd st" and run: "rd fd st w = Ret (rc, c, st') w'"
  have "good fd st' \<and> rc \<in> {1, 0, - 1} \<and> (\<exists>es. trace w' = trace w @ es \<and>
      (rc = 0 \<longrightarrow> es \<noteq> [] \<and> eof_event fd (last es)) \<and>
      pending st @ delivered fd es = (if rc = 1 then c # pending st' else []) \<and>
      (rc \<noteq> 1 \<longrightarrow> pending st' = []))"
  proof (cases "cnt st \<le> 0")
    case False
    with run have "rc = 1" "c = buf st ! ptr st" "st' = advance st" "w' = w"
      by (auto simp: rd_eq)
    with take_pending [OF g] False show ?thesis by simp
  next
    case True
    with run obtain rc1 st1 where ag: "again fd st w = Ret (rc1, st1) w'"
      and res: "if rc1 = 1 then rc = 1 \<and> c = buf st1 ! ptr st1 \<and> st' = advance st1
                else rc = rc1 \<and> st' = st1"
      by (auto simp: rd_eq then_run_Ret_iff split: if_splits)
    from g have r: "reads fd st" "length (buf st) = MAXLINE" by (auto simp: good_def)
    from True have "pending st = []" by (simp add: pending_def)
    with again_post [OF ag r] res take_pending [of fd st1] show ?thesis
      by (auto simp: pending_def [of st1] split: if_splits)
  qed
  then show "good fd st'" "rc \<in> {1, 0, - 1}"
    "\<exists>es. trace w' = trace w @ es \<and> (rc = 0 \<longrightarrow> es \<noteq> [] \<and> eof_event fd (last es)) \<and>
      pending st @ delivered fd es = (if rc = 1 then c # pending st' else []) \<and>
      (rc \<noteq> 1 \<longrightarrow> pending st' = [])"
    by blast+
next
  fix fd st c cs w
  assume g: "good fd st" and p: "pending st = c # cs"
  then have "0 < cnt st" by (cases "0 < cnt st") (auto simp: pending_def)
  with take_pending [OF g this] p
  show "\<exists>st'. rd fd st w = Ret (1, c, st') w \<and> pending st' = cs \<and> good fd st'"
    by (simp add: rd_eq)
qed

end

lemma my_read_again_eq:
  "my_read_again fd st w = (case script w of [] \<Rightarrow> Block w | a # s \<Rightarrow>
     let w1 = called (C_read fd MAXLINE) a s w; bs = take MAXLINE (a_data a) in
     if a_err a \<noteq> 0 then
       (if a_err a = EINTR then my_read_again fd (st\<lparr>read_cnt := - 1, read_buf := fill [] (read_buf st)\<rparr>) w1
        else Ret (- 1, st\<lparr>read_cnt := - 1, read_buf := fill [] (read_buf st)\<rparr>) w1)
     else if a_data a = [] then Ret (0, st\<lparr>read_cnt := 0, read_buf := fill [] (read_buf st)\<rparr>) w1
     else Ret (1, st\<lparr>read_cnt := int (length bs), read_buf := fill bs (read_buf st), read_ptr := 0\<rparr>) w1)"
  by (subst my_read_again.simps) (auto simp: sys_defs Let_def min_def split: list.splits)

interpretation rl: line_buffer my_read my_read_again read_cnt read_ptr read_buf
  "\<lambda>n b st. st\<lparr>read_cnt := n, read_buf := fill b (read_buf st)\<rparr>"
  "\<lambda>st. st\<lparr>read_ptr := 0\<rparr>"
  "\<lambda>st. st\<lparr>read_cnt := read_cnt st - 1, read_ptr := Suc (read_ptr st)\<rparr>"
  "\<lambda>fd st. True"
  by unfold_locales (simp_all add: my_read_def take_byte_def cong: if_cong, rule my_read_again_eq)

lemma my_read_t_again_eq:
  "my_read_t_again fd st w = (case script w of [] \<Rightarrow> Block w | a # s \<Rightarrow>
     let w1 = called (C_read fd MAXLINE) a s w; bs = take MAXLINE (a_data a) in
     if a_err a \<noteq> 0 then
       (if a_err a = EINTR then my_read_t_again fd (st\<lparr>rl_cnt := - 1, rl_buf := fill [] (rl_buf st)\<rparr>) w1
        else Ret (- 1, st\<lparr>rl_cnt := - 1, rl_buf := fill [] (rl_buf st)\<rparr>) w1)
     else if a_data a = [] then Ret (0, st\<lparr>rl_cnt := 0, rl_buf := fill [] (rl_buf st)\<rparr>) w1
     else Ret (1, st\<lparr>rl_cnt := int (length bs), rl_buf := fill bs (rl_buf st), rl_bufptr := 0\<rparr>) w1)"
  by (subst my_read_t_again.simps) (auto simp: sys_defs Let_def min_def split: list.splits)

interpretation rlt: line_buffer my_read_t my_read_t_again rl_cnt rl_bufptr rl_buf
  "\<lambda>n b st. st\<lparr>rl_cnt := n, rl_buf := fill b (rl_buf st)\<rparr>"
  "\<lambda>st. st\<lparr>rl_bufptr := 0\<rparr>"
  "\<lambda>st. st\<lparr>rl_cnt := rl_cnt st - 1, rl_bufptr := Suc (rl_bufptr st)\<rparr>"
  "\<lambda>fd st. True"
  by unfold_locales (simp_all add: my_read_t_def take_byte_t_def cong: if_cong, rule my_read_t_again_eq)

lemma my_read_r_again_eq:
  "my_read_r_again st w = (case script w of [] \<Rightarrow> Block w | a # s \<Rightarrow>
     let w1 = called (C_read (read_fd_r st) MAXLINE) a s w; bs = take MAXLINE (a_data a) in
     if a_err a \<noteq> 0 then
       (if a_err a = EINTR then my_read_r_again (st\<lparr>rl_cnt := - 1, rl_buf := fill [] (rl_buf st)\<rparr>) w1
        else Ret (- 1, st\<lparr>rl_cnt := - 1, rl_buf := fill [] (rl_buf st)\<rparr>) w1)
     else if a_data a = [] then Ret (0, st\<lparr>rl_cnt := 0, rl_buf := fill [] (rl_buf st)\<rparr>) w1
     else Ret (1, st\<lparr>rl_cnt := int (length bs), rl_buf := fill bs (rl_buf st), rl_bufptr := 0\<rparr>) w1)"
  by (subst my_read_r_again.simps) (auto simp: sys_defs Let_def min_def split: list.splits)

lemma byte_and_255 [simp]: "(b :: byte) AND 255 = b"
proof -
  have "(255 :: byte) = - 1" by simp
  then show ?thesis by (simp only: and.right_neutral)
qed

interpretation rlr: line_buffer "\<lambda>fd. my_read_r" "\<lambda>fd. my_read_r_again" rl_cnt rl_bufptr rl_buf
  "\<lambda>n b st. st\<lparr>rl_cnt := n, rl_buf := fill b (rl_buf st)\<rparr>"
  "\<lambda>st. st\<lparr>rl_bufptr := 0\<rparr>"
  "\<lambda>st. st\<lparr>rl_cnt := rl_cnt st - 1, rl_bufptr := Suc (rl_bufptr st)\<rparr>"
  "\<lambda>fd st. read_fd_r st = fd"
proof (unfold_locales, goal_cases)
  case (12 fd st w)
  then show ?case by (subst my_read_r_again_eq) (simp only: 12)
qed (simp_all add: my_read_r_def take_byte_r_def cong: if_cong)

section \<open>Properties\<close>

text \<open>The bytes each line reader holds, and the state in which its buffer is usable.\<close>

definition rl_pending :: "rl_state \<Rightarrow> bytes" where
  "rl_pending st = take (nat (read_cnt st)) (drop (read_ptr st) (read_buf st))"

definition rl_ok :: "rl_state \<Rightarrow> bool" where
  "rl_ok st \<longleftrightarrow> length (read_buf st) = MAXLINE \<and>
     (0 < read_cnt st \<longrightarrow> read_ptr st + nat (read_cnt st) \<le> MAXLINE)"

definition Rline_pending :: "'a Rline_t_scheme \<Rightarrow> bytes" where
  "Rline_pending tsd = take (nat (rl_cnt tsd)) (drop (rl_bufptr tsd) (rl_buf tsd))"

definition Rline_ok :: "'a Rline_t_scheme \<Rightarrow> bool" where
  "Rline_ok tsd \<longleftrightarrow> length (rl_buf tsd) = MAXLINE \<and>
     (0 < rl_cnt tsd \<longrightarrow> rl_bufptr tsd + nat (rl_cnt tsd) \<le> MAXLINE)"

lemma rl_pending_eq: "rl.pending = rl_pending"
  by (rule ext) (simp add: rl.pending_def rl_pending_def)

lemma rl_good_eq: "rl.good fd st = rl_ok st"
  by (simp add: rl.good_def rl_ok_def)

lemma rlt_pending_eq: "rlt.pending = Rline_pending"
  by (rule ext) (simp add: rlt.pending_def Rline_pending_def)

lemma rlt_good_eq: "rlt.good fd st = Rline_ok st"
  by (simp add: rlt.good_def Rline_ok_def)

lemma rlr_pending_eq: "rlr.pending = Rline_pending"
  by (rule ext) (simp add: rlr.pending_def Rline_pending_def)

lemma rlr_good_eq: "rlr.good fd st \<longleftrightarrow> read_fd_r st = fd \<and> Rline_ok st"
  by (simp add: rlr.good_def Rline_ok_def)

text \<open>
  (C23) \<^verbatim>\<open>readn\<close>: whatever the kernel answers, the buffer holds exactly the bytes delivered to the
  process during the call, in order. The result is \<open>n\<close> with a full buffer; or the number of bytes
  stored, when end of file was reported; or \<open>- 1\<close>, when a call failed for another reason than an
  interrupt.
\<close>

theorem readn_spec:
  assumes "readn fd n w = Ret (r, buf) w'"
  shows "\<exists>es. trace w' = trace w @ es \<and> buf = delivered fd es \<and> length buf \<le> n \<and>
           (r = int n \<and> length buf = n
            \<or> r = int (length buf) \<and> es \<noteq> [] \<and> eof_event fd (last es)
            \<or> r = - 1 \<and> es \<noteq> [] \<and> failed_event (last es))"
  using readn_loop_spec [of fd n n "[]" w r buf w'] assms by (simp add: readn_def)

theorem readn_spec_witness:
  "\<exists>w'. readn 3 4 (boot [fails EINTR, got [104, 105], got [10], got []]) = Ret (3, [104, 105, 10]) w' \<and>
     (\<exists>es. trace w' = es \<and> [104, 105, 10] = delivered 3 es)"
proof -
  obtain w' where run:
    "readn 3 4 (boot [fails EINTR, got [104, 105], got [10], got []]) = Ret (3, [104, 105, 10]) w'"
    by (simp add: readn_def readn_loop_Cons Let_def EINTR_def)
  from readn_spec [OF run] run show ?thesis by auto
qed

text \<open>
  \<^verbatim>\<open>readn\<close> gets what it asked for: when every call delivers some data or is interrupted, and
  \<open>n\<close> bytes are to come, it returns \<open>n\<close> with exactly the first \<open>n\<close> of them, however they are
  split over the calls.
\<close>

theorem readn_complete:
  assumes "keeps_coming (script w)" and "n \<le> length (concat (map ans_bytes (script w)))"
  shows "\<exists>w'. readn fd n w = Ret (int n, take n (concat (map ans_bytes (script w)))) w'"
  using readn_loop_complete [OF assms, of "[]" n fd] by (simp add: readn_def)

theorem readn_complete_witness:
  "\<exists>w'. readn 3 2 (boot [got [7], fails EINTR, got [8, 9]]) = Ret (2, [7, 8]) w'"
  using readn_complete [of "boot [got [7], fails EINTR, got [8, 9]]" 2 3]
  by (simp add: keeps_coming_def ans_bytes_def EINTR_def)

text \<open>
  (C24) \<^verbatim>\<open>writen\<close>: the kernel accepted a prefix of the buffer, in order and without gaps or
  repetitions; the result is the length of the buffer exactly when it accepted all of it, and
  \<open>- 1\<close> otherwise.
\<close>

theorem writen_spec:
  assumes "writen fd buf w = Ret r w'"
  shows "\<exists>es k. trace w' = trace w @ es \<and> accepted fd es = take k buf \<and> k \<le> length buf \<and>
           (r = int (length buf) \<and> k = length buf \<or> r = - 1 \<and> k < length buf)"
  using writen_loop_spec [of fd "length buf" buf w r w'] assms by (simp add: writen_def)

theorem writen_spec_witness:
  "\<exists>w'. writen 3 [1, 2, 3] (boot [gave 1, fails EINTR, gave 2]) = Ret 3 w' \<and>
     (\<exists>es. trace w' = es \<and> accepted 3 es = [1, 2, 3])"
proof -
  obtain w' where run: "writen 3 [1, 2, 3] (boot [gave 1, fails EINTR, gave 2]) = Ret 3 w'"
    by (simp add: writen_def writen_loop_Cons Let_def EINTR_def)
  from writen_spec [OF run] run show ?thesis by auto
qed

text \<open>
  \<^verbatim>\<open>Writen\<close> on a kernel that accepts at least one byte per call, or is interrupted, returns,
  and then the descriptor has taken exactly the buffer.
\<close>

theorem Writen_complete:
  assumes "keeps_taking (script w)"
    and "length buf \<le> length (filter (\<lambda>a. a_err a = 0) (script w))"
  shows "\<exists>w' es. Writen fd buf w = Ret () w' \<and> trace w' = trace w @ es \<and> accepted fd es = buf"
proof -
  obtain w' where run: "writen fd buf w = Ret (int (length buf)) w'"
    using writen_loop_complete [OF assms] by (auto simp: writen_def)
  with writen_loop_spec [of fd "length buf" buf w _ w'] show ?thesis
    by (auto simp: Writen_def writen_def)
qed

theorem Writen_complete_witness:
  "\<exists>w' es. Writen 3 [1, 2] (boot [fails EINTR, gave 1, gave 5]) = Ret () w' \<and> trace w' = es \<and>
     accepted 3 es = [1, 2]"
  using Writen_complete [of "boot [fails EINTR, gave 1, gave 5]" "[1, 2]" 3]
  by (simp add: keeps_taking_def EINTR_def)

text \<open>
  (C1) \<^verbatim>\<open>readline\<close> conserves the stream: what its buffer held before the call followed by what the
  kernel delivered during it is the line it stored followed by what its buffer holds afterwards.
  Only the last byte of the line can be a newline and the line leaves room for the terminating
  null byte. The result is the length of a line that ends in a newline; or the bytes left before end
  of file; or \<open>- 1\<close>; or \<open>maxlen\<close>, one more than was stored, when the buffer filled up first.
\<close>

theorem readline_spec:
  assumes "readline fd maxlen st w = Ret (r, line, st') w'" and "rl_ok st" and "1 \<le> maxlen"
  shows "rl_ok st' \<and> (\<exists>es. trace w' = trace w @ es \<and>
     rl_pending st @ delivered fd es = line @ rl_pending st' \<and>
     10 \<notin> set (butlast line) \<and> length line < maxlen \<and>
     (r = - 1 \<and> 10 \<notin> set line
      \<or> r = int (length line) \<and> line \<noteq> [] \<and> last line = 10
      \<or> r = int (length line) \<and> 10 \<notin> set line \<and> rl_pending st' = [] \<and> es \<noteq> [] \<and>
          eof_event fd (last es)
      \<or> r = int maxlen \<and> Suc (length line) = maxlen \<and> 10 \<notin> set line))"
  using rl.readline_loop_post [of fd maxlen 1 "[]" st w r line st' w'] assms
  unfolding readline_def rl.loop_post_def unfolding rl_good_eq rl_pending_eq by auto

theorem readline_spec_witness:
  "\<exists>st' w' es. readline 3 80 rl_init (boot [got [104, 10, 105]]) = Ret (2, [104, 10], st') w' \<and>
     trace w' = es \<and> delivered 3 es = [104, 10] @ rl_pending st'"
proof -
  have ok: "rl_ok rl_init" and empty: "rl_pending rl_init = []"
    by (simp_all add: rl_ok_def rl_pending_def rl_init_def)
  have "\<exists>st' w'. readline 3 80 rl_init (boot [got [104, 10, 105]]) = Ret (2, [104, 10], st') w'"
    by (simp add: readline_def readline_loop.simps my_read_def my_read_again_eq rl_init_def
        take_byte_def fill_def MAXLINE_def Let_def)
  then obtain st' w' where
    run: "readline 3 80 rl_init (boot [got [104, 10, 105]]) = Ret (2, [104, 10], st') w'" by blast
  from readline_spec [OF run ok] run empty show ?thesis by auto
qed

text \<open>
  A line that is already in the buffer of \<^verbatim>\<open>readline\<close> is returned without any system call,
  and the rest of the buffer is kept for the next call.
\<close>

theorem readline_buffered:
  assumes "rl_ok st" and "rl_pending st = bs @ 10 # rest" and "10 \<notin> set bs"
    and "Suc (length bs) < maxlen"
  shows "\<exists>st'. readline fd maxlen st w = Ret (int (Suc (length bs)), bs @ [10], st') w \<and>
     rl_pending st' = rest \<and> rl_ok st'"
  using rl.readline_loop_buffered [of fd st bs rest 1 "[]" maxlen w] assms
  unfolding readline_def rl_good_eq rl_pending_eq by auto

theorem readline_buffered_witness:
  "\<exists>st'. readline 3 80 \<lparr>read_cnt = 3, read_ptr = 1, read_buf = fill [1, 2, 10, 3] (replicate MAXLINE 0)\<rparr>
     (boot []) = Ret (2, [2, 10], st') (boot []) \<and> rl_pending st' = [3]"
  using readline_buffered [of "\<lparr>read_cnt = 3, read_ptr = 1,
      read_buf = fill [1, 2, 10, 3] (replicate MAXLINE 0)\<rparr>" "[2]" "[3]" 80 3 "boot []"]
  by (auto simp: rl_ok_def rl_pending_def fill_def MAXLINE_def)

text \<open>
  The thread-safe \<^verbatim>\<open>readline\<close> conserves the stream of the calling thread's structure, a
  fresh one when it has none, and leaves the structures of all other threads alone.
\<close>

theorem readline_t_spec:
  assumes "readline_t self fd maxlen key w = Ret (r, line, key') w'"
    and "\<forall>tsd. key self = Some tsd \<longrightarrow> Rline_ok tsd" and "1 \<le> maxlen"
  shows "\<exists>tsd tsd' es. (key self = Some tsd \<or> key self = None \<and> tsd = Rline_zero) \<and>
     key' = key(self \<mapsto> tsd') \<and> Rline_ok tsd' \<and> trace w' = trace w @ es \<and>
     Rline_pending tsd @ delivered fd es = line @ Rline_pending tsd' \<and>
     10 \<notin> set (butlast line) \<and> length line < maxlen \<and> r \<in> {- 1, int (length line), int maxlen}"
proof -
  let ?tsd = "case key self of Some tsd \<Rightarrow> tsd | None \<Rightarrow> Rline_zero"
  have "Rline_ok Rline_zero" by (simp add: Rline_ok_def Rline_zero_def)
  with assms(2) have ok: "Rline_ok ?tsd" by (simp split: option.split)
  from assms(1) obtain tsd' where
    run: "readline_loop my_read_t fd maxlen 1 [] ?tsd w = Ret (r, line, tsd') w'"
    and key: "key' = key(self \<mapsto> tsd')"
    by (auto simp: readline_t_def then_run_Ret_iff)
  from rlt.readline_loop_post [OF run] ok assms(3)
  have "Rline_ok tsd' \<and> (\<exists>es. trace w' = trace w @ es \<and>
     Rline_pending ?tsd @ delivered fd es = line @ Rline_pending tsd' \<and>
     10 \<notin> set (butlast line) \<and> length line < maxlen \<and> r \<in> {- 1, int (length line), int maxlen})"
    unfolding rlt.loop_post_def unfolding rlt_good_eq rlt_pending_eq by auto
  with key show ?thesis
    by (intro exI [of _ ?tsd] exI [of _ tsd']) (auto split: option.split)
qed

theorem readline_t_spec_witness:
  "\<exists>key' w'. readline_t 7 3 80 Map.empty (boot [got [104, 10, 105]]) = Ret (2, [104, 10], key') w' \<and>
     (\<exists>tsd'. key' = [7 \<mapsto> tsd'])"
proof -
  have "\<exists>key' w'. readline_t 7 3 80 Map.empty (boot [got [104, 10, 105]]) = Ret (2, [104, 10], key') w'"
    by (simp add: readline_t_def readline_loop.simps my_read_t_def my_read_t_again_eq Rline_zero_def
        take_byte_t_def fill_def MAXLINE_def Let_def)
  then obtain key' w' where
    run: "readline_t 7 3 80 Map.empty (boot [got [104, 10, 105]]) = Ret (2, [104, 10], key') w'"
    by blast
  from readline_t_spec [OF run] run show ?thesis by auto
qed

text \<open>
  \<^verbatim>\<open>readline_r\<close> runs the same loop over its own byte reader and differs only in what it returns
  when end of file cuts a line short.
\<close>

lemma readline_r_loop_as_readline:
  assumes "readline_r_loop n line rptr maxlen w = Ret (r, line', rptr') w'"
    and "n = Suc (length line)" and "10 \<notin> set line"
  shows "\<exists>r0. readline_loop (\<lambda>fd. my_read_r) fd maxlen n line rptr w = Ret (r0, line', rptr') w' \<and>
     r = (if 0 < r0 \<and> r0 = int (length line') \<and> 10 \<notin> set line' then r0 + 1 else r0)"
  using assms
proof (induction "maxlen - n" arbitrary: n line rptr w rule: less_induct)
  case less
  note step = readline_r_loop.simps [of n line rptr maxlen w]
    readline_loop.simps [of "\<lambda>fd. my_read_r" fd maxlen n line rptr w]
  show ?case
  proof (cases "n < maxlen")
    case False
    with less.prems(1) have "r = int n" "line' = line" "rptr' = rptr" "w' = w"
      by (simp_all add: step)
    moreover from False have
      "readline_loop (\<lambda>fd. my_read_r) fd maxlen n line rptr w = Ret (int n, line, rptr) w"
      by (simp add: step(2))
    ultimately show ?thesis using less.prems(2) by (intro exI [of _ "int n"]) simp
  next
    case True
    with less.prems(1) obtain rc c rptr1 w1 where rd: "my_read_r rptr w = Ret (rc, c, rptr1) w1"
      by (auto simp: step then_run_Ret_iff)
    show ?thesis
    proof (cases "rc = 1 \<and> c \<noteq> 10")
      case go: True
      with True rd less.prems(1)
      have "readline_r_loop (Suc n) (line @ [c]) rptr1 maxlen w1 = Ret (r, line', rptr') w'"
        by (simp add: step)
      with go True less.prems(2,3) have "\<exists>r0. readline_loop (\<lambda>fd. my_read_r) fd maxlen (Suc n)
          (line @ [c]) rptr1 w1 = Ret (r0, line', rptr') w' \<and>
          r = (if 0 < r0 \<and> r0 = int (length line') \<and> 10 \<notin> set line' then r0 + 1 else r0)"
        by (intro less.hyps) auto
      then obtain r0 where
        "readline_loop (\<lambda>fd. my_read_r) fd maxlen (Suc n) (line @ [c]) rptr1 w1 = Ret (r0, line', rptr') w'"
        and r: "r = (if 0 < r0 \<and> r0 = int (length line') \<and> 10 \<notin> set line' then r0 + 1 else r0)"
        by blast
      with go True rd have
        "readline_loop (\<lambda>fd. my_read_r) fd maxlen n line rptr w = Ret (r0, line', rptr') w'"
        by (simp add: step(2))
      with r show ?thesis by blast
    next
      case False
      define r0 where "r0 = (if rc = 1 then int n else if rc = 0 then int n - 1 else - 1)"
      from False True rd less.prems(1) have
        "readline_loop (\<lambda>fd. my_read_r) fd maxlen n line rptr w = Ret (r0, line', rptr') w'"
        by (auto simp: step r0_def split: if_splits)
      moreover from False True rd less.prems(1) have
        "r = (if rc = 1 then int n else if rc = 0 \<and> n = 1 then 0 else if rc = 0 then int n else - 1)"
        "line' = (if rc = 1 then line @ [10] else line)"
        by (auto simp: step(1) split: if_splits)
      with less.prems(2,3) have
        "r = (if 0 < r0 \<and> r0 = int (length line') \<and> 10 \<notin> set line' then r0 + 1 else r0)"
        by (auto simp: r0_def)
      ultimately show ?thesis by blast
    qed
  qed
qed

text \<open>
  \<^verbatim>\<open>readline_r\<close> conserves the stream held in the caller's structure like \<^verbatim>\<open>readline\<close>, but at end
  of file after a partial line it returns one more than the number of bytes stored.
\<close>

theorem readline_r_spec:
  assumes "readline_r rptr w = Ret (r, line, rptr') w'" and "Rline_ok rptr"
    and "1 \<le> read_maxlen rptr"
  shows "Rline_ok rptr' \<and> read_fd_r rptr' = read_fd_r rptr \<and>
     (\<exists>es. trace w' = trace w @ es \<and>
       Rline_pending rptr @ delivered (read_fd_r rptr) es = line @ Rline_pending rptr' \<and>
       10 \<notin> set (butlast line) \<and> length line < read_maxlen rptr \<and>
       (r = - 1
        \<or> r = int (length line) \<and> line \<noteq> [] \<and> last line = 10
        \<or> r = (if line = [] then 0 else int (length line) + 1) \<and> 10 \<notin> set line \<and>
            Rline_pending rptr' = [] \<and> es \<noteq> [] \<and> eof_event (read_fd_r rptr) (last es)
        \<or> r = int (read_maxlen rptr) \<and> Suc (length line) = read_maxlen rptr \<and> 10 \<notin> set line))"
proof -
  let ?fd = "read_fd_r rptr" and ?max = "read_maxlen rptr"
  from assms(1) have "readline_r_loop 1 [] rptr ?max w = Ret (r, line, rptr') w'"
    by (simp add: readline_r_def)
  from readline_r_loop_as_readline [OF this, of ?fd] obtain r0 where
    run: "readline_loop (\<lambda>fd. my_read_r) ?fd ?max 1 [] rptr w = Ret (r0, line, rptr') w'"
    and r: "r = (if 0 < r0 \<and> r0 = int (length line) \<and> 10 \<notin> set line then r0 + 1 else r0)"
    by auto
  from rlr.readline_loop_post [OF run] assms(2,3)
  have "rlr.loop_post ?fd ?max rptr w r0 [] line rptr' w'"
    unfolding rlr_good_eq by simp
  then obtain es where base: "read_fd_r rptr' = ?fd" "Rline_ok rptr'" "trace w' = trace w @ es"
      "Rline_pending rptr @ delivered ?fd es = line @ Rline_pending rptr'"
      "10 \<notin> set (butlast line)" "length line < ?max"
    and "r0 = - 1 \<and> 10 \<notin> set line \<or> r0 = int (length line) \<and> line \<noteq> [] \<and> last line = 10
       \<or> r0 = int (length line) \<and> 10 \<notin> set line \<and> Rline_pending rptr' = [] \<and> es \<noteq> [] \<and>
           eof_event ?fd (last es)
       \<or> r0 = int ?max \<and> Suc (length line) = ?max \<and> 10 \<notin> set line"
    unfolding rlr.loop_post_def unfolding rlr_good_eq rlr_pending_eq by auto
  from this(7) consider (error) "r0 = - 1" | (line) "r0 = int (length line)" "line \<noteq> []" "last line = 10"
    | (eof) "r0 = int (length line)" "10 \<notin> set line" "Rline_pending rptr' = []" "es \<noteq> []"
        "eof_event ?fd (last es)"
    | (full) "r0 = int ?max" "Suc (length line) = ?max" "10 \<notin> set line"
    by blast
  then have "r = - 1 \<or> r = int (length line) \<and> line \<noteq> [] \<and> last line = 10
      \<or> r = (if line = [] then 0 else int (length line) + 1) \<and> 10 \<notin> set line \<and>
          Rline_pending rptr' = [] \<and> es \<noteq> [] \<and> eof_event ?fd (last es)
      \<or> r = int ?max \<and> Suc (length line) = ?max \<and> 10 \<notin> set line"
  proof cases
    case line
    then have "10 \<in> set line" by (metis last_in_set)
    with line r show ?thesis by simp
  qed (use r in auto)
  with base show ?thesis by blast
qed

theorem readline_r_spec_witness:
  "\<exists>rptr' w'. readline_r \<lparr>rl_cnt = 0, rl_bufptr = 0, rl_buf = replicate MAXLINE 0, read_fd_r = 3,
         read_maxlen = 80\<rparr> (boot [got [104], got []]) = Ret (2, [104], rptr') w' \<and>
     Rline_pending rptr' = [] \<and> eof_event 3 (last (trace w'))"
proof -
  let ?st = "\<lparr>rl_cnt = 0, rl_bufptr = 0, rl_buf = replicate MAXLINE 0, read_fd_r = 3, read_maxlen = 80\<rparr>"
  have st: "Rline_ok ?st" "1 \<le> read_maxlen ?st" "read_fd_r ?st = 3" "Rline_pending ?st = []"
    by (simp_all add: Rline_ok_def Rline_pending_def)
  have "\<exists>rptr' w'. readline_r ?st (boot [got [104], got []]) = Ret (2, [104], rptr') w'"
    by (simp add: readline_r_def readline_r_loop.simps my_read_r_def my_read_r_again_eq
        take_byte_r_def fill_def MAXLINE_def Let_def)
  then obtain rptr' w' where
    run: "readline_r ?st (boot [got [104], got []]) = Ret (2, [104], rptr') w'" by blast
  from readline_r_spec [OF run st(1,2)] run st(3,4) show ?thesis by auto
qed



end
