(* ===== verification/Inet_Addr.thy ===== *)
theory Inet_Addr
  imports Unp_Prelude
begin

text \<open>
  Address conversion between text and bytes: \<^verbatim>\<open>libfree/inet_pton.c\<close>, \<^verbatim>\<open>libfree/inet_ntop.c\<close>,
  \<^verbatim>\<open>libfree/inet_aton.c\<close> and the IPv4-only \<^verbatim>\<open>libfree/inet_pton_ipv4.c\<close> and
  \<^verbatim>\<open>libfree/inet_ntop_ipv4.c\<close>. An address is the list of its bytes in memory. Every function
  that can fail returns \<^verbatim>\<open>None\<close> for an invalid address (the C functions return 0 and leave the
  destination alone) and \<^verbatim>\<open>Inl e\<close> when \<^verbatim>\<open>errno\<close> is set to \<open>e\<close>.
\<close>

section \<open>Parsing\<close>

subsection \<open>Dotted quads\<close>

definition digit :: "char \<Rightarrow> nat option" where
  "digit ch = strchr ''0123456789'' ch"

text \<open>
  The state of the loop of \<^verbatim>\<open>inet_pton4\<close>: \<open>tmp\<close> are the finished bytes before \<^verbatim>\<open>tp\<close>, \<open>cur\<close> is
  \<^verbatim>\<open>*tp\<close>.
\<close>

fun pton4_loop :: "string \<Rightarrow> bytes \<Rightarrow> nat \<Rightarrow> bool \<Rightarrow> nat \<Rightarrow> bytes option" where
  "pton4_loop [] tmp cur saw_digit octets =
     (if octets < 4 then None else Some (tmp @ [word_of_nat cur]))"
| "pton4_loop (ch # src) tmp cur saw_digit octets =
     (case digit ch of
        Some d \<Rightarrow>
          let new = cur * 10 + d in
          if new > 255 then None
          else if \<not> saw_digit then
            (if octets + 1 > 4 then None else pton4_loop src tmp new True (octets + 1))
          else pton4_loop src tmp new saw_digit octets
      | None \<Rightarrow>
          if ch = CHR ''.'' \<and> saw_digit then
            (if octets = 4 then None else pton4_loop src (tmp @ [word_of_nat cur]) 0 False octets)
          else None)"

definition inet_pton4 :: "string \<Rightarrow> bytes option" where
  "inet_pton4 src = pton4_loop src [] 0 False 0"

subsection \<open>Colon separated groups\<close>

text \<open>
  \<^verbatim>\<open>inet_pton6\<close>: \<open>tmp\<close> are the bytes stored before \<^verbatim>\<open>tp\<close> (the rest of the 16 byte array is still
  zero), \<open>colonp\<close> the offset remembered for \<^verbatim>\<open>::\<close>, \<open>curtok\<close> the text of the group being read.
  The loop yields the pair of \<open>tmp\<close> and \<open>colonp\<close> after the last group was stored.
\<close>

definition xdigit :: "char \<Rightarrow> nat option" where
  "xdigit ch = (case strchr ''0123456789abcdef'' ch of
     Some d \<Rightarrow> Some d | None \<Rightarrow> strchr ''0123456789ABCDEF'' ch)"

definition put16 :: "bytes \<Rightarrow> nat \<Rightarrow> bytes" where
  "put16 tmp val = tmp @ [word_of_nat (val div 256 mod 256), word_of_nat (val mod 256)]"

fun pton6_loop ::
  "string \<Rightarrow> bytes \<Rightarrow> nat option \<Rightarrow> string \<Rightarrow> bool \<Rightarrow> nat \<Rightarrow> (bytes \<times> nat option) option" where
  "pton6_loop [] tmp colonp curtok saw_xdigit val =
     (if saw_xdigit then
        (if length tmp + 2 > 16 then None else Some (put16 tmp val, colonp))
      else Some (tmp, colonp))"
| "pton6_loop (ch # src) tmp colonp curtok saw_xdigit val =
     (case xdigit ch of
        Some d \<Rightarrow>
          let val = val * 16 + d in
          if val > 65535 then None else pton6_loop src tmp colonp curtok True val
      | None \<Rightarrow>
          if ch = CHR '':'' then
            (if \<not> saw_xdigit then
               (case colonp of
                  Some c \<Rightarrow> None
                | None \<Rightarrow> pton6_loop src tmp (Some (length tmp)) src saw_xdigit val)
             else if length tmp + 2 > 16 then None
             else pton6_loop src (put16 tmp val) colonp src False 0)
          else if ch = CHR ''.'' \<and> length tmp + 4 \<le> 16 then
            (case inet_pton4 curtok of
               Some quad \<Rightarrow> Some (tmp @ quad, colonp)
             | None \<Rightarrow> None)
          else None)"

text \<open>
  The shift that opens the gap of \<^verbatim>\<open>::\<close>, on the array: step \<open>i\<close> copies the byte at
  \<open>colonp + n - i\<close> to the place \<open>i\<close> before the end and then clears it.
\<close>

function shift_loop :: "nat \<Rightarrow> nat \<Rightarrow> nat \<Rightarrow> bytes \<Rightarrow> bytes" where
  "shift_loop c n i tmp =
     (if i \<le> n then
        shift_loop c n (Suc i) ((tmp[16 - i := tmp ! (c + n - i)])[c + n - i := 0])
      else tmp)"
  by pat_completeness auto
termination
  by (relation "measure (\<lambda>(c, n, i, tmp). Suc n - i)") auto

declare shift_loop.simps [simp del]

text \<open>\<^verbatim>\<open>if (*src == ':') if (*++src != ':') return (0);\<close>\<close>

definition leading_colon :: "string \<Rightarrow> string option" where
  "leading_colon src =
     (if src \<noteq> [] \<and> hd src = CHR '':'' then
        (if tl src \<noteq> [] \<and> hd (tl src) = CHR '':'' then Some (tl src) else None)
      else Some src)"

definition inet_pton6 :: "string \<Rightarrow> bytes option" where
  "inet_pton6 src =
     (case leading_colon src of
        None \<Rightarrow> None
      | Some src \<Rightarrow>
          (case pton6_loop src [] None src False 0 of
             None \<Rightarrow> None
           | Some (tmp, colonp) \<Rightarrow>
               let arr = tmp @ replicate (16 - length tmp) 0 in
               (case colonp of
                  Some c \<Rightarrow> Some (shift_loop c (length tmp - c) 1 arr)
                | None \<Rightarrow> if length tmp \<noteq> 16 then None else Some arr)))"

definition inet_pton :: "int \<Rightarrow> string \<Rightarrow> int + bytes option" where
  "inet_pton af src =
     (if af = AF_INET then Inr (inet_pton4 src)
      else if af = AF_INET6 then Inr (inet_pton6 src)
      else Inl EAFNOSUPPORT)"

section \<open>Printing\<close>

definition quad_text :: "bytes \<Rightarrow> string" where
  "quad_text src = dec (unat (src ! 0)) @ ''.'' @ dec (unat (src ! 1)) @ ''.'' @
     dec (unat (src ! 2)) @ ''.'' @ dec (unat (src ! 3))"

definition inet_ntop4 :: "bytes \<Rightarrow> nat \<Rightarrow> int + string" where
  "inet_ntop4 src sz =
     (let tmp = quad_text src in if length tmp > sz then Inl ENOSPC else Inr tmp)"

text \<open>The 16 bit words of an address: \<^verbatim>\<open>words[i/2] |= src[i] << ((1 - (i % 2)) << 3)\<close>.\<close>

fun words_of :: "bytes \<Rightarrow> nat list" where
  "words_of (a # b # src) = (unat a * 256 + unat b) # words_of src"
| "words_of _ = []"

text \<open>
  The search for the longest run of zero words. A run is its base and length; a base of \<open>- 1\<close> is
  \<^verbatim>\<open>None\<close>.
\<close>

type_synonym zrun = "(nat \<times> nat) option"

definition better :: "zrun \<Rightarrow> zrun \<Rightarrow> zrun" where
  "better best cur =
     (case cur of
        None \<Rightarrow> best
      | Some (cb, cl) \<Rightarrow>
          (case best of
             None \<Rightarrow> cur
           | Some (bb, bl) \<Rightarrow> if cl > bl then cur else best))"

fun scan_runs :: "nat list \<Rightarrow> nat \<Rightarrow> zrun \<Rightarrow> zrun \<Rightarrow> zrun" where
  "scan_runs [] i best cur = better best cur"
| "scan_runs (x # ws) i best cur =
     (if x = 0 then
        scan_runs ws (Suc i) best
          (case cur of None \<Rightarrow> Some (i, 1) | Some (cb, cl) \<Rightarrow> Some (cb, cl + 1))
      else scan_runs ws (Suc i) (better best cur) None)"

definition best_run :: "nat list \<Rightarrow> zrun" where
  "best_run ws =
     (case scan_runs ws 0 None None of
        Some (b, l) \<Rightarrow> if l < 2 then None else Some (b, l)
      | None \<Rightarrow> None)"

definition in_run :: "zrun \<Rightarrow> nat \<Rightarrow> bool" where
  "in_run best i = (case best of Some (b, l) \<Rightarrow> b \<le> i \<and> i < b + l | None \<Rightarrow> False)"

definition at_run :: "zrun \<Rightarrow> nat \<Rightarrow> bool" where
  "at_run best i = (case best of Some (b, l) \<Rightarrow> i = b | None \<Rightarrow> False)"

definition encapsulated :: "zrun \<Rightarrow> nat list \<Rightarrow> bool" where
  "encapsulated best ws =
     (case best of
        Some (b, l) \<Rightarrow> b = 0 \<and> (l = 6 \<or> l = 5 \<and> ws ! 5 = 65535)
      | None \<Rightarrow> False)"

text \<open>
  The formatting loop; \<open>tp\<close> is the text written so far. \<^verbatim>\<open>sizeof tmp\<close> is 46. The result is \<^verbatim>\<open>Inl\<close>
  when the embedded \<^verbatim>\<open>inet_ntop4\<close> failed.
\<close>

function ntop6_loop :: "bytes \<Rightarrow> nat list \<Rightarrow> zrun \<Rightarrow> nat \<Rightarrow> string \<Rightarrow> int + string" where
  "ntop6_loop src ws best i tp =
     (if i < 8 then
        (if in_run best i then
           ntop6_loop src ws best (Suc i) (if at_run best i then tp @ '':'' else tp)
         else
           let tp = (if i \<noteq> 0 then tp @ '':'' else tp) in
           if i = 6 \<and> encapsulated best ws then
             (case inet_ntop4 (drop 12 src) (46 - length tp) of
                Inl e \<Rightarrow> Inl e
              | Inr quad \<Rightarrow> Inr (tp @ quad))
           else ntop6_loop src ws best (Suc i) (tp @ hex (ws ! i)))
      else Inr tp)"
  by pat_completeness auto
termination
  by (relation "measure (\<lambda>(src, ws, best, i, tp). 8 - i)") auto

declare ntop6_loop.simps [simp del]

definition inet_ntop6 :: "bytes \<Rightarrow> nat \<Rightarrow> int + string" where
  "inet_ntop6 src sz =
     (let ws = words_of src; best = best_run ws in
      case ntop6_loop src ws best 0 [] of
        Inl e \<Rightarrow> Inl e
      | Inr tp \<Rightarrow>
          let tp = (case best of
                      Some (b, l) \<Rightarrow> if b + l = 8 then tp @ '':'' else tp
                    | None \<Rightarrow> tp) in
          if length tp + 1 > sz then Inl ENOSPC else Inr tp)"

definition inet_ntop :: "int \<Rightarrow> bytes \<Rightarrow> nat \<Rightarrow> int + string" where
  "inet_ntop af src sz =
     (if af = AF_INET then inet_ntop4 src sz
      else if af = AF_INET6 then inet_ntop6 src sz
      else Inl EAFNOSUPPORT)"

section \<open>The IPv4-only versions\<close>

text \<open>
  \<^verbatim>\<open>inet_aton\<close> accumulates in 64 bit unsigned longs; the terminating null byte goes through the
  same case as a dot.
\<close>

fun aton_loop :: "string \<Rightarrow> nat \<Rightarrow> 64 word \<Rightarrow> 64 word \<Rightarrow> (nat \<times> 64 word) option" where
  "aton_loop [] dots acc addr =
     (if acc > 255 then None else Some (dots, push_bit 8 addr OR acc))"
| "aton_loop (cc # cp) dots acc addr =
     (case digit cc of
        Some d \<Rightarrow> aton_loop cp dots (acc * 10 + word_of_nat d) addr
      | None \<Rightarrow>
          if cc = CHR ''.'' then
            (if dots + 1 > 3 then None
             else if acc > 255 then None
             else aton_loop cp (dots + 1) 0 (push_bit 8 addr OR acc))
          else None)"

text \<open>\<^verbatim>\<open>htonl\<close> stores the low 32 bits most significant byte first.\<close>

definition htonl_bytes :: "64 word \<Rightarrow> bytes" where
  "htonl_bytes x =
     [ucast (drop_bit 24 x), ucast (drop_bit 16 x), ucast (drop_bit 8 x), ucast x]"

definition inet_aton :: "string \<Rightarrow> bytes option" where
  "inet_aton cp =
     (case aton_loop cp 0 0 0 of
        None \<Rightarrow> None
      | Some (dots, addr) \<Rightarrow>
          Some (htonl_bytes (if dots < 3 then push_bit (8 * (3 - dots)) addr else addr)))"

definition inet_pton_ipv4 :: "int \<Rightarrow> string \<Rightarrow> int + bytes option" where
  "inet_pton_ipv4 family strptr =
     (if family = AF_INET then Inr (inet_aton strptr) else Inl EAFNOSUPPORT)"

definition inet_ntop_ipv4 :: "int \<Rightarrow> bytes \<Rightarrow> nat \<Rightarrow> int + string" where
  "inet_ntop_ipv4 family p len =
     (if family = AF_INET then
        (let temp = snprintf_s INET_ADDRSTRLEN (quad_text p) in
         if length temp \<ge> len then Inl ENOSPC else Inr temp)
      else Inl EAFNOSUPPORT)"

section \<open>Reading back what was printed\<close>

lemma digit_digit_char [simp]: "d < 10 \<Longrightarrow> digit (digit_char d) = Some d"
proof -
  have "\<forall>d \<in> set [0..<10]. digit (digit_char d) = Some d" by code_simp
  then show "d < 10 \<Longrightarrow> digit (digit_char d) = Some d" by simp
qed

lemma xdigit_digit_char [simp]: "d < 16 \<Longrightarrow> xdigit (digit_char d) = Some d"
proof -
  have "\<forall>d \<in> set [0..<16]. xdigit (digit_char d) = Some d" by code_simp
  then show "d < 16 \<Longrightarrow> xdigit (digit_char d) = Some d" by simp
qed

lemma separators [simp]:
  "digit CHR ''.'' = None" "xdigit CHR '':'' = None" "xdigit CHR ''.'' = None"
  by code_simp+

lemma pton4_digits:
  assumes "n < 256" and "octets < 4"
  shows "pton4_loop (utoa 10 n @ rest) tmp 0 False octets = pton4_loop rest tmp n True (Suc octets)"
  using assms(1)
proof (induction n arbitrary: rest rule: less_induct)
  case (less n)
  show ?case
  proof (cases "n < 10")
    case True
    with less.prems assms(2) show ?thesis by (subst utoa.simps) simp
  next
    case False
    with less.prems have "pton4_loop (utoa 10 (n div 10) @ digit_char (n mod 10) # rest) tmp 0 False octets
        = pton4_loop (digit_char (n mod 10) # rest) tmp (n div 10) True (Suc octets)"
      by (intro less.IH) auto
    moreover have "utoa 10 n = utoa 10 (n div 10) @ [digit_char (n mod 10)]"
      using False by (subst utoa.simps) simp
    ultimately show ?thesis using less.prems by (simp add: Let_def)
  qed
qed

lemma pton4_dot [simp]:
  "octets < 4 \<Longrightarrow> pton4_loop (CHR ''.'' # rest) tmp n True octets
     = pton4_loop rest (tmp @ [word_of_nat n]) 0 False octets"
  by simp

lemma length_4_cases: "length xs = 4 \<longleftrightarrow> (\<exists>a b c d. xs = [a, b, c, d])"
  by (auto simp: numeral_eq_Suc length_Suc_conv)

lemma pton4_quad: "length a = 4 \<Longrightarrow> inet_pton4 (quad_text a) = Some a"
  using pton4_digits [where rest = "[]"]
  by (auto simp: length_4_cases inet_pton4_def quad_text_def dec_def pton4_digits)

lemma length_quad_text: "length a = 4 \<Longrightarrow> length (quad_text a) \<le> 15"
proof -
  have "length (dec (unat (b :: byte))) \<le> 3" for b
    unfolding dec_def using unat_byte_less [of b] by (intro length_utoa; simp del: unat_byte_less)
  from this [of "a ! 0"] this [of "a ! 1"] this [of "a ! 2"] this [of "a ! 3"]
  show ?thesis by (simp add: quad_text_def)
qed

text \<open>A parsed address has four bytes.\<close>

lemma pton4_loop_length:
  "pton4_loop src tmp cur saw octets = Some a \<Longrightarrow>
   (if saw then length tmp + 1 = octets \<and> octets \<le> 4 else length tmp = octets \<and> octets < 4) \<Longrightarrow> length a = 4"
  by (induction src tmp cur saw octets rule: pton4_loop.induct)
     (auto split: option.splits if_splits simp: Let_def)

lemma inet_pton4_length: "inet_pton4 s = Some a \<Longrightarrow> length a = 4"
  unfolding inet_pton4_def by (drule pton4_loop_length) simp_all

subsection \<open>Words and bytes\<close>

definition word_bytes :: "nat \<Rightarrow> bytes" where
  "word_bytes v = [word_of_nat (v div 256 mod 256), word_of_nat (v mod 256)]"

definition bytes_of :: "nat list \<Rightarrow> bytes" where
  "bytes_of ws = concat (map word_bytes ws)"

lemma put16_eq: "put16 tmp v = tmp @ word_bytes v"
  by (simp add: put16_def word_bytes_def)

lemma bytes_of_simps [simp]:
  "bytes_of [] = []" "bytes_of (v # vs) = word_bytes v @ bytes_of vs"
  "bytes_of (us @ vs) = bytes_of us @ bytes_of vs"
  by (simp_all add: bytes_of_def)

lemma length_word_bytes [simp]: "length (word_bytes v) = 2"
  by (simp add: word_bytes_def)

lemma length_bytes_of [simp]: "length (bytes_of vs) = 2 * length vs"
  by (induction vs) simp_all

lemma bytes_of_zeros: "bytes_of (replicate n 0) = replicate (2 * n) 0"
  by (induction n) (simp_all add: word_bytes_def)

lemma bytes_of_words_of: "even (length src) \<Longrightarrow> bytes_of (words_of src) = src"
  by (induction src rule: words_of.induct)
     (simp_all add: word_bytes_def div_mult_self2 add.commute)

lemma words_of_less: "v \<in> set (words_of src) \<Longrightarrow> v < 65536"
proof (induction src rule: words_of.induct)
  case (1 a b src)
  have "unat a * 256 + unat b < 65536" using unat_byte_less [of a] unat_byte_less [of b] by linarith
  with 1 show ?case by auto
qed simp_all

lemma length_words_of: "length (words_of src) = length src div 2"
  by (induction src rule: words_of.induct) simp_all

subsection \<open>Groups of hexadecimal digits\<close>

lemma pton6_hex:
  assumes "v < 65536"
  shows "pton6_loop (hex v @ rest) tmp colonp curtok False 0 = pton6_loop rest tmp colonp curtok True v"
  unfolding hex_def using assms
proof (induction v arbitrary: rest rule: less_induct)
  case (less v)
  show ?case
  proof (cases "v < 16")
    case True
    then show ?thesis by (subst utoa.simps) simp
  next
    case False
    with less.prems have "pton6_loop (utoa 16 (v div 16) @ digit_char (v mod 16) # rest) tmp colonp curtok False 0
        = pton6_loop (digit_char (v mod 16) # rest) tmp colonp curtok True (v div 16)"
      by (intro less.IH) auto
    moreover have "utoa 16 v = utoa 16 (v div 16) @ [digit_char (v mod 16)]"
      using False by (subst utoa.simps) simp
    ultimately show ?thesis using less.prems by (simp add: Let_def)
  qed
qed

definition colon_groups :: "nat list \<Rightarrow> string" where
  "colon_groups vs = concat (map (\<lambda>v. '':'' @ hex v) vs)"

definition groups_colon :: "nat list \<Rightarrow> string" where
  "groups_colon vs = concat (map (\<lambda>v. hex v @ '':'') vs)"

lemma groups_shift: "hex v @ colon_groups vs @ '':'' = groups_colon (v # vs)"
  by (induction vs arbitrary: v) (simp_all add: colon_groups_def groups_colon_def)

lemma pton6_groups_colon:
  assumes "\<forall>v \<in> set vs. v < 65536" and "length tmp + 2 * length vs \<le> 16" and "vs \<noteq> []"
  shows "pton6_loop (groups_colon vs @ rest) tmp colonp curtok False 0
     = pton6_loop rest (tmp @ bytes_of vs) colonp rest False 0"
  using assms
proof (induction vs arbitrary: tmp curtok)
  case (Cons v vs)
  have "pton6_loop (groups_colon (v # vs) @ rest) tmp colonp curtok False 0
      = pton6_loop (groups_colon vs @ rest) (tmp @ word_bytes v) colonp (groups_colon vs @ rest) False 0"
    using Cons.prems by (simp add: groups_colon_def pton6_hex put16_eq)
  with Cons show ?case by (cases "vs = []") (simp_all add: groups_colon_def)
qed simp

lemma pton6_colon_groups:
  assumes "\<forall>v \<in> set vs. v < 65536" and "length tmp + 2 * Suc (length vs) \<le> 16"
  shows "pton6_loop (colon_groups vs) tmp colonp curtok True u
     = Some (tmp @ bytes_of (u # vs), colonp)"
  using assms
proof (induction vs arbitrary: tmp curtok u)
  case Nil
  then show ?case by (simp add: colon_groups_def put16_eq)
next
  case (Cons v vs)
  then have "pton6_loop (colon_groups (v # vs)) tmp colonp curtok True u
      = pton6_loop (colon_groups vs) (tmp @ word_bytes u) colonp (hex v @ colon_groups vs) True v"
    by (simp add: colon_groups_def pton6_hex put16_eq)
  with Cons show ?case by simp
qed

text \<open>The groups after \<^verbatim>\<open>::\<close>, whose second colon starts them or ends the text.\<close>

definition tail_text :: "nat list \<Rightarrow> string" where
  "tail_text vs = (if vs = [] then '':'' else colon_groups vs)"

lemma pton6_tail:
  assumes "\<forall>v \<in> set vs. v < 65536" and "length tmp + 2 * length vs \<le> 16"
  shows "pton6_loop (tail_text vs) tmp None curtok False 0
     = Some (tmp @ bytes_of vs, Some (length tmp))"
proof (cases vs)
  case (Cons v us)
  then have "pton6_loop (tail_text vs) tmp None curtok False 0
      = pton6_loop (colon_groups us) tmp (Some (length tmp)) (hex v @ colon_groups us) True v"
    using assms by (simp add: tail_text_def colon_groups_def pton6_hex)
  with Cons assms show ?thesis by (simp add: pton6_colon_groups)
qed (simp add: tail_text_def)

subsection \<open>Opening the gap\<close>

lemma shift_loop_step:
  "i \<le> n \<Longrightarrow> shift_loop c n i tmp =
     shift_loop c n (Suc i) ((tmp[16 - i := tmp ! (c + n - i)])[c + n - i := 0])"
  by (subst shift_loop.simps) simp

lemma shift_loop_steps:
  assumes "length pre + length post + g = 16" and "0 < g" and "j \<le> length post"
  shows "shift_loop (length pre) (length post) (Suc j)
       (pre @ take (length post - j) post @ replicate g 0 @ drop (length post - j) post)
     = pre @ replicate g 0 @ post"
  using assms(3)
proof (induction "length post - j" arbitrary: j)
  case 0
  then show ?case by (subst shift_loop.simps) simp
next
  case (Suc m)
  let ?n = "length post" and ?x = "post ! m"
  let ?A = "pre @ take m post" and ?Z = "replicate (g - 1) (0 :: byte)" and ?B = "drop (Suc m) post"
  have m: "?n - j = Suc m" "m < ?n" "?n - Suc j = m" using Suc by auto
  have arr: "pre @ take (?n - j) post @ replicate g 0 @ drop (?n - j) post
      = (?A @ ?x # ?Z) @ 0 # ?B"
    using m \<open>0 < g\<close> by (cases g) (simp_all add: take_Suc_conv_app_nth flip: replicate_append_same)
  have pos: "length pre + ?n - Suc j = length ?A" "16 - Suc j = length (?A @ ?x # ?Z)"
    using m assms(1,2) Suc.hyps(2) Suc.prems by simp_all
  have "((?A @ ?x # ?Z) @ 0 # ?B) ! length ?A = ?x"
    by (simp add: nth_append)
  moreover have "((?A @ ?x # ?Z) @ ?x # ?B)[length ?A := 0] = ?A @ (0 # ?Z) @ ?x # ?B"
    by (metis append.assoc append_Cons list_update_length)
  moreover have "?A @ (0 # ?Z) @ ?x # ?B = pre @ take m post @ replicate g 0 @ drop m post"
    using m \<open>0 < g\<close> by (cases g) (simp_all add: Cons_nth_drop_Suc)
  moreover have "Suc j \<le> ?n" using m(1) by simp
  ultimately have "shift_loop (length pre) ?n (Suc j)
        (pre @ take (?n - j) post @ replicate g 0 @ drop (?n - j) post)
      = shift_loop (length pre) ?n (Suc (Suc j)) (pre @ take m post @ replicate g 0 @ drop m post)"
    unfolding arr by (simp only: shift_loop_step pos list_update_length)
  also have "\<dots> = pre @ replicate g 0 @ post"
    using Suc.hyps(1) [of "Suc j"] m Suc.prems Suc.hyps(2) by simp
  finally show ?case .
qed

lemma shift_loop_gap:
  assumes "length pre + length post + g = 16" and "0 < g"
  shows "shift_loop (length pre) (length post) 1 (pre @ post @ replicate g 0)
     = pre @ replicate g 0 @ post"
  using shift_loop_steps [OF assms, of 0] by simp

subsection \<open>The longest run of zero words\<close>

definition zeros :: "nat list \<Rightarrow> nat \<Rightarrow> nat \<Rightarrow> bool" where
  "zeros ws b l \<longleftrightarrow> b + l \<le> length ws \<and> (\<forall>k. b \<le> k \<and> k < b + l \<longrightarrow> ws ! k = 0)"

definition run_len :: "zrun \<Rightarrow> nat" where
  "run_len r = (case r of Some (b, l) \<Rightarrow> l | None \<Rightarrow> 0)"

definition run_ok :: "nat list \<Rightarrow> nat \<Rightarrow> zrun \<Rightarrow> bool" where
  "run_ok ws i r \<longleftrightarrow> (case r of Some (b, l) \<Rightarrow> 0 < l \<and> b + l \<le> i \<and> zeros ws b l | None \<Rightarrow> True)"

text \<open>
  The state of the scan at index \<open>i\<close>: both runs are runs of zeros, \<open>cur\<close> is the run that ends at
  \<open>i\<close>, and no run of zeros that ends by \<open>i\<close> is longer than the longer of the two.
\<close>

definition scan_inv :: "nat list \<Rightarrow> nat \<Rightarrow> zrun \<Rightarrow> zrun \<Rightarrow> bool" where
  "scan_inv ws i best cur \<longleftrightarrow> run_ok ws i best \<and> run_ok ws i cur \<and>
     (\<forall>b l. cur = Some (b, l) \<longrightarrow> b + l = i) \<and>
     (\<forall>b l. zeros ws b l \<and> b + l \<le> i \<longrightarrow> l \<le> max (run_len best) (run_len cur)) \<and>
     (\<forall>b l. zeros ws b l \<and> b + l = i \<longrightarrow> l \<le> run_len cur)"

lemma run_len_better [simp]: "run_len (better best cur) = max (run_len best) (run_len cur)"
  by (auto simp: run_len_def better_def split: option.splits)

lemma run_ok_better: "run_ok ws i best \<Longrightarrow> run_ok ws i cur \<Longrightarrow> run_ok ws i (better best cur)"
  by (auto simp: better_def split: option.splits)

lemma run_ok_mono: "run_ok ws i r \<Longrightarrow> run_ok ws (Suc i) r"
  by (auto simp: run_ok_def split: option.splits)

lemma zeros_Suc: "zeros ws b (Suc l) \<longleftrightarrow> zeros ws b l \<and> b + l < length ws \<and> ws ! (b + l) = 0"
  by (auto simp: zeros_def less_Suc_eq)

lemma zeros_0: "zeros ws b 0 \<longleftrightarrow> b \<le> length ws"
  by (auto simp: zeros_def)

lemma scan_inv_zero:
  assumes "scan_inv ws i best cur" and "i < length ws" and "ws ! i = 0"
  shows "scan_inv ws (Suc i) best
    (case cur of None \<Rightarrow> Some (i, 1) | Some (cb, cl) \<Rightarrow> Some (cb, cl + 1))" (is "scan_inv _ _ _ ?cur")
proof -
  have len: "run_len ?cur = Suc (run_len cur)"
    by (simp add: run_len_def split: option.split)
  have ends: "l \<le> Suc (run_len cur)" if "zeros ws b l" "b + l = Suc i" for b l
    using that assms(1) by (cases l) (auto simp: scan_inv_def zeros_Suc)
  have all: "l \<le> max (run_len best) (Suc (run_len cur))" if "zeros ws b l" "b + l \<le> Suc i" for b l
  proof (cases "b + l = Suc i")
    case False
    with that(2) have "b + l \<le> i" by simp
    with that(1) assms(1) have "l \<le> max (run_len best) (run_len cur)"
      unfolding scan_inv_def by blast
    then show ?thesis by simp
  qed (use ends that in force)
  have ok: "run_ok ws (Suc i) ?cur"
    using assms by (auto simp: run_ok_def scan_inv_def zeros_Suc zeros_0 split: option.splits)
  have "run_ok ws (Suc i) best" using assms(1) by (simp add: scan_inv_def run_ok_mono)
  moreover have "\<forall>b l. ?cur = Some (b, l) \<longrightarrow> b + l = Suc i"
    using assms(1) by (auto simp: scan_inv_def split: option.splits)
  ultimately show ?thesis
    unfolding scan_inv_def len using ok ends all by blast
qed

lemma scan_inv_nonzero:
  assumes "scan_inv ws i best cur" and "i < length ws" and "ws ! i \<noteq> 0"
  shows "scan_inv ws (Suc i) (better best cur) None"
proof -
  have ends: "l = 0" if "zeros ws b l" "b + l = Suc i" for b l
    using that assms(3) by (cases l) (auto simp: zeros_Suc)
  have "l \<le> max (run_len best) (run_len cur)" if "zeros ws b l" "b + l \<le> Suc i" for b l
  proof (cases "b + l = Suc i")
    case False
    with that(2) have "b + l \<le> i" by simp
    with that(1) assms(1) show ?thesis unfolding scan_inv_def by blast
  qed (use ends [OF that(1)] in simp)
  then have all: "l \<le> max (run_len (better best cur)) (run_len None)"
    if "zeros ws b l" "b + l \<le> Suc i" for b l
    using that by (simp add: le_max_iff_disj)
  have "run_ok ws (Suc i) (better best cur)" "run_ok ws (Suc i) None"
    using assms(1) by (simp_all add: scan_inv_def run_ok_better run_ok_mono)
       (simp add: run_ok_def)
  with all ends show ?thesis unfolding scan_inv_def by blast
qed

lemma scan_runs_inv:
  assumes "scan_inv ws i best cur" and "rest = drop i ws" and "i \<le> length ws"
  shows "run_ok ws (length ws) (scan_runs rest i best cur) \<and>
    (\<forall>b l. zeros ws b l \<longrightarrow> l \<le> run_len (scan_runs rest i best cur))"
  using assms
proof (induction rest i best cur rule: scan_runs.induct)
  case (1 i best cur)
  then have "i = length ws" by simp
  with 1(1) run_ok_better [of ws i best cur] show ?case
    by (auto simp: scan_inv_def zeros_def)
next
  case (2 x rest i best cur)
  then have i: "i < length ws" "x = ws ! i" "rest = drop (Suc i) ws"
    by (cases "i < length ws", simp_all add: Cons_nth_drop_Suc [symmetric])+
  show ?case
  proof (cases "x = 0")
    case True
    with 2(1) scan_inv_zero [OF 2(3)] i show ?thesis by simp
  next
    case False
    with 2(2) scan_inv_nonzero [OF 2(3)] i show ?thesis by simp
  qed
qed

lemma scan_inv_start: "scan_inv ws 0 None None"
  by (auto simp: scan_inv_def run_ok_def run_len_def)

lemma best_run_spec:
  "case best_run ws of
     Some (b, l) \<Rightarrow> 2 \<le> l \<and> zeros ws b l \<and> (\<forall>b' l'. zeros ws b' l' \<longrightarrow> l' \<le> l)
   | None \<Rightarrow> \<forall>b' l'. zeros ws b' l' \<longrightarrow> l' < 2"
  using scan_runs_inv [OF scan_inv_start, of ws ws]
  by (fastforce simp: best_run_def run_ok_def run_len_def split: option.splits)

subsection \<open>What the formatting loop writes\<close>

definition toks :: "nat list \<Rightarrow> nat \<Rightarrow> nat \<Rightarrow> string" where
  "toks ws i j = concat (map (\<lambda>k. (if k \<noteq> 0 then '':'' else []) @ hex (ws ! k)) [i..<j])"

lemma ntop6_plain:
  assumes "i \<le> j" and "j \<le> 8" and "\<forall>k. i \<le> k \<and> k < j \<longrightarrow> \<not> in_run best k"
    and "encapsulated best ws \<longrightarrow> j \<le> 6"
  shows "ntop6_loop src ws best i tp = ntop6_loop src ws best j (tp @ toks ws i j)"
  using assms
proof (induction "j - i" arbitrary: i tp)
  case 0
  then show ?case by (simp add: toks_def)
next
  case (Suc m)
  then have i: "i < j" by simp
  then have "toks ws i j = ((if i \<noteq> 0 then '':'' else []) @ hex (ws ! i)) @ toks ws (Suc i) j"
    by (simp add: toks_def upt_conv_Cons)
  moreover have "ntop6_loop src ws best i tp
      = ntop6_loop src ws best (Suc i) (tp @ (if i \<noteq> 0 then '':'' else []) @ hex (ws ! i))"
    using i Suc.prems by (subst ntop6_loop.simps) (auto simp: Let_def)
  moreover have "m = j - Suc i" "Suc i \<le> j" "\<forall>k. Suc i \<le> k \<and> k < j \<longrightarrow> \<not> in_run best k"
    using Suc.hyps(2) Suc.prems(3) i by auto
  ultimately show ?case using Suc.hyps(1) [of "Suc i"] Suc.prems(2,4) by simp
qed

lemma ntop6_inside:
  assumes "b < i" and "i \<le> b + l" and "b + l \<le> 8"
  shows "ntop6_loop src ws (Some (b, l)) i tp = ntop6_loop src ws (Some (b, l)) (b + l) tp"
  using assms(1,2)
proof (induction "b + l - i" arbitrary: i)
  case (Suc m)
  from Suc.hyps(2) Suc.prems have i: "b < i" "i < b + l" by auto
  have "ntop6_loop src ws (Some (b, l)) i tp = ntop6_loop src ws (Some (b, l)) (Suc i) tp"
    using i assms(3) by (subst ntop6_loop.simps) (simp add: in_run_def at_run_def)
  also have "\<dots> = ntop6_loop src ws (Some (b, l)) (b + l) tp"
    using Suc.hyps(2) Suc.prems by (intro Suc.hyps(1)) auto
  finally show ?case .
qed simp

lemma ntop6_run:
  assumes "0 < l" and "b + l \<le> 8"
  shows "ntop6_loop src ws (Some (b, l)) b tp = ntop6_loop src ws (Some (b, l)) (b + l) (tp @ '':'')"
proof -
  have "ntop6_loop src ws (Some (b, l)) b tp = ntop6_loop src ws (Some (b, l)) (Suc b) (tp @ '':'')"
    using assms by (subst ntop6_loop.simps) (auto simp: in_run_def at_run_def)
  with ntop6_inside [of b "Suc b" l] assms show ?thesis by simp
qed

lemma ntop6_end [simp]: "ntop6_loop src ws best 8 tp = Inr tp"
  by (subst ntop6_loop.simps) simp

lemma map_nth_segment: "j \<le> length ws \<Longrightarrow> map ((!) ws) [i..<j] = drop i (take j ws)"
  by (simp add: list_eq_iff_nth_eq)

lemma toks_later: "0 < i \<Longrightarrow> j \<le> length ws \<Longrightarrow> toks ws i j = colon_groups (drop i (take j ws))"
proof -
  assume "0 < i" "j \<le> length ws"
  then have "toks ws i j = concat (map (\<lambda>v. '':'' @ hex v) (map ((!) ws) [i..<j]))"
    unfolding toks_def by (intro arg_cong [of _ _ concat]) auto
  then show ?thesis by (simp only: map_nth_segment [OF \<open>j \<le> length ws\<close>] colon_groups_def)
qed

lemma toks_first:
  assumes "0 < j" and "j \<le> length ws"
  shows "toks ws 0 j = hex (ws ! 0) @ colon_groups (drop 1 (take j ws))"
proof -
  have "toks ws 0 j = hex (ws ! 0) @ toks ws 1 j"
    using assms(1) by (simp add: toks_def upt_conv_Cons)
  with assms(2) show ?thesis by (simp add: toks_later)
qed

lemma take_first: "0 < j \<Longrightarrow> j \<le> length ws \<Longrightarrow> take j ws = ws ! 0 # drop 1 (take j ws)"
  by (cases ws; cases j) auto

lemma toks_prefix_colon:
  assumes "0 < j" and "j \<le> length ws"
  shows "toks ws 0 j @ '':'' = groups_colon (take j ws)"
  using groups_shift [of "ws ! 0" "drop 1 (take j ws)"] take_first [OF assms]
  by (simp add: toks_first [OF assms])

subsection \<open>Reading the printed text\<close>

lemma utoa_xdigits: "1 < b \<Longrightarrow> b \<le> 16 \<Longrightarrow> c \<in> set (utoa b n) \<Longrightarrow> xdigit c \<noteq> None"
proof (induction n rule: less_induct)
  case (less n)
  show ?case
  proof (cases "n < b")
    case True
    with less.prems have "c = digit_char n" by (subst (asm) utoa.simps) simp
    with True less.prems(2) show ?thesis by simp
  next
    case False
    with less.prems have "c \<in> set (utoa b (n div b)) \<or> c = digit_char (n mod b)"
      by (subst (asm) utoa.simps) auto
    moreover have "n mod b < 16"
      using less.prems(1,2) by (meson le_trans mod_less_divisor not_less order.strict_trans1 less_trans zero_less_one)
    ultimately show ?thesis using less.IH [of "n div b"] less.prems(1,2) False by auto
  qed
qed

lemma hex_first:
  obtains c cs where "hex v = c # cs" and "xdigit c \<noteq> None" and "c \<noteq> CHR '':''"
proof -
  obtain c cs where c: "hex v = c # cs"
    using utoa_nonempty [of 16 v] unfolding hex_def by (cases "utoa 16 v") auto
  then have "xdigit c \<noteq> None" using utoa_xdigits [of 16 c v] by (simp add: hex_def)
  moreover from this have "c \<noteq> CHR '':''" by auto
  ultimately show ?thesis using c that by blast
qed

text \<open>After the optional leading colon, \<^verbatim>\<open>inet_pton6\<close> is its loop followed by the expansion.\<close>

definition expand :: "(bytes \<times> nat option) option \<Rightarrow> bytes option" where
  "expand r = (case r of
     None \<Rightarrow> None
   | Some (tmp, colonp) \<Rightarrow>
       let arr = tmp @ replicate (16 - length tmp) 0 in
       (case colonp of
          Some c \<Rightarrow> Some (shift_loop c (length tmp - c) 1 arr)
        | None \<Rightarrow> if length tmp \<noteq> 16 then None else Some arr))"

lemma inet_pton6_plain:
  "c \<noteq> CHR '':'' \<Longrightarrow> inet_pton6 (c # cs) = expand (pton6_loop (c # cs) [] None (c # cs) False 0)"
  by (simp add: inet_pton6_def expand_def leading_colon_def)

lemma inet_pton6_colons:
  "inet_pton6 ('':'' @ '':'' @ cs) = expand (pton6_loop ('':'' @ cs) [] None ('':'' @ cs) False 0)"
  by (simp add: inet_pton6_def expand_def leading_colon_def)

lemma expand_gap:
  "length pre + length post + g = 16 \<Longrightarrow> 0 < g \<Longrightarrow>
     expand (Some (pre @ post, Some (length pre))) = Some (pre @ replicate g 0 @ post)"
  using shift_loop_gap [of pre post g] by (simp add: expand_def)
     (metis add_diff_cancel_left' diff_diff_left)

lemma pton6_some_digits:
  assumes "\<forall>c \<in> set ds. xdigit c \<noteq> None" and "(val + 1) * 16 ^ length ds \<le> 65536"
  shows "\<exists>v saw'. pton6_loop (ds @ rest) tmp colonp curtok saw val
           = pton6_loop rest tmp colonp curtok saw' v"
  using assms
proof (induction ds arbitrary: saw val)
  case Nil
  then show ?case by auto
next
  case (Cons d ds)
  then obtain x where x: "xdigit d = Some x" by auto
  then have "x < 16"
    by (auto simp: xdigit_def split: option.splits if_splits)
  then have "val * 16 + x + 1 \<le> (val + 1) * 16" by simp
  from mult_le_mono1 [OF this, of "16 ^ length ds"]
  have "(val * 16 + x + 1) * 16 ^ length ds \<le> (val + 1) * 16 ^ length (d # ds)"
    by (simp only: list.size power_add power_one_right mult.assoc One_nat_def) (simp add: mult.commute)
  with Cons.prems(2) have le: "(val * 16 + x + 1) * 16 ^ length ds \<le> 65536" by simp
  have "val * 16 + x + 1 \<le> (val * 16 + x + 1) * 16 ^ length ds"
    using mult_le_mono2 [of 1 "16 ^ length ds" "val * 16 + x + 1"] by (simp del: mult_Suc)
  with le have "val * 16 + x \<le> 65535" by linarith
  with x Cons.IH [of "val * 16 + x" True] Cons.prems(1) le show ?case by (simp add: Let_def)
qed

lemma pton6_quad:
  assumes "length a = 4" and "length tmp \<le> 12"
  shows "pton6_loop (quad_text a) tmp colonp (quad_text a) False 0 = Some (tmp @ a, colonp)"
proof -
  define rest where "rest = dec (unat (a ! 1)) @ ''.'' @ dec (unat (a ! 2)) @ ''.'' @ dec (unat (a ! 3))"
  have written: "quad_text a = utoa 10 (unat (a ! 0)) @ CHR ''.'' # rest"
    by (simp add: quad_text_def rest_def dec_def)
  have "length (utoa 10 (unat (a ! 0))) \<le> 3"
    using unat_byte_less [of "a ! 0"] by (intro length_utoa; simp del: unat_byte_less)
  then have "(16::nat) ^ length (utoa 10 (unat (a ! 0))) \<le> 16 ^ 3"
    by (intro power_increasing) simp_all
  then obtain v saw where "pton6_loop (quad_text a) tmp colonp (quad_text a) False 0
      = pton6_loop (CHR ''.'' # rest) tmp colonp (quad_text a) saw v"
    using pton6_some_digits [of "utoa 10 (unat (a ! 0))" 0 "CHR ''.'' # rest" tmp colonp "quad_text a" False]
      utoa_xdigits [of 10 _ "unat (a ! 0)"] unfolding written by auto
  with assms show ?thesis by (simp add: pton4_quad)
qed

text \<open>
  The text of an address with words \<open>ws\<close>: as written by the loop and the trailing colon, and read
  back. The cases are the branches of the loop.
\<close>

definition ntop6_text :: "bytes \<Rightarrow> nat list \<Rightarrow> int + string" where
  "ntop6_text src ws = (case ntop6_loop src ws (best_run ws) 0 [] of
     Inl e \<Rightarrow> Inl e
   | Inr tp \<Rightarrow> Inr (case best_run ws of
                      Some (b, l) \<Rightarrow> if b + l = 8 then tp @ '':'' else tp
                    | None \<Rightarrow> tp))"

lemma length_hex: "v < 65536 \<Longrightarrow> length (hex v) \<le> 4"
  unfolding hex_def by (intro length_utoa) simp_all

lemma length_colon_groups: "\<forall>v \<in> set vs. v < 65536 \<Longrightarrow> length (colon_groups vs) \<le> 5 * length vs"
  by (induction vs) (auto simp: colon_groups_def dest!: length_hex)

lemma length_groups_colon: "\<forall>v \<in> set vs. v < 65536 \<Longrightarrow> length (groups_colon vs) \<le> 5 * length vs"
  by (induction vs) (auto simp: groups_colon_def dest!: length_hex)

lemma text_no_run:
  assumes "length ws = 8" and "\<forall>v \<in> set ws. v < 65536" and "best_run ws = None"
  shows "\<exists>s. ntop6_text src ws = Inr s \<and> inet_pton6 s = Some (bytes_of ws) \<and> length s < 46"
proof -
  let ?s = "hex (ws ! 0) @ colon_groups (drop 1 ws)"
  have ws: "ws = ws ! 0 # drop 1 ws" using assms(1) by (cases ws) auto
  have lt: "ws ! 0 < 65536" "\<forall>v \<in> set (drop 1 ws). v < 65536"
    using assms(1,2) by (auto dest: in_set_dropD)
  have "ntop6_loop src ws None 0 [] = ntop6_loop src ws None 8 ([] @ toks ws 0 8)"
    by (rule ntop6_plain) (simp_all add: in_run_def encapsulated_def)
  with assms have written: "ntop6_text src ws = Inr ?s"
    by (simp add: ntop6_text_def toks_first)
  obtain c cs where c: "?s = c # cs" "c \<noteq> CHR '':''" using hex_first by (metis append_Cons)
  have "pton6_loop ?s [] None ?s False 0 = Some (bytes_of ws, None)"
    using lt assms(1) arg_cong [OF ws, of bytes_of] by (simp add: pton6_hex pton6_colon_groups)
  with c inet_pton6_plain [OF c(2), of cs] assms(1) have "inet_pton6 ?s = Some (bytes_of ws)"
    by (simp add: expand_def)
  moreover have "length ?s < 46"
    using length_hex [OF lt(1)] length_colon_groups [OF lt(2)] assms(1) by simp
  ultimately show ?thesis using written by blast
qed

lemma bytes_around_run:
  assumes "zeros ws b l"
  shows "bytes_of ws = bytes_of (take b ws) @ replicate (2 * l) 0 @ bytes_of (drop (b + l) ws)"
proof -
  have "take l (drop b ws) = replicate l 0"
    using assms by (auto simp: zeros_def list_eq_iff_nth_eq)
  then have "ws = take b ws @ replicate l 0 @ drop (b + l) ws"
    by (metis append_take_drop_id drop_drop add.commute)
  then show ?thesis by (metis bytes_of_simps(3) bytes_of_zeros)
qed

lemma text_run:
  assumes "length ws = 8" and "\<forall>v \<in> set ws. v < 65536" and "best_run ws = Some (b, l)"
    and "\<not> encapsulated (Some (b, l)) ws"
  shows "\<exists>s. ntop6_text src ws = Inr s \<and> inet_pton6 s = Some (bytes_of ws) \<and> length s < 46"
proof -
  let ?pre = "take b ws" and ?post = "drop (b + l) ws" and ?best = "Some (b, l)"
  have run: "2 \<le> l" "zeros ws b l" using best_run_spec [of ws] assms(3) by auto
  then have bl: "b + l \<le> 8" using assms(1) by (simp add: zeros_def)
  have lt: "\<forall>v \<in> set ?pre. v < 65536" "\<forall>v \<in> set ?post. v < 65536"
    using assms(2) by (auto dest: in_set_takeD in_set_dropD)
  define s where "s = (if b = 0 then '':'' else groups_colon ?pre) @ tail_text ?post"
  have "ntop6_loop src ws ?best 0 [] = ntop6_loop src ws ?best b ([] @ toks ws 0 b)"
    using bl assms(4) by (intro ntop6_plain) (auto simp: in_run_def)
  also have "\<dots> = ntop6_loop src ws ?best (b + l) (toks ws 0 b @ '':'')"
    using run bl by (simp add: ntop6_run)
  also have "\<dots> = ntop6_loop src ws ?best 8 ((toks ws 0 b @ '':'') @ toks ws (b + l) 8)"
    using bl assms(4) by (intro ntop6_plain) (auto simp: in_run_def)
  finally have "ntop6_text src ws = Inr (toks ws 0 b @ '':'' @ toks ws (b + l) 8 @ (if b + l = 8 then '':'' else []))"
    using assms(3) by (simp add: ntop6_text_def)
  moreover have "toks ws 0 b @ '':'' = (if b = 0 then '':'' else groups_colon ?pre)"
    using bl assms(1) toks_prefix_colon [of b ws] by (auto simp: toks_def)
  moreover have "toks ws (b + l) 8 @ (if b + l = 8 then '':'' else []) = tail_text ?post"
    using bl run assms(1) by (auto simp: tail_text_def toks_later) (simp add: colon_groups_def)
  ultimately have written: "ntop6_text src ws = Inr s" unfolding s_def by (simp only: append.assoc [symmetric])
  have tail: "pton6_loop (tail_text ?post) tmp None cur False 0 = Some (tmp @ bytes_of ?post, Some (length tmp))"
    if "length tmp = 2 * b" for tmp cur
    using that lt(2) bl assms(1) by (intro pton6_tail) auto
  have "inet_pton6 s = expand (Some (bytes_of ?pre @ bytes_of ?post, Some (length (bytes_of ?pre))))"
  proof (cases "b = 0")
    case True
    obtain cs where "tail_text ?post = '':'' @ cs"
      by (cases "?post") (auto simp: tail_text_def colon_groups_def)
    with True tail [of "[]"] inet_pton6_colons [of cs] show ?thesis by (simp add: s_def)
  next
    case False
    then have pre: "?pre \<noteq> []" using assms(1) by auto
    then obtain v vs where v: "?pre = v # vs" by (cases ?pre) auto
    obtain c ds where "hex v = c # ds" and colon: "c \<noteq> CHR '':''" by (rule hex_first)
    with v False obtain cs where c: "s = c # cs" "c \<noteq> CHR '':''"
      by (simp add: s_def groups_colon_def)
    have "pton6_loop s [] None s False 0 = pton6_loop (tail_text ?post) (bytes_of ?pre) None (tail_text ?post) False 0"
      using pton6_groups_colon [OF lt(1) _ pre, of "[]" "tail_text ?post" None s] False bl assms(1)
      by (simp add: s_def)
    with c inet_pton6_plain [OF c(2), of cs] tail [of "bytes_of ?pre"] bl assms(1) show ?thesis
      by simp
  qed
  also have "\<dots> = Some (bytes_of ws)"
    using bl run assms(1) by (subst expand_gap [of _ _ "2 * l"]) (simp_all add: bytes_around_run [of ws b l])
  finally have "inet_pton6 s = Some (bytes_of ws)" .
  moreover have "length s < 46"
    using length_groups_colon [OF lt(1)] length_colon_groups [OF lt(2)] bl run assms(1)
    by (auto simp: s_def tail_text_def)
  ultimately show ?thesis using written by blast
qed

lemma drop_bytes_of: "drop (2 * n) (bytes_of ws) = bytes_of (drop n ws)"
  by (induction n arbitrary: ws) (simp, case_tac ws, auto simp: word_bytes_def)

lemma text_encapsulated:
  assumes "length ws = 8" and "\<forall>v \<in> set ws. v < 65536" and "best_run ws = Some (b, l)"
    and "encapsulated (Some (b, l)) ws" and "src = bytes_of ws"
  shows "\<exists>s. ntop6_text src ws = Inr s \<and> inet_pton6 s = Some (bytes_of ws) \<and> length s < 46"
proof -
  let ?best = "Some (0, l)" and ?quad = "quad_text (drop 12 src)" and ?mid = "drop l (take 6 ws)"
  have b: "b = 0" and l: "l = 5 \<or> l = 6" using assms(4) by (auto simp: encapsulated_def)
  have run: "zeros ws 0 l" using best_run_spec [of ws] assms(3) b by simp
  have quad: "length (drop 12 src) = 4" using assms(1,5) by simp
  have lt: "\<forall>v \<in> set ?mid. v < 65536" "length ?mid = 6 - l"
    using assms(1,2) l by (auto dest: in_set_takeD in_set_dropD)
  have mid: "length ('':'' @ colon_groups ?mid @ '':'') \<le> 7"
    using length_colon_groups [OF lt(1)] lt(2) l by auto
  have sz: "\<not> 46 - length ('':'' @ colon_groups ?mid @ '':'') < length ?quad"
    using length_quad_text [OF quad] mid by linarith
  define s where "s = '':'' @ colon_groups ?mid @ '':'' @ ?quad"
  have "ntop6_loop src ws ?best 0 [] = ntop6_loop src ws ?best (0 + l) ([] @ '':'')"
    using l by (intro ntop6_run) auto
  also have "\<dots> = ntop6_loop src ws ?best 6 (([] @ '':'') @ toks ws l 6)"
    using l by (subst ntop6_plain [of "0 + l" 6]) (auto simp: in_run_def)
  also have "toks ws l 6 = colon_groups ?mid"
    using l assms(1) by (intro toks_later) auto
  also have "ntop6_loop src ws ?best 6 (([] @ '':'') @ colon_groups ?mid) = Inr s"
    using l assms(4) b sz
    by (subst ntop6_loop.simps) (auto simp: in_run_def Let_def inet_ntop4_def s_def)
  finally have written: "ntop6_text src ws = Inr s"
    using assms(3) b l by (auto simp: ntop6_text_def)
  have "pton6_loop (colon_groups ?mid @ '':'' @ ?quad) [] None (colon_groups ?mid @ '':'' @ ?quad) False 0
      = Some (bytes_of ?mid @ drop 12 src, Some 0)"
    using l
  proof
    assume "l = 6"
    with quad show ?thesis by (simp add: colon_groups_def pton6_quad)
  next
    assume l5: "l = 5"
    then have "?mid = [ws ! 5]" using assms(1)
      by (simp add: list_eq_iff_nth_eq)
    with quad lt(1) show ?thesis
      by (simp add: colon_groups_def pton6_hex pton6_quad put16_eq)
  qed
  moreover obtain cs where "colon_groups ?mid @ '':'' @ ?quad = '':'' @ cs"
    by (cases ?mid) (auto simp: colon_groups_def)
  ultimately have "inet_pton6 s = expand (Some (bytes_of ?mid @ drop 12 src, Some 0))"
    using inet_pton6_colons [of cs] by (simp add: s_def)
  also have "bytes_of ?mid @ drop 12 src = bytes_of (drop l ws)"
  proof -
    have "drop 12 src = bytes_of (drop 6 ws)" using drop_bytes_of [of 6 ws] assms(5) by simp
    moreover have "drop l ws = ?mid @ drop 6 ws"
      using l assms(1) by (auto simp: list_eq_iff_nth_eq nth_append)
    ultimately show ?thesis by simp
  qed
  also have "expand (Some (bytes_of (drop l ws), Some 0)) = Some (bytes_of ws)"
    using expand_gap [of "[]" "bytes_of (drop l ws)" "2 * l"] bytes_around_run [OF run] l assms(1) by auto
  finally have "inet_pton6 s = Some (bytes_of ws)" .
  moreover have "length s < 46"
    using mid length_quad_text [OF quad] by (simp add: s_def)
  ultimately show ?thesis using written by blast
qed

lemma ntop6_text_ok:
  assumes "length src = 16"
  shows "\<exists>s. ntop6_text src (words_of src) = Inr s \<and> inet_pton6 s = Some src \<and> length s < 46"
proof -
  let ?ws = "words_of src"
  have ws: "length ?ws = 8" "\<forall>v \<in> set ?ws. v < 65536" "bytes_of ?ws = src"
    using assms words_of_less by (simp_all add: length_words_of bytes_of_words_of)
  show ?thesis
  proof (cases "best_run ?ws")
    case None
    with text_no_run [OF ws(1,2)] ws(3) show ?thesis by simp
  next
    case (Some r)
    then obtain b l where "best_run ?ws = Some (b, l)" by (cases r) auto
    with text_run [OF ws(1,2) this] text_encapsulated [OF ws(1,2) this] ws(3) show ?thesis
      by (cases "encapsulated (Some (b, l)) ?ws") auto
  qed
qed

lemma inet_ntop6_text:
  "ntop6_text src (words_of src) = Inr s \<Longrightarrow>
   inet_ntop6 src sz = (if length s + 1 > sz then Inl ENOSPC else Inr s)"
  by (auto simp: inet_ntop6_def ntop6_text_def Let_def split: sum.splits option.splits)

subsection \<open>inet_aton on dotted quads\<close>

definition quad_value :: "bytes \<Rightarrow> nat" where
  "quad_value bs = foldl (\<lambda>v b. v * 256 + unat b) 0 bs"

lemma quad_value_snoc [simp]: "quad_value (bs @ [b]) = quad_value bs * 256 + unat b"
  by (simp add: quad_value_def)

lemma no_high_bit: "n < 256 \<Longrightarrow> 8 \<le> k \<Longrightarrow> \<not> bit (n :: nat) k"
  using power_increasing [of 8 k "2 :: nat"] by (simp add: bit_iff_odd)

lemma shift_or_nat:
  assumes "n < 256"
  shows "push_bit 8 (word_of_nat v) OR word_of_nat n = (word_of_nat (v * 256 + n) :: 64 word)"
proof -
  have "\<not> bit (push_bit 8 (word_of_nat v) :: 64 word) k \<or> \<not> bit (word_of_nat n :: 64 word) k" for k
    using no_high_bit [OF assms, of k] by (auto simp: bit_simps)
  then have "push_bit 8 (word_of_nat v) OR word_of_nat n = push_bit 8 (word_of_nat v) + (word_of_nat n :: 64 word)"
    by (rule disjunctive_add [symmetric])
  then show ?thesis by (simp add: push_bit_eq_mult)
qed

lemma not_over_255: "n < 256 \<Longrightarrow> \<not> 255 < (word_of_nat n :: 64 word)"
  by (simp add: word_less_nat_alt unat_of_nat take_bit_nat_eq_self)

lemma aton_loop_quad:
  assumes "pton4_loop src tmp cur saw octets = Some a" and "cur < 256"
    and "if saw then octets = Suc (length tmp) else octets = length tmp \<and> octets < 4"
    and "octets \<le> 4"
  shows "aton_loop src (length tmp) (word_of_nat cur) (word_of_nat (quad_value tmp)) =
    Some (3, word_of_nat (quad_value a))"
  using assms
proof (induction src tmp cur saw octets rule: pton4_loop.induct)
  case (1 tmp cur saw octets)
  then have "length tmp = 3" "a = tmp @ [word_of_nat cur]" by (auto split: if_splits)
  with 1(2) show ?case by (simp add: not_over_255 shift_or_nat unat_of_nat_byte)
next
  case (2 ch src tmp cur saw octets)
  show ?case
  proof (cases "digit ch")
    case (Some d)
    let ?new = "cur * 10 + d"
    from Some "2.prems"(1) have new: "\<not> ?new > 255"
      and run: "pton4_loop src tmp ?new True (if saw then octets else octets + 1) = Some a"
      and oct: "saw \<or> octets + 1 \<le> 4"
      by (auto simp: Let_def split: if_splits)
    have "aton_loop src (length tmp) (word_of_nat ?new) (word_of_nat (quad_value tmp)) =
        Some (3, word_of_nat (quad_value a))"
    proof (cases saw)
      case True
      with run "2.prems"(3,4) new show ?thesis by (intro "2.IH"(3) [OF Some refl new]) auto
    next
      case False
      with run "2.prems"(3,4) new oct show ?thesis by (intro "2.IH"(2) [OF Some refl new]) auto
    qed
    with Some show ?thesis by (simp add: mult.commute)
  next
    case None
    with "2.prems" have dot: "ch = CHR ''.''" "saw" "octets \<noteq> 4"
      and run: "pton4_loop src (tmp @ [word_of_nat cur]) 0 False octets = Some a"
      by (auto split: if_splits)
    from "2.IH"(1) [OF None] dot run "2.prems"(3,4)
    have "aton_loop src (Suc (length tmp)) 0 (word_of_nat (quad_value tmp * 256 + unat (word_of_nat cur :: byte)))
        = Some (3, word_of_nat (quad_value a))"
      by simp
    with None dot "2.prems"(2-4) show ?thesis
      by (simp add: not_over_255 shift_or_nat unat_of_nat_byte)
  qed
qed

lemma unat_ucast_byte: "unat (ucast (x :: 64 word) :: byte) = unat x mod 256"
  by (simp add: unsigned_ucast_eq take_bit_eq_mod)

lemma peel_byte: "b < 256 \<Longrightarrow> (a * 256 + b) div 256 = (a :: nat)" "b < 256 \<Longrightarrow> (a * 256 + b) mod 256 = b"
  by simp_all

lemma htonl_quad:
  assumes "length a = 4"
  shows "htonl_bytes (word_of_nat (quad_value a)) = a"
proof -
  from assms obtain p q r s where a: "a = [p, q, r, s]" by (auto simp: length_4_cases)
  define v2 where "v2 = unat p * 256 + unat q"
  define v3 where "v3 = v2 * 256 + unat r"
  define v where "v = v3 * 256 + unat s"
  define x where "x = (word_of_nat v :: 64 word)"
  note b = unat_byte_less [of p] unat_byte_less [of q] unat_byte_less [of r] unat_byte_less [of s]
  have "v < 2 ^ LENGTH(64)" using b by (simp add: v_def v3_def v2_def del: unat_byte_less)
  then have u: "unat x = v" unfolding x_def unat_of_nat by (rule mod_less)
  have byte: "unat (ucast (drop_bit k x) :: byte) = v div 2 ^ k mod 256" for k
    by (simp only: unat_ucast_byte unat_drop_bit_eq u) (simp only: drop_bit_eq_div)
  have "v div 256 = v3" "v mod 256 = unat s" "v3 div 256 = v2" "v3 mod 256 = unat r"
    "v2 div 256 = unat p" "v2 mod 256 = unat q"
    unfolding v_def v3_def v2_def by (simp_all only: peel_byte unat_byte_less)
  moreover have "v div 65536 = v div 256 div 256" "v div 16777216 = v div 256 div 256 div 256"
    by (simp_all flip: div_mult2_eq)
  ultimately have "htonl_bytes x = a"
    using byte [of 24] byte [of 16] byte [of 8] byte [of 0]
    by (simp add: htonl_bytes_def a word_unat_eq_iff)
  then show ?thesis by (simp add: x_def v_def v3_def v2_def a quad_value_def)
qed

lemma inet_aton_quad: "inet_pton4 src = Some a \<Longrightarrow> inet_aton src = Some a"
  using aton_loop_quad [of src "[]" 0 False 0 a] inet_pton4_length [of src a] htonl_quad [of a]
  by (simp add: inet_pton4_def inet_aton_def quad_value_def)

subsection \<open>The interface of a printer and its parser\<close>

text \<open>
  What the users of the conversion functions rely on: an address of the right size is printed
  when the buffer has the size the headers define, the text fits with its terminator, and the
  parser reads the address back. Then no two addresses share a text, in any buffer.
\<close>

locale address_codec =
  fixes print :: "bytes \<Rightarrow> nat \<Rightarrow> int + string"
    and parse :: "string \<Rightarrow> bytes option"
    and size_of :: nat and strlen :: nat
  assumes print_fits: "length a = size_of \<Longrightarrow> strlen \<le> sz \<Longrightarrow> \<exists>s. print a sz = Inr s \<and> length s < strlen"
    and print_stable: "print a sz = Inr s \<Longrightarrow> sz \<le> sz' \<Longrightarrow> print a sz' = Inr s"
    and parse_print: "length a = size_of \<Longrightarrow> print a sz = Inr s \<Longrightarrow> parse s = Some a"
begin

lemma print_inj:
  assumes "length a = size_of" and "length b = size_of" and "print a sz = Inr s" and "print b sz' = Inr s"
  shows "a = b"
  using parse_print [OF assms(1,3)] parse_print [OF assms(2,4)] by simp

lemma print_parse_ok:
  assumes "length a = size_of" and "strlen \<le> sz"
  shows "\<exists>s. print a sz = Inr s \<and> parse s = Some a \<and> length s < sz"
  using print_fits [OF assms] parse_print [OF assms(1)] assms(2) by fastforce

lemma print_short:
  assumes "length a = size_of" and "print a sz = Inr s"
  shows "length s < strlen"
proof -
  obtain s' where "print a (max sz strlen) = Inr s'" "length s' < strlen"
    using print_fits [OF assms(1), of "max sz strlen"] by auto
  with print_stable [OF assms(2), of "max sz strlen"] show ?thesis by simp
qed

end

interpretation ip4: address_codec inet_ntop4 inet_pton4 4 INET_ADDRSTRLEN
proof
  fix a :: bytes and sz
  assume "length a = 4" "INET_ADDRSTRLEN \<le> sz"
  with length_quad_text [of a] show "\<exists>s. inet_ntop4 a sz = Inr s \<and> length s < INET_ADDRSTRLEN"
    by (auto simp: inet_ntop4_def INET_ADDRSTRLEN_def)
qed (auto simp: inet_ntop4_def Let_def pton4_quad split: if_splits)

interpretation ip6: address_codec inet_ntop6 inet_pton6 16 INET6_ADDRSTRLEN
proof
  fix a :: bytes and sz
  assume "length a = 16" "INET6_ADDRSTRLEN \<le> sz"
  with ntop6_text_ok [of a] show "\<exists>s. inet_ntop6 a sz = Inr s \<and> length s < INET6_ADDRSTRLEN"
    by (auto simp: inet_ntop6_text INET6_ADDRSTRLEN_def)
next
  fix a :: bytes and sz s
  assume "length a = 16" "inet_ntop6 a sz = Inr s"
  with ntop6_text_ok [of a] show "inet_pton6 s = Some a"
    by (auto simp: inet_ntop6_text split: if_splits)
qed (auto simp: inet_ntop6_def Let_def split: sum.splits option.splits if_splits)

interpretation ip4only: address_codec "inet_ntop_ipv4 AF_INET" inet_aton 4 INET_ADDRSTRLEN
proof
  fix a :: bytes and sz
  assume "length a = 4" "INET_ADDRSTRLEN \<le> sz"
  with length_quad_text [of a]
  show "\<exists>s. inet_ntop_ipv4 AF_INET a sz = Inr s \<and> length s < INET_ADDRSTRLEN"
    by (auto simp: inet_ntop_ipv4_def INET_ADDRSTRLEN_def)
next
  fix a :: bytes and sz s
  assume a: "length a = 4" and "inet_ntop_ipv4 AF_INET a sz = Inr s"
  then have "s = quad_text a"
    using length_quad_text [OF a] by (auto simp: inet_ntop_ipv4_def INET_ADDRSTRLEN_def Let_def split: if_splits)
  with pton4_quad [OF a] show "inet_aton s = Some a" by (simp add: inet_aton_quad)
qed (auto simp: inet_ntop_ipv4_def Let_def split: if_splits)

section \<open>Properties\<close>

text \<open>
  (C16) Every address survives printing and parsing: with a buffer of the size the headers define
  \<^verbatim>\<open>inet_ntop\<close> succeeds for every IPv4 and IPv6 address, the text and its terminator fit, and
  \<^verbatim>\<open>inet_pton\<close> reads back exactly the address, \<^verbatim>\<open>::\<close> shorthand and embedded dotted quads
  included.
\<close>

theorem inet_ntop_inet_pton:
  assumes "af = AF_INET \<and> length a = 4 \<and> INET_ADDRSTRLEN \<le> sz
    \<or> af = AF_INET6 \<and> length a = 16 \<and> INET6_ADDRSTRLEN \<le> sz"
  shows "\<exists>s. inet_ntop af a sz = Inr s \<and> inet_pton af s = Inr (Some a) \<and> length s < sz"
  using assms ip4.print_parse_ok [of a sz] ip6.print_parse_ok [of a sz]
  by (auto simp: inet_ntop_def inet_pton_def)

theorem inet_ntop_inet_pton_witness:
  "\<exists>s. inet_ntop AF_INET6 [32, 1, 13, 184, 0, 0, 0, 0, 0, 0, 0, 0, 0, 0, 0, 1] 46 = Inr s \<and>
     inet_pton AF_INET6 s = Inr (Some [32, 1, 13, 184, 0, 0, 0, 0, 0, 0, 0, 0, 0, 0, 0, 1]) \<and>
     length s < 46"
  by (rule inet_ntop_inet_pton) (simp add: INET6_ADDRSTRLEN_def)

text \<open>
  \<^verbatim>\<open>inet_ntop6\<close> abbreviates a longest run of zero words: the run it picks consists of zeros, is
  at least two words long, and no run of zeros in the address is longer; it picks none only when no
  run has two words.
\<close>

theorem best_run_longest:
  "case best_run ws of
     Some (b, l) \<Rightarrow> 2 \<le> l \<and> zeros ws b l \<and> (\<forall>b' l'. zeros ws b' l' \<longrightarrow> l' \<le> l)
   | None \<Rightarrow> \<forall>b' l'. zeros ws b' l' \<longrightarrow> l' < 2"
  by (rule best_run_spec)

theorem best_run_longest_witness:
  "best_run [8193, 0, 0, 1, 0, 0, 0, 1] = Some (4, 3) \<and>
     \<not> zeros [8193, 0, 0, 1, 0, 0, 0, 1] 1 4"
proof -
  have "best_run [8193, 0, 0, 1, 0, 0, 0, 1] = Some (4, 3)"
    by (simp add: best_run_def better_def)
  with best_run_longest [of "[8193, 0, 0, 1, 0, 0, 0, 1]"] show ?thesis by fastforce
qed

text \<open>
  \<^verbatim>\<open>inet_aton\<close> reads every dotted quad that \<^verbatim>\<open>inet_pton4\<close> accepts as the same address, in spite
  of its different arithmetic (one 64 bit accumulator against separate bytes).
\<close>

theorem inet_aton_agrees:
  assumes "inet_pton AF_INET s = Inr (Some a)"
  shows "inet_aton s = Some a"
  using assms by (simp add: inet_pton_def inet_aton_quad)

theorem inet_aton_agrees_witness: "inet_aton ''192.168.7.255'' = Some [192, 168, 7, 255]"
proof -
  have "inet_pton4 ''192.168.7.255'' = Some [192, 168, 7, 255]"
    using pton4_quad [of "[192, 168, 7, 255]"]
    by (simp add: quad_text_def dec_def utoa.simps digit_char_def)
  then show ?thesis by (intro inet_aton_agrees) (simp add: inet_pton_def)
qed

section \<open>Divergences\<close>

text \<open>
  The comment on \<^verbatim>\<open>inet_pton6\<close> promises that \<^verbatim>\<open>::\<close> in a full address is silently ignored. When the
  eight groups are all there the shift copies every byte onto itself and clears it, so the
  groups after \<^verbatim>\<open>::\<close> become zero.
\<close>

lemma shift_loop_full:
  assumes "length pre + length post = 16" and "j \<le> length post"
  shows "shift_loop (length pre) (length post) (Suc j) (pre @ take (length post - j) post @ replicate j 0)
     = pre @ replicate (length post) 0"
  using assms(2)
proof (induction "length post - j" arbitrary: j)
  case 0
  then show ?case by (subst shift_loop.simps) simp
next
  case (Suc m)
  let ?n = "length post" and ?x = "post ! m" and ?A = "pre @ take m post" and ?B = "replicate j (0 :: byte)"
  have m: "?n - j = Suc m" "m < ?n" "?n - Suc j = m" using Suc by auto
  have arr: "pre @ take (?n - j) post @ ?B = ?A @ ?x # ?B"
    using m by (simp add: take_Suc_conv_app_nth)
  have pos: "length pre + ?n - Suc j = length ?A" "16 - Suc j = length ?A"
    using m assms(1) Suc.hyps(2) Suc.prems by simp_all
  have "?A @ 0 # ?B = pre @ take (?n - Suc j) post @ replicate (Suc j) 0"
    using m by simp
  moreover have "Suc j \<le> ?n" using m(1) by simp
  ultimately have "shift_loop (length pre) ?n (Suc j) (pre @ take (?n - j) post @ ?B)
      = shift_loop (length pre) ?n (Suc (Suc j)) (pre @ take (?n - Suc j) post @ replicate (Suc j) 0)"
    unfolding arr by (simp only: shift_loop_step pos list_update_length)
  also have "\<dots> = pre @ replicate ?n 0"
    using Suc.hyps(1) [of "Suc j"] m Suc.prems Suc.hyps(2) by simp
  finally show ?case .
qed

lemma inet_pton6_full_address_cleared:
  assumes "length pre + length post = 8" and "pre \<noteq> []" and "post \<noteq> []"
    and "\<forall>v \<in> set pre. v < 65536" and "\<forall>v \<in> set post. v < 65536"
  shows "inet_pton6 (groups_colon pre @ colon_groups post) = Some (bytes_of pre @ replicate (2 * length post) 0)"
proof -
  let ?s = "groups_colon pre @ tail_text post"
  obtain v vs where v: "pre = v # vs" using assms(2) by (cases pre) auto
  obtain c ds where "hex v = c # ds" and "c \<noteq> CHR '':''" by (rule hex_first)
  with v obtain cs where c: "?s = c # cs" "c \<noteq> CHR '':''" by (simp add: groups_colon_def)
  have "pton6_loop ?s [] None ?s False 0 = Some (bytes_of pre @ bytes_of post, Some (length (bytes_of pre)))"
    using assms by (simp add: pton6_groups_colon pton6_tail)
  with c inet_pton6_plain [OF c(2), of cs]
  have "inet_pton6 ?s = expand (Some (bytes_of pre @ bytes_of post, Some (length (bytes_of pre))))"
    by simp
  also have "\<dots> = Some (bytes_of pre @ replicate (2 * length post) 0)"
    using shift_loop_full [of "bytes_of pre" "bytes_of post" 0] assms(1)
    by (simp add: expand_def)
  finally show ?thesis using assms(3) by (simp add: tail_text_def)
qed

text \<open>\<^verbatim>\<open>inet_aton\<close>: the accumulator wraps around before it is compared with 255; no digit is needed.\<close>

lemma inet_aton_wraps: "inet_aton ''18446744073709551617.0.0.1'' = Some [1, 0, 0, 1]"
  by code_simp

lemma inet_aton_empty: "inet_aton [] = Some [0, 0, 0, 0]"
  by code_simp

text \<open>\<^verbatim>\<open>inet_ntop4\<close> accepts a buffer without room for the terminating null byte.\<close>

lemma inet_ntop4_no_terminator: "inet_ntop4 a (length (quad_text a)) = Inr (quad_text a)"
  by (simp add: inet_ntop4_def)

end
