(* ===== verification/Unp_Wrap.thy ===== *)
theory Unp_Wrap
  imports Unp_World Inet_Addr
begin

text \<open>
  The wrapper functions of \<^verbatim>\<open>lib/wrapsock.c\<close>, \<^verbatim>\<open>lib/wrapunix.c\<close>, \<^verbatim>\<open>lib/wrapstdio.c\<close>,
  \<^verbatim>\<open>lib/wraplib.c\<close> and \<^verbatim>\<open>lib/wrappthread.c\<close>: each makes one call and ends the process with a
  diagnostic when it failed. Output arguments are part of the result. Their common shape is
  \<^verbatim>\<open>checked\<close>; the locale \<^verbatim>\<open>wrapper\<close> states what a caller gets from it.
\<close>

section \<open>The common shape\<close>

definition checked :: "('a \<Rightarrow> bool) \<Rightarrow> string \<Rightarrow> 'a run \<Rightarrow> 'a run" where
  "checked bad msg m = then_run m (\<lambda>r w. if bad r then err_sys msg w else Ret r w)"

definition checked_quit :: "('a \<Rightarrow> bool) \<Rightarrow> string \<Rightarrow> 'a run \<Rightarrow> 'a run" where
  "checked_quit bad msg m = then_run m (\<lambda>r w. if bad r then err_quit msg w else Ret r w)"

definition void :: "'a run \<Rightarrow> unit run" where
  "void m = then_run m (\<lambda>_ w. Ret () w)"

section \<open>lib/wrapsock.c\<close>

function Accept :: "fd \<Rightarrow> world \<Rightarrow> (int \<times> sockaddr) run" where
  "Accept fd w = then_run (sys_addr (C_accept fd) w) (\<lambda>r w.
     if fst r < 0 then
       (if errno w = EPROTO \<or> errno w = ECONNABORTED then Accept fd w
        else err_sys ''accept error'' w)
     else Ret r w)"
  by pat_completeness auto
termination
  by (relation "measure (\<lambda>(fd, w). length (script w))") (auto dest: sys_addr_consumes)

declare Accept.simps [simp del]

definition Bind :: "fd \<Rightarrow> sockaddr \<Rightarrow> world \<Rightarrow> unit run" where
  "Bind fd sa w = void (checked (\<lambda>n. n < 0) ''bind error'' (sys_unit (C_bind fd sa) w))"

definition Connect :: "fd \<Rightarrow> sockaddr \<Rightarrow> world \<Rightarrow> unit run" where
  "Connect fd sa w = void (checked (\<lambda>n. n < 0) ''connect error'' (sys_unit (C_connect fd sa) w))"

definition Getpeername :: "fd \<Rightarrow> world \<Rightarrow> (int \<times> sockaddr) run" where
  "Getpeername fd w =
     checked (\<lambda>r. fst r < 0) ''getpeername error'' (sys_addr (C_getpeername fd) w)"

definition Getsockname :: "fd \<Rightarrow> world \<Rightarrow> (int \<times> sockaddr) run" where
  "Getsockname fd w =
     checked (\<lambda>r. fst r < 0) ''getsockname error'' (sys_addr (C_getsockname fd) w)"

definition Getsockopt :: "fd \<Rightarrow> int \<Rightarrow> int \<Rightarrow> world \<Rightarrow> (int \<times> optval) run" where
  "Getsockopt fd level optname w =
     checked (\<lambda>r. fst r < 0) ''getsockopt error'' (sys_opt (C_getsockopt fd level optname) w)"

definition Inet6_rth_space :: "int \<Rightarrow> int \<Rightarrow> world \<Rightarrow> int run" where
  "Inet6_rth_space type segments w = checked_quit (\<lambda>ret. ret < 0) ''inet6_rth_space error''
     (sys_int (C_other ''inet6_rth_space'' [type, segments]) w)"

definition Inet6_rth_init :: "int \<Rightarrow> int \<Rightarrow> int \<Rightarrow> world \<Rightarrow> int run" where
  "Inet6_rth_init rthlen type segments w = checked_quit (\<lambda>ret. ret < 0) ''inet6_rth_init error''
     (sys_int (C_other ''inet6_rth_init'' [rthlen, type, segments]) w)"

definition Inet6_rth_add :: "bytes \<Rightarrow> world \<Rightarrow> unit run" where
  "Inet6_rth_add addr w = void (checked_quit (\<lambda>ret. ret < 0) ''inet6_rth_add error''
     (sys_int (C_other ''inet6_rth_add'' (map uint addr)) w))"

definition Inet6_rth_reverse :: "world \<Rightarrow> unit run" where
  "Inet6_rth_reverse w = void (checked_quit (\<lambda>ret. ret < 0) ''inet6_rth_reverse error''
     (sys_int (C_other ''inet6_rth_reverse'' []) w))"

definition Inet6_rth_segments :: "world \<Rightarrow> int run" where
  "Inet6_rth_segments w = checked_quit (\<lambda>ret. ret < 0) ''inet6_rth_segments error''
     (sys_int (C_other ''inet6_rth_segments'' []) w)"

definition Inet6_rth_getaddr :: "int \<Rightarrow> world \<Rightarrow> int run" where
  "Inet6_rth_getaddr idx w = checked_quit (\<lambda>ret. ret < 0) ''inet6_rth_getaddr error''
     (sys_int (C_other ''inet6_rth_getaddr'' [idx]) w)"

text \<open>\<^verbatim>\<open>atoi\<close>: white space, an optional sign, digits; what follows is ignored.\<close>

fun atoi_digits :: "int \<Rightarrow> string \<Rightarrow> int" where
  "atoi_digits n [] = n"
| "atoi_digits n (c # cs) =
     (case digit c of Some d \<Rightarrow> atoi_digits (n * 10 + int d) cs | None \<Rightarrow> n)"

definition is_space :: "char \<Rightarrow> bool" where
  "is_space c \<longleftrightarrow> c \<in> set [CHR '' '', CHR 0x09, CHR 0x0A, CHR 0x0B, CHR 0x0C, CHR 0x0D]"

definition atoi :: "string \<Rightarrow> int" where
  "atoi s =
     (let t = dropWhile is_space s in
      if t \<noteq> [] \<and> hd t = CHR ''-'' then - atoi_digits 0 (tl t)
      else if t \<noteq> [] \<and> hd t = CHR ''+'' then atoi_digits 0 (tl t)
      else atoi_digits 0 t)"

definition Listen :: "fd \<Rightarrow> int \<Rightarrow> world \<Rightarrow> unit run" where
  "Listen fd backlog w =
     (let backlog = (case getenv_of w ''LISTENQ'' of Some ptr \<Rightarrow> atoi ptr | None \<Rightarrow> backlog) in
      void (checked (\<lambda>n. n < 0) ''listen error'' (sys_unit (C_listen fd backlog) w)))"

definition Poll :: "(fd \<times> int) list \<Rightarrow> int \<Rightarrow> world \<Rightarrow> (int \<times> int list) run" where
  "Poll fdarray tmo w = checked (\<lambda>r. fst r < 0) ''poll error'' (sys_poll fdarray tmo w)"

definition Recv :: "fd \<Rightarrow> nat \<Rightarrow> int \<Rightarrow> world \<Rightarrow> (int \<times> bytes) run" where
  "Recv fd nbytes flags w =
     checked (\<lambda>r. fst r < 0) ''recv error'' (sys_data (C_recv fd nbytes flags) nbytes w)"

definition Recvfrom :: "fd \<Rightarrow> nat \<Rightarrow> int \<Rightarrow> world \<Rightarrow> (int \<times> bytes \<times> sockaddr) run" where
  "Recvfrom fd nbytes flags w =
     checked (\<lambda>r. fst r < 0) ''recvfrom error'' (sys_recvfrom fd nbytes flags w)"

definition Recvmsg :: "fd \<Rightarrow> nat \<Rightarrow> world \<Rightarrow> (int \<times> bytes \<times> sockaddr \<times> cmsg list) run" where
  "Recvmsg fd nbytes w = checked (\<lambda>r. fst r < 0) ''recvmsg error'' (sys_recvmsg fd nbytes w)"

definition Select ::
  "int \<Rightarrow> fd set \<Rightarrow> fd set \<Rightarrow> int option \<Rightarrow> world \<Rightarrow> (int \<times> fd set \<times> fd set) run" where
  "Select nfds readfds writefds timeout w =
     checked (\<lambda>r. fst r < 0) ''select error'' (sys_select nfds readfds writefds timeout w)"

definition Send :: "fd \<Rightarrow> bytes \<Rightarrow> int \<Rightarrow> world \<Rightarrow> unit run" where
  "Send fd buf flags w = void (checked (\<lambda>n. n \<noteq> int (length buf)) ''send error''
     (sys_accepts (C_send fd buf flags) (length buf) w))"

definition Sendto :: "fd \<Rightarrow> bytes \<Rightarrow> int \<Rightarrow> sockaddr \<Rightarrow> world \<Rightarrow> unit run" where
  "Sendto fd buf flags sa w = void (checked (\<lambda>n. n \<noteq> int (length buf)) ''sendto error''
     (sys_accepts (C_sendto fd buf flags sa) (length buf) w))"

text \<open>The data of a message is the concatenation of its I/O vectors.\<close>

definition Sendmsg :: "fd \<Rightarrow> bytes list \<Rightarrow> sockaddr \<Rightarrow> cmsg list \<Rightarrow> world \<Rightarrow> unit run" where
  "Sendmsg fd iov name control w =
     (let nbytes = sum_list (map length iov) in
      void (checked (\<lambda>n. n \<noteq> int nbytes) ''sendmsg error''
        (sys_accepts (C_sendmsg fd (concat iov) name control) nbytes w)))"

definition Setsockopt :: "fd \<Rightarrow> int \<Rightarrow> int \<Rightarrow> optval \<Rightarrow> world \<Rightarrow> unit run" where
  "Setsockopt fd level optname v w = void (checked (\<lambda>n. n < 0) ''setsockopt error''
     (sys_unit (C_setsockopt fd level optname v) w))"

definition Shutdown :: "fd \<Rightarrow> int \<Rightarrow> world \<Rightarrow> unit run" where
  "Shutdown fd how w = void (checked (\<lambda>n. n < 0) ''shutdown error'' (sys_unit (C_shutdown fd how) w))"

definition Sockatmark :: "fd \<Rightarrow> world \<Rightarrow> int run" where
  "Sockatmark fd w =
     checked (\<lambda>n. n < 0) ''sockatmark error'' (sys_int (C_other ''sockatmark'' [fd]) w)"

definition Socket :: "int \<Rightarrow> int \<Rightarrow> int \<Rightarrow> world \<Rightarrow> int run" where
  "Socket family type protocol w =
     checked (\<lambda>n. n < 0) ''socket error'' (sys_int (C_socket family type protocol) w)"

text \<open>Calls that store two descriptors.\<close>

definition sys_pair :: "call \<Rightarrow> world \<Rightarrow> (int \<times> int list) run" where
  "sys_pair c w = then_run (sys c w) (\<lambda>a w. Ret (if a_err a = 0 then 0 else - 1, a_ints a) w)"

definition Socketpair :: "int \<Rightarrow> int \<Rightarrow> int \<Rightarrow> world \<Rightarrow> (int \<times> int list) run" where
  "Socketpair family type protocol w = checked (\<lambda>r. fst r < 0) ''socketpair error''
     (sys_pair (C_other ''socketpair'' [family, type, protocol]) w)"

section \<open>lib/wrapunix.c\<close>

text \<open>A pointer is the address the allocator answered with.\<close>

definition Calloc :: "nat \<Rightarrow> nat \<Rightarrow> world \<Rightarrow> int run" where
  "Calloc n sz w =
     checked (\<lambda>p. p = - 1) ''calloc error'' (sys_int (C_other ''calloc'' [int n, int sz]) w)"

definition Close :: "fd \<Rightarrow> world \<Rightarrow> unit run" where
  "Close fd w = void (checked (\<lambda>n. n = - 1) ''close error'' (sys_unit (C_close fd) w))"

definition Dup2 :: "fd \<Rightarrow> fd \<Rightarrow> world \<Rightarrow> unit run" where
  "Dup2 fd1 fd2 w =
     void (checked (\<lambda>n. n = - 1) ''dup2 error'' (sys_int (C_other ''dup2'' [fd1, fd2]) w))"

definition Fcntl :: "fd \<Rightarrow> int \<Rightarrow> int \<Rightarrow> world \<Rightarrow> int run" where
  "Fcntl fd cmd arg w = checked (\<lambda>n. n = - 1) ''fcntl error'' (sys_int (C_fcntl fd cmd arg) w)"

definition sys_time :: "world \<Rightarrow> (int \<times> int \<times> int) run" where
  "sys_time w = then_run (sys C_gettimeofday w) (\<lambda>a w.
     Ret (if a_err a = 0 then 0 else - 1, a_time a) w)"

definition Gettimeofday :: "world \<Rightarrow> (int \<times> int) run" where
  "Gettimeofday w = then_run (checked (\<lambda>r. fst r = - 1) ''gettimeofday error'' (sys_time w))
     (\<lambda>r w. Ret (snd r) w)"

definition Ioctl :: "fd \<Rightarrow> int \<Rightarrow> world \<Rightarrow> int run" where
  "Ioctl fd request w = checked (\<lambda>n. n = - 1) ''ioctl error'' (sys_int (C_ioctl fd request) w)"

definition Fork :: "world \<Rightarrow> int run" where
  "Fork w = checked (\<lambda>pid. pid = - 1) ''fork error'' (sys_int C_fork w)"

definition Malloc :: "nat \<Rightarrow> world \<Rightarrow> int run" where
  "Malloc sz w = checked (\<lambda>p. p = - 1) ''malloc error'' (sys_int (C_other ''malloc'' [int sz]) w)"

definition Mkstemp :: "string \<Rightarrow> world \<Rightarrow> int run" where
  "Mkstemp template w =
     checked_quit (\<lambda>i. i < 0) ''mkstemp error'' (sys_int (C_path ''mkstemp'' template []) w)"

definition Mmap :: "int \<Rightarrow> nat \<Rightarrow> int \<Rightarrow> int \<Rightarrow> fd \<Rightarrow> int \<Rightarrow> world \<Rightarrow> int run" where
  "Mmap addr len prot flags fd offset w = checked (\<lambda>p. p = - 1) ''mmap error''
     (sys_int (C_other ''mmap'' [addr, int len, prot, flags, fd, offset]) w)"

definition Open :: "string \<Rightarrow> int \<Rightarrow> int \<Rightarrow> world \<Rightarrow> int run" where
  "Open pathname oflag mode w = checked (\<lambda>fd. fd = - 1) (''open error for '' @ pathname)
     (sys_int (C_path ''open'' pathname [oflag, mode]) w)"

definition Pipe :: "world \<Rightarrow> (int \<times> int list) run" where
  "Pipe w = checked (\<lambda>r. fst r < 0) ''pipe error'' (sys_pair (C_other ''pipe'' []) w)"

definition Read :: "fd \<Rightarrow> nat \<Rightarrow> world \<Rightarrow> (int \<times> bytes) run" where
  "Read fd nbytes w = checked (\<lambda>r. fst r = - 1) ''read error'' (sys_read fd nbytes w)"

text \<open>
  Signal sets are kept in the process; the functions on them fail with \<^verbatim>\<open>EINVAL\<close> for a number
  that is not a signal (the platform has 64).
\<close>

definition valid_signo :: "int \<Rightarrow> bool" where "valid_signo signo \<longleftrightarrow> 1 \<le> signo \<and> signo \<le> 64"

definition sigset_op :: "int \<Rightarrow> 'a \<Rightarrow> 'a \<Rightarrow> world \<Rightarrow> (int \<times> 'a) run" where
  "sigset_op signo new old w =
     (if valid_signo signo then Ret (0, new) w else Ret (- 1, old) (set_errno EINVAL w))"

definition Sigaddset :: "int set \<Rightarrow> int \<Rightarrow> world \<Rightarrow> int set run" where
  "Sigaddset S signo w = then_run
     (checked (\<lambda>r. fst r = - 1) ''sigaddset error'' (sigset_op signo (insert signo S) S w))
     (\<lambda>r w. Ret (snd r) w)"

definition Sigdelset :: "int set \<Rightarrow> int \<Rightarrow> world \<Rightarrow> int set run" where
  "Sigdelset S signo w = then_run
     (checked (\<lambda>r. fst r = - 1) ''sigdelset error'' (sigset_op signo (S - {signo}) S w))
     (\<lambda>r w. Ret (snd r) w)"

definition Sigemptyset :: "world \<Rightarrow> int set run" where
  "Sigemptyset w = Ret {} w"

definition Sigfillset :: "world \<Rightarrow> int set run" where
  "Sigfillset w = Ret {1..64} w"

definition Sigismember :: "int set \<Rightarrow> int \<Rightarrow> world \<Rightarrow> int run" where
  "Sigismember S signo w = then_run
     (checked (\<lambda>r. fst r = - 1) ''sigismember error''
        (sigset_op signo (if signo \<in> S then 1 else 0) 0 w))
     (\<lambda>r w. Ret (snd r) w)"

definition Sigprocmask :: "int \<Rightarrow> int set \<Rightarrow> world \<Rightarrow> (int \<times> int list) run" where
  "Sigprocmask how S w =
     checked (\<lambda>r. fst r = - 1) ''sigprocmask error'' (sys_pair (C_sigprocmask how S) w)"

definition Sigpending :: "world \<Rightarrow> (int \<times> int list) run" where
  "Sigpending w = checked (\<lambda>r. fst r = - 1) ''sigpending error'' (sys_pair (C_other ''sigpending'' []) w)"

definition Strdup :: "string \<Rightarrow> world \<Rightarrow> int run" where
  "Strdup str w = checked (\<lambda>p. p = - 1) ''strdup error'' (sys_int (C_path ''strdup'' str []) w)"

definition Sysconf :: "int \<Rightarrow> world \<Rightarrow> int run" where
  "Sysconf name w =
     checked (\<lambda>n. n = - 1) ''sysconf error'' (sys_int (C_other ''sysconf'' [name]) (set_errno 0 w))"

definition Sysctl :: "int list \<Rightarrow> world \<Rightarrow> unit run" where
  "Sysctl name w = void (checked (\<lambda>n. n = - 1) ''sysctl error'' (sys_unit (C_other ''sysctl'' name) w))"

definition Unlink :: "string \<Rightarrow> world \<Rightarrow> unit run" where
  "Unlink pathname w = void (checked (\<lambda>n. n = - 1) (''unlink error for '' @ pathname)
     (sys_unit (C_unlink pathname) w))"

text \<open>\<^verbatim>\<open>wait\<close> and \<^verbatim>\<open>waitpid\<close> return a process and store its status.\<close>

definition sys_wait :: "call \<Rightarrow> world \<Rightarrow> (int \<times> int list) run" where
  "sys_wait c w = then_run (sys c w) (\<lambda>a w.
     Ret (if a_err a = 0 then int (a_val a) else - 1, a_ints a) w)"

definition Wait :: "world \<Rightarrow> (int \<times> int list) run" where
  "Wait w = checked (\<lambda>r. fst r = - 1) ''wait error'' (sys_wait (C_other ''wait'' []) w)"

definition Waitpid :: "int \<Rightarrow> int \<Rightarrow> world \<Rightarrow> (int \<times> int list) run" where
  "Waitpid pid options w =
     checked (\<lambda>r. fst r = - 1) ''waitpid error'' (sys_wait (C_other ''waitpid'' [pid, options]) w)"

definition Write :: "fd \<Rightarrow> bytes \<Rightarrow> world \<Rightarrow> unit run" where
  "Write fd buf w = void (checked (\<lambda>n. n \<noteq> int (length buf)) ''write error'' (sys_write fd buf w))"

section \<open>lib/wrapstdio.c\<close>

text \<open>
  A stream is known by its descriptor. \<^verbatim>\<open>fgets\<close> delivers at most \<open>n - 1\<close> bytes, up to and
  including the first newline; no bytes is the null pointer it returns at end of file and on
  errors.
\<close>

definition first_line :: "bytes \<Rightarrow> bytes" where
  "first_line bs = takeWhile (\<lambda>b. b \<noteq> 10) bs @ (if 10 \<in> set bs then [10] else [])"

definition Fgets :: "int \<Rightarrow> nat \<Rightarrow> world \<Rightarrow> bytes option run" where
  "Fgets stream n w = then_run (sys (C_fgets stream n) w) (\<lambda>a w.
     let line = first_line (take (n - 1) (a_data a)) in
     if a_err a \<noteq> 0 then err_sys ''fgets error'' w
     else Ret (if line = [] then None else Some line) w)"

definition Fputs :: "int \<Rightarrow> bytes \<Rightarrow> world \<Rightarrow> unit run" where
  "Fputs stream text w =
     void (checked (\<lambda>n. n = - 1) ''fputs error'' (sys_unit (C_fputs stream text) w))"

definition Fclose :: "int \<Rightarrow> world \<Rightarrow> unit run" where
  "Fclose fp w = void (checked (\<lambda>n. n \<noteq> 0) ''fclose error'' (sys_unit (C_other ''fclose'' [fp]) w))"

definition Fdopen :: "fd \<Rightarrow> string \<Rightarrow> world \<Rightarrow> int run" where
  "Fdopen fd type w =
     checked (\<lambda>fp. fp = - 1) ''fdopen error'' (sys_int (C_path ''fdopen'' type [fd]) w)"

definition Fopen :: "string \<Rightarrow> string \<Rightarrow> world \<Rightarrow> int run" where
  "Fopen filename mode w =
     checked (\<lambda>fp. fp = - 1) ''fopen error'' (sys_int (C_path ''fopen'' filename (map of_char mode)) w)"

section \<open>lib/wraplib.c\<close>

definition Inet_ntop :: "int \<Rightarrow> bytes \<Rightarrow> nat option \<Rightarrow> world \<Rightarrow> string run" where
  "Inet_ntop family addr dst w =
     (case dst of
        None \<Rightarrow> err_quit ''NULL 3rd argument to inet_ntop'' w
      | Some len \<Rightarrow>
          (case inet_ntop family addr len of
             Inl e \<Rightarrow> err_sys ''inet_ntop error'' (set_errno e w)
           | Inr s \<Rightarrow> Ret s w))"

definition Inet_pton :: "int \<Rightarrow> string \<Rightarrow> world \<Rightarrow> bytes run" where
  "Inet_pton family strptr w =
     (case inet_pton family strptr of
        Inl e \<Rightarrow> err_sys (''inet_pton error for '' @ strptr) (set_errno e w)
      | Inr None \<Rightarrow> err_quit (''inet_pton error for '' @ strptr) w
      | Inr (Some addr) \<Rightarrow> Ret addr w)"

section \<open>lib/wrappthread.c\<close>

text \<open>Thread functions return an error number, which the wrappers store in \<^verbatim>\<open>errno\<close>.\<close>

definition pthread_checked :: "string \<Rightarrow> int list \<Rightarrow> world \<Rightarrow> unit run" where
  "pthread_checked name args w = then_run (sys_code (C_other name args) w) (\<lambda>n w.
     if n = 0 then Ret () w else err_sys (name @ '' error'') (set_errno n w))"

definition Pthread_create :: "int \<Rightarrow> world \<Rightarrow> unit run" where
  "Pthread_create arg w = pthread_checked ''pthread_create'' [arg] w"

definition Pthread_join :: "int \<Rightarrow> world \<Rightarrow> unit run" where
  "Pthread_join tid w = pthread_checked ''pthread_join'' [tid] w"

definition Pthread_detach :: "int \<Rightarrow> world \<Rightarrow> unit run" where
  "Pthread_detach tid w = pthread_checked ''pthread_detach'' [tid] w"

definition Pthread_kill :: "int \<Rightarrow> int \<Rightarrow> world \<Rightarrow> unit run" where
  "Pthread_kill tid signo w = pthread_checked ''pthread_kill'' [tid, signo] w"

definition Pthread_mutexattr_init :: "int \<Rightarrow> world \<Rightarrow> unit run" where
  "Pthread_mutexattr_init attr w = pthread_checked ''pthread_mutexattr_init'' [attr] w"

definition Pthread_mutexattr_setpshared :: "int \<Rightarrow> int \<Rightarrow> world \<Rightarrow> unit run" where
  "Pthread_mutexattr_setpshared attr flag w =
     pthread_checked ''pthread_mutexattr_setpshared'' [attr, flag] w"

definition Pthread_mutex_init :: "int \<Rightarrow> int \<Rightarrow> world \<Rightarrow> unit run" where
  "Pthread_mutex_init mptr attr w = pthread_checked ''pthread_mutex_init'' [mptr, attr] w"

definition Pthread_mutex_lock :: "int \<Rightarrow> world \<Rightarrow> unit run" where
  "Pthread_mutex_lock mptr w = pthread_checked ''pthread_mutex_lock'' [mptr] w"

definition Pthread_mutex_unlock :: "int \<Rightarrow> world \<Rightarrow> unit run" where
  "Pthread_mutex_unlock mptr w = pthread_checked ''pthread_mutex_unlock'' [mptr] w"

definition Pthread_cond_broadcast :: "int \<Rightarrow> world \<Rightarrow> unit run" where
  "Pthread_cond_broadcast cptr w = pthread_checked ''pthread_cond_broadcast'' [cptr] w"

definition Pthread_cond_signal :: "int \<Rightarrow> world \<Rightarrow> unit run" where
  "Pthread_cond_signal cptr w = pthread_checked ''pthread_cond_signal'' [cptr] w"

definition Pthread_cond_wait :: "int \<Rightarrow> int \<Rightarrow> world \<Rightarrow> unit run" where
  "Pthread_cond_wait cptr mptr w = pthread_checked ''pthread_cond_wait'' [cptr, mptr] w"

definition Pthread_cond_timedwait :: "int \<Rightarrow> int \<Rightarrow> int \<Rightarrow> world \<Rightarrow> unit run" where
  "Pthread_cond_timedwait cptr mptr ts w = pthread_checked ''pthread_cond_timedwait'' [cptr, mptr, ts] w"

definition Pthread_key_create :: "int \<Rightarrow> world \<Rightarrow> unit run" where
  "Pthread_key_create key w = pthread_checked ''pthread_key_create'' [key] w"

definition Pthread_setspecific :: "int \<Rightarrow> int \<Rightarrow> world \<Rightarrow> unit run" where
  "Pthread_setspecific key v w = pthread_checked ''pthread_setspecific'' [key, v] w"

section \<open>What a caller gets from a wrapper\<close>

lemma sys_eq: "script w = a # s \<Longrightarrow> sys c w = Ret a (called c a s w)"
  by (simp add: sys_def)

lemma sys_blocked: "script w = [] \<Longrightarrow> sys c w = Block w"
  by (simp add: sys_def)

lemma checked_Ret_iff: "checked bad msg m = Ret r w' \<longleftrightarrow> m = Ret r w' \<and> \<not> bad r"
  by (cases m) (auto simp: checked_def err_sys_def)

lemma checked_quit_Ret_iff: "checked_quit bad msg m = Ret r w' \<longleftrightarrow> m = Ret r w' \<and> \<not> bad r"
  by (cases m) (auto simp: checked_quit_def err_quit_def)

lemma void_Ret_iff: "void m = Ret x w' \<longleftrightarrow> (\<exists>r. m = Ret r w')"
  by (cases m) (auto simp: void_def)

lemma void_Exit_iff: "void m = Exit st w' \<longleftrightarrow> m = Exit st w'"
  by (cases m) (auto simp: void_def)

lemma checked_Exit_iff:
  "checked bad msg m = Exit st w' \<longleftrightarrow> m = Exit st w' \<or>
     (\<exists>r w1. m = Ret r w1 \<and> bad r \<and> st = 1 \<and> w' = err_doit True LOG_ERR msg w1)"
  by (cases m) (auto simp: checked_def err_sys_def)

text \<open>
  A wrapper makes one call, \<open>c\<close>, and either the call succeeded and the wrapper returns a value of
  it, or it failed and the process ends with the wrapper's message.
\<close>

locale wrapper =
  fixes wrap :: "world \<Rightarrow> 'a run" and c :: call and msg :: string and val :: "answer \<Rightarrow> 'a"
  assumes wrap_answer: "script w = a # s \<Longrightarrow> wrap w =
      (if a_err a = 0 then Ret (val a) (called c a s w)
       else Exit 1 (err_doit True LOG_ERR msg (called c a s w)))"
    and wrap_block: "script w = [] \<Longrightarrow> wrap w = Block w"
begin

lemma wrap_Ret:
  "wrap w = Ret x w' \<longleftrightarrow> (\<exists>a s. script w = a # s \<and> a_err a = 0 \<and> x = val a \<and> w' = called c a s w)"
  by (cases "script w") (auto simp: wrap_answer wrap_block)

lemma wrap_consumes: "wrap w = Ret x w' \<Longrightarrow> length (script w') < length (script w)"
  by (auto simp: wrap_Ret)

lemma wrap_trace: "wrap w = Ret x w' \<Longrightarrow> \<exists>a. trace w' = trace w @ [Sys c a] \<and> a_err a = 0"
  by (auto simp: wrap_Ret)

lemma wrap_Exit:
  "wrap w = Exit st w' \<longleftrightarrow> st = 1 \<and> (\<exists>a s. script w = a # s \<and> a_err a \<noteq> 0 \<and>
     w' = err_doit True LOG_ERR msg (called c a s w))"
  by (cases "script w") (auto simp: wrap_answer wrap_block)

lemma wrap_no_abort: "wrap w \<noteq> Abort w'"
  by (cases "script w") (auto simp: wrap_answer wrap_block)

end

lemmas wrapper_unfold = checked_def void_def err_sys_def sys_unit_def sys_int_def sys_addr_def
  sys_opt_def sys_data_def sys_recvfrom_def sys_def run_simps

interpretation Bind: wrapper "Bind fd sa" "C_bind fd sa" "''bind error''" "\<lambda>a. ()" for fd sa
  by unfold_locales (simp_all add: Bind_def wrapper_unfold)

interpretation Connect: wrapper "Connect fd sa" "C_connect fd sa" "''connect error''" "\<lambda>a. ()" for fd sa
  by unfold_locales (simp_all add: Connect_def wrapper_unfold)

interpretation Setsockopt: wrapper "Setsockopt fd l n v" "C_setsockopt fd l n v"
  "''setsockopt error''" "\<lambda>a. ()" for fd l n v
  by unfold_locales (simp_all add: Setsockopt_def wrapper_unfold)

interpretation Shutdown: wrapper "Shutdown fd how" "C_shutdown fd how" "''shutdown error''" "\<lambda>a. ()"
  for fd how
  by unfold_locales (simp_all add: Shutdown_def wrapper_unfold)

interpretation Close: wrapper "Close fd" "C_close fd" "''close error''" "\<lambda>a. ()" for fd
  by unfold_locales (simp_all add: Close_def wrapper_unfold)

interpretation Unlink: wrapper "Unlink p" "C_unlink p" "''unlink error for '' @ p" "\<lambda>a. ()" for p
  by unfold_locales (simp_all add: Unlink_def wrapper_unfold)

interpretation Fputs: wrapper "Fputs st t" "C_fputs st t" "''fputs error''" "\<lambda>a. ()" for st t
  by unfold_locales (simp_all add: Fputs_def wrapper_unfold)

interpretation Socket: wrapper "Socket f t p" "C_socket f t p" "''socket error''" "\<lambda>a. int (a_val a)"
  for f t p
  by unfold_locales (simp_all add: Socket_def wrapper_unfold)

interpretation Fork: wrapper Fork C_fork "''fork error''" "\<lambda>a. int (a_val a)"
  by unfold_locales (simp_all add: Fork_def wrapper_unfold)

interpretation Fcntl: wrapper "Fcntl fd c arg" "C_fcntl fd c arg" "''fcntl error''" "\<lambda>a. int (a_val a)"
  for fd c arg
  by unfold_locales (simp_all add: Fcntl_def wrapper_unfold)

interpretation Ioctl: wrapper "Ioctl fd req" "C_ioctl fd req" "''ioctl error''" "\<lambda>a. int (a_val a)"
  for fd req
  by unfold_locales (simp_all add: Ioctl_def wrapper_unfold)

interpretation Getsockname: wrapper "Getsockname fd" "C_getsockname fd" "''getsockname error''"
  "\<lambda>a. (int (a_val a), a_addr a)" for fd
  by unfold_locales (simp_all add: Getsockname_def wrapper_unfold)

interpretation Recvfrom: wrapper "Recvfrom fd n fl" "C_recvfrom fd n fl" "''recvfrom error''"
  "\<lambda>a. (int (length (take n (a_data a))), take n (a_data a), a_addr a)" for fd n fl
  by unfold_locales (simp_all add: Recvfrom_def wrapper_unfold)

interpretation Read: wrapper "Read fd n" "C_read fd n" "''read error''"
  "\<lambda>a. (int (length (take n (a_data a))), take n (a_data a))" for fd n
  by unfold_locales (simp_all add: Read_def sys_read_def wrapper_unfold)

lemma Listen_getenv:
  "Listen fd backlog w = void (checked (\<lambda>n. n < 0) ''listen error'' (sys_unit (C_listen fd
     (case getenv_of w ''LISTENQ'' of Some ptr \<Rightarrow> atoi ptr | None \<Rightarrow> backlog)) w))"
  by (simp add: Listen_def Let_def)

section \<open>Properties\<close>

lemma Accept_Cons:
  "script w = a # s \<Longrightarrow> Accept fd w =
     (let w1 = called (C_accept fd) a s w in
      if a_err a = 0 then Ret (int (a_val a), a_addr a) w1
      else if a_err a = EPROTO \<or> a_err a = ECONNABORTED then Accept fd w1
      else err_sys ''accept error'' w1)"
  by (subst Accept.simps) (simp add: sys_addr_def sys_def Let_def)

lemma Accept_Nil: "script w = [] \<Longrightarrow> Accept fd w = Block w"
  by (subst Accept.simps) (simp add: sys_addr_def sys_def)

text \<open>
  \<^verbatim>\<open>Accept\<close> outlives connections that are gone before they could be accepted: it skips every
  answer that reports an aborted connection, returns the first descriptor the kernel delivers, and
  ends the process exactly when the first other answer is an error.
\<close>

theorem Accept_skips_aborted:
  assumes "script w = aborted @ a # s"
    and "\<forall>b \<in> set aborted. a_err b = EPROTO \<or> a_err b = ECONNABORTED"
    and "a_err a \<noteq> EPROTO" and "a_err a \<noteq> ECONNABORTED"
  shows "\<exists>w'. script w' = s \<and> trace w' = trace w @ map (Sys (C_accept fd)) (aborted @ [a]) \<and>
    Accept fd w = (if a_err a = 0 then Ret (int (a_val a), a_addr a) w'
                   else Exit 1 (err_doit True LOG_ERR ''accept error'' w'))"
  using assms
proof (induction aborted arbitrary: w)
  case Nil
  then show ?case
    by (intro exI [of _ "called (C_accept fd) a s w"]) (simp add: Accept_Cons Let_def err_sys_def)
next
  case (Cons b bs)
  let ?w = "called (C_accept fd) b (bs @ a # s) w"
  have "Accept fd w = Accept fd ?w"
    using Cons.prems by (subst Accept_Cons) (auto simp: Let_def EPROTO_def ECONNABORTED_def)
  with Cons.IH [of ?w] Cons.prems show ?case by simp
qed

theorem Accept_skips_aborted_witness:
  "\<exists>w'. Accept 3 (boot [fails ECONNABORTED, fails EPROTO, gave 5]) = Ret (5, SA_other 0) w'"
  using Accept_skips_aborted [of "boot [fails ECONNABORTED, fails EPROTO, gave 5]"
      "[fails ECONNABORTED, fails EPROTO]" "gave 5" "[]" 3]
  by (auto simp: EPROTO_def ECONNABORTED_def gave_def ans0_def)

text \<open>
  The wrappers never return after a failed call: given the kernel's answer, each returns when
  the call succeeded and otherwise ends the process with status 1, its own message and the text of
  \<^verbatim>\<open>errno\<close> being the last thing written.
\<close>

theorem wrappers_exit_on_error:
  assumes "script w = a # s"
  shows "(\<forall>(r, c, msg) \<in> set
      [(Bind fd sa w, C_bind fd sa, ''bind error''),
       (Connect fd sa w, C_connect fd sa, ''connect error''),
       (Setsockopt fd level optname v w, C_setsockopt fd level optname v, ''setsockopt error''),
       (Shutdown fd how w, C_shutdown fd how, ''shutdown error''),
       (Close fd w, C_close fd, ''close error''),
       (Unlink path w, C_unlink path, ''unlink error for '' @ path),
       (Fputs fd buf w, C_fputs fd buf, ''fputs error'')].
      r = (if a_err a = 0 then Ret () (called c a s w)
           else Exit 1 (err_doit True LOG_ERR msg (called c a s w)))) \<and>
    (\<forall>(r, c, msg) \<in> set
      [(Socket family type protocol w, C_socket family type protocol, ''socket error''),
       (Fork w, C_fork, ''fork error''),
       (Fcntl fd cmd arg w, C_fcntl fd cmd arg, ''fcntl error''),
       (Ioctl fd request w, C_ioctl fd request, ''ioctl error'')].
      r = (if a_err a = 0 then Ret (int (a_val a)) (called c a s w)
           else Exit 1 (err_doit True LOG_ERR msg (called c a s w))))"
  by (simp add: Bind.wrap_answer [OF assms] Connect.wrap_answer [OF assms]
      Setsockopt.wrap_answer [OF assms] Shutdown.wrap_answer [OF assms] Close.wrap_answer [OF assms]
      Unlink.wrap_answer [OF assms] Fputs.wrap_answer [OF assms] Socket.wrap_answer [OF assms]
      Fork.wrap_answer [OF assms] Fcntl.wrap_answer [OF assms] Ioctl.wrap_answer [OF assms])

theorem wrappers_exit_on_error_witness:
  "Bind 3 (SA_other 0) (boot [fails EINVAL]) =
     Exit 1 (err_doit True LOG_ERR ''bind error''
       (called (C_bind 3 (SA_other 0)) (fails EINVAL) [] (boot [fails EINVAL])))"
  using wrappers_exit_on_error [of "boot [fails EINVAL]" "fails EINVAL" "[]" 3 "SA_other 0"]
  by (simp add: EINVAL_def)

end
