(* ===== verification/Sockaddr.thy ===== *)
theory Sockaddr
  imports Unp_Wrap
begin

text \<open>
  The functions of \<^verbatim>\<open>lib\<close> that work on socket address structures without knowing their family
  (\<^verbatim>\<open>sock_*.c\<close>, \<^verbatim>\<open>sockfd_to_family.c\<close>, \<^verbatim>\<open>family_to_level.c\<close>) and the small helpers
  \<^verbatim>\<open>tv_sub.c\<close>, \<^verbatim>\<open>gf_time.c\<close> and \<^verbatim>\<open>hstrerror.c\<close>. The static result buffers are returned as values;
  \<^verbatim>\<open>Inl e\<close> is a null pointer with \<^verbatim>\<open>errno\<close> set to \<open>e\<close>.
\<close>

section \<open>Printing an address\<close>

definition no_pathname :: string where "no_pathname = ''(no pathname bound)''"

fun sock_ntop :: "sockaddr \<Rightarrow> nat \<Rightarrow> int + string" where
  "sock_ntop (SA_in port addr) salen =
     (case inet_ntop AF_INET addr 128 of
        Inl e \<Rightarrow> Inl e
      | Inr str \<Rightarrow>
          if ntohs port \<noteq> 0 then Inr (str @ snprintf_s 8 ('':'' @ dec (unat (ntohs port))))
          else Inr str)"
| "sock_ntop (SA_in6 port flow addr scope) salen =
     (case inet_ntop AF_INET6 addr 127 of
        Inl e \<Rightarrow> Inl e
      | Inr str \<Rightarrow>
          if ntohs port \<noteq> 0
          then Inr (''['' @ str @ snprintf_s 8 ('']:'' @ dec (unat (ntohs port))))
          else Inr str)"
| "sock_ntop (SA_un path) salen =
     Inr (if path = [] then no_pathname else snprintf_s 128 path)"
| "sock_ntop (SA_other family) salen =
     Inr (snprintf_s 128 (''sock_ntop: unknown AF_xxx: '' @ decz family @ '', len '' @ dec salen))"

definition Sock_ntop :: "sockaddr \<Rightarrow> nat \<Rightarrow> world \<Rightarrow> string run" where
  "Sock_ntop sa salen w = (case sock_ntop sa salen of
     Inl e \<Rightarrow> err_sys ''sock_ntop error'' (set_errno e w) | Inr s \<Rightarrow> Ret s w)"

fun sock_ntop_host :: "sockaddr \<Rightarrow> nat \<Rightarrow> int + string" where
  "sock_ntop_host (SA_in port addr) salen = inet_ntop AF_INET addr 128"
| "sock_ntop_host (SA_in6 port flow addr scope) salen = inet_ntop AF_INET6 addr 128"
| "sock_ntop_host (SA_un path) salen =
     Inr (if path = [] then no_pathname else snprintf_s 128 path)"
| "sock_ntop_host (SA_other family) salen =
     Inr (snprintf_s 128 (''sock_ntop_host: unknown AF_xxx: '' @ decz family @ '', len '' @ dec salen))"

definition Sock_ntop_host :: "sockaddr \<Rightarrow> nat \<Rightarrow> world \<Rightarrow> string run" where
  "Sock_ntop_host sa salen w = (case sock_ntop_host sa salen of
     Inl e \<Rightarrow> err_sys ''sock_ntop_host error'' (set_errno e w) | Inr s \<Rightarrow> Ret s w)"

section \<open>Comparing, reading and changing addresses\<close>

text \<open>
  \<^verbatim>\<open>memcmp\<close> and \<^verbatim>\<open>strcmp\<close> as the sign of the first difference; the null byte that ends a string
  is smaller than every character.
\<close>

fun memcmp :: "bytes \<Rightarrow> bytes \<Rightarrow> int" where
  "memcmp (a # as) (b # bs) = (if a = b then memcmp as bs else if a < b then - 1 else 1)"
| "memcmp _ _ = 0"

fun strcmp :: "string \<Rightarrow> string \<Rightarrow> int" where
  "strcmp [] [] = 0"
| "strcmp [] (b # bs) = - 1"
| "strcmp (a # as) [] = 1"
| "strcmp (a # as) (b # bs) =
     (if a = b then strcmp as bs else if (of_char a :: nat) < of_char b then - 1 else 1)"

fun sock_cmp_addr :: "sockaddr \<Rightarrow> sockaddr \<Rightarrow> int" where
  "sock_cmp_addr (SA_in p1 a1) (SA_in p2 a2) = memcmp a1 a2"
| "sock_cmp_addr (SA_in6 p1 f1 a1 s1) (SA_in6 p2 f2 a2 s2) = memcmp a1 a2"
| "sock_cmp_addr (SA_un path1) (SA_un path2) = strcmp path1 path2"
| "sock_cmp_addr _ _ = - 1"

fun sock_cmp_port :: "sockaddr \<Rightarrow> sockaddr \<Rightarrow> int" where
  "sock_cmp_port (SA_in p1 a1) (SA_in p2 a2) = (if p1 = p2 then 1 else 0)"
| "sock_cmp_port (SA_in6 p1 f1 a1 s1) (SA_in6 p2 f2 a2 s2) = (if p1 = p2 then 1 else 0)"
| "sock_cmp_port _ _ = - 1"

fun sock_get_port :: "sockaddr \<Rightarrow> int" where
  "sock_get_port (SA_in port addr) = uint port"
| "sock_get_port (SA_in6 port flow addr scope) = uint port"
| "sock_get_port _ = - 1"

text \<open>Storing an \<^verbatim>\<open>int\<close> in the 16 bit port field truncates it.\<close>

fun sock_set_port :: "sockaddr \<Rightarrow> int \<Rightarrow> sockaddr" where
  "sock_set_port (SA_in _ addr) port = SA_in (word_of_int port) addr"
| "sock_set_port (SA_in6 _ flow addr scope) port = SA_in6 (word_of_int port) flow addr scope"
| "sock_set_port sa port = sa"

fun sock_set_addr :: "sockaddr \<Rightarrow> bytes \<Rightarrow> sockaddr" where
  "sock_set_addr (SA_in port _) addr = SA_in port (take 4 addr)"
| "sock_set_addr (SA_in6 port flow _ scope) addr = SA_in6 port flow (take 16 addr) scope"
| "sock_set_addr sa addr = sa"

definition in4addr_any :: bytes where "in4addr_any = [0, 0, 0, 0]"

definition in6addr_any :: bytes where "in6addr_any = replicate 16 0"

fun sock_set_wild :: "sockaddr \<Rightarrow> sockaddr" where
  "sock_set_wild (SA_in port addr) = sock_set_addr (SA_in port addr) in4addr_any"
| "sock_set_wild (SA_in6 port flow addr scope) =
     sock_set_addr (SA_in6 port flow addr scope) in6addr_any"
| "sock_set_wild sa = sa"

section \<open>Addresses of a socket\<close>

text \<open>The port field of the structure \<^verbatim>\<open>getsockname\<close> filled in, which both IP families share.\<close>

fun port_field :: "sockaddr \<Rightarrow> u16" where
  "port_field (SA_in port addr) = port"
| "port_field (SA_in6 port flow addr scope) = port"
| "port_field _ = 0"

definition bind_and_get :: "fd \<Rightarrow> sockaddr \<Rightarrow> world \<Rightarrow> int run" where
  "bind_and_get sockfd sa w =
     then_run (sys_unit (C_bind sockfd sa) w) (\<lambda>n w.
       if n < 0 then Ret (- 1) w
       else then_run (sys_addr (C_getsockname sockfd) w) (\<lambda>r w.
         if fst r < 0 then Ret (- 1) w else Ret (uint (port_field (snd r))) w))"

definition sock_bind_wild :: "fd \<Rightarrow> int \<Rightarrow> world \<Rightarrow> int run" where
  "sock_bind_wild sockfd family w =
     (if family = AF_INET then bind_and_get sockfd (SA_in 0 in4addr_any) w
      else if family = AF_INET6 then bind_and_get sockfd (SA_in6 0 0 in6addr_any 0) w
      else Ret (- 1) w)"

definition Sock_bind_wild :: "fd \<Rightarrow> int \<Rightarrow> world \<Rightarrow> int run" where
  "Sock_bind_wild sockfd family w =
     checked (\<lambda>port. port < 0) ''sock_bind_wild error'' (sock_bind_wild sockfd family w)"

definition sockfd_to_family :: "fd \<Rightarrow> world \<Rightarrow> int run" where
  "sockfd_to_family sockfd w =
     then_run (sys_addr (C_getsockname sockfd) w) (\<lambda>r w.
       if fst r < 0 then Ret (- 1) w else Ret (sa_family (snd r)) w)"

definition Sockfd_to_family :: "fd \<Rightarrow> world \<Rightarrow> int run" where
  "Sockfd_to_family sockfd w =
     checked (\<lambda>rc. rc < 0) ''sockfd_to_family error'' (sockfd_to_family sockfd w)"

definition family_to_level :: "int \<Rightarrow> int" where
  "family_to_level family =
     (if family = AF_INET then IPPROTO_IP
      else if family = AF_INET6 then IPPROTO_IPV6
      else - 1)"

definition Family_to_level :: "int \<Rightarrow> world \<Rightarrow> int run" where
  "Family_to_level family w =
     (let rc = family_to_level family in
      if rc < 0 then err_sys ''family_to_level error'' w else Ret rc w)"

section \<open>Times and messages\<close>

definition tv_sub :: "int \<times> int \<Rightarrow> int \<times> int \<Rightarrow> int \<times> int" where
  "tv_sub out_tv in_tv =
     (let usec = snd out_tv - snd in_tv;
          (sec, usec) = (if usec < 0 then (fst out_tv - 1, usec + 1000000) else (fst out_tv, usec))
      in (sec - fst in_tv, usec))"

text \<open>\<^verbatim>\<open>%06ld\<close> of a nonnegative number.\<close>

definition pad6 :: "nat \<Rightarrow> string" where
  "pad6 n = replicate (6 - length (dec n)) CHR ''0'' @ dec n"

text \<open>\<open>ctime\<close> is the C library's conversion; the time of day starts at its 12th character.\<close>

definition gf_time :: "(int \<Rightarrow> string) \<Rightarrow> world \<Rightarrow> string run" where
  "gf_time ctime w =
     then_run (checked (\<lambda>r. fst r < 0) ''gettimeofday error'' (sys_time w)) (\<lambda>r w.
       case snd r of (sec, usec) \<Rightarrow>
         Ret (take 8 (drop 11 (ctime sec)) @ snprintf_s 22 (''.'' @ pad6 (nat usec))) w)"

definition HOST_NOT_FOUND :: int where "HOST_NOT_FOUND = 1"
definition TRY_AGAIN :: int where "TRY_AGAIN = 2"
definition NO_RECOVERY :: int where "NO_RECOVERY = 3"
definition NO_DATA :: int where "NO_DATA = 4"

definition hstrerror :: "int \<Rightarrow> string" where
  "hstrerror err =
     (if err = 0 then ''no error''
      else if err = HOST_NOT_FOUND then ''Unknown host''
      else if err = TRY_AGAIN then ''Hostname lookup failure''
      else if err = NO_RECOVERY then ''Unknown server error''
      else if err = NO_DATA then ''No address associated with name''
      else ''unknown error'')"

section \<open>Lemmas\<close>

lemma memcmp_eq_0: "length as = length bs \<Longrightarrow> memcmp as bs = 0 \<longleftrightarrow> as = bs"
  by (induction as bs rule: list_induct2) auto

lemma strcmp_eq_0: "strcmp as bs = 0 \<longleftrightarrow> as = bs"
  by (induction as bs rule: strcmp.induct) auto

lemma atoi_digits_utoa:
  "atoi_digits 0 (utoa 10 n @ rest) = atoi_digits (int n) rest"
proof (induction n arbitrary: rest rule: less_induct)
  case (less n)
  show ?case
  proof (cases "n < 10")
    case True
    then show ?thesis by (subst utoa.simps) simp
  next
    case False
    then have "atoi_digits 0 (utoa 10 (n div 10) @ digit_char (n mod 10) # rest)
        = atoi_digits (int (n div 10)) (digit_char (n mod 10) # rest)"
      by (intro less.IH) simp
    moreover have "utoa 10 n = utoa 10 (n div 10) @ [digit_char (n mod 10)]"
      using False by (subst utoa.simps) simp
    moreover have "int (n div 10) * 10 + int (n mod 10) = int n"
      using arg_cong [OF div_mult_mod_eq [of n 10], of int]
      by (simp only: of_nat_add of_nat_mult of_nat_numeral)
    ultimately show ?thesis by simp
  qed
qed

lemma dec_inj [simp]: "dec m = dec n \<longleftrightarrow> m = n"
proof
  assume "dec m = dec n"
  then have "atoi_digits 0 (utoa 10 m @ []) = atoi_digits 0 (utoa 10 n @ [])" by (simp add: dec_def)
  then have "atoi_digits (int m) [] = atoi_digits (int n) []" by (simp only: atoi_digits_utoa)
  then show "m = n" by simp
qed simp

lemma xdigit_bracket [simp]: "xdigit CHR '']'' = None" "xdigit CHR ''['' = None"
  by code_simp+

lemma dec_no_sep [simp]: "CHR '':'' \<notin> set (dec n)" "CHR '']'' \<notin> set (dec n)"
  using utoa_xdigits [of 10 "CHR '':''" n] utoa_xdigits [of 10 "CHR '']''" n] by (auto simp: dec_def)

lemma length_port: "length (dec (unat (p :: u16))) \<le> 5"
  unfolding dec_def using unat_u16_less [of p] by (intro length_utoa; simp del: unat_u16_less)

lemma split_last:
  assumes "xs @ c # ys = xs' @ c # ys'" and "c \<notin> set ys" and "c \<notin> set ys'"
  shows "xs = xs' \<and> ys = ys'"
proof -
  have tail: "takeWhile (\<lambda>x. x \<noteq> c) (rev (us @ c # vs)) = rev vs" if "c \<notin> set vs" for us vs
    using that by (auto simp: takeWhile_append)
  have "rev ys = rev ys'"
    using tail [OF assms(2), of xs] tail [OF assms(3), of xs'] assms(1) by simp
  with assms(1) show ?thesis by simp
qed

text \<open>What the printed text of an IP address can look like.\<close>

lemma quad_text_no_colon: "CHR '':'' \<notin> set (quad_text a)"
  by (simp add: quad_text_def)

lemma pton6_no_bracket: "inet_pton6 (CHR ''['' # s) = None"
  by (simp add: inet_pton6_def leading_colon_def)

lemma ntop4_ok:
  assumes "length a = 4"
  shows "inet_ntop AF_INET a 128 = Inr (quad_text a)" and "length (quad_text a) < 16"
  using length_quad_text [OF assms] by (simp_all add: inet_ntop_def inet_ntop4_def)

lemma ntop6_ok:
  assumes "length a = 16"
  obtains s where "\<And>sz. 46 \<le> sz \<Longrightarrow> inet_ntop AF_INET6 a sz = Inr s" and "length s < 46"
    and "inet_pton6 s = Some a"
proof -
  from ip6.print_fits [OF assms, of 46] obtain s where
    s: "inet_ntop6 a 46 = Inr s" "length s < 46"
    by (auto simp: INET6_ADDRSTRLEN_def)
  from ip6.print_stable [OF s(1)] ip6.parse_print [OF assms s(1)] s(2) that [of s]
  show ?thesis by (simp add: inet_ntop_def)
qed

lemma sock_ntop_in:
  "length a = 4 \<Longrightarrow> sock_ntop (SA_in p a) n =
     Inr (quad_text a @ (if p = 0 then [] else CHR '':'' # dec (unat (ntohs p))))"
  using length_port [of "ntohs p"] by (simp add: ntop4_ok)

lemma sock_ntop_in6:
  assumes "inet_ntop AF_INET6 a 127 = Inr s"
  shows "sock_ntop (SA_in6 p f a sc) n =
     Inr (if p = 0 then s else CHR ''['' # s @ CHR '']'' # CHR '':'' # dec (unat (ntohs p)))"
  using length_port [of "ntohs p"] assms by simp

declare sock_ntop.simps(1,2) [simp del]

lemma ntohs_inj [simp]: "ntohs p = ntohs q \<longleftrightarrow> p = q"
  by (metis ntohs_ntohs)

lemma unat_ntohs_inj: "unat (ntohs p) = unat (ntohs q) \<longleftrightarrow> p = q"
  using ntohs_inj [of p q] word_unat_eq_iff by blast

lemma sock_ntop_in_inj:
  assumes "length a = 4" and "length b = 4" and "sock_ntop (SA_in p a) n = sock_ntop (SA_in q b) m"
  shows "p = q \<and> a = b"
proof -
  have same: "a = b" if "quad_text a = quad_text b"
    using arg_cong [OF that, of inet_pton4] unfolding pton4_quad [OF assms(1)] pton4_quad [OF assms(2)]
    by (rule option.inject [THEN iffD1])
  have mixed: False
    if "quad_text x @ CHR '':'' # d = quad_text y" for x y d
    using arg_cong [OF that, of set] quad_text_no_colon [of y] by auto
  from assms have eq: "quad_text a @ (if p = 0 then [] else CHR '':'' # dec (unat (ntohs p)))
      = quad_text b @ (if q = 0 then [] else CHR '':'' # dec (unat (ntohs q)))"
    by (simp add: sock_ntop_in)
  consider (none) "p = 0" "q = 0" | (left) "p = 0" "q \<noteq> 0" | (right) "p \<noteq> 0" "q = 0"
    | (both) "p \<noteq> 0" "q \<noteq> 0"
    by blast
  then show ?thesis
  proof cases
    case none
    with eq same show ?thesis by simp
  next
    case left
    with eq mixed [of b _ a] show ?thesis by simp
  next
    case right
    with eq mixed [of a _ b] show ?thesis by simp
  next
    case both
    with eq have "quad_text a @ CHR '':'' # dec (unat (ntohs p)) = quad_text b @ CHR '':'' # dec (unat (ntohs q))"
      by simp
    from split_last [OF this] same show ?thesis by (simp add: unat_ntohs_inj)
  qed
qed

lemma sock_ntop_in6_inj:
  assumes "length a = 16" and "length b = 16"
    and "sock_ntop (SA_in6 p f a sc) n = sock_ntop (SA_in6 q g b sd) m"
  shows "p = q \<and> a = b"
proof -
  obtain s where s: "inet_ntop AF_INET6 a 127 = Inr s" "inet_pton6 s = Some a"
    by (rule ntop6_ok [OF assms(1)]) simp
  obtain t where t: "inet_ntop AF_INET6 b 127 = Inr t" "inet_pton6 t = Some b"
    by (rule ntop6_ok [OF assms(2)]) simp
  have "s \<noteq> CHR ''['' # u" "t \<noteq> CHR ''['' # u" for u
    using s(2) t(2) pton6_no_bracket [of u] by auto
  with assms(3) have "p = 0 \<and> q = 0 \<and> s = t
      \<or> s @ CHR '']'' # (CHR '':'' # dec (unat (ntohs p))) = t @ CHR '']'' # (CHR '':'' # dec (unat (ntohs q)))"
    unfolding sock_ntop_in6 [OF s(1)] sock_ntop_in6 [OF t(1)]
    by (cases "p = 0"; cases "q = 0") auto
  moreover have "p = q \<and> s = t"
    if "s @ CHR '']'' # (CHR '':'' # dec (unat (ntohs p))) = t @ CHR '']'' # (CHR '':'' # dec (unat (ntohs q)))"
    using split_last [OF that] by (simp add: unat_ntohs_inj)
  ultimately have "p = q \<and> s = t" by blast
  with s(2) t(2) show ?thesis by simp
qed

section \<open>Properties\<close>

text \<open>
  Two IP socket addresses of one family are printed alike exactly when \<^verbatim>\<open>sock_cmp_addr\<close>
  and \<^verbatim>\<open>sock_cmp_port\<close> both find them equal: the text identifies address and port.
\<close>

theorem sock_ntop_identifies:
  assumes "wf_sockaddr sa" and "wf_sockaddr sb" and "sa_family sa = sa_family sb"
    and "sa_family sa = AF_INET \<or> sa_family sa = AF_INET6"
  shows "sock_ntop sa n = sock_ntop sb m \<longleftrightarrow> sock_cmp_addr sa sb = 0 \<and> sock_cmp_port sa sb = 1"
proof (cases sa)
  case (SA_in p a)
  with assms obtain q b where sb: "sb = SA_in q b" by (cases sb) auto
  with SA_in assms sock_ntop_in_inj [of a b p n q m] show ?thesis
    by (auto simp: memcmp_eq_0 sock_ntop_in)
next
  case (SA_in6 p f a s)
  with assms obtain q g b t where sb: "sb = SA_in6 q g b t" by (cases sb) auto
  with SA_in6 assms have len: "length a = 16" "length b = 16" by auto
  have "sock_ntop (SA_in6 p f a s) n = sock_ntop (SA_in6 p g a t) m"
    by (rule ntop6_ok [OF len(1)]) (simp add: sock_ntop_in6)
  with sb SA_in6 len sock_ntop_in6_inj [of a b p f s n q g t m] show ?thesis
    by (auto simp: memcmp_eq_0)
qed (use assms in auto)

theorem sock_ntop_identifies_witness:
  "sock_ntop (SA_in 80 [127, 0, 0, 1]) 16 \<noteq> sock_ntop (SA_in 81 [127, 0, 0, 1]) 16"
  using sock_ntop_identifies [of "SA_in 80 [127, 0, 0, 1]" "SA_in 81 [127, 0, 0, 1]" 16 16]
  by simp

text \<open>
  \<^verbatim>\<open>sock_ntop\<close> succeeds on every well formed structure and its text, the appended port
  included, fits the 128 bytes of its static buffer with the terminating null byte.
\<close>

theorem sock_ntop_fits:
  assumes "wf_sockaddr sa"
  shows "\<exists>s. sock_ntop sa n = Inr s \<and> length s < 128"
proof (cases sa)
  case (SA_in p a)
  with assms ntop4_ok(2) [of a] length_port [of "ntohs p"] show ?thesis
    by (auto simp: sock_ntop_in)
next
  case (SA_in6 p f a s)
  with assms have "length a = 16" by simp
  then show ?thesis
    by (rule ntop6_ok) (use SA_in6 length_port [of "ntohs p"] in \<open>auto simp: sock_ntop_in6\<close>)
qed (auto simp: no_pathname_def snprintf_s_def)

theorem sock_ntop_fits_witness: "\<exists>s. sock_ntop (SA_un ''/tmp/sock'') 110 = Inr s \<and> length s < 128"
  by (rule sock_ntop_fits) simp

text \<open>
  The accessors agree with each other: a port that was set is read back modulo 65536, an
  address that was set compares equal, the wildcard address replaces the address only, and neither
  setter touches what the other one sets.
\<close>

theorem sock_accessors:
  assumes "sa_family sa = AF_INET \<or> sa_family sa = AF_INET6" and "wf_sockaddr sa"
    and "length addr = (if sa_family sa = AF_INET then 4 else 16)"
  shows "sock_get_port (sock_set_port sa port) = port mod 65536 \<and>
    sock_cmp_addr (sock_set_port sa port) sa = 0 \<and>
    sock_cmp_port (sock_set_addr sa addr) sa = 1 \<and>
    (sock_cmp_addr (sock_set_addr sa addr) sa = 0) = (sock_set_addr sa addr = sa) \<and>
    sock_set_addr (sock_set_port sa port) addr = sock_set_port (sock_set_addr sa addr) port \<and>
    sock_cmp_port (sock_set_wild sa) sa = 1 \<and> wf_sockaddr (sock_set_wild sa)"
  using assms
  by (cases sa) (auto simp: memcmp_eq_0 in4addr_any_def in6addr_any_def uint_word_of_int
      split: sockaddr.splits)

theorem sock_accessors_witness:
  "sock_get_port (sock_set_port (SA_in 0 [127, 0, 0, 1]) 70000) = 4464"
  using sock_accessors [of "SA_in 0 [127, 0, 0, 1]" "[1, 2, 3, 4]" 70000]
  by simp

text \<open>
  \<^verbatim>\<open>tv_sub\<close> subtracts time values: for normalised arguments the result is normalised and, in
  microseconds, the exact difference.
\<close>

theorem tv_sub_exact:
  assumes "0 \<le> snd a \<and> snd a < 1000000" and "0 \<le> snd b \<and> snd b < 1000000"
  shows "0 \<le> snd (tv_sub a b) \<and> snd (tv_sub a b) < 1000000 \<and>
    fst (tv_sub a b) * 1000000 + snd (tv_sub a b)
      = (fst a * 1000000 + snd a) - (fst b * 1000000 + snd b)"
  using assms by (auto simp: tv_sub_def Let_def algebra_simps)

theorem tv_sub_exact_witness: "tv_sub (10, 250000) (8, 750000) = (1, 500000)"
  using tv_sub_exact [of "(10, 250000)" "(8, 750000)"]
  by (simp add: tv_sub_def)

end
