(* ===== verification/Net_Helpers.thy ===== *)
theory Net_Helpers
  imports Stream_IO Sockaddr
begin

text \<open>
  The helpers of \<^verbatim>\<open>lib\<close> that clients and servers start from: \<^verbatim>\<open>tcp_connect.c\<close>,
  \<^verbatim>\<open>tcp_listen.c\<close>, \<^verbatim>\<open>udp_client.c\<close>, \<^verbatim>\<open>udp_connect.c\<close>, \<^verbatim>\<open>udp_server.c\<close> and \<^verbatim>\<open>host_serv.c\<close>, which walk
  the list \<^verbatim>\<open>getaddrinfo\<close> returns; the time-limited operations \<^verbatim>\<open>connect_nonb.c\<close>,
  \<^verbatim>\<open>connect_timeo.c\<close>, \<^verbatim>\<open>readable_timeo.c\<close>, \<^verbatim>\<open>writable_timeo.c\<close> and \<^verbatim>\<open>pselect.c\<close>; signal handling
  (\<^verbatim>\<open>signal.c\<close>, \<^verbatim>\<open>signal_intr.c\<close>); descriptor passing (\<^verbatim>\<open>read_fd.c\<close>, \<^verbatim>\<open>write_fd.c\<close>); and
  \<^verbatim>\<open>daemon_init.c\<close>, \<^verbatim>\<open>daemon_inetd.c\<close> and \<^verbatim>\<open>sockatmark.c\<close>.

  \<^verbatim>\<open>getaddrinfo\<close> and \<^verbatim>\<open>gai_strerror\<close> are parameters. What the code relies on is that a successful
  lookup yields at least one address.
\<close>

section \<open>Addresses to try\<close>

record addrinfo =
  ai_flags :: int
  ai_family :: int
  ai_socktype :: int
  ai_protocol :: int
  ai_addrlen :: nat
  ai_addr :: sockaddr
  ai_canonname :: "string option"

definition AI_PASSIVE :: int where [unp_consts]: "AI_PASSIVE = 1"
definition AI_CANONNAME :: int where [unp_consts]: "AI_CANONNAME = 2"

text \<open>The hints after \<^verbatim>\<open>bzero\<close>.\<close>

definition no_hints :: addrinfo where
  "no_hints = \<lparr>ai_flags = 0, ai_family = 0, ai_socktype = 0, ai_protocol = 0, ai_addrlen = 0,
     ai_addr = SA_other 0, ai_canonname = None\<rparr>"

type_synonym gai = "string option \<Rightarrow> string option \<Rightarrow> addrinfo \<Rightarrow> int + addrinfo list"

definition gai_ok :: "gai \<Rightarrow> bool" where
  "gai_ok gai \<longleftrightarrow> (\<forall>host serv hints res. gai host serv hints = Inr res \<longrightarrow> res \<noteq> [])"

text \<open>
  The loop the functions share: make a socket for the next address and set it up; on failure
  close it and go on. \<open>prep\<close> is what a function does with the new socket. \<^verbatim>\<open>None\<close> is the null
  \<^verbatim>\<open>res\<close> after the last address.
\<close>

fun walk_addrs ::
  "(addrinfo \<Rightarrow> fd \<Rightarrow> world \<Rightarrow> bool run) \<Rightarrow> addrinfo list \<Rightarrow> world \<Rightarrow> (fd \<times> addrinfo) option run" where
  "walk_addrs prep [] w = Ret None w"
| "walk_addrs prep (res # rest) w =
     then_run (sys_int (C_socket (ai_family res) (ai_socktype res) (ai_protocol res)) w)
       (\<lambda>sockfd w.
         if sockfd < 0 then walk_addrs prep rest w
         else then_run (prep res sockfd w) (\<lambda>ok w.
           if ok then Ret (Some (sockfd, res)) w
           else then_run (Close sockfd w) (\<lambda>_ w. walk_addrs prep rest w)))"

definition connect_setup :: "addrinfo \<Rightarrow> fd \<Rightarrow> world \<Rightarrow> bool run" where
  "connect_setup res sockfd w =
     then_run (sys_unit (C_connect sockfd (ai_addr res)) w) (\<lambda>n w. Ret (n = 0) w)"

definition bind_setup :: "addrinfo \<Rightarrow> fd \<Rightarrow> world \<Rightarrow> bool run" where
  "bind_setup res sockfd w =
     then_run (sys_unit (C_bind sockfd (ai_addr res)) w) (\<lambda>n w. Ret (n = 0) w)"

definition listen_setup :: "addrinfo \<Rightarrow> fd \<Rightarrow> world \<Rightarrow> bool run" where
  "listen_setup res sockfd w =
     then_run (Setsockopt sockfd SOL_SOCKET SO_REUSEADDR (OV_int 1) w) (\<lambda>_ w.
       bind_setup res sockfd w)"

text \<open>The socket of \<^verbatim>\<open>udp_client\<close> needs no prep.\<close>

definition no_setup :: "addrinfo \<Rightarrow> fd \<Rightarrow> world \<Rightarrow> bool run" where
  "no_setup res sockfd w = Ret True w"

definition host_serv_error :: "string \<Rightarrow> string \<Rightarrow> string \<Rightarrow> string" where
  "host_serv_error name host serv = name @ '' error for '' @ host @ '', '' @ serv"

text \<open>Look the addresses up, try them, and end the process when none works.\<close>

definition open_first ::
  "gai \<Rightarrow> (int \<Rightarrow> string) \<Rightarrow> string \<Rightarrow> (addrinfo \<Rightarrow> fd \<Rightarrow> world \<Rightarrow> bool run) \<Rightarrow> addrinfo \<Rightarrow>
     string \<Rightarrow> string \<Rightarrow> world \<Rightarrow> (fd \<times> addrinfo) run" where
  "open_first gai gai_strerror name prep hints host serv w =
     (case gai (Some host) (Some serv) hints of
        Inl n \<Rightarrow> err_quit (host_serv_error name host serv @ '': '' @ gai_strerror n) w
      | Inr res \<Rightarrow> then_run (walk_addrs prep res w) (\<lambda>r w. case r of
            None \<Rightarrow> err_sys (host_serv_error name host serv) w
          | Some x \<Rightarrow> Ret x w))"

definition tcp_connect :: "gai \<Rightarrow> (int \<Rightarrow> string) \<Rightarrow> string \<Rightarrow> string \<Rightarrow> world \<Rightarrow> int run" where
  "tcp_connect gai gai_strerror host serv w =
     then_run (open_first gai gai_strerror ''tcp_connect'' connect_setup
         (no_hints\<lparr>ai_family := AF_UNSPEC, ai_socktype := SOCK_STREAM\<rparr>) host serv w)
       (\<lambda>r w. Ret (fst r) w)"

definition tcp_listen ::
  "gai \<Rightarrow> (int \<Rightarrow> string) \<Rightarrow> string \<Rightarrow> string \<Rightarrow> world \<Rightarrow> (int \<times> nat) run" where
  "tcp_listen gai gai_strerror host serv w =
     then_run (open_first gai gai_strerror ''tcp_listen'' listen_setup
         (no_hints\<lparr>ai_flags := AI_PASSIVE, ai_family := AF_UNSPEC, ai_socktype := SOCK_STREAM\<rparr>)
         host serv w)
       (\<lambda>r w. then_run (Listen (fst r) LISTENQ w) (\<lambda>_ w. Ret (fst r, ai_addrlen (snd r)) w))"

definition udp_client ::
  "gai \<Rightarrow> (int \<Rightarrow> string) \<Rightarrow> string \<Rightarrow> string \<Rightarrow> world \<Rightarrow> (int \<times> sockaddr \<times> nat) run" where
  "udp_client gai gai_strerror host serv w =
     then_run (open_first gai gai_strerror ''udp_client'' no_setup
         (no_hints\<lparr>ai_family := AF_UNSPEC, ai_socktype := SOCK_DGRAM\<rparr>) host serv w)
       (\<lambda>r w. then_run (Malloc (ai_addrlen (snd r)) w) (\<lambda>_ w.
         Ret (fst r, ai_addr (snd r), ai_addrlen (snd r)) w))"

definition udp_connect :: "gai \<Rightarrow> (int \<Rightarrow> string) \<Rightarrow> string \<Rightarrow> string \<Rightarrow> world \<Rightarrow> int run" where
  "udp_connect gai gai_strerror host serv w =
     then_run (open_first gai gai_strerror ''udp_connect'' connect_setup
         (no_hints\<lparr>ai_family := AF_UNSPEC, ai_socktype := SOCK_DGRAM\<rparr>) host serv w)
       (\<lambda>r w. Ret (fst r) w)"

definition Udp_connect :: "gai \<Rightarrow> (int \<Rightarrow> string) \<Rightarrow> string \<Rightarrow> string \<Rightarrow> world \<Rightarrow> int run" where
  "Udp_connect gai gai_strerror host serv w =
     then_run (udp_connect gai gai_strerror host serv w) (\<lambda>n w.
       if n < 0
       then err_quit (host_serv_error ''udp_connect'' host serv @ '': '' @ gai_strerror (- n)) w
       else Ret n w)"

definition udp_server ::
  "gai \<Rightarrow> (int \<Rightarrow> string) \<Rightarrow> string \<Rightarrow> string \<Rightarrow> world \<Rightarrow> (int \<times> nat) run" where
  "udp_server gai gai_strerror host serv w =
     then_run (open_first gai gai_strerror ''udp_server'' bind_setup
         (no_hints\<lparr>ai_flags := AI_PASSIVE, ai_family := AF_UNSPEC, ai_socktype := SOCK_DGRAM\<rparr>)
         host serv w)
       (\<lambda>r w. Ret (fst r, ai_addrlen (snd r)) w)"

definition host_serv ::
  "gai \<Rightarrow> string option \<Rightarrow> string option \<Rightarrow> int \<Rightarrow> int \<Rightarrow> addrinfo list option" where
  "host_serv gai host serv family socktype =
     (case gai host serv (no_hints\<lparr>ai_flags := AI_CANONNAME, ai_family := family,
             ai_socktype := socktype\<rparr>) of
        Inl n \<Rightarrow> None | Inr res \<Rightarrow> Some res)"

definition Host_serv ::
  "gai \<Rightarrow> (int \<Rightarrow> string) \<Rightarrow> string option \<Rightarrow> string option \<Rightarrow> int \<Rightarrow> int \<Rightarrow> world
     \<Rightarrow> addrinfo list run" where
  "Host_serv gai gai_strerror host serv family socktype w =
     (case gai host serv (no_hints\<lparr>ai_flags := AI_CANONNAME, ai_family := family,
             ai_socktype := socktype\<rparr>) of
        Inl n \<Rightarrow> err_quit (''host_serv error for '' @
            (case host of None \<Rightarrow> ''(no hostname)'' | Some h \<Rightarrow> h) @ '', '' @
            (case serv of None \<Rightarrow> ''(no service name)'' | Some s \<Rightarrow> s) @ '': '' @ gai_strerror n) w
      | Inr res \<Rightarrow> Ret res w)"

section \<open>Signals\<close>

text \<open>
  A handler is an address; \<^verbatim>\<open>SIG_ERR\<close> is \<open>- 1\<close>, \<^verbatim>\<open>SIG_DFL\<close> 0 and \<^verbatim>\<open>SIG_IGN\<close> 1. The platform defines
  both \<^verbatim>\<open>SA_RESTART\<close> and \<^verbatim>\<open>SA_INTERRUPT\<close>.
\<close>

definition SIG_ERR :: int where [unp_consts]: "SIG_ERR = - 1"
definition SIG_IGN :: int where [unp_consts]: "SIG_IGN = 1"
definition SIGHUP :: int where [unp_consts]: "SIGHUP = 1"
definition SA_RESTART :: int where [unp_consts]: "SA_RESTART = 268435456"
definition SA_INTERRUPT :: int where [unp_consts]: "SA_INTERRUPT = 536870912"

definition signal :: "int \<Rightarrow> int \<Rightarrow> world \<Rightarrow> int run" where
  "signal signo func w =
     (let sa_flags = (if signo = SIGALRM then SA_INTERRUPT else SA_RESTART) in
      then_run (sys_int (C_sigaction signo func sa_flags) w) (\<lambda>old w.
        if old < 0 then Ret SIG_ERR w else Ret old w))"

definition Signal :: "int \<Rightarrow> int \<Rightarrow> world \<Rightarrow> int run" where
  "Signal signo func w = checked (\<lambda>sigfunc. sigfunc = SIG_ERR) ''signal error'' (signal signo func w)"

definition signal_intr :: "int \<Rightarrow> int \<Rightarrow> world \<Rightarrow> int run" where
  "signal_intr signo func w =
     then_run (sys_int (C_sigaction signo func SA_INTERRUPT) w) (\<lambda>old w.
       if old < 0 then Ret SIG_ERR w else Ret old w)"

definition Signal_intr :: "int \<Rightarrow> int \<Rightarrow> world \<Rightarrow> int run" where
  "Signal_intr signo func w =
     checked (\<lambda>sigfunc. sigfunc = SIG_ERR) ''signal_intr error'' (signal_intr signo func w)"

section \<open>Time-limited operations\<close>

definition F_GETFL :: int where [unp_consts]: "F_GETFL = 3"
definition F_SETFL :: int where [unp_consts]: "F_SETFL = 4"
definition O_NONBLOCK :: int where [unp_consts]: "O_NONBLOCK = 2048"

text \<open>\<^verbatim>\<open>close\<close> without the wrapper: its result is not looked at.\<close>

definition close_quietly :: "fd \<Rightarrow> world \<Rightarrow> unit run" where
  "close_quietly fd w = void (sys_unit (C_close fd) w)"

text \<open>The error \<^verbatim>\<open>getsockopt(SO_ERROR)\<close> stored.\<close>

fun so_error :: "optval \<Rightarrow> int" where
  "so_error (OV_int e) = e"
| "so_error _ = 0"

definition connect_nonb_done :: "fd \<Rightarrow> int \<Rightarrow> int \<Rightarrow> world \<Rightarrow> int run" where
  "connect_nonb_done sockfd flags error w =
     then_run (Fcntl sockfd F_SETFL flags w) (\<lambda>_ w.
       if error \<noteq> 0 then
         then_run (close_quietly sockfd w) (\<lambda>_ w. Ret (- 1) (set_errno error w))
       else Ret 0 w)"

definition connect_nonb :: "fd \<Rightarrow> sockaddr \<Rightarrow> int \<Rightarrow> world \<Rightarrow> int run" where
  "connect_nonb sockfd sa nsec w =
     then_run (Fcntl sockfd F_GETFL 0 w) (\<lambda>flags w.
     then_run (Fcntl sockfd F_SETFL (flags OR O_NONBLOCK) w) (\<lambda>_ w.
     then_run (sys_unit (C_connect sockfd sa) w) (\<lambda>n w.
       if n < 0 \<and> errno w \<noteq> EINPROGRESS then Ret (- 1) w
       else if n = 0 then connect_nonb_done sockfd flags 0 w
       else
         then_run (Select (sockfd + 1) {sockfd} {sockfd} (if nsec \<noteq> 0 then Some nsec else None) w)
           (\<lambda>r w. case r of (n, rset, wset) \<Rightarrow>
             if n = 0 then
               then_run (close_quietly sockfd w) (\<lambda>_ w. Ret (- 1) (set_errno ETIMEDOUT w))
             else if sockfd \<in> rset \<or> sockfd \<in> wset then
               then_run (sys_opt (C_getsockopt sockfd SOL_SOCKET SO_ERROR) w) (\<lambda>r w.
                 if fst r < 0 then Ret (- 1) w
                 else connect_nonb_done sockfd flags (so_error (snd r)) w)
             else err_quit ''select error: sockfd not set'' w))))"

text \<open>\<open>connect_alarm\<close> is the address of the handler that only interrupts \<^verbatim>\<open>connect\<close>.\<close>

definition connect_timeo :: "int \<Rightarrow> fd \<Rightarrow> sockaddr \<Rightarrow> int \<Rightarrow> world \<Rightarrow> int run" where
  "connect_timeo connect_alarm sockfd sa nsec w =
     then_run (Signal SIGALRM connect_alarm w) (\<lambda>sigfunc w.
     then_run (sys_int (C_alarm nsec) w) (\<lambda>left w.
     then_run (if left \<noteq> 0 then err_msg ''connect_timeo: alarm was already set'' w else Ret () w)
       (\<lambda>_ w.
     then_run (sys_unit (C_connect sockfd sa) w) (\<lambda>n w.
     then_run (if n < 0 then
                 then_run (close_quietly sockfd w) (\<lambda>_ w.
                   Ret () (if errno w = EINTR then set_errno ETIMEDOUT w else w))
               else Ret () w) (\<lambda>_ w.
     then_run (sys_int (C_alarm 0) w) (\<lambda>_ w.
     then_run (Signal SIGALRM sigfunc w) (\<lambda>_ w. Ret n w)))))))"

definition Connect_timeo :: "int \<Rightarrow> fd \<Rightarrow> sockaddr \<Rightarrow> int \<Rightarrow> world \<Rightarrow> unit run" where
  "Connect_timeo connect_alarm fd sa sec w =
     void (checked (\<lambda>n. n < 0) ''connect_timeo error'' (connect_timeo connect_alarm fd sa sec w))"

definition readable_timeo :: "fd \<Rightarrow> int \<Rightarrow> world \<Rightarrow> int run" where
  "readable_timeo fd sec w =
     then_run (sys_select (fd + 1) {fd} {} (Some sec) w) (\<lambda>r w. Ret (fst r) w)"

definition Readable_timeo :: "fd \<Rightarrow> int \<Rightarrow> world \<Rightarrow> int run" where
  "Readable_timeo fd sec w = checked (\<lambda>n. n < 0) ''readable_timeo error'' (readable_timeo fd sec w)"

definition writable_timeo :: "fd \<Rightarrow> int \<Rightarrow> world \<Rightarrow> int run" where
  "writable_timeo fd sec w =
     then_run (sys_select (fd + 1) {} {fd} (Some sec) w) (\<lambda>r w. Ret (fst r) w)"

definition Writable_timeo :: "fd \<Rightarrow> int \<Rightarrow> world \<Rightarrow> int run" where
  "Writable_timeo fd sec w = checked (\<lambda>n. n < 0) ''writable_timeo error'' (writable_timeo fd sec w)"

text \<open>
  \<^verbatim>\<open>pselect\<close>: the time limit, in seconds and nanoseconds, becomes seconds and microseconds; the
  mask that \<^verbatim>\<open>sigprocmask\<close> stored is installed again.
\<close>

definition SIG_SETMASK :: int where [unp_consts]: "SIG_SETMASK = 2"

definition pselect ::
  "int \<Rightarrow> fd set \<Rightarrow> fd set \<Rightarrow> (int \<times> int) option \<Rightarrow> int set \<Rightarrow> world
     \<Rightarrow> (int \<times> fd set \<times> fd set) run" where
  "pselect nfds rset wset ts sigmask w =
     (let tv = map_option (\<lambda>(sec, nsec). sec * 1000000 + nsec div 1000) ts in
      then_run (sys (C_sigprocmask SIG_SETMASK sigmask) w) (\<lambda>a w.
      then_run (sys_select nfds rset wset tv w) (\<lambda>r w.
      then_run (sys (C_sigprocmask SIG_SETMASK (set (a_ints a))) w) (\<lambda>_ w. Ret r w))))"

definition sockatmark :: "fd \<Rightarrow> world \<Rightarrow> int run" where
  "sockatmark fd w = then_run (sys (C_ioctl fd 35077) w) (\<lambda>a w.
     if a_err a \<noteq> 0 then Ret (- 1) w
     else Ret (if (case a_ints a of [] \<Rightarrow> 0 | flag # _ \<Rightarrow> flag) \<noteq> 0 then 1 else 0) w)"

section \<open>Passing descriptors\<close>

text \<open>\<^verbatim>\<open>CMSG_LEN(sizeof(int))\<close> is 20 on the platform.\<close>

definition CMSG_LEN_int :: nat where [unp_consts]: "CMSG_LEN_int = 20"

definition read_fd :: "fd \<Rightarrow> nat \<Rightarrow> world \<Rightarrow> (int \<times> bytes \<times> int option) run" where
  "read_fd fd nbytes w =
     then_run (sys_recvmsg fd nbytes w) (\<lambda>r w. case r of (n, buf, _, control) \<Rightarrow>
       if n \<le> 0 then Ret (n, buf, None) w
       else case control of
           cmptr # _ \<Rightarrow>
             if cmsg_len cmptr = CMSG_LEN_int then
               (if cmsg_level cmptr \<noteq> SOL_SOCKET then err_quit ''control level != SOL_SOCKET'' w
                else if cmsg_type cmptr \<noteq> SCM_RIGHTS then err_quit ''control type != SCM_RIGHTS'' w
                else Ret (n, buf, Some (cmsg_int cmptr)) w)
             else Ret (n, buf, Some (- 1)) w
         | [] \<Rightarrow> Ret (n, buf, Some (- 1)) w)"

definition Read_fd :: "fd \<Rightarrow> nat \<Rightarrow> world \<Rightarrow> (int \<times> bytes \<times> int option) run" where
  "Read_fd fd nbytes w = checked (\<lambda>r. fst r < 0) ''read_fd error'' (read_fd fd nbytes w)"

definition fd_cmsg :: "int \<Rightarrow> cmsg" where
  "fd_cmsg sendfd = \<lparr>cmsg_len = CMSG_LEN_int, cmsg_level = SOL_SOCKET, cmsg_type = SCM_RIGHTS,
     cmsg_int = sendfd\<rparr>"

definition write_fd :: "fd \<Rightarrow> bytes \<Rightarrow> int \<Rightarrow> world \<Rightarrow> int run" where
  "write_fd fd buf sendfd w =
     sys_accepts (C_sendmsg fd buf (SA_other AF_UNSPEC) [fd_cmsg sendfd]) (length buf) w"

definition Write_fd :: "fd \<Rightarrow> bytes \<Rightarrow> int \<Rightarrow> world \<Rightarrow> int run" where
  "Write_fd fd buf sendfd w = checked (\<lambda>n. n < 0) ''write_fd error'' (write_fd fd buf sendfd w)"

section \<open>Daemons\<close>

definition MAXFD :: nat where [unp_consts]: "MAXFD = 64"

text \<open>A call whose result is not looked at.\<close>

definition call_quietly :: "call \<Rightarrow> world \<Rightarrow> unit run" where
  "call_quietly c w = void (sys c w)"

lemma call_quietly_consumes: "call_quietly c w = Ret x w' \<Longrightarrow> length (script w') < length (script w)"
  by (auto simp: call_quietly_def void_Ret_iff)

function close_all :: "nat \<Rightarrow> world \<Rightarrow> unit run" where
  "close_all i w =
     (if i < MAXFD then then_run (close_quietly (int i) w) (\<lambda>_ w. close_all (Suc i) w)
      else Ret () w)"
  by pat_completeness auto
termination
  by (relation "measure (\<lambda>(i, w). MAXFD - i)") auto

declare close_all.simps [simp del]

definition daemon_init :: "string \<Rightarrow> int \<Rightarrow> world \<Rightarrow> int run" where
  "daemon_init pname facility w =
     then_run (Fork w) (\<lambda>pid w.
       if pid < 0 then Ret (- 1) w
       else if pid \<noteq> 0 then Exit 0 w
       else then_run (sys_int (C_other ''setsid'' []) w) (\<lambda>sid w.
         if sid < 0 then Ret (- 1) w
         else then_run (Signal SIGHUP SIG_IGN w) (\<lambda>_ w.
         then_run (Fork w) (\<lambda>pid w.
           if pid < 0 then Ret (- 1) w
           else if pid \<noteq> 0 then Exit 0 w
           else let w = w\<lparr>daemon_proc := 1\<rparr> in
             then_run (call_quietly (C_path ''chdir'' ''/'' []) w) (\<lambda>_ w.
             then_run (close_all 0 w) (\<lambda>_ w.
             then_run (call_quietly (C_path ''open'' ''/dev/null'' [0]) w) (\<lambda>_ w.
             then_run (call_quietly (C_path ''open'' ''/dev/null'' [2]) w) (\<lambda>_ w.
             then_run (call_quietly (C_path ''open'' ''/dev/null'' [2]) w) (\<lambda>_ w.
             then_run (call_quietly (C_path ''openlog'' pname [1, facility]) w) (\<lambda>_ w.
               Ret 0 w)))))))))) "

definition daemon_inetd :: "string \<Rightarrow> int \<Rightarrow> world \<Rightarrow> unit run" where
  "daemon_inetd pname facility w =
     call_quietly (C_path ''openlog'' pname [1, facility]) (w\<lparr>daemon_proc := 1\<rparr>)"

section \<open>No descriptor is lost on the way\<close>

text \<open>
  What the loop over the addresses needs from a setup: it neither opens nor closes descriptors,
  and \<open>prepared\<close> describes what it did when it succeeded.
\<close>

locale socket_setup =
  fixes prep :: "addrinfo \<Rightarrow> fd \<Rightarrow> world \<Rightarrow> bool run"
    and prepared :: "addrinfo \<Rightarrow> fd \<Rightarrow> event list \<Rightarrow> bool"
  assumes setup_trace: "prep ai fd w = Ret ok w' \<Longrightarrow>
    \<exists>es. trace w' = trace w @ es \<and> opened es = [] \<and> closed es = [] \<and> (ok \<longrightarrow> prepared ai fd es)"
begin

text \<open>Every socket made on the way was closed again, in order, except the one that is returned.\<close>

definition walked :: "addrinfo set \<Rightarrow> (fd \<times> addrinfo) option \<Rightarrow> event list \<Rightarrow> bool" where
  "walked A r es \<longleftrightarrow> (case r of
     None \<Rightarrow> opened es = closed es
   | Some (fd, ai) \<Rightarrow> ai \<in> A \<and>
       (\<exists>pre post. es = pre @ post \<and> prepared ai fd post \<and> opened pre = closed pre @ [fd] \<and>
          opened post = [] \<and> closed post = []))"

lemma walked_SomeI:
  "ai \<in> A \<Longrightarrow> prepared ai fd post \<Longrightarrow> opened pre = closed pre @ [fd] \<Longrightarrow> opened post = [] \<Longrightarrow>
     closed post = [] \<Longrightarrow> walked A (Some (fd, ai)) (pre @ post)"
  unfolding walked_def by auto

lemma walked_after:
  assumes "walked A r es" and "opened es0 = closed es0" and "A \<subseteq> B"
  shows "walked B r (es0 @ es)"
proof (cases r)
  case (Some x)
  obtain fd ai where x: "x = (fd, ai)" by force
  with Some assms(1) obtain pre post where "es = pre @ post" "prepared ai fd post"
    "opened pre = closed pre @ [fd]" "opened post = []" "closed post = []" "ai \<in> A"
    unfolding walked_def by auto
  with Some x assms(2,3) walked_SomeI [of ai B fd post "es0 @ pre"] show ?thesis by auto
qed (use assms in \<open>simp add: walked_def\<close>)

lemma walk_addrs_fds:
  assumes "walk_addrs prep res w = Ret r w'"
  shows "\<exists>es. trace w' = trace w @ es \<and> walked (set res) r es"
  using assms
proof (induction res arbitrary: w)
  case Nil
  then show ?case by (auto simp: walked_def)
next
  case (Cons ai rest)
  let ?sock = "C_socket (ai_family ai) (ai_socktype ai) (ai_protocol ai)"
  have sub: "set rest \<subseteq> set (ai # rest)" by auto
  from Cons.prems obtain a s where a: "script w = a # s"
    by (cases "script w") (auto simp: sys_int_def sys_def)
  let ?w = "called ?sock a s w"
  show ?case
  proof (cases "a_err a = 0")
    case False
    with Cons.prems a have "walk_addrs prep rest ?w = Ret r w'"
      by (simp add: sys_int_def sys_def)
    from Cons.IH [OF this] obtain es where "trace w' = trace ?w @ es" "walked (set rest) r es"
      by blast
    with walked_after [OF this(2) _ sub, of "[Sys ?sock a]"] False show ?thesis by auto
  next
    case True
    let ?fd = "int (a_val a)"
    from Cons.prems a True obtain ok w1 where set: "prep ai ?fd ?w = Ret ok w1"
      by (auto simp: sys_int_def sys_def then_run_Ret_iff)
    obtain es1 where es1: "trace w1 = trace ?w @ es1" "opened es1 = []" "closed es1 = []"
      "ok \<longrightarrow> prepared ai ?fd es1"
      using setup_trace [OF set] by blast
    show ?thesis
    proof (cases ok)
      case ok: True
      with Cons.prems a True set have "r = Some (?fd, ai)" "w' = w1"
        by (auto simp: sys_int_def sys_def)
      with es1 ok True walked_SomeI [of ai "set (ai # rest)" ?fd es1 "[Sys ?sock a]"]
      show ?thesis by (intro exI [of _ "Sys ?sock a # es1"]) simp
    next
      case False
      with Cons.prems a True set obtain w2 where cl: "Close ?fd w1 = Ret () w2"
        and run: "walk_addrs prep rest w2 = Ret r w'"
        by (auto simp: sys_int_def sys_def then_run_Ret_iff)
      obtain b where b: "trace w2 = trace w1 @ [Sys (C_close ?fd) b]" "a_err b = 0"
        using Close.wrap_trace [OF cl] by blast
      from Cons.IH [OF run] obtain es where es: "trace w' = trace w2 @ es" "walked (set rest) r es"
        by blast
      let ?pre = "Sys ?sock a # es1 @ [Sys (C_close ?fd) b]"
      have "walked (set (ai # rest)) r (?pre @ es)"
        using True es1 b by (intro walked_after [OF es(2) _ sub]) simp
      with es(1) b es1 show ?thesis by (intro exI [of _ "?pre @ es"]) simp
    qed
  qed
qed

lemma open_first_fds:
  assumes "open_first gai ge name prep hints host serv w = Ret (fd, ai) w'"
  shows "\<exists>res pre post. gai (Some host) (Some serv) hints = Inr res \<and> ai \<in> set res \<and>
    trace w' = trace w @ pre @ post \<and> prepared ai fd post \<and> opened pre = closed pre @ [fd] \<and>
    opened post = [] \<and> closed post = []"
proof -
  from assms obtain res where res: "gai (Some host) (Some serv) hints = Inr res"
    and run: "walk_addrs prep res w = Ret (Some (fd, ai)) w'"
    by (auto simp: open_first_def then_run_Ret_iff err_quit_def err_sys_def
        split: sum.splits option.splits)
  from walk_addrs_fds [OF run] res show ?thesis unfolding walked_def by fastforce
qed

end

lemma sys_unit_Ret:
  "sys_unit c w = Ret n w' \<Longrightarrow> \<exists>a. trace w' = trace w @ [Sys c a] \<and> n = (if a_err a = 0 then 0 else - 1)"
  by (auto simp: sys_unit_def then_run_Ret_iff sys_def split: list.splits)

interpretation connecting: socket_setup connect_setup
  "\<lambda>ai fd es. \<exists>a. es = [Sys (C_connect fd (ai_addr ai)) a] \<and> a_err a = 0"
  by unfold_locales
     (auto simp: connect_setup_def then_run_Ret_iff dest!: sys_unit_Ret split: if_splits)

lemma bind_setup_trace:
  "bind_setup ai fd w = Ret ok w' \<Longrightarrow> \<exists>a. trace w' = trace w @ [Sys (C_bind fd (ai_addr ai)) a] \<and>
     (ok \<longleftrightarrow> a_err a = 0)"
  by (auto simp: bind_setup_def then_run_Ret_iff dest!: sys_unit_Ret split: if_splits)

interpretation binding: socket_setup bind_setup
  "\<lambda>ai fd es. \<exists>a. es = [Sys (C_bind fd (ai_addr ai)) a] \<and> a_err a = 0"
  by unfold_locales (auto dest!: bind_setup_trace)

interpretation listening: socket_setup listen_setup
  "\<lambda>ai fd es. \<exists>a b. a_err a = 0 \<and> a_err b = 0 \<and>
     es = [Sys (C_setsockopt fd SOL_SOCKET SO_REUSEADDR (OV_int 1)) b, Sys (C_bind fd (ai_addr ai)) a]"
proof
  fix ai fd w ok w'
  assume "listen_setup ai fd w = Ret ok w'"
  then obtain w1 where "Setsockopt fd SOL_SOCKET SO_REUSEADDR (OV_int 1) w = Ret () w1"
    and "bind_setup ai fd w1 = Ret ok w'"
    by (auto simp: listen_setup_def then_run_Ret_iff)
  from Setsockopt.wrap_trace [OF this(1)] bind_setup_trace [OF this(2)]
  show "\<exists>es. trace w' = trace w @ es \<and> opened es = [] \<and> closed es = [] \<and>
    (ok \<longrightarrow> (\<exists>a b. a_err a = 0 \<and> a_err b = 0 \<and>
      es = [Sys (C_setsockopt fd SOL_SOCKET SO_REUSEADDR (OV_int 1)) b, Sys (C_bind fd (ai_addr ai)) a]))"
    by auto
qed

interpretation unprepared: socket_setup no_setup "\<lambda>ai fd es. es = []"
  by unfold_locales (auto simp: no_setup_def)

section \<open>Properties\<close>

text \<open>
  (C29) When \<^verbatim>\<open>tcp_connect\<close> returns, its last call is the successful \<^verbatim>\<open>connect\<close> of the returned
  descriptor to one of the addresses looked up, and it has closed every other socket it made:
  the descriptors it opened are, in order, those it closed followed by the one it returns.
\<close>

theorem tcp_connect_no_leak:
  assumes "tcp_connect gai ge host serv w = Ret fd w'"
  shows "\<exists>res ai es a. gai (Some host) (Some serv)
        (no_hints\<lparr>ai_family := AF_UNSPEC, ai_socktype := SOCK_STREAM\<rparr>) = Inr res \<and> ai \<in> set res \<and>
     trace w' = trace w @ es @ [Sys (C_connect fd (ai_addr ai)) a] \<and> a_err a = 0 \<and>
     opened es = closed es @ [fd]"
proof -
  from assms obtain ai where "open_first gai ge ''tcp_connect'' connect_setup
      (no_hints\<lparr>ai_family := AF_UNSPEC, ai_socktype := SOCK_STREAM\<rparr>) host serv w = Ret (fd, ai) w'"
    by (auto simp: tcp_connect_def then_run_Ret_iff)
  from connecting.open_first_fds [OF this] show ?thesis by blast
qed

theorem tcp_connect_no_leak_witness:
  "\<exists>w'. tcp_connect (\<lambda>h s hints. Inr [no_hints, no_hints\<lparr>ai_addr := SA_in 80 [127, 0, 0, 1]\<rparr>])
       (\<lambda>n. []) ''localhost'' ''http''
       (boot [gave 3, fails ECONNREFUSED, ans0, gave 4, ans0]) = Ret 4 w' \<and>
     (\<exists>es a. trace w' = es @ [Sys (C_connect 4 (SA_in 80 [127, 0, 0, 1])) a] \<and>
        opened es = closed es @ [4])"
proof -
  let ?gai = "\<lambda>h s hints. Inr [no_hints, no_hints\<lparr>ai_addr := SA_in 80 [127, 0, 0, 1]\<rparr>] :: int + addrinfo list"
  let ?w = "boot [gave 3, fails ECONNREFUSED, ans0, gave 4, ans0]"
  obtain w' where run: "tcp_connect ?gai (\<lambda>n. []) ''localhost'' ''http'' ?w = Ret 4 w'"
    by (simp add: tcp_connect_def open_first_def connect_setup_def Close_def wrapper_unfold
        ECONNREFUSED_def)
  from run have tr: "trace w' = [Sys (C_socket 0 0 0) (gave 3), Sys (C_connect 3 (SA_other 0)) (fails ECONNREFUSED),
      Sys (C_close 3) ans0, Sys (C_socket 0 0 0) (gave 4), Sys (C_connect 4 (SA_in 80 [127, 0, 0, 1])) ans0]"
    by (auto simp: tcp_connect_def open_first_def connect_setup_def Close_def wrapper_unfold
        ECONNREFUSED_def no_hints_def)
  from tcp_connect_no_leak [OF run] run tr show ?thesis by fastforce
qed

lemma sys_int_Ret:
  "sys_int c w = Ret n w' \<Longrightarrow> \<exists>a s. script w = a # s \<and> w' = called c a s w \<and>
     n = (if a_err a = 0 then int (a_val a) else - 1)"
  by (auto simp: sys_int_def then_run_Ret_iff sys_def split: list.splits)

lemma sys_unit_Ret':
  "sys_unit c w = Ret n w' \<Longrightarrow> \<exists>a s. script w = a # s \<and> w' = called c a s w \<and>
     n = (if a_err a = 0 then 0 else - 1)"
  by (auto simp: sys_unit_def then_run_Ret_iff sys_def split: list.splits)

lemma close_quietly_Ret:
  "close_quietly fd w = Ret x w' \<Longrightarrow> \<exists>a s. script w = a # s \<and> w' = called (C_close fd) a s w"
  by (auto simp: close_quietly_def void_Ret_iff dest!: sys_unit_Ret')

text \<open>
  When \<^verbatim>\<open>connect_nonb\<close> returns 0, the connection was established (\<^verbatim>\<open>connect\<close> succeeded at
  once, or was in progress and the pending error of the socket is 0), and its last call restores
  the file status flags its first call had read.
\<close>

theorem connect_nonb_success:
  assumes "connect_nonb sockfd sa nsec w = Ret 0 w'"
  shows "\<exists>a0 a1 c mid z. trace w' = trace w @
      [Sys (C_fcntl sockfd F_GETFL 0) a0,
       Sys (C_fcntl sockfd F_SETFL (int (a_val a0) OR O_NONBLOCK)) a1,
       Sys (C_connect sockfd sa) c] @ mid @ [Sys (C_fcntl sockfd F_SETFL (int (a_val a0))) z] \<and>
    a_err a0 = 0 \<and> a_err a1 = 0 \<and> a_err z = 0 \<and>
    (a_err c = 0 \<and> mid = []
     \<or> a_err c = EINPROGRESS \<and> (\<exists>s g. mid = [s, Sys (C_getsockopt sockfd SOL_SOCKET SO_ERROR) g] \<and>
          a_err g = 0 \<and> so_error (a_opt g) = 0))"
proof -
  from assms obtain flags w1 x w2 n w3 where
    f: "Fcntl sockfd F_GETFL 0 w = Ret flags w1"
    and g: "Fcntl sockfd F_SETFL (flags OR O_NONBLOCK) w1 = Ret x w2"
    and c: "sys_unit (C_connect sockfd sa) w2 = Ret n w3"
    and rest: "(if n < 0 \<and> errno w3 \<noteq> EINPROGRESS then Ret (- 1) w3
       else if n = 0 then connect_nonb_done sockfd flags 0 w3
       else
         then_run (Select (sockfd + 1) {sockfd} {sockfd} (if nsec \<noteq> 0 then Some nsec else None) w3)
           (\<lambda>r w. case r of (n, rset, wset) \<Rightarrow>
             if n = 0 then
               then_run (close_quietly sockfd w) (\<lambda>_ w. Ret (- 1) (set_errno ETIMEDOUT w))
             else if sockfd \<in> rset \<or> sockfd \<in> wset then
               then_run (sys_opt (C_getsockopt sockfd SOL_SOCKET SO_ERROR) w) (\<lambda>r w.
                 if fst r < 0 then Ret (- 1) w
                 else connect_nonb_done sockfd flags (so_error (snd r)) w)
             else err_quit ''select error: sockfd not set'' w)) = Ret 0 w'"
    unfolding connect_nonb_def then_run_Ret_iff by blast
  obtain a0 where a0: "trace w1 = trace w @ [Sys (C_fcntl sockfd F_GETFL 0) a0]" "a_err a0 = 0"
    "flags = int (a_val a0)"
    using f by (auto simp: Fcntl.wrap_Ret)
  obtain a1 where a1: "trace w2 = trace w1 @ [Sys (C_fcntl sockfd F_SETFL (flags OR O_NONBLOCK)) a1]"
    "a_err a1 = 0"
    using g by (auto simp: Fcntl.wrap_Ret)
  obtain ac s where ac: "w3 = called (C_connect sockfd sa) ac s w2" "n = (if a_err ac = 0 then 0 else - 1)"
    using sys_unit_Ret' [OF c] by blast
  have done0: "error = 0 \<and> (\<exists>z. trace v = trace u @ [Sys (C_fcntl sockfd F_SETFL flags) z] \<and> a_err z = 0)"
    if "connect_nonb_done sockfd flags error u = Ret 0 v" for error u v
    using that by (auto simp: connect_nonb_done_def then_run_Ret_iff Fcntl.wrap_Ret split: if_splits)
  show ?thesis
  proof (cases "a_err ac = 0")
    case True
    with rest ac have "connect_nonb_done sockfd flags 0 w3 = Ret 0 w'" by simp
    from done0 [OF this] a0 a1 ac True show ?thesis by auto
  next
    case False
    with rest ac have prog: "a_err ac = EINPROGRESS" by (auto split: if_splits)
    with rest ac obtain r w4 ro w5 where
      sel: "Select (sockfd + 1) {sockfd} {sockfd} (if nsec \<noteq> 0 then Some nsec else None) w3 = Ret r w4"
      and opt: "sys_opt (C_getsockopt sockfd SOL_SOCKET SO_ERROR) w4 = Ret ro w5"
      and ro: "\<not> fst ro < 0" and fin: "connect_nonb_done sockfd flags (so_error (snd ro)) w5 = Ret 0 w'"
      by (auto simp: then_run_Ret_iff err_quit_def EINPROGRESS_def split: if_splits prod.splits)
    obtain e where "trace w4 = trace w3 @ [e]"
      using sel by (auto simp: Select_def checked_Ret_iff sys_select_def then_run_Ret_iff sys_def split: list.splits)
    moreover obtain oo where "trace w5 = trace w4 @ [Sys (C_getsockopt sockfd SOL_SOCKET SO_ERROR) oo]"
      "a_err oo = 0" "snd ro = a_opt oo"
      using opt ro by (auto simp: sys_opt_def then_run_Ret_iff sys_def split: list.splits if_splits)
    ultimately show ?thesis using done0 [OF fin] a0 a1 ac prog by auto
  qed
qed

theorem connect_nonb_success_witness:
  "\<exists>w' mid. connect_nonb 3 (SA_other 0) 5 (boot [gave 2, ans0, fails EINPROGRESS,
       ans0\<lparr>a_wset := [3]\<rparr>, ans0, ans0]) = Ret 0 w' \<and>
     trace w' = mid @ [Sys (C_fcntl 3 F_SETFL 2) ans0]"
proof -
  let ?w = "boot [gave 2, ans0, fails EINPROGRESS, ans0\<lparr>a_wset := [3]\<rparr>, ans0, ans0]"
  have "\<exists>w'. connect_nonb 3 (SA_other 0) 5 ?w = Ret 0 w' \<and>
      trace w' = [Sys (C_fcntl 3 F_GETFL 0) (gave 2), Sys (C_fcntl 3 F_SETFL 2050) ans0,
        Sys (C_connect 3 (SA_other 0)) (fails EINPROGRESS),
        Sys (C_select 4 {3} {3} (Some 5)) (ans0\<lparr>a_wset := [3]\<rparr>),
        Sys (C_getsockopt 3 SOL_SOCKET SO_ERROR) ans0, Sys (C_fcntl 3 F_SETFL 2) ans0]"
    by (simp add: connect_nonb_def connect_nonb_done_def Fcntl_def Select_def wrapper_unfold
        sys_select_def ready_def EINPROGRESS_def ans0_def gave_def fails_def O_NONBLOCK_def)
  then obtain w' where run: "connect_nonb 3 (SA_other 0) 5 ?w = Ret 0 w'"
    and tr: "trace w' = [Sys (C_fcntl 3 F_GETFL 0) (gave 2), Sys (C_fcntl 3 F_SETFL 2050) ans0,
        Sys (C_connect 3 (SA_other 0)) (fails EINPROGRESS),
        Sys (C_select 4 {3} {3} (Some 5)) (ans0\<lparr>a_wset := [3]\<rparr>),
        Sys (C_getsockopt 3 SOL_SOCKET SO_ERROR) ans0, Sys (C_fcntl 3 F_SETFL 2) ans0]"
    by blast
  from connect_nonb_success [OF run] run tr show ?thesis by auto
qed
text \<open>
  On every return of \<^verbatim>\<open>connect_timeo\<close> the alarm is off and the caller's signal handler is
  back: the last two calls are \<^verbatim>\<open>alarm(0)\<close> and the \<^verbatim>\<open>sigaction\<close> that reinstalls the handler the first
  call returned. A connect that was interrupted is reported as \<^verbatim>\<open>ETIMEDOUT\<close> with the socket closed.
\<close>

theorem connect_timeo_restores:
  assumes "connect_timeo handler sockfd sa nsec w = Ret r w'"
  shows "\<exists>a0 mid c tl x y. trace w' = trace w @ Sys (C_sigaction SIGALRM handler SA_INTERRUPT) a0 #
       mid @ Sys (C_connect sockfd sa) c # tl @
       [Sys (C_alarm 0) x, Sys (C_sigaction SIGALRM (int (a_val a0)) SA_INTERRUPT) y] \<and>
     a_err a0 = 0 \<and> a_err y = 0 \<and> r = (if a_err c = 0 then 0 else - 1) \<and>
     (a_err c = 0 \<and> tl = [] \<or> a_err c \<noteq> 0 \<and> (\<exists>z. tl = [Sys (C_close sockfd) z] \<and>
        (a_err c = EINTR \<and> a_err z = 0 \<and> a_err x = 0 \<longrightarrow> errno w' = ETIMEDOUT)))"
proof -
  have sig: "\<exists>a. trace v = trace u @ [Sys (C_sigaction SIGALRM h SA_INTERRUPT) a] \<and> a_err a = 0 \<and>
      old = int (a_val a) \<and> errno v = errno u"
    if "Signal SIGALRM h u = Ret old v" for h old u v
    using that by (auto simp: Signal_def signal_def checked_Ret_iff then_run_Ret_iff SIG_ERR_def
        dest!: sys_int_Ret split: if_splits)
  from assms obtain old w1 left w2 w3 n w4 w5 z w6 old' where
    s: "Signal SIGALRM handler w = Ret old w1" and al: "sys_int (C_alarm nsec) w1 = Ret left w2"
    and m: "(if left \<noteq> 0 then err_msg ''connect_timeo: alarm was already set'' w2 else Ret () w2) = Ret () w3"
    and c: "sys_unit (C_connect sockfd sa) w3 = Ret n w4"
    and k: "(if n < 0 then then_run (close_quietly sockfd w4) (\<lambda>_ w.
         Ret () (if errno w = EINTR then set_errno ETIMEDOUT w else w)) else Ret () w4) = Ret () w5"
    and z: "sys_int (C_alarm 0) w5 = Ret z w6" and t: "Signal SIGALRM old w6 = Ret old' w'" and r: "r = n"
    unfolding connect_timeo_def then_run_Ret_iff by auto
  obtain a0 where a0: "trace w1 = trace w @ [Sys (C_sigaction SIGALRM handler SA_INTERRUPT) a0]"
    "a_err a0 = 0" "old = int (a_val a0)" using sig [OF s] by blast
  obtain a1 where a1: "trace w2 = trace w1 @ [Sys (C_alarm nsec) a1]" using sys_int_Ret [OF al] by auto
  obtain ms where ms: "trace w3 = trace w2 @ ms"
    using m err_doit_trace [of False LOG_INFO "''connect_timeo: alarm was already set''" w2]
    by (auto simp: err_msg_def split: if_splits)
  obtain ac where ac: "trace w4 = trace w3 @ [Sys (C_connect sockfd sa) ac]"
    "n = (if a_err ac = 0 then 0 else - 1)" "a_err ac \<noteq> 0 \<longrightarrow> errno w4 = a_err ac"
    using sys_unit_Ret' [OF c] by auto
  obtain ax where ax: "trace w6 = trace w5 @ [Sys (C_alarm 0) ax]" "a_err ax = 0 \<longrightarrow> errno w6 = errno w5"
    using sys_int_Ret [OF z] by auto
  obtain ay where ay: "trace w' = trace w6 @ [Sys (C_sigaction SIGALRM old SA_INTERRUPT) ay]"
    "a_err ay = 0" "errno w' = errno w6" using sig [OF t] by blast
  have tl: "\<exists>tl. trace w5 = trace w4 @ tl \<and> (a_err ac = 0 \<and> tl = [] \<or> a_err ac \<noteq> 0 \<and>
      (\<exists>z. tl = [Sys (C_close sockfd) z] \<and> (a_err ac = EINTR \<and> a_err z = 0 \<longrightarrow> errno w5 = ETIMEDOUT)))"
  proof (cases "a_err ac = 0")
    case False
    with k ac(2) obtain v x where "close_quietly sockfd w4 = Ret x v"
      and w5: "w5 = (if errno v = EINTR then set_errno ETIMEDOUT v else v)"
      by (auto simp: then_run_Ret_iff)
    with False ac(3) show ?thesis
      by (auto dest!: close_quietly_Ret)
  qed (use k ac(2) in auto)
  then obtain tl where tl5: "trace w5 = trace w4 @ tl" and tlc: "a_err ac = 0 \<and> tl = [] \<or> a_err ac \<noteq> 0 \<and>
      (\<exists>z. tl = [Sys (C_close sockfd) z] \<and> (a_err ac = EINTR \<and> a_err z = 0 \<longrightarrow> errno w5 = ETIMEDOUT))"
    by blast
  have "trace w' = trace w @ Sys (C_sigaction SIGALRM handler SA_INTERRUPT) a0 #
       (Sys (C_alarm nsec) a1 # ms) @ Sys (C_connect sockfd sa) ac # tl @
       [Sys (C_alarm 0) ax, Sys (C_sigaction SIGALRM (int (a_val a0)) SA_INTERRUPT) ay]"
    using a0 a1 ms ac ax ay tl5 by simp
  moreover have "a_err ac = 0 \<and> tl = [] \<or> a_err ac \<noteq> 0 \<and> (\<exists>z. tl = [Sys (C_close sockfd) z] \<and>
        (a_err ac = EINTR \<and> a_err z = 0 \<and> a_err ax = 0 \<longrightarrow> errno w' = ETIMEDOUT))"
    using tlc ax(2) ay(3) by auto
  ultimately show ?thesis using a0(2) ay(2) ac(2) r by blast
qed

theorem connect_timeo_restores_witness:
  "\<exists>w'. connect_timeo 77 3 (SA_other 0) 10 (boot [gave 5, gave 0, fails EINTR, ans0, gave 3, gave 77])
     = Ret (- 1) w' \<and> errno w' = ETIMEDOUT"
proof -
  let ?w = "boot [gave 5, gave 0, fails EINTR, ans0, gave 3, gave 77]"
  have "\<exists>w'. connect_timeo 77 3 (SA_other 0) 10 ?w = Ret (- 1) w' \<and>
      trace w' = [Sys (C_sigaction SIGALRM 77 SA_INTERRUPT) (gave 5), Sys (C_alarm 10) (gave 0),
        Sys (C_connect 3 (SA_other 0)) (fails EINTR), Sys (C_close 3) ans0, Sys (C_alarm 0) (gave 3),
        Sys (C_sigaction SIGALRM 5 SA_INTERRUPT) (gave 77)]"
    by (simp add: connect_timeo_def Signal_def signal_def close_quietly_def wrapper_unfold
        SIG_ERR_def EINTR_def set_errno_def)
  then obtain w' where run: "connect_timeo 77 3 (SA_other 0) 10 ?w = Ret (- 1) w'"
    and tr: "trace w' = [Sys (C_sigaction SIGALRM 77 SA_INTERRUPT) (gave 5), Sys (C_alarm 10) (gave 0),
        Sys (C_connect 3 (SA_other 0)) (fails EINTR), Sys (C_close 3) ans0, Sys (C_alarm 0) (gave 3),
        Sys (C_sigaction SIGALRM 5 SA_INTERRUPT) (gave 77)]"
    by blast
  from connect_timeo_restores [OF run] run tr show ?thesis
    by (auto simp: EINTR_def append_eq_Cons_conv Cons_eq_append_conv)
qed

text \<open>
  A descriptor passed with \<^verbatim>\<open>write_fd\<close> arrives: the message \<^verbatim>\<open>write_fd\<close> hands to the kernel,
  delivered to \<^verbatim>\<open>read_fd\<close> on the other side with at least one byte of data, yields the data and
  exactly that descriptor.
\<close>

theorem passed_fd_arrives:
  assumes "write_fd fd buf sendfd w = Ret n w'" and "0 < n"
    and "last (trace w') = Sys (C_sendmsg fd data name control) a"
    and "script u = ans0\<lparr>a_data := take (nat n) data, a_cmsg := control\<rparr> # s"
    and "length buf \<le> nbytes"
  shows "\<exists>u'. read_fd fd' nbytes u = Ret (n, take (nat n) buf, Some sendfd) u'"
proof -
  from assms(1,3) have c: "data = buf" "control = [fd_cmsg sendfd]" "n = int (min (length buf) (a_val a))"
    using assms(2) by (auto simp: write_fd_def sys_accepts_def then_run_Ret_iff sys_def split: list.splits if_splits)
  from assms(2) c(3) have "buf \<noteq> []" "0 < a_val a" by auto
  with c assms(2,4,5) show ?thesis
    by (auto simp: read_fd_def sys_recvmsg_def sys_def fd_cmsg_def ans0_def min_def)
qed

theorem passed_fd_arrives_witness:
  "\<exists>u'. read_fd 9 1 (boot [ans0\<lparr>a_data := [0], a_cmsg := [fd_cmsg 7]\<rparr>]) = Ret (1, [0], Some 7) u'"
proof -
  have run: "write_fd 4 [0] 7 (boot [gave 1]) =
      Ret 1 (called (C_sendmsg 4 [0] (SA_other AF_UNSPEC) [fd_cmsg 7]) (gave 1) [] (boot [gave 1]))"
    by (simp add: write_fd_def sys_accepts_def sys_def)
  show ?thesis
    using passed_fd_arrives [OF run, of "[0]" "SA_other AF_UNSPEC" "[fd_cmsg 7]" "gave 1"
        "boot [ans0\<lparr>a_data := [0], a_cmsg := [fd_cmsg 7]\<rparr>]" "[]" 1 9]
    by simp
qed

text \<open>The descriptors \<^verbatim>\<open>daemon_init\<close> asks the kernel to close, successfully or not.\<close>

fun close_request :: "event \<Rightarrow> fd list" where
  "close_request (Sys (C_close fd) a) = [fd]"
| "close_request _ = []"

lemma close_all_trace:
  "close_all i w = Ret x w' \<Longrightarrow> i \<le> MAXFD \<Longrightarrow> \<exists>es. trace w' = trace w @ es \<and>
     concat (map close_request es) = map int [i..<MAXFD] \<and> daemon_proc w' = daemon_proc w"
proof (induction "MAXFD - i" arbitrary: i w)
  case 0
  then have "i = MAXFD" by simp
  with 0 show ?case by (auto simp: close_all.simps [of MAXFD w])
next
  case (Suc m)
  then have i: "i < MAXFD" by simp
  with Suc.prems(1) obtain y w1 where "close_quietly (int i) w = Ret y w1"
    and rest: "close_all (Suc i) w1 = Ret x w'"
    by (auto simp: close_all.simps [of i w] then_run_Ret_iff)
  then obtain a where "trace w1 = trace w @ [Sys (C_close (int i)) a]" "daemon_proc w1 = daemon_proc w"
    by (auto dest!: close_quietly_Ret)
  moreover have m: "m = MAXFD - Suc i" and le: "Suc i \<le> MAXFD" using Suc.hyps(2) i by auto
  moreover obtain es where "trace w' = trace w1 @ es"
    "concat (map close_request es) = map int [Suc i..<MAXFD]" "daemon_proc w' = daemon_proc w1"
    using Suc.hyps(1) [OF m rest le] by blast
  ultimately show ?case using i by (auto simp: upt_conv_Cons)
qed

text \<open>
  Only the grandchild returns 0 from \<^verbatim>\<open>daemon_init\<close>, and it is a daemon then: both forks
  answered 0, diagnostics go to the system log, and every descriptor below \<^verbatim>\<open>MAXFD\<close> was closed,
  after which the three standard descriptors were opened on \<^verbatim>\<open>/dev/null\<close>.
\<close>

theorem daemon_init_detaches:
  assumes "daemon_init pname facility w = Ret 0 w'"
  shows "daemon_proc w' = 1 \<and> (\<exists>f1 sid sg f2 cd es n1 n2 n3 lg. trace w' = trace w @
      [Sys C_fork f1, Sys (C_other ''setsid'' []) sid, Sys (C_sigaction SIGHUP SIG_IGN SA_RESTART) sg,
       Sys C_fork f2, Sys (C_path ''chdir'' ''/'' []) cd] @ es @
      [Sys (C_path ''open'' ''/dev/null'' [0]) n1, Sys (C_path ''open'' ''/dev/null'' [2]) n2,
       Sys (C_path ''open'' ''/dev/null'' [2]) n3, Sys (C_path ''openlog'' pname [1, facility]) lg] \<and>
      a_err f1 = 0 \<and> a_val f1 = 0 \<and> a_err sid = 0 \<and> a_err f2 = 0 \<and> a_val f2 = 0 \<and>
      concat (map close_request es) = map int [0..<MAXFD])"
proof -
  have "SIGHUP \<noteq> SIGALRM" by (simp add: unp_consts)
  then have sig: "\<exists>a. trace v = trace u @ [Sys (C_sigaction SIGHUP SIG_IGN SA_RESTART) a]"
    if "Signal SIGHUP SIG_IGN u = Ret old v" for old u v
    using that by (auto simp: Signal_def signal_def checked_Ret_iff then_run_Ret_iff Let_def
        dest!: sys_int_Ret split: if_splits)
  have quiet: "\<exists>a. trace v = trace u @ [Sys c a] \<and> daemon_proc v = daemon_proc u"
    if "call_quietly c u = Ret x v" for c x u v
    using that by (auto simp: call_quietly_def void_Ret_iff sys_def split: list.splits)
  from assms obtain w1 sid w2 old w3 w4 x5 w5 x6 w6 x7 w7 x8 w8 x9 w9 x10 where
    f1: "Fork w = Ret 0 w1" and sid: "sys_int (C_other ''setsid'' []) w1 = Ret sid w2" "\<not> sid < 0"
    and sg: "Signal SIGHUP SIG_IGN w2 = Ret old w3" and f2: "Fork w3 = Ret 0 w4"
    and cd: "call_quietly (C_path ''chdir'' ''/'' []) (w4\<lparr>daemon_proc := 1\<rparr>) = Ret x5 w5"
    and ca: "close_all 0 w5 = Ret x6 w6"
    and n: "call_quietly (C_path ''open'' ''/dev/null'' [0]) w6 = Ret x7 w7"
      "call_quietly (C_path ''open'' ''/dev/null'' [2]) w7 = Ret x8 w8"
      "call_quietly (C_path ''open'' ''/dev/null'' [2]) w8 = Ret x9 w9"
    and lg: "call_quietly (C_path ''openlog'' pname [1, facility]) w9 = Ret x10 w'"
    unfolding daemon_init_def Let_def by (auto simp: then_run_Ret_iff split: if_splits)
  from close_all_trace [OF ca] obtain es where es: "trace w6 = trace w5 @ es"
    "concat (map close_request es) = map int [0..<MAXFD]" "daemon_proc w6 = daemon_proc w5" by auto
  obtain a1 where "trace w1 = trace w @ [Sys C_fork a1]" "a_err a1 = 0" "a_val a1 = 0"
    using f1 by (auto simp: Fork.wrap_Ret)
  moreover obtain a2 where "trace w2 = trace w1 @ [Sys (C_other ''setsid'' []) a2]" "a_err a2 = 0"
    using sys_int_Ret [OF sid(1)] sid(2) by (auto split: if_splits)
  moreover obtain a4 where "trace w4 = trace w3 @ [Sys C_fork a4]" "a_err a4 = 0" "a_val a4 = 0"
    using f2 by (auto simp: Fork.wrap_Ret)
  ultimately show ?thesis
    using sig [OF sg] quiet [OF cd] quiet [OF n(1)] quiet [OF n(2)] quiet [OF n(3)] quiet [OF lg] es
    by auto
qed

lemma close_all_complete:
  "MAXFD - i \<le> length (script w) \<Longrightarrow>
     \<exists>w'. close_all i w = Ret () w' \<and> script w' = drop (MAXFD - i) (script w)"
proof (induction "MAXFD - i" arbitrary: i w)
  case 0
  then show ?case by (simp add: close_all.simps [of i w])
next
  case (Suc m)
  then have i: "i < MAXFD" by simp
  with Suc.prems obtain a s where a: "script w = a # s" by (cases "script w") auto
  let ?w = "called (C_close (int i)) a s w"
  have step: "close_all i w = close_all (Suc i) ?w"
    using i a by (subst close_all.simps) (simp add: close_quietly_def void_def sys_unit_def sys_def)
  have "m = MAXFD - Suc i" "MAXFD - Suc i \<le> length (script ?w)"
    using Suc.hyps(2) Suc.prems a by auto
  from Suc.hyps(1) [OF this] Suc.hyps(2) a show ?case unfolding step by (auto simp: drop_Cons')
qed

lemma call_quietly_eq: "script w = a # s \<Longrightarrow> call_quietly c w = Ret () (called c a s w)"
  by (simp add: call_quietly_def void_def sys_def)

lemma Signal_eq:
  "script w = a # s \<Longrightarrow> a_err a = 0 \<Longrightarrow> signo \<noteq> SIGALRM \<Longrightarrow>
     Signal signo h w = Ret (int (a_val a)) (called (C_sigaction signo h SA_RESTART) a s w)"
  by (simp add: Signal_def signal_def checked_def sys_int_def sys_def SIG_ERR_def)

lemma daemon_tail:
  assumes "script w = replicate 68 ans0"
  shows "\<exists>w'. then_run (close_all 0 w) (\<lambda>_ w.
             then_run (call_quietly (C_path ''open'' ''/dev/null'' [0]) w) (\<lambda>_ w.
             then_run (call_quietly (C_path ''open'' ''/dev/null'' [2]) w) (\<lambda>_ w.
             then_run (call_quietly (C_path ''open'' ''/dev/null'' [2]) w) (\<lambda>_ w.
             then_run (call_quietly (C_path ''openlog'' ''d'' [1, 3]) w) (\<lambda>_ w. Ret (0 :: int) w))))) = Ret 0 w'"
proof -
  obtain w6 where w6: "close_all 0 w = Ret () w6" "script w6 = replicate 4 ans0"
    using close_all_complete [of 0 w] assms by (auto simp: MAXFD_def)
  then have "script w6 = [ans0, ans0, ans0, ans0]" by (simp add: numeral_eq_Suc)
  with w6(1) show ?thesis by (simp add: call_quietly_eq)
qed

theorem daemon_init_detaches_witness:
  "\<exists>w'. daemon_init ''d'' 3 (boot (ans0 # ans0 # ans0 # ans0 # ans0 # replicate 68 ans0)) = Ret 0 w' \<and>
     daemon_proc w' = 1"
proof -
  have "SIGHUP \<noteq> SIGALRM" by (simp add: unp_consts)
  then have "\<exists>w'. daemon_init ''d'' 3 (boot (ans0 # ans0 # ans0 # ans0 # ans0 # replicate 68 ans0)) = Ret 0 w'"
    by (simp add: daemon_init_def Fork.wrap_answer Signal_eq call_quietly_eq sys_int_def sys_eq)
       (rule daemon_tail, simp)
  then obtain w' where
    run: "daemon_init ''d'' 3 (boot (ans0 # ans0 # ans0 # ans0 # ans0 # replicate 68 ans0)) = Ret 0 w'"
    by blast
  from daemon_init_detaches [OF run] run show ?thesis by blast
qed

end
