(* ===== verification/Ring_Servers.thy ===== *)
theory Ring_Servers
  imports Net_Helpers "HOL-Library.Multiset"
begin

text \<open>
  Two servers that hand work over through a ring: the prethreaded server of
  \<^verbatim>\<open>server/serv08.c\<close> and \<^verbatim>\<open>server/pthread08.c\<close>, whose main thread puts accepted descriptors into
  \<^verbatim>\<open>clifd\<close> for the other threads, and the signal-driven echo server of \<^verbatim>\<open>sigio/dgecho01.c\<close>, whose
  \<^verbatim>\<open>SIGIO\<close> handler puts datagrams into \<^verbatim>\<open>dg\<close> for the main loop. The locale \<^verbatim>\<open>bounded_queue\<close> is
  what both rings promise; the two programs are step relations over them.
\<close>

section \<open>Rings\<close>

text \<open>The \<open>n\<close> elements of a ring that begin at index \<open>i\<close>.\<close>

definition ring_list :: "'a list \<Rightarrow> nat \<Rightarrow> nat \<Rightarrow> 'a list" where
  "ring_list arr i n = map (\<lambda>k. arr ! ((i + k) mod length arr)) [0..<n]"

lemma length_ring_list [simp]: "length (ring_list arr i n) = n"
  by (simp add: ring_list_def)

lemma ring_list_0 [simp]: "ring_list arr i 0 = []"
  by (simp add: ring_list_def)

lemma mod_slots_differ:
  assumes "k < n" and "n < (m :: nat)"
  shows "(i + k) mod m \<noteq> (i + n) mod m"
proof
  assume "(i + k) mod m = (i + n) mod m"
  then have "m dvd (i + n) - (i + k)"
    using assms by (metis add_le_cancel_left less_imp_le_nat mod_eq_dvd_iff_nat)
  with assms show False by (auto dest: dvd_imp_le)
qed

lemma ring_put:
  assumes "n < length arr"
  shows "ring_list (arr[(i + n) mod length arr := x]) i (Suc n) = ring_list arr i n @ [x]"
proof -
  have "0 < length arr" using assms by linarith
  then have "(i + n) mod length arr < length arr" by (rule mod_less_divisor)
  moreover have "(i + n) mod length arr \<noteq> (i + k) mod length arr" if "k < n" for k
    using mod_slots_differ [OF that assms, of i] by simp
  ultimately show ?thesis
    by (simp add: ring_list_def cong: map_cong)
qed

lemma ring_get:
  assumes "i < length arr"
  shows "ring_list arr i (Suc n) = arr ! i # ring_list arr (Suc i mod length arr) n"
proof -
  have "ring_list arr i (Suc n) = arr ! i # map (\<lambda>k. arr ! ((i + Suc k) mod length arr)) [0..<n]"
    using assms by (simp add: ring_list_def upt_conv_Cons map_Suc_upt [symmetric] del: upt_Suc)
  then show ?thesis by (simp add: ring_list_def mod_simps)
qed

lemma wrap_index: "i < n \<Longrightarrow> (if Suc i = n then 0 else Suc i) = Suc i mod n"
  "i < n \<Longrightarrow> (if n \<le> Suc i then 0 else Suc i) = Suc i mod n"
  by (cases "Suc i = n"; simp)+

section \<open>What a bounded queue promises\<close>

locale bounded_queue =
  fixes inv :: "'q \<Rightarrow> bool" and abs :: "'q \<Rightarrow> 'a list" and cap :: nat
    and put :: "'a \<Rightarrow> 'q \<Rightarrow> 'q option" and get :: "'q \<Rightarrow> ('a \<times> 'q) option"
  assumes put_room: "inv q \<Longrightarrow> length (abs q) < cap \<Longrightarrow>
      \<exists>q'. put x q = Some q' \<and> inv q' \<and> abs q' = abs q @ [x]"
    and put_full: "inv q \<Longrightarrow> cap \<le> length (abs q) \<Longrightarrow> put x q = None"
    and get_some: "inv q \<Longrightarrow> abs q = x # xs \<Longrightarrow> \<exists>q'. get q = Some (x, q') \<and> inv q' \<and> abs q' = xs"
    and get_none: "inv q \<Longrightarrow> abs q = [] \<Longrightarrow> get q = None"
begin

lemma put_Some:
  assumes "inv q" and "put x q = Some q'"
  shows "inv q'" and "abs q' = abs q @ [x]" and "length (abs q) < cap"
proof -
  show "length (abs q) < cap" using put_full [OF assms(1), of x] assms(2) by force
  from put_room [OF assms(1) this, of x] assms(2) show "inv q'" "abs q' = abs q @ [x]" by auto
qed

lemma get_Some:
  assumes "inv q" and "get q = Some (x, q')"
  shows "inv q'" and "abs q = x # abs q'"
proof -
  obtain y ys where "abs q = y # ys"
    using get_none [OF assms(1)] assms(2) by (cases "abs q") auto
  with get_some [OF assms(1) this] assms(2) show "inv q'" "abs q = x # abs q'" by auto
qed

text \<open>The operations are those of a list, seen through \<open>abs\<close>.\<close>

lemma put_abs:
  assumes "inv q"
  shows "map_option abs (put x q) = (if length (abs q) < cap then Some (abs q @ [x]) else None)"
    and "pred_option inv (put x q)"
  using put_room [OF assms, of x] put_full [OF assms, of x]
  by (cases "length (abs q) < cap"; auto)+

lemma get_abs:
  assumes "inv q"
  shows "map_option (map_prod id abs) (get q) = (case abs q of [] \<Rightarrow> None | x # xs \<Rightarrow> Some (x, xs))"
    and "pred_option (\<lambda>(x, q'). inv q') (get q)"
  using get_some [OF assms] get_none [OF assms] by (cases "abs q"; auto)+

text \<open>
  Any sequence of operations: a put of each element of \<open>Some x\<close> and a get for each \<^verbatim>\<open>None\<close>. What
  comes out is what went in, in order.
\<close>

fun play :: "'a option list \<Rightarrow> 'q \<Rightarrow> ('q \<times> 'a list) option" where
  "play [] q = Some (q, [])"
| "play (Some x # ops) q = (case put x q of None \<Rightarrow> None | Some q' \<Rightarrow> play ops q')"
| "play (None # ops) q = (case get q of None \<Rightarrow> None
     | Some (x, q') \<Rightarrow> map_option (\<lambda>(q, out). (q, x # out)) (play ops q'))"

lemma play_fifo:
  "inv q \<Longrightarrow> play ops q = Some (q', out) \<Longrightarrow>
     inv q' \<and> abs q @ map the (filter (\<lambda>x. x \<noteq> None) ops) = out @ abs q'"
proof (induction ops arbitrary: q out)
  case (Cons op ops)
  show ?case
  proof (cases op)
    case None
    with Cons.prems obtain x q1 out1 where g: "get q = Some (x, q1)" and
      p: "play ops q1 = Some (q', out1)" and out: "out = x # out1"
      by (auto split: option.splits prod.splits)
    from Cons.IH [OF get_Some(1) [OF Cons.prems(1) g] p] get_Some(2) [OF Cons.prems(1) g] out None
    show ?thesis by simp
  next
    case (Some x)
    with Cons.prems obtain q1 where p: "put x q = Some q1" and r: "play ops q1 = Some (q', out)"
      by (auto split: option.splits)
    from Cons.IH [OF put_Some(1) [OF Cons.prems(1) p] r] put_Some(2) [OF Cons.prems(1) p] Some
    show ?thesis by simp
  qed
qed simp

end

section \<open>The descriptors of serv08\<close>

definition MAXNCLI :: nat where [unp_consts]: "MAXNCLI = 32"

record clifd_ring =
  clifd :: "int list"
  iget :: nat
  iput :: nat

definition clifd_init :: clifd_ring where
  "clifd_init = \<lparr>clifd = replicate MAXNCLI 0, iget = 0, iput = 0\<rparr>"

text \<open>The critical section of the main thread; \<^verbatim>\<open>None\<close> is the end of the process.\<close>

definition clifd_put :: "int \<Rightarrow> clifd_ring \<Rightarrow> clifd_ring option" where
  "clifd_put connfd q =
     (let q = q\<lparr>clifd := (clifd q)[iput q := connfd]\<rparr>;
          q = q\<lparr>iput := if Suc (iput q) = MAXNCLI then 0 else Suc (iput q)\<rparr>
      in if iput q = iget q then None else Some q)"

text \<open>The critical section of a thread; \<^verbatim>\<open>None\<close> means it waits.\<close>

definition clifd_get :: "clifd_ring \<Rightarrow> (int \<times> clifd_ring) option" where
  "clifd_get q =
     (if iget q = iput q then None
      else Some (clifd q ! iget q,
        q\<lparr>iget := if Suc (iget q) = MAXNCLI then 0 else Suc (iget q)\<rparr>))"

definition clifd_inv :: "clifd_ring \<Rightarrow> bool" where
  "clifd_inv q \<longleftrightarrow> length (clifd q) = MAXNCLI \<and> iget q < MAXNCLI \<and> iput q < MAXNCLI"

definition clifd_len :: "clifd_ring \<Rightarrow> nat" where
  "clifd_len q = (iput q + MAXNCLI - iget q) mod MAXNCLI"

definition clifd_abs :: "clifd_ring \<Rightarrow> int list" where
  "clifd_abs q = ring_list (clifd q) (iget q) (clifd_len q)"

lemma clifd_len_cases:
  "clifd_inv q \<Longrightarrow> clifd_len q = (if iget q \<le> iput q then iput q - iget q else iput q + MAXNCLI - iget q)"
  by (auto simp: clifd_len_def clifd_inv_def mod_if)

lemma clifd_slot: "clifd_inv q \<Longrightarrow> iput q = (iget q + clifd_len q) mod MAXNCLI"
  by (auto simp: clifd_len_cases) (auto simp: clifd_inv_def mod_if)

interpretation clifd: bounded_queue clifd_inv clifd_abs 31 clifd_put clifd_get
proof
  fix q :: clifd_ring and x :: int
  let ?q = "q\<lparr>clifd := (clifd q)[iput q := x], iput := Suc (iput q) mod MAXNCLI\<rparr>"
  assume q: "clifd_inv q"
  then have put: "clifd_put x q = (if iput ?q = iget q then None else Some ?q)"
    by (auto simp: clifd_put_def clifd_inv_def Let_def)
  have inv: "clifd_inv ?q" using q by (simp add: clifd_inv_def MAXNCLI_def)
  { assume "length (clifd_abs q) < 31"
    then have n: "clifd_len q < 31" by (simp add: clifd_abs_def)
    have len: "clifd_len ?q = Suc (clifd_len q)" and "iput ?q \<noteq> iget q"
      using n q unfolding clifd_len_cases [OF q] clifd_len_cases [OF inv]
      by (auto simp: clifd_inv_def MAXNCLI_def mod_if split: if_splits)
    moreover have "clifd_abs ?q = clifd_abs q @ [x]"
    proof -
      have "length (clifd q) = MAXNCLI" using q by (simp add: clifd_inv_def)
      with n have "ring_list ((clifd q)[iput q := x]) (iget q) (Suc (clifd_len q)) = clifd_abs q @ [x]"
        using ring_put [of "clifd_len q" "clifd q" "iget q" x] clifd_slot [OF q]
        by (simp add: clifd_abs_def MAXNCLI_def)
      then show ?thesis by (simp only: clifd_abs_def len) simp
    qed
    ultimately show "\<exists>q'. clifd_put x q = Some q' \<and> clifd_inv q' \<and> clifd_abs q' = clifd_abs q @ [x]"
      using put inv by auto }
  { assume "31 \<le> length (clifd_abs q)"
    then have "31 \<le> clifd_len q" by (simp add: clifd_abs_def)
    then have "iput ?q = iget q"
      using q unfolding clifd_len_cases [OF q]
      by (auto simp: clifd_inv_def MAXNCLI_def mod_if split: if_splits)
    with put show "clifd_put x q = None" by simp }
next
  fix q :: clifd_ring and x :: int and xs
  let ?q = "q\<lparr>iget := Suc (iget q) mod MAXNCLI\<rparr>"
  assume q: "clifd_inv q" and abs: "clifd_abs q = x # xs"
  then obtain n where n: "clifd_len q = Suc n"
    by (cases "clifd_len q") (simp_all add: clifd_abs_def)
  then have "iget q \<noteq> iput q" using clifd_len_cases [OF q] by auto
  moreover have inv: "clifd_inv ?q" using q by (simp add: clifd_inv_def MAXNCLI_def)
  moreover have "clifd_len ?q = n"
    using n q unfolding clifd_len_cases [OF q] clifd_len_cases [OF inv]
    by (auto simp: clifd_inv_def MAXNCLI_def mod_if split: if_splits)
  moreover have "x = clifd q ! iget q" "xs = ring_list (clifd q) (Suc (iget q) mod MAXNCLI) n"
    using abs ring_get [of "iget q" "clifd q" n] q n
    by (simp_all add: clifd_abs_def clifd_inv_def)
  ultimately show "\<exists>q'. clifd_get q = Some (x, q') \<and> clifd_inv q' \<and> clifd_abs q' = xs"
    using q by (auto simp: clifd_get_def clifd_abs_def clifd_inv_def)
next
  fix q :: clifd_ring
  assume "clifd_inv q" "clifd_abs q = []"
  then have "iget q = iput q"
    using clifd_len_cases [of q] by (auto simp: clifd_abs_def clifd_inv_def ring_list_def split: if_splits)
  then show "clifd_get q = None" by (simp add: clifd_get_def)
qed

section \<open>The prethreaded server: server/serv08.c and server/pthread08.c\<close>

text \<open>
  The main thread and the threads of the pool, with the point each of them has reached. \<^verbatim>\<open>mutex\<close> is
  the holder of \<^verbatim>\<open>clifd_mutex\<close>; a thread at \<open>T_wait\<close> sleeps on \<^verbatim>\<open>clifd_cond\<close>. Three fields are
  history only: the descriptors accepted, the ones taken (by which thread) and the ones closed.
\<close>

datatype main_pc = M_accept | M_lock fd | M_put fd | M_signal | M_unlock | M_quit fd

datatype thread_pc =
  T_lock | T_test | T_wait | T_relock | T_unlock fd | T_count fd | T_serve fd | T_close fd

datatype agent = Main_thread | Pool_thread nat

record pool =
  ring :: clifd_ring
  mutex :: "agent option"
  main_pc :: main_pc
  thread_pc :: "nat \<Rightarrow> thread_pc"
  thread_count :: "nat \<Rightarrow> nat"
  accepted_fds :: "fd list"
  taken_fds :: "(nat \<times> fd) list"
  closed_fds :: "fd list"

definition pool_init :: pool where
  "pool_init = \<lparr>ring = clifd_init, mutex = None, main_pc = M_accept, thread_pc = (\<lambda>i. T_lock),
     thread_count = (\<lambda>i. 0), accepted_fds = [], taken_fds = [], closed_fds = []\<rparr>"

text \<open>
  The main thread. \<^verbatim>\<open>Pthread_cond_signal\<close> wakes a sleeping thread when there is one. \<open>M_quit\<close> is the
  end of the process through \<^verbatim>\<open>err_quit\<close>.
\<close>

inductive main_step :: "nat \<Rightarrow> pool \<Rightarrow> pool \<Rightarrow> bool" for n where
  accept: "main_pc s = M_accept \<Longrightarrow>
     main_step n s (s\<lparr>main_pc := M_lock connfd, accepted_fds := accepted_fds s @ [connfd]\<rparr>)"
| lock: "main_pc s = M_lock connfd \<Longrightarrow> mutex s = None \<Longrightarrow>
     main_step n s (s\<lparr>main_pc := M_put connfd, mutex := Some Main_thread\<rparr>)"
| put: "main_pc s = M_put connfd \<Longrightarrow> clifd_put connfd (ring s) = Some q \<Longrightarrow>
     main_step n s (s\<lparr>main_pc := M_signal, ring := q\<rparr>)"
| quit: "main_pc s = M_put connfd \<Longrightarrow> clifd_put connfd (ring s) = None \<Longrightarrow>
     main_step n s (s\<lparr>main_pc := M_quit connfd\<rparr>)"
| signal: "main_pc s = M_signal \<Longrightarrow> i < n \<Longrightarrow> thread_pc s i = T_wait \<Longrightarrow>
     main_step n s (s\<lparr>main_pc := M_unlock, thread_pc := (thread_pc s)(i := T_relock)\<rparr>)"
| signal_none: "main_pc s = M_signal \<Longrightarrow> \<forall>i < n. thread_pc s i \<noteq> T_wait \<Longrightarrow>
     main_step n s (s\<lparr>main_pc := M_unlock\<rparr>)"
| unlock: "main_pc s = M_unlock \<Longrightarrow>
     main_step n s (s\<lparr>main_pc := M_accept, mutex := None\<rparr>)"

text \<open>
  A thread of the pool. \<^verbatim>\<open>Pthread_cond_wait\<close> releases the mutex and takes it again when it is woken,
  which may also happen without a signal.
\<close>

inductive thread_step :: "nat \<Rightarrow> pool \<Rightarrow> pool \<Rightarrow> bool" for i where
  lock: "thread_pc s i = T_lock \<Longrightarrow> mutex s = None \<Longrightarrow>
     thread_step i s (s\<lparr>thread_pc := (thread_pc s)(i := T_test), mutex := Some (Pool_thread i)\<rparr>)"
| wait: "thread_pc s i = T_test \<Longrightarrow> clifd_get (ring s) = None \<Longrightarrow>
     thread_step i s (s\<lparr>thread_pc := (thread_pc s)(i := T_wait), mutex := None\<rparr>)"
| wake: "thread_pc s i = T_wait \<Longrightarrow>
     thread_step i s (s\<lparr>thread_pc := (thread_pc s)(i := T_relock)\<rparr>)"
| relock: "thread_pc s i = T_relock \<Longrightarrow> mutex s = None \<Longrightarrow>
     thread_step i s (s\<lparr>thread_pc := (thread_pc s)(i := T_test), mutex := Some (Pool_thread i)\<rparr>)"
| take: "thread_pc s i = T_test \<Longrightarrow> clifd_get (ring s) = Some (connfd, q) \<Longrightarrow>
     thread_step i s (s\<lparr>thread_pc := (thread_pc s)(i := T_unlock connfd), ring := q,
       taken_fds := taken_fds s @ [(i, connfd)]\<rparr>)"
| unlock: "thread_pc s i = T_unlock connfd \<Longrightarrow>
     thread_step i s (s\<lparr>thread_pc := (thread_pc s)(i := T_count connfd), mutex := None\<rparr>)"
| count: "thread_pc s i = T_count connfd \<Longrightarrow>
     thread_step i s (s\<lparr>thread_pc := (thread_pc s)(i := T_serve connfd),
       thread_count := (thread_count s)(i := Suc (thread_count s i))\<rparr>)"
| serve: "thread_pc s i = T_serve connfd \<Longrightarrow>
     thread_step i s (s\<lparr>thread_pc := (thread_pc s)(i := T_close connfd)\<rparr>)"
| close: "thread_pc s i = T_close connfd \<Longrightarrow>
     thread_step i s (s\<lparr>thread_pc := (thread_pc s)(i := T_lock), closed_fds := closed_fds s @ [connfd]\<rparr>)"

text \<open>The states of a run with \<open>n\<close> threads; nobody moves once the process has ended.\<close>

inductive pool_reach :: "nat \<Rightarrow> pool \<Rightarrow> bool" for n where
  init: "pool_reach n pool_init"
| main: "pool_reach n s \<Longrightarrow> main_step n s t \<Longrightarrow> pool_reach n t"
| thread: "pool_reach n s \<Longrightarrow> i < n \<Longrightarrow> \<forall>c. main_pc s \<noteq> M_quit c \<Longrightarrow> thread_step i s t \<Longrightarrow> pool_reach n t"

inductive_simps main_step_iff: "main_step n s t"
inductive_simps thread_step_iff: "thread_step i s t"

section \<open>Invariants of the pool\<close>

fun in_main :: "main_pc \<Rightarrow> bool" where
  "in_main (M_put c) = True" | "in_main M_signal = True" | "in_main M_unlock = True"
| "in_main (M_quit c) = True" | "in_main _ = False"

fun in_thread :: "thread_pc \<Rightarrow> bool" where
  "in_thread T_test = True" | "in_thread (T_unlock c) = True" | "in_thread _ = False"

fun main_holds :: "main_pc \<Rightarrow> fd list" where
  "main_holds (M_lock c) = [c]" | "main_holds (M_put c) = [c]" | "main_holds (M_quit c) = [c]"
| "main_holds _ = []"

fun thread_holds :: "thread_pc \<Rightarrow> fd list" where
  "thread_holds (T_unlock c) = [c]" | "thread_holds (T_count c) = [c]"
| "thread_holds (T_serve c) = [c]" | "thread_holds (T_close c) = [c]" | "thread_holds _ = []"

fun uncounted :: "thread_pc \<Rightarrow> nat" where
  "uncounted (T_unlock c) = 1" | "uncounted (T_count c) = 1" | "uncounted _ = 0"

text \<open>The mutex is held by exactly the one that is inside its critical section.\<close>

definition pool_excl :: "pool \<Rightarrow> bool" where
  "pool_excl s \<longleftrightarrow> (mutex s = Some Main_thread \<longleftrightarrow> in_main (main_pc s)) \<and>
     (\<forall>i. mutex s = Some (Pool_thread i) \<longleftrightarrow> in_thread (thread_pc s i))"

definition pool_fifo :: "pool \<Rightarrow> bool" where
  "pool_fifo s \<longleftrightarrow> clifd_inv (ring s) \<and>
     accepted_fds s = map snd (taken_fds s) @ clifd_abs (ring s) @ main_holds (main_pc s)"

definition pool_counts :: "pool \<Rightarrow> bool" where
  "pool_counts s \<longleftrightarrow> (\<forall>i. length (filter (\<lambda>p. fst p = i) (taken_fds s)) =
     thread_count s i + uncounted (thread_pc s i))"

text \<open>A thread does not sleep while there is work, unless the signal is still to come.\<close>

definition pool_awake :: "nat \<Rightarrow> pool \<Rightarrow> bool" where
  "pool_awake n s \<longleftrightarrow> (\<forall>i < n. thread_pc s i = T_wait) \<longrightarrow>
     n = 0 \<or> clifd_abs (ring s) = [] \<or> main_pc s = M_signal"

definition pool_closes :: "nat \<Rightarrow> pool \<Rightarrow> bool" where
  "pool_closes n s \<longleftrightarrow> mset (map snd (taken_fds s)) =
     mset (closed_fds s) + (\<Sum>i < n. mset (thread_holds (thread_pc s i)))"

definition pool_full :: "pool \<Rightarrow> bool" where
  "pool_full s \<longleftrightarrow> (\<forall>c. main_pc s = M_quit c \<longrightarrow> length (clifd_abs (ring s)) = 31)"

lemma excl_main: "main_step n s t \<Longrightarrow> pool_excl s \<Longrightarrow> pool_excl t"
  by (induction rule: main_step.induct) (auto simp: pool_excl_def)

lemma excl_thread: "thread_step i s t \<Longrightarrow> pool_excl s \<Longrightarrow> pool_excl t"
proof -
  have "thread_step i s t \<Longrightarrow> mutex s = Some (Pool_thread i) \<longleftrightarrow> in_thread (thread_pc s i) \<Longrightarrow>
      mutex s = Some Main_thread \<longleftrightarrow> in_main (main_pc s) \<Longrightarrow>
      \<forall>j. j \<noteq> i \<longrightarrow> (mutex s = Some (Pool_thread j) \<longleftrightarrow> in_thread (thread_pc s j)) \<Longrightarrow> pool_excl t"
    by (induction rule: thread_step.induct) (auto simp: pool_excl_def split: if_splits)
  then show "thread_step i s t \<Longrightarrow> pool_excl s \<Longrightarrow> pool_excl t" by (simp add: pool_excl_def)
qed

lemma clifd_len_le: "clifd_inv q \<Longrightarrow> length (clifd_abs q) \<le> 31"
  by (simp add: clifd_abs_def clifd_len_cases) (simp add: clifd_inv_def MAXNCLI_def, linarith)

lemma fifo_main: "main_step n s t \<Longrightarrow> pool_fifo s \<Longrightarrow> pool_fifo t"
  by (induction rule: main_step.induct) (auto simp: pool_fifo_def dest: clifd.put_Some)

lemma fifo_thread: "thread_step i s t \<Longrightarrow> pool_fifo s \<Longrightarrow> pool_fifo t"
  by (induction rule: thread_step.induct) (auto simp: pool_fifo_def dest: clifd.get_Some)

lemma counts_main: "main_step n s t \<Longrightarrow> pool_counts s \<Longrightarrow> pool_counts t"
  by (induction rule: main_step.induct) (auto simp: pool_counts_def)

lemma counts_thread: "thread_step i s t \<Longrightarrow> pool_counts s \<Longrightarrow> pool_counts t"
  by (induction rule: thread_step.induct) (auto simp: pool_counts_def)

lemma awake_main: "main_step n s t \<Longrightarrow> pool_awake n s \<Longrightarrow> pool_awake n t"
  by (induction rule: main_step.induct) (auto simp: pool_awake_def)

lemma awake_thread: "thread_step i s t \<Longrightarrow> i < n \<Longrightarrow> pool_fifo s \<Longrightarrow> pool_awake n s \<Longrightarrow> pool_awake n t"
proof (induction rule: thread_step.induct)
  case (wait s)
  then have "clifd_abs (ring s) = []"
    using clifd.get_some [of "ring s"] by (cases "clifd_abs (ring s)") (auto simp: pool_fifo_def)
  then show ?case by (simp add: pool_awake_def)
qed (auto simp: pool_awake_def)

lemma sum_upd:
  fixes f :: "'b \<Rightarrow> 'c :: cancel_comm_monoid_add" and n :: nat
  assumes "i < n"
  shows "(\<Sum>j < n. f ((g(i := x)) j)) + f (g i) = (\<Sum>j < n. f (g j)) + f x"
proof -
  have "(\<Sum>j < n. f (h j)) = f (h i) + (\<Sum>j \<in> {..<n} - {i}. f (h j))" for h
    by (rule sum.remove) (use assms in auto)
  moreover have "(\<Sum>j \<in> {..<n} - {i}. f ((g(i := x)) j)) = (\<Sum>j \<in> {..<n} - {i}. f (g j))"
    by (rule sum.cong) auto
  ultimately show ?thesis by (simp add: ac_simps)
qed

lemma closes_main: "main_step n s t \<Longrightarrow> pool_closes n s \<Longrightarrow> pool_closes n t"
proof (induction rule: main_step.induct)
  case (signal s i)
  then show ?case
    using sum_upd [of i n "\<lambda>p. mset (thread_holds p)" "thread_pc s" T_relock] by (simp add: pool_closes_def)
qed (auto simp: pool_closes_def)

lemma thread_step_holds:
  "thread_step i s t \<Longrightarrow> \<exists>p. thread_pc t = (thread_pc s)(i := p) \<and>
     mset (map snd (taken_fds t)) + (mset (closed_fds s) + mset (thread_holds (thread_pc s i))) =
     mset (map snd (taken_fds s)) + (mset (closed_fds t) + mset (thread_holds p))"
  by (induction rule: thread_step.induct) auto

lemma closes_thread: "thread_step i s t \<Longrightarrow> i < n \<Longrightarrow> pool_closes n s \<Longrightarrow> pool_closes n t"
proof -
  assume i: "i < n" and c: "pool_closes n s" and "thread_step i s t"
  then obtain p where p: "thread_pc t = (thread_pc s)(i := p)"
    and d: "mset (map snd (taken_fds t)) + (mset (closed_fds s) + mset (thread_holds (thread_pc s i))) =
      mset (map snd (taken_fds s)) + (mset (closed_fds t) + mset (thread_holds p))"
    using thread_step_holds by blast
  have "(\<Sum>j < n. mset (thread_holds (thread_pc t j))) + mset (thread_holds (thread_pc s i)) =
      (\<Sum>j < n. mset (thread_holds (thread_pc s j))) + mset (thread_holds p)"
    unfolding p using i by (rule sum_upd [of i n "\<lambda>p. mset (thread_holds p)"])
  with d c have "mset (map snd (taken_fds t)) + (mset (closed_fds s) + mset (thread_holds (thread_pc s i))) =
      mset (closed_fds t) + (\<Sum>j < n. mset (thread_holds (thread_pc t j))) +
        (mset (closed_fds s) + mset (thread_holds (thread_pc s i)))"
    by (simp add: pool_closes_def ac_simps)
  then show "pool_closes n t" by (simp add: pool_closes_def)
qed

lemma full_main: "main_step n s t \<Longrightarrow> pool_fifo s \<Longrightarrow> pool_full s \<Longrightarrow> pool_full t"
proof (induction rule: main_step.induct)
  case (quit s connfd)
  then have "clifd_inv (ring s)" by (simp add: pool_fifo_def)
  moreover from this have "\<not> length (clifd_abs (ring s)) < 31"
    using clifd.put_room [of "ring s" connfd] quit(2) by auto
  ultimately show ?case using clifd_len_le [of "ring s"] by (simp add: pool_full_def)
qed (auto simp: pool_full_def)

definition pool_inv :: "nat \<Rightarrow> pool \<Rightarrow> bool" where
  "pool_inv n s \<longleftrightarrow> pool_excl s \<and> pool_fifo s \<and> pool_counts s \<and> pool_awake n s \<and> pool_closes n s \<and> pool_full s"

lemma pool_inv: "pool_reach n s \<Longrightarrow> pool_inv n s"
proof (induction rule: pool_reach.induct)
  case init
  show ?case
    by (simp add: pool_inv_def pool_init_def pool_excl_def pool_fifo_def pool_counts_def pool_awake_def
        pool_closes_def pool_full_def clifd_init_def clifd_inv_def clifd_abs_def clifd_len_def MAXNCLI_def)
next
  case (main s t)
  then show ?case
    by (auto simp: pool_inv_def intro: excl_main fifo_main counts_main awake_main closes_main full_main)
next
  case (thread s i t)
  moreover have "main_pc t = main_pc s" using thread.hyps(4) by cases simp_all
  ultimately have "pool_full t" by (simp add: pool_full_def)
  with thread show ?case
    by (auto simp: pool_inv_def intro: excl_thread fifo_thread counts_thread awake_thread closes_thread)
qed

section \<open>Properties\<close>

text \<open>
  The ring of serv08 refines a queue of capacity 31: \<^verbatim>\<open>clifd_put\<close> appends to the descriptors that
  are waiting and fails exactly when 31 of them are, \<^verbatim>\<open>clifd_get\<close> takes the oldest and waits
  exactly when there is none; both keep the indices inside the array.
\<close>

theorem clifd_refines_queue:
  assumes "clifd_inv q"
  shows "map_option clifd_abs (clifd_put c q) =
      (if length (clifd_abs q) < 31 then Some (clifd_abs q @ [c]) else None) \<and>
    map_option (map_prod id clifd_abs) (clifd_get q) =
      (case clifd_abs q of [] \<Rightarrow> None | x # xs \<Rightarrow> Some (x, xs)) \<and>
    pred_option clifd_inv (clifd_put c q) \<and> pred_option (\<lambda>(x, q'). clifd_inv q') (clifd_get q)"
  using clifd.put_abs [OF assms, of c] clifd.get_abs [OF assms] by simp

theorem clifd_refines_queue_witness:
  "clifd_inv \<lparr>clifd = replicate 31 0 @ [7], iget = 31, iput = 0\<rparr> \<and>
   map_option clifd_abs (clifd_put 9 \<lparr>clifd = replicate 31 0 @ [7], iget = 31, iput = 0\<rparr>) = Some [7, 9]"
proof -
  let ?q = "\<lparr>clifd = replicate 31 0 @ [7], iget = 31, iput = 0\<rparr>"
  have inv: "clifd_inv ?q" and abs: "clifd_abs ?q = [7]"
    by (simp_all add: clifd_inv_def clifd_abs_def clifd_len_def MAXNCLI_def ring_list_def nth_append)
  with clifd_refines_queue [OF inv, of 9] show ?thesis by simp
qed

text \<open>
  (C15) In every reachable state of the prethreaded server, whatever the interleaving: the descriptors
  accepted are, in that order, the ones taken by the threads, the ones waiting in the ring and the
  one in the main thread's hands; the ones taken are exactly the ones closed and the ones a thread
  is serving, each once; and the counters say how many each thread took.
\<close>

theorem pool_serves_each_once:
  assumes "pool_reach n s"
  shows "accepted_fds s = map snd (taken_fds s) @ clifd_abs (ring s) @ main_holds (main_pc s) \<and>
    mset (map snd (taken_fds s)) = mset (closed_fds s) + (\<Sum>i < n. mset (thread_holds (thread_pc s i))) \<and>
    (\<forall>i. length (filter (\<lambda>p. fst p = i) (taken_fds s)) = thread_count s i + uncounted (thread_pc s i))"
  using pool_inv [OF assms] by (simp add: pool_inv_def pool_fifo_def pool_closes_def pool_counts_def)

theorem pool_serves_each_once_witness:
  "\<exists>s. pool_reach 2 s \<and> accepted_fds s = [5] \<and> taken_fds s = [(1, 5)] \<and> clifd_abs (ring s) = []"
proof -
  let ?q = "\<lparr>clifd = 5 # replicate 31 0, iget = 0, iput = 1\<rparr>"
  let ?q' = "\<lparr>clifd = 5 # replicate 31 0, iget = 1, iput = 1\<rparr>"
  let ?a = "pool_init\<lparr>main_pc := M_lock 5, accepted_fds := [5]\<rparr>"
  let ?b = "?a\<lparr>main_pc := M_put 5, mutex := Some Main_thread\<rparr>"
  let ?c = "?b\<lparr>main_pc := M_signal, ring := ?q\<rparr>"
  let ?d = "?c\<lparr>main_pc := M_unlock\<rparr>"
  let ?e = "?d\<lparr>main_pc := M_accept, mutex := None\<rparr>"
  let ?f = "?e\<lparr>thread_pc := (thread_pc ?e)(1 := T_test), mutex := Some (Pool_thread 1)\<rparr>"
  let ?g = "?f\<lparr>thread_pc := (thread_pc ?f)(1 := T_unlock 5), ring := ?q', taken_fds := [(1, 5)]\<rparr>"
  note d = pool_init_def clifd_init_def clifd_put_def clifd_get_def MAXNCLI_def
  have "main_step 2 pool_init ?a" using main_step.accept [of pool_init 2 5] by (simp add: d)
  then have "pool_reach 2 ?a" by (blast intro: pool_reach.intros)
  moreover have "main_step 2 ?a ?b" by (rule main_step.lock) (simp_all add: d)
  moreover have "main_step 2 ?b ?c"
    by (rule main_step.put) (simp_all add: d numeral_eq_Suc)
  moreover have "main_step 2 ?c ?d" by (rule main_step.signal_none) (simp_all add: d)
  moreover have "main_step 2 ?d ?e" by (rule main_step.unlock) simp
  ultimately have e: "pool_reach 2 ?e" by (blast intro: pool_reach.main)
  have "thread_step 1 ?e ?f" by (rule thread_step.lock) (simp_all add: d)
  from pool_reach.thread [OF e _ _ this] have f: "pool_reach 2 ?f" by simp
  have "thread_step 1 ?f ?g" using thread_step.take [of ?f 1 5 ?q'] by (simp add: d)
  from pool_reach.thread [OF f _ _ this] have g: "pool_reach 2 ?g" by simp
  from pool_serves_each_once [OF g] have "clifd_abs (ring ?g) = []" by simp
  with g show ?thesis by (intro exI [of _ ?g]) (simp add: d)
qed



end
