(* ===== verification/Sigio_Server.thy ===== *)
theory Sigio_Server
  imports Ring_Servers
begin

text \<open>
  The signal-driven datagram echo server of \<^verbatim>\<open>sigio/dgecho01.c\<close>: the \<^verbatim>\<open>SIGIO\<close> handler
  \<^verbatim>\<open>sig_io\<close> receives all waiting datagrams into the ring \<^verbatim>\<open>dg\<close>, the main loop of \<^verbatim>\<open>dg_echo\<close> sends
  them back. The handler is a function of the world; the main loop is a step relation whose
  states say whether \<^verbatim>\<open>SIGIO\<close> is blocked, so that the handler can run at every point where it is not.
\<close>

section \<open>The queue of datagrams\<close>

definition QSIZE :: nat where [unp_consts]: "QSIZE = 8"
definition MAXDG :: nat where [unp_consts]: "MAXDG = 4096"
definition SIGIO :: int where [unp_consts]: "SIGIO = 29"
definition FIOASYNC :: int where [unp_consts]: "FIOASYNC = 21586"
definition FIONBIO :: int where [unp_consts]: "FIONBIO = 21537"
definition F_SETOWN :: int where [unp_consts]: "F_SETOWN = 8"
definition SIG_BLOCK :: int where [unp_consts]: "SIG_BLOCK = 0"
definition SIG_SETMASK :: int where [unp_consts]: "SIG_SETMASK = 2"

text \<open>\<^verbatim>\<open>dg_data\<close> is what the last \<^verbatim>\<open>recvfrom\<close> stored, so that \<^verbatim>\<open>dg_len\<close> is its length.\<close>

record DG =
  dg_data :: bytes
  dg_len :: nat
  dg_sa :: sockaddr

record dg_queue =
  dg :: "DG list"
  cntread :: "nat list"
  dg_iget :: nat
  dg_iput :: nat
  nqueue :: nat

definition dg_queue_init :: dg_queue where
  "dg_queue_init = \<lparr>dg = replicate QSIZE \<lparr>dg_data = [], dg_len = 0, dg_sa = SA_other 0\<rparr>,
     cntread = replicate (Suc QSIZE) 0, dg_iget = 0, dg_iput = 0, nqueue = 0\<rparr>"

text \<open>A datagram of the ring, and what the handler does with one that arrived.\<close>

definition dg_store :: "bytes \<Rightarrow> sockaddr \<Rightarrow> dg_queue \<Rightarrow> dg_queue" where
  "dg_store data sa q =
     q\<lparr>dg := (dg q)[dg_iput q := \<lparr>dg_data = data, dg_len = length data, dg_sa = sa\<rparr>],
       nqueue := Suc (nqueue q),
       dg_iput := if QSIZE \<le> Suc (dg_iput q) then 0 else Suc (dg_iput q)\<rparr>"

function sig_io_loop :: "nat \<Rightarrow> fd \<Rightarrow> dg_queue \<Rightarrow> world \<Rightarrow> dg_queue run" where
  "sig_io_loop nread sockfd q w =
     (if QSIZE \<le> nqueue q then err_quit ''receive overflow'' w
      else then_run (sys_recvfrom sockfd MAXDG 0 w) (\<lambda>r w. case r of (len, data, sa) \<Rightarrow>
        if len < 0 then
          (if errno w = EWOULDBLOCK
           then Ret (q\<lparr>cntread := (cntread q)[nread := Suc (cntread q ! nread)]\<rparr>) w
           else err_sys ''recvfrom error'' w)
        else sig_io_loop (Suc nread) sockfd (dg_store data sa q) w))"
  by pat_completeness auto
termination
  by (relation "measure (\<lambda>(n, fd, q, w). length (script w))") (auto dest!: sys_recvfrom_consumes)

declare sig_io_loop.simps [simp del]

definition sig_io :: "fd \<Rightarrow> dg_queue \<Rightarrow> world \<Rightarrow> dg_queue run" where
  "sig_io sockfd q w = sig_io_loop 0 sockfd q w"

definition sig_hup :: "dg_queue \<Rightarrow> world \<Rightarrow> world" where
  "sig_hup q w = fold (\<lambda>i. emit (Stdout (''cntread['' @ dec i @ ''] = '' @ dec (cntread q ! i) @ [CHR 0x0A])))
     [0..<Suc QSIZE] w"

section \<open>The main loop\<close>

text \<open>
  The points of the main loop: \<^verbatim>\<open>SIGIO\<close> is blocked at \<open>At_top\<close> and \<open>At_dec\<close>, unblocked in between.
\<close>

datatype dg_pc = At_top | At_send | At_advance | At_block | At_dec

record dg_server =
  dg_pc :: dg_pc
  dgq :: dg_queue
  dg_world :: world

definition dg_setup :: "int \<Rightarrow> int \<Rightarrow> int \<Rightarrow> fd \<Rightarrow> world \<Rightarrow> (int \<times> int list) run" where
  "dg_setup hup_handler io_handler pid sockfd w =
     then_run (Signal SIGHUP hup_handler w) (\<lambda>_ w.
     then_run (Signal SIGIO io_handler w) (\<lambda>_ w.
     then_run (Fcntl sockfd F_SETOWN pid w) (\<lambda>_ w.
     then_run (Ioctl sockfd FIOASYNC w) (\<lambda>_ w.
     then_run (Ioctl sockfd FIONBIO w) (\<lambda>_ w.
       Sigprocmask SIG_BLOCK {SIGIO} w)))))"

text \<open>
  One step of the server. \<open>oldmask\<close> is the mask to restore; \<^verbatim>\<open>sigsuspend\<close> returns after a handler has
  run. \<^verbatim>\<open>SIGHUP\<close> is never blocked.
\<close>

inductive dg_step :: "fd \<Rightarrow> int set \<Rightarrow> dg_server \<Rightarrow> dg_server \<Rightarrow> bool" for sockfd oldmask where
  suspend_io: "dg_pc s = At_top \<Longrightarrow> nqueue (dgq s) = 0 \<Longrightarrow>
     sig_io sockfd (dgq s) (dg_world s) = Ret q w \<Longrightarrow>
     dg_step sockfd oldmask s (s\<lparr>dgq := q, dg_world := w\<rparr>)"
| hup: "dg_step sockfd oldmask s (s\<lparr>dg_world := sig_hup (dgq s) (dg_world s)\<rparr>)"
| unblock: "dg_pc s = At_top \<Longrightarrow> nqueue (dgq s) \<noteq> 0 \<Longrightarrow>
     Sigprocmask SIG_SETMASK oldmask (dg_world s) = Ret r w \<Longrightarrow>
     dg_step sockfd oldmask s (s\<lparr>dg_pc := At_send, dg_world := w\<rparr>)"
| handler: "dg_pc s \<in> {At_send, At_advance, At_block} \<Longrightarrow>
     sig_io sockfd (dgq s) (dg_world s) = Ret q w \<Longrightarrow>
     dg_step sockfd oldmask s (s\<lparr>dgq := q, dg_world := w\<rparr>)"
| send: "dg_pc s = At_send \<Longrightarrow> d = dg (dgq s) ! dg_iget (dgq s) \<Longrightarrow>
     Sendto sockfd (take (dg_len d) (dg_data d)) 0 (dg_sa d) (dg_world s) = Ret () w \<Longrightarrow>
     dg_step sockfd oldmask s (s\<lparr>dg_pc := At_advance, dg_world := w\<rparr>)"
| advance: "dg_pc s = At_advance \<Longrightarrow>
     dg_step sockfd oldmask s (s\<lparr>dg_pc := At_block, dgq := (dgq s)
       \<lparr>dg_iget := if QSIZE \<le> Suc (dg_iget (dgq s)) then 0 else Suc (dg_iget (dgq s))\<rparr>\<rparr>)"
| block: "dg_pc s = At_block \<Longrightarrow> Sigprocmask SIG_BLOCK {SIGIO} (dg_world s) = Ret r w \<Longrightarrow>
     dg_step sockfd oldmask s (s\<lparr>dg_pc := At_dec, dg_world := w\<rparr>)"
| dec: "dg_pc s = At_dec \<Longrightarrow>
     dg_step sockfd oldmask s (s\<lparr>dg_pc := At_top, dgq := (dgq s)\<lparr>nqueue := nqueue (dgq s) - 1\<rparr>\<rparr>)"

inductive dg_reach :: "fd \<Rightarrow> int set \<Rightarrow> world \<Rightarrow> dg_server \<Rightarrow> bool" for sockfd oldmask w0 where
  init: "dg_reach sockfd oldmask w0 \<lparr>dg_pc = At_top, dgq = dg_queue_init, dg_world = w0\<rparr>"
| step: "dg_reach sockfd oldmask w0 s \<Longrightarrow> dg_step sockfd oldmask s t \<Longrightarrow> dg_reach sockfd oldmask w0 t"

section \<open>The queue is a bounded queue\<close>

text \<open>
  \<open>k\<close> is the number of entries \<^verbatim>\<open>nqueue\<close> still counts although the main loop is done with them: 1
  between \<^verbatim>\<open>++iget\<close> and \<^verbatim>\<open>nqueue--\<close>, otherwise 0.
\<close>

definition dg_inv :: "nat \<Rightarrow> dg_queue \<Rightarrow> bool" where
  "dg_inv k q \<longleftrightarrow> length (dg q) = QSIZE \<and> length (cntread q) = Suc QSIZE \<and> dg_iget q < QSIZE \<and>
     k \<le> nqueue q \<and> nqueue q \<le> QSIZE \<and> dg_iput q = (dg_iget q + (nqueue q - k)) mod QSIZE \<and>
     (\<forall>d \<in> set (dg q). dg_len d = length (dg_data d))"

definition dg_pending :: "nat \<Rightarrow> dg_queue \<Rightarrow> (bytes \<times> sockaddr) list" where
  "dg_pending k q = map (\<lambda>d. (dg_data d, dg_sa d)) (ring_list (dg q) (dg_iget q) (nqueue q - k))"

definition dg_offer :: "bytes \<times> sockaddr \<Rightarrow> dg_queue \<Rightarrow> dg_queue option" where
  "dg_offer d q = (if QSIZE \<le> nqueue q then None else Some (dg_store (fst d) (snd d) q))"

definition dg_pop :: "nat \<Rightarrow> dg_queue \<Rightarrow> ((bytes \<times> sockaddr) \<times> dg_queue) option" where
  "dg_pop k q = (if nqueue q \<le> k then None
     else Some ((dg_data (dg q ! dg_iget q), dg_sa (dg q ! dg_iget q)),
       q\<lparr>dg_iget := if QSIZE \<le> Suc (dg_iget q) then 0 else Suc (dg_iget q), nqueue := nqueue q - 1\<rparr>))"

lemma length_dg_pending [simp]: "length (dg_pending k q) = nqueue q - k"
  by (simp add: dg_pending_def)

lemma dg_put_room:
  assumes q: "dg_inv k q" and room: "nqueue q < QSIZE"
  shows "dg_inv k (dg_store data sa q)"
    and "dg_pending k (dg_store data sa q) = dg_pending k q @ [(data, sa)]"
proof -
  let ?d = "\<lparr>dg_data = data, dg_len = length data, dg_sa = sa\<rparr>" and ?n = "nqueue q - k"
  have k: "k \<le> nqueue q" "length (dg q) = QSIZE" "dg_iput q = (dg_iget q + ?n) mod QSIZE"
    using q by (simp_all add: dg_inv_def)
  then have i: "dg_iput q < QSIZE" by (simp add: QSIZE_def)
  then have "(if QSIZE \<le> Suc (dg_iput q) then 0 else Suc (dg_iput q)) = Suc (dg_iput q) mod QSIZE"
    by (rule wrap_index(2))
  also have "\<dots> = (dg_iget q + Suc ?n) mod QSIZE" by (simp add: k(3) mod_Suc_eq)
  finally have iput: "(if QSIZE \<le> Suc (dg_iput q) then 0 else Suc (dg_iput q)) = (dg_iget q + Suc ?n) mod QSIZE" .
  have suc: "Suc (nqueue q) - k = Suc ?n" using k(1) by simp
  show "dg_inv k (dg_store data sa q)"
    using q room iput suc set_update_subset_insert [of "dg q" "dg_iput q" ?d]
    by (auto simp: dg_inv_def dg_store_def)
  have "ring_list ((dg q)[(dg_iget q + ?n) mod length (dg q) := ?d]) (dg_iget q) (Suc ?n) =
      ring_list (dg q) (dg_iget q) ?n @ [?d]"
    by (rule ring_put) (use room k in simp)
  then have "ring_list ((dg q)[dg_iput q := ?d]) (dg_iget q) (Suc ?n) = ring_list (dg q) (dg_iget q) ?n @ [?d]"
    by (simp only: k(2,3))
  then show "dg_pending k (dg_store data sa q) = dg_pending k q @ [(data, sa)]"
    by (simp add: dg_pending_def dg_store_def suc)
qed

lemma dg_get_some:
  assumes q: "dg_inv k q" and some: "k < nqueue q"
  shows "dg_pending k q = (dg_data (dg q ! dg_iget q), dg_sa (dg q ! dg_iget q)) #
      map (\<lambda>d. (dg_data d, dg_sa d)) (ring_list (dg q) (Suc (dg_iget q) mod QSIZE) (nqueue q - k - 1))"
proof -
  obtain n where n: "nqueue q - k = Suc n" using some by (cases "nqueue q - k") auto
  with q ring_get [of "dg_iget q" "dg q" n] show ?thesis by (simp add: dg_pending_def dg_inv_def)
qed

lemma dg_advance_index:
  assumes "dg_inv k q"
  shows "(if QSIZE \<le> Suc (dg_iget q) then 0 else Suc (dg_iget q)) = Suc (dg_iget q) mod QSIZE"
  using assms by (intro wrap_index(2)) (simp add: dg_inv_def)

text \<open>\<^verbatim>\<open>++iget\<close>: the entry is gone from the ring but still counted.\<close>

lemma dg_advance:
  assumes q: "dg_inv 0 q" and some: "0 < nqueue q"
  shows "dg_inv (Suc 0) (q\<lparr>dg_iget := Suc (dg_iget q) mod QSIZE\<rparr>)"
    and "dg_pending (Suc 0) (q\<lparr>dg_iget := Suc (dg_iget q) mod QSIZE\<rparr>) = tl (dg_pending 0 q)"
proof -
  from some obtain n where n: "nqueue q = Suc n" by (cases "nqueue q") auto
  have "(dg_iget q + Suc n) mod QSIZE = (Suc (dg_iget q) mod QSIZE + n) mod QSIZE"
    by (simp add: mod_simps)
  with q n show "dg_inv (Suc 0) (q\<lparr>dg_iget := Suc (dg_iget q) mod QSIZE\<rparr>)"
    by (simp add: dg_inv_def QSIZE_def)
  show "dg_pending (Suc 0) (q\<lparr>dg_iget := Suc (dg_iget q) mod QSIZE\<rparr>) = tl (dg_pending 0 q)"
    using dg_get_some [OF q some] n by (simp add: dg_pending_def)
qed

lemma dg_decrement:
  assumes "dg_inv (Suc 0) q"
  shows "dg_inv 0 (q\<lparr>nqueue := nqueue q - 1\<rparr>)" and "dg_pending 0 (q\<lparr>nqueue := nqueue q - 1\<rparr>) = dg_pending (Suc 0) q"
  using assms by (auto simp: dg_inv_def dg_pending_def)

lemma dg_bounded_queue:
  assumes "k \<le> QSIZE"
  shows "bounded_queue (dg_inv k) (dg_pending k) (QSIZE - k) dg_offer (dg_pop k)"
proof
  fix q and x :: "bytes \<times> sockaddr"
  assume q: "dg_inv k q"
  { assume "length (dg_pending k q) < QSIZE - k"
    then have "nqueue q < QSIZE" by simp
    with dg_put_room [OF q this, of "fst x" "snd x"]
    show "\<exists>q'. dg_offer x q = Some q' \<and> dg_inv k q' \<and> dg_pending k q' = dg_pending k q @ [x]"
      by (simp add: dg_offer_def) }
  { assume "QSIZE - k \<le> length (dg_pending k q)"
    with q assms have "QSIZE \<le> nqueue q" unfolding dg_inv_def length_dg_pending by linarith
    then show "dg_offer x q = None" by (simp add: dg_offer_def) }
  { fix xs
    assume p: "dg_pending k q = x # xs"
    then have some: "k < nqueue q" by (metis length_dg_pending length_Cons zero_less_Suc zero_less_diff)
    let ?q = "q\<lparr>dg_iget := Suc (dg_iget q) mod QSIZE, nqueue := nqueue q - 1\<rparr>"
    from some obtain n where n: "nqueue q = Suc (k + n)" by (metis less_iff_Suc_add)
    have "(dg_iget q + Suc n) mod QSIZE = (Suc (dg_iget q) mod QSIZE + n) mod QSIZE"
      by (simp add: mod_simps)
    then have "dg_inv k ?q" using q n by (simp add: dg_inv_def QSIZE_def)
    moreover have "dg_pending k ?q = xs" "x = (dg_data (dg q ! dg_iget q), dg_sa (dg q ! dg_iget q))"
      using dg_get_some [OF q some] p by (simp_all add: dg_pending_def diff_commute)
    ultimately show "\<exists>q'. dg_pop k q = Some (x, q') \<and> dg_inv k q' \<and> dg_pending k q' = xs"
      using some by (simp add: dg_pop_def dg_advance_index [OF q]) }
  { assume "dg_pending k q = []"
    then have "nqueue q \<le> k" by (metis length_dg_pending list.size(3) diff_is_0_eq)
    then show "dg_pop k q = None" by (simp add: dg_pop_def) }
qed

interpretation dgq: bounded_queue "dg_inv 0" "dg_pending 0" QSIZE dg_offer "dg_pop 0"
  using dg_bounded_queue [of 0] by simp

interpretation dgq_late: bounded_queue "dg_inv (Suc 0)" "dg_pending (Suc 0)" 7 dg_offer "dg_pop (Suc 0)"
  using dg_bounded_queue [of "Suc 0"] by (simp add: QSIZE_def)

section \<open>What was received and sent\<close>

fun received_ev :: "fd \<Rightarrow> event \<Rightarrow> (bytes \<times> sockaddr) list" where
  "received_ev fd (Sys (C_recvfrom f n fl) a) =
     (if f = fd \<and> a_err a = 0 then [(take n (a_data a), a_addr a)] else [])"
| "received_ev fd _ = []"

fun sent_ev :: "fd \<Rightarrow> event \<Rightarrow> (bytes \<times> sockaddr) list" where
  "sent_ev fd (Sys (C_sendto f b fl sa) a) =
     (if f = fd \<and> a_err a = 0 \<and> length b \<le> a_val a then [(b, sa)] else [])"
| "sent_ev fd _ = []"

definition received :: "fd \<Rightarrow> event list \<Rightarrow> (bytes \<times> sockaddr) list" where
  "received fd es = concat (map (received_ev fd) es)"

definition sent :: "fd \<Rightarrow> event list \<Rightarrow> (bytes \<times> sockaddr) list" where
  "sent fd es = concat (map (sent_ev fd) es)"

lemma received_simps [simp]:
  "received fd [] = []" "received fd (e # es) = received_ev fd e @ received fd es"
  "received fd (xs @ ys) = received fd xs @ received fd ys"
  by (simp_all add: received_def)

lemma sent_simps [simp]:
  "sent fd [] = []" "sent fd (e # es) = sent_ev fd e @ sent fd es"
  "sent fd (xs @ ys) = sent fd xs @ sent fd ys"
  by (simp_all add: sent_def)

lemma sig_io_loop_Cons:
  "script w = a # s \<Longrightarrow> sig_io_loop m fd q w =
     (if QSIZE \<le> nqueue q then err_quit ''receive overflow'' w
      else let w1 = called (C_recvfrom fd MAXDG 0) a s w in
        if a_err a = 0 then sig_io_loop (Suc m) fd (dg_store (take MAXDG (a_data a)) (a_addr a) q) w1
        else if a_err a = EWOULDBLOCK
        then Ret (q\<lparr>cntread := (cntread q)[m := Suc (cntread q ! m)]\<rparr>) w1
        else err_sys ''recvfrom error'' w1)"
  by (subst sig_io_loop.simps) (simp add: sys_recvfrom_def sys_def Let_def)

lemma sig_io_loop_Nil:
  "script w = [] \<Longrightarrow> sig_io_loop m fd q w =
     (if QSIZE \<le> nqueue q then err_quit ''receive overflow'' w else Block w)"
  by (subst sig_io_loop.simps) (simp add: sys_recvfrom_def sys_def)

lemma dg_store_fields [simp]:
  "nqueue (dg_store data sa q) = Suc (nqueue q)" "dg_iget (dg_store data sa q) = dg_iget q"
  "cntread (dg_store data sa q) = cntread q"
  by (simp_all add: dg_store_def)

lemma dg_pending_cntread [simp]: "dg_pending k (q\<lparr>cntread := c\<rparr>) = dg_pending k q"
  by (simp add: dg_pending_def)

text \<open>
  A run of the handler that comes back appends what it received to the queue, leaves a free slot
  and counts the datagrams it read in a field of the histogram that exists.
\<close>

lemma sig_io_loop_spec:
  "sig_io_loop m fd q w = Ret q' w' \<Longrightarrow> dg_inv k q \<Longrightarrow> \<exists>es n. trace w' = trace w @ es \<and> dg_inv k q' \<and>
     dg_pending k q' = dg_pending k q @ received fd es \<and> sent fd es = [] \<and> nqueue q' < QSIZE \<and>
     dg_iget q' = dg_iget q \<and> nqueue q' = nqueue q + n \<and>
     cntread q' = (cntread q)[m + n := Suc (cntread q ! (m + n))]"
proof (induction "script w" arbitrary: m q w)
  case Nil
  then show ?case by (simp add: sig_io_loop_Nil err_quit_def split: if_splits)
next
  case (Cons a s)
  let ?c = "C_recvfrom fd MAXDG 0" and ?q = "dg_store (take MAXDG (a_data a)) (a_addr a) q"
  let ?w = "called ?c a s w"
  note step = sig_io_loop_Cons [OF Cons.hyps(2) [symmetric], of m fd q]
  have room: "nqueue q < QSIZE" using step Cons.prems(1) by (auto simp: err_quit_def split: if_splits)
  show ?case
  proof (cases "a_err a = 0")
    case True
    with step room Cons.prems(1) have "sig_io_loop (Suc m) fd ?q ?w = Ret q' w'" by simp
    moreover have "dg_inv k ?q" "dg_pending k ?q = dg_pending k q @ [(take MAXDG (a_data a), a_addr a)]"
      using dg_put_room [OF Cons.prems(2) room] by blast+
    ultimately obtain es n where "trace w' = trace ?w @ es" "dg_inv k q'"
      "dg_pending k q' = dg_pending k q @ (take MAXDG (a_data a), a_addr a) # received fd es" "sent fd es = []"
      "nqueue q' < QSIZE" "dg_iget q' = dg_iget q" "nqueue q' = nqueue q + Suc n"
      "cntread q' = (cntread q)[m + Suc n := Suc (cntread q ! (m + Suc n))]"
      using Cons.hyps(1) [of ?w "Suc m" ?q] by auto
    with True show ?thesis
      by (intro exI [of _ "Sys ?c a # es"] exI [of _ "Suc n"]) simp
  next
    case False
    with step room Cons.prems have "q' = q\<lparr>cntread := (cntread q)[m := Suc (cntread q ! m)]\<rparr>" "w' = ?w"
      by (auto simp: Let_def err_sys_def split: if_splits)
    with Cons.prems(2) room False show ?thesis
      by (intro exI [of _ "[Sys ?c a]"] exI [of _ 0]) (simp add: dg_inv_def)
  qed
qed

text \<open>When the handler comes back and when it gives up, told from what is waiting on the socket.\<close>

lemma sig_io_loop_runs:
  assumes "script w = as @ b # s" and "\<forall>a \<in> set as. a_err a = 0" and "a_err b = EWOULDBLOCK"
    and "nqueue q \<le> QSIZE"
  shows "if nqueue q + length as < QSIZE
    then \<exists>q' w'. sig_io_loop m fd q w = Ret q' w' \<and> script w' = s
    else \<exists>w'. sig_io_loop m fd q w = Exit 1 (err_doit False LOG_ERR ''receive overflow'' w') \<and>
           length (received fd (trace w')) = length (received fd (trace w)) + (QSIZE - nqueue q)"
  using assms
proof (induction as arbitrary: m q w)
  case Nil
  then show ?case
    by (auto simp: sig_io_loop_Cons Let_def err_quit_def EWOULDBLOCK_def intro!: exI [of _ w])
next
  case (Cons a as)
  let ?q = "dg_store (take MAXDG (a_data a)) (a_addr a) q" and ?w = "called (C_recvfrom fd MAXDG 0) a (as @ b # s) w"
  show ?case
  proof (cases "QSIZE \<le> nqueue q")
    case True
    with Cons.prems show ?thesis by (auto simp: sig_io_loop_Cons err_quit_def)
  next
    case False
    with Cons.prems have step: "sig_io_loop m fd q w = sig_io_loop (Suc m) fd ?q ?w"
      by (simp add: sig_io_loop_Cons)
    from False Cons.prems Cons.IH [of ?w ?q "Suc m"] show ?thesis
      unfolding step by (auto simp: not_le split: if_splits)
  qed
qed

definition dg_slack :: "dg_pc \<Rightarrow> nat" where
  "dg_slack pc = (if pc \<in> {At_block, At_dec} then Suc 0 else 0)"

text \<open>The datagrams that have been received and not been sent back.\<close>

definition dg_unsent :: "dg_server \<Rightarrow> (bytes \<times> sockaddr) list" where
  "dg_unsent s = drop (if dg_pc s = At_advance then 1 else 0) (dg_pending (dg_slack (dg_pc s)) (dgq s))"

definition dg_server_inv :: "fd \<Rightarrow> world \<Rightarrow> dg_server \<Rightarrow> bool" where
  "dg_server_inv fd w0 s \<longleftrightarrow> dg_inv (dg_slack (dg_pc s)) (dgq s) \<and>
     (dg_pc s \<in> {At_send, At_advance} \<longrightarrow> 0 < nqueue (dgq s)) \<and>
     (\<exists>es. trace (dg_world s) = trace w0 @ es \<and> received fd es = sent fd es @ dg_unsent s)"

lemma dg_pc_slack [simp]:
  "dg_slack At_top = 0" "dg_slack At_send = 0" "dg_slack At_advance = 0" "dg_slack At_block = Suc 0"
  "dg_slack At_dec = Suc 0"
  by (simp_all add: dg_slack_def)

lemma sys_pair_trace:
  "sys_pair c w = Ret r w' \<Longrightarrow> \<exists>a. trace w' = trace w @ [Sys c a]"
  by (auto simp: sys_pair_def then_run_Ret_iff sys_def split: list.splits)

lemma Sigprocmask_trace:
  "Sigprocmask how S w = Ret r w' \<Longrightarrow> \<exists>a. trace w' = trace w @ [Sys (C_sigprocmask how S) a]"
  by (auto simp: Sigprocmask_def checked_Ret_iff dest: sys_pair_trace)

lemma Sendto_trace:
  assumes "Sendto fd b fl sa w = Ret x w'"
  shows "\<exists>a. trace w' = trace w @ [Sys (C_sendto fd b fl sa) a] \<and> a_err a = 0 \<and> length b \<le> a_val a"
  using assms
  by (auto simp: Sendto_def void_Ret_iff checked_Ret_iff sys_accepts_def then_run_Ret_iff sys_def
      split: list.splits if_splits)

lemma sig_hup_trace:
  "\<exists>es. trace (sig_hup q w) = trace w @ es \<and> received fd es = [] \<and> sent fd es = []"
proof -
  have prints: "\<exists>es. trace (fold (\<lambda>i. emit (Stdout (f i))) is w) = trace w @ es \<and> received fd es = [] \<and> sent fd es = []"
    for f :: "nat \<Rightarrow> string" and "is"
  proof (induction "is" arbitrary: w)
    case (Cons i "is")
    from Cons.IH [of "emit (Stdout (f i)) w"] show ?case by auto
  qed simp
  show ?thesis unfolding sig_hup_def by (rule prints)
qed

lemma dg_step_inv:
  assumes "dg_step fd oldmask s t" and "dg_server_inv fd w0 s"
  shows "dg_server_inv fd w0 t"
proof -
  from assms(2) obtain es where es: "trace (dg_world s) = trace w0 @ es" "received fd es = sent fd es @ dg_unsent s"
    and inv: "dg_inv (dg_slack (dg_pc s)) (dgq s)" "dg_pc s \<in> {At_send, At_advance} \<longrightarrow> 0 < nqueue (dgq s)"
    by (auto simp: dg_server_inv_def)
  have grow: "dg_server_inv fd w0 (s\<lparr>dgq := q, dg_world := w\<rparr>)"
    if "sig_io fd (dgq s) (dg_world s) = Ret q w" for q w
  proof -
    from sig_io_loop_spec [OF that [unfolded sig_io_def] inv(1)] obtain es' n where
      r: "trace w = trace (dg_world s) @ es'" "dg_inv (dg_slack (dg_pc s)) q"
      "dg_pending (dg_slack (dg_pc s)) q = dg_pending (dg_slack (dg_pc s)) (dgq s) @ received fd es'"
      "sent fd es' = []" "nqueue q = nqueue (dgq s) + n" by blast
    have "dg_pc s = At_advance \<Longrightarrow> 1 \<le> length (dg_pending (dg_slack (dg_pc s)) (dgq s))"
      using inv(2) by simp
    with r es inv(2) show ?thesis by (auto simp: dg_server_inv_def dg_unsent_def)
  qed
  from assms(1) show ?thesis
  proof cases
    case (suspend_io q w)
    then show ?thesis using grow by simp
  next
    case (handler q w)
    then show ?thesis using grow by simp
  next
    case hup
    with sig_hup_trace [of "dgq s" "dg_world s" fd] es inv show ?thesis
      by (auto simp: dg_server_inv_def dg_unsent_def)
  next
    case (unblock r w)
    with es inv show ?thesis
      by (auto simp: dg_server_inv_def dg_unsent_def dest!: Sigprocmask_trace)
  next
    case (send d w)
    from inv send have q: "dg_inv 0 (dgq s)" and some: "0 < nqueue (dgq s)" by auto
    from q have "dg_iget (dgq s) < length (dg (dgq s))" by (simp add: dg_inv_def)
    with q send(3) have "dg_len d = length (dg_data d)" by (simp add: dg_inv_def)
    with Sendto_trace [OF send(4)] obtain a where
      "trace w = trace (dg_world s) @ [Sys (C_sendto fd (dg_data d) 0 (dg_sa d)) a]" "a_err a = 0"
      "length (dg_data d) \<le> a_val a" by auto
    moreover from dg_get_some [OF q some] send(3)
    have "dg_pending 0 (dgq s) = (dg_data d, dg_sa d) # tl (dg_pending 0 (dgq s))" by simp
    ultimately show ?thesis
      using es q some send(1,2) by (simp add: dg_server_inv_def dg_unsent_def drop_Suc)
  next
    case advance
    from inv advance have q: "dg_inv 0 (dgq s)" and some: "0 < nqueue (dgq s)" by auto
    from dg_advance [OF q some] advance es show ?thesis
      by (simp add: dg_server_inv_def dg_unsent_def dg_advance_index [OF q] drop_Suc)
  next
    case (block r w)
    with es inv show ?thesis
      by (auto simp: dg_server_inv_def dg_unsent_def dest!: Sigprocmask_trace)
  next
    case dec
    then have "dg_inv (Suc 0) (dgq s)" using inv by simp
    from dg_decrement [OF this] dec es show ?thesis by (simp add: dg_server_inv_def dg_unsent_def)
  qed
qed

lemma dg_reach_inv: "dg_reach fd oldmask w0 s \<Longrightarrow> dg_server_inv fd w0 s"
proof (induction rule: dg_reach.induct)
  case init
  show ?case by (simp add: dg_server_inv_def dg_unsent_def dg_inv_def dg_queue_init_def dg_pending_def QSIZE_def)
qed (rule dg_step_inv)

section \<open>Properties\<close>

text \<open>
  (C25) Whatever the moments at which \<^verbatim>\<open>SIGIO\<close> arrives: the datagrams received so far are, in order, the
  ones sent back (whole, to where they came from) followed by the ones still in the ring, and the
  ring's indices and count stay inside its eight slots. Nothing is overwritten, lost or reordered.
\<close>

theorem sigio_echo_in_order:
  assumes "dg_reach fd oldmask w0 s"
  shows "\<exists>es. trace (dg_world s) = trace w0 @ es \<and> received fd es = sent fd es @ dg_unsent s \<and>
    dg_iget (dgq s) < QSIZE \<and> dg_iput (dgq s) < QSIZE \<and> nqueue (dgq s) \<le> QSIZE \<and>
    (dg_pc s = At_top \<longrightarrow> length (dg_unsent s) = nqueue (dgq s))"
proof -
  from dg_reach_inv [OF assms] obtain es where
    "trace (dg_world s) = trace w0 @ es" "received fd es = sent fd es @ dg_unsent s"
    and "dg_inv (dg_slack (dg_pc s)) (dgq s)" by (auto simp: dg_server_inv_def)
  then show ?thesis by (intro exI [of _ es]) (auto simp: dg_inv_def dg_unsent_def QSIZE_def)
qed

theorem sigio_echo_in_order_witness:
  "\<exists>s. dg_reach 3 {} (boot [got [1], fails EWOULDBLOCK]) s \<and> nqueue (dgq s) = 1 \<and>
     received 3 (trace (dg_world s)) = dg_unsent s \<and> length (dg_unsent s) = 1"
proof -
  let ?w = "boot [got [1], fails EWOULDBLOCK]"
  let ?s = "\<lparr>dg_pc = At_top, dgq = dg_queue_init, dg_world = ?w\<rparr>"
  have "\<exists>q w'. sig_io 3 dg_queue_init ?w = Ret q w' \<and> nqueue q = 1 \<and> sent 3 (trace w') = []"
    by (simp add: sig_io_def sig_io_loop_Cons EWOULDBLOCK_def Let_def)
       (simp add: dg_queue_init_def QSIZE_def)
  then obtain q w' where io: "sig_io 3 dg_queue_init ?w = Ret q w'" and q: "nqueue q = 1" "sent 3 (trace w') = []"
    by blast
  let ?t = "?s\<lparr>dgq := q, dg_world := w'\<rparr>"
  have "dg_step 3 {} ?s ?t"
    by (rule dg_step.suspend_io) (use io in \<open>simp_all add: dg_queue_init_def\<close>)
  then have t: "dg_reach 3 {} ?w ?t" by (blast intro: dg_reach.intros)
  from sigio_echo_in_order [OF t] t q show ?thesis by (intro exI [of _ ?t]) auto
qed

text \<open>
  The handler takes every datagram that is waiting, until the socket has no more, as long as the
  ring keeps a free slot; it ends the process as soon as the eighth slot is filled, although
  nothing has been lost then and no further datagram may be waiting.
\<close>

theorem sig_io_capacity:
  assumes "script w = as @ b # s" and "\<forall>a \<in> set as. a_err a = 0" and "a_err b = EWOULDBLOCK"
    and "dg_inv 0 q"
  shows "if nqueue q + length as < QSIZE
    then \<exists>q' w'. sig_io fd q w = Ret q' w' \<and> script w' = s
    else \<exists>w'. sig_io fd q w = Exit 1 (err_doit False LOG_ERR ''receive overflow'' w') \<and>
           length (received fd (trace w')) = length (received fd (trace w)) + (QSIZE - nqueue q)"
  using sig_io_loop_runs [OF assms(1-3), of q 0 fd] assms(4) unfolding sig_io_def
  by (simp add: dg_inv_def)

theorem sig_io_capacity_witness:
  "\<exists>w'. sig_io 3 dg_queue_init (boot (replicate 8 (got [1]) @ [fails EWOULDBLOCK])) =
     Exit 1 (err_doit False LOG_ERR ''receive overflow'' w')"
proof -
  let ?as = "replicate 8 (got [1])"
  have inv: "dg_inv 0 dg_queue_init" by (simp add: dg_inv_def dg_queue_init_def QSIZE_def)
  have "nqueue dg_queue_init + length ?as \<ge> QSIZE" by (simp add: dg_queue_init_def QSIZE_def)
  with sig_io_capacity [of "boot (?as @ [fails EWOULDBLOCK])" ?as "fails EWOULDBLOCK" "[]" dg_queue_init 3] inv
  show ?thesis by (auto simp: EWOULDBLOCK_def split: if_splits)
qed

end
