(* ===== verification/Echo.thy ===== *)
theory Echo
  imports Net_Helpers "HOL-Library.Sublist"
begin

text \<open>
  The echo clients and servers of \<^verbatim>\<open>lib\<close>: \<^verbatim>\<open>str_echo.c\<close> and \<^verbatim>\<open>str_cli.c\<close> over a stream,
  \<^verbatim>\<open>dg_echo.c\<close> and \<^verbatim>\<open>dg_cli.c\<close> over datagrams. A loop that ends only when the kernel says so is a
  recursion on the answers still to come.
\<close>

section \<open>How far a run has used its script\<close>

lemma writen_consumes_le: "writen_loop fd n rest w = Ret r w' \<Longrightarrow> length (script w') \<le> length (script w)"
proof (induction "script w" arbitrary: w rest)
  case Nil
  then show ?case by (cases "rest = []") (auto simp: writen_loop_Nil)
next
  case (Cons a s)
  show ?case
  proof (cases "rest = []")
    case False
    note step = writen_loop_Cons [OF Cons.hyps(2) [symmetric] False, of fd n]
    have IH: "length (script w') \<le> length s"
      if "writen_loop fd n rest' (called c a s w) = Ret r w'" for rest' c
      using Cons.hyps(1) [OF _ that] by simp
    show ?thesis using Cons.prems step IH Cons.hyps(2) [symmetric]
      by (fastforce simp: Let_def split: if_splits)
  qed (use Cons.prems in auto)
qed

lemma Writen_Ret: "Writen fd buf w = Ret x w' \<longleftrightarrow> writen fd buf w = Ret (int (length buf)) w'"
  by (cases "writen fd buf w") (auto simp: Writen_def err_sys_def)

lemma Writen_consumes: "Writen fd buf w = Ret x w' \<Longrightarrow> length (script w') \<le> length (script w)"
  by (auto simp: Writen_Ret writen_def dest: writen_consumes_le)

section \<open>lib/str_echo.c\<close>

function str_echo :: "fd \<Rightarrow> world \<Rightarrow> unit run" where
  "str_echo sockfd w = then_run (sys_read sockfd MAXLINE w) (\<lambda>r w. case r of (n, buf) \<Rightarrow>
     if 0 < n then then_run (Writen sockfd buf w) (\<lambda>_ w. str_echo sockfd w)
     else if n < 0 \<and> errno w = EINTR then str_echo sockfd w
     else if n < 0 then err_sys ''str_echo: read error'' w
     else Ret () w)"
  by pat_completeness auto
termination
  by (relation "measure (\<lambda>(fd, w). length (script w))")
     (auto dest!: sys_read_consumes Writen_consumes)

declare str_echo.simps [simp del]

section \<open>lib/dg_echo.c\<close>

lemma Sendto_consumes: "Sendto fd buf fl sa w = Ret x w' \<Longrightarrow> length (script w') < length (script w)"
  by (auto simp: Sendto_def void_Ret_iff checked_Ret_iff dest: sys_accepts_consumes)

function dg_echo :: "fd \<Rightarrow> world \<Rightarrow> unit run" where
  "dg_echo sockfd w = then_run (Recvfrom sockfd MAXLINE 0 w) (\<lambda>r w. case r of (n, mesg, cliaddr) \<Rightarrow>
     then_run (Sendto sockfd mesg 0 cliaddr w) (\<lambda>_ w. dg_echo sockfd w))"
  by pat_completeness auto
termination
  by (relation "measure (\<lambda>(fd, w). length (script w))")
     (auto dest!: Recvfrom.wrap_consumes Sendto_consumes)

declare dg_echo.simps [simp del]

section \<open>lib/dg_cli.c and lib/str_cli.c\<close>

text \<open>The bytes of a buffer up to its first null byte, what \<^verbatim>\<open>strlen\<close> and \<^verbatim>\<open>fputs\<close> see of it.\<close>

definition c_str :: "bytes \<Rightarrow> bytes" where
  "c_str buf = takeWhile (\<lambda>b. b \<noteq> 0) buf"

definition STDOUT :: int where "STDOUT = 1"

lemma Fgets_consumes: "Fgets fp n w = Ret x w' \<Longrightarrow> length (script w') < length (script w)"
  by (auto simp: Fgets_def then_run_Ret_iff err_sys_def Let_def dest!: sys_consumes split: if_splits)

function dg_cli :: "int \<Rightarrow> fd \<Rightarrow> sockaddr \<Rightarrow> world \<Rightarrow> unit run" where
  "dg_cli fp sockfd servaddr w = then_run (Fgets fp MAXLINE w) (\<lambda>r w. case r of
       None \<Rightarrow> Ret () w
     | Some sendline \<Rightarrow>
         then_run (Sendto sockfd (c_str sendline) 0 servaddr w) (\<lambda>_ w.
         then_run (Recvfrom sockfd MAXLINE 0 w) (\<lambda>r w. case r of (n, recvline, _) \<Rightarrow>
         then_run (Fputs STDOUT (c_str recvline) w) (\<lambda>_ w. dg_cli fp sockfd servaddr w))))"
  by pat_completeness auto
termination
  by (relation "measure (\<lambda>(fp, fd, sa, w). length (script w))")
     (auto dest!: Fgets_consumes Recvfrom.wrap_consumes Sendto_consumes Fputs.wrap_consumes)

declare dg_cli.simps [simp del]

lemma my_read_again_consumes:
  "my_read_again fd st w = Ret r w' \<Longrightarrow> length (script w') \<le> length (script w) \<and>
     (\<exists>es. trace w' = trace w @ es \<and> (\<forall>e \<in> set es. \<exists>n a. e = Sys (C_read fd n) a))"
proof (induction "script w" arbitrary: w st)
  case Nil
  then show ?case by (simp add: my_read_again_eq flip: Nil.hyps)
next
  case (Cons a s)
  let ?w = "called (C_read fd MAXLINE) a s w"
  note step = my_read_again_eq [of fd st w, folded Cons.hyps(2), simplified]
  show ?case
  proof (cases "a_err a = EINTR")
    case True
    with Cons.prems step
    have "my_read_again fd (st\<lparr>read_cnt := - 1, read_buf := fill [] (read_buf st)\<rparr>) ?w = Ret r w'"
      by (simp add: EINTR_def Let_def)
    from Cons.hyps(1) [OF _ this] show ?thesis by (auto simp flip: Cons.hyps(2))
  next
    case False
    with Cons.prems step show ?thesis
      by (auto simp: Let_def simp flip: Cons.hyps(2) split: if_splits)
  qed
qed

lemma my_read_consumes:
  "my_read fd st w = Ret r w' \<Longrightarrow> length (script w') \<le> length (script w) \<and>
     (\<exists>es. trace w' = trace w @ es \<and> (\<forall>e \<in> set es. \<exists>n a. e = Sys (C_read fd n) a))"
  by (auto simp: my_read_def then_run_Ret_iff dest!: my_read_again_consumes split: if_splits)

lemma readline_loop_consumes:
  "readline_loop my_read fd maxlen n line st w = Ret r w' \<Longrightarrow> length (script w') \<le> length (script w) \<and>
     (\<exists>es. trace w' = trace w @ es \<and> (\<forall>e \<in> set es. \<exists>n a. e = Sys (C_read fd n) a))"
proof (induction "maxlen - n" arbitrary: n line st w rule: less_induct)
  case less
  note step = readline_loop.simps [of my_read fd maxlen n line st w]
  show ?case
  proof (cases "n < maxlen")
    case True
    with less.prems obtain rc c st1 w1 where rd: "my_read fd st w = Ret (rc, c, st1) w1"
      by (auto simp: step then_run_Ret_iff)
    note c = my_read_consumes [OF rd]
    show ?thesis
    proof (cases "rc = 1 \<and> c \<noteq> 10")
      case go: True
      with True rd less.prems
      have "readline_loop my_read fd maxlen (Suc n) (line @ [c]) st1 w1 = Ret r w'"
        by (simp add: step)
      from less.hyps [OF _ this] True have "length (script w') \<le> length (script w1)"
        "\<exists>es. trace w' = trace w1 @ es \<and> (\<forall>e \<in> set es. \<exists>n a. e = Sys (C_read fd n) a)" by auto
      then show ?thesis using c by fastforce
    next
      case False
      with True rd less.prems have "w' = w1" by (auto simp: step split: if_splits)
      with c show ?thesis by simp
    qed
  qed (use less.prems in \<open>simp add: step\<close>)
qed

lemma Readline_Ret:
  "Readline fd maxlen st w = Ret r w' \<Longrightarrow> readline_loop my_read fd maxlen 1 [] st w = Ret r w' \<and> 0 \<le> fst r"
  by (auto simp: Readline_def readline_def then_run_Ret_iff err_sys_def split: if_splits)

lemma Readline_consumes: "Readline fd maxlen st w = Ret r w' \<Longrightarrow> length (script w') \<le> length (script w)"
  by (drule Readline_Ret) (auto dest: readline_loop_consumes)

function str_cli :: "int \<Rightarrow> fd \<Rightarrow> rl_state \<Rightarrow> world \<Rightarrow> rl_state run" where
  "str_cli fp sockfd st w = then_run (Fgets fp MAXLINE w) (\<lambda>r w. case r of
       None \<Rightarrow> Ret st w
     | Some sendline \<Rightarrow>
         then_run (Writen sockfd (c_str sendline) w) (\<lambda>_ w.
         then_run (Readline sockfd MAXLINE st w) (\<lambda>r w. case r of (n, recvline, st) \<Rightarrow>
           if n = 0 then err_quit ''str_cli: server terminated prematurely'' w
           else then_run (Fputs STDOUT (c_str recvline) w) (\<lambda>_ w. str_cli fp sockfd st w))))"
  by pat_completeness auto
termination
  by (relation "measure (\<lambda>(fp, fd, st, w). length (script w))")
     (auto dest!: Fgets_consumes Writen_consumes Readline_consumes Fputs.wrap_consumes)

declare str_cli.simps [simp del]

section \<open>Lemmas\<close>

definition writes_only :: "fd \<Rightarrow> event list \<Rightarrow> bool" where
  "writes_only fd es \<longleftrightarrow> (\<forall>e \<in> set es. \<exists>b a. e = Sys (C_write fd b) a)"

lemma writes_only_delivered: "writes_only fd es \<Longrightarrow> delivered fd' es = []"
  by (induction es) (auto simp: writes_only_def)

text \<open>Also when it blocks or ends the process, \<^verbatim>\<open>Writen\<close> has handed over a prefix of its buffer.\<close>

lemma writen_loop_world:
  "\<exists>es k. trace (world_of (writen_loop fd n rest w)) = trace w @ es \<and> writes_only fd es \<and>
     accepted fd es = take k rest"
proof (induction "script w" arbitrary: w rest)
  case Nil
  then show ?case
    by (cases "rest = []") (auto simp: writen_loop_Nil writes_only_def intro: exI [of _ 0])
next
  case (Cons a s)
  show ?case
  proof (cases "rest = []")
    case False
    let ?c = "C_write fd rest"
    let ?w = "called ?c a s w"
    note step = writen_loop_Cons [OF Cons.hyps(2) [symmetric] False, of fd n]
    have IH: "\<exists>es k. trace (world_of (writen_loop fd n rest' ?w)) = trace ?w @ es \<and> writes_only fd es \<and>
        accepted fd es = take k rest'" for rest'
      using Cons.hyps(1) [of ?w rest'] by simp
    consider (again) "a_err a = EINTR" | (err) "a_err a \<noteq> 0" "a_err a \<noteq> EINTR"
      | (none) "a_err a = 0" "a_val a = 0" | (took) "a_err a = 0" "0 < a_val a"
      by (auto simp: EINTR_def)
    then show ?thesis
    proof cases
      case again
      with step have "writen_loop fd n rest w = writen_loop fd n rest ?w" by (simp add: EINTR_def Let_def)
      moreover obtain es k where "trace (world_of (writen_loop fd n rest ?w)) = trace ?w @ es"
        "writes_only fd es" "accepted fd es = take k rest" using IH by blast
      ultimately show ?thesis using again
        by (intro exI [of _ "Sys ?c a # es"] exI [of _ k]) (simp add: writes_only_def EINTR_def)
    next
      case took
      with step have "writen_loop fd n rest w = writen_loop fd n (drop (a_val a) rest) ?w"
        by (simp add: Let_def)
      moreover obtain es k where "trace (world_of (writen_loop fd n (drop (a_val a) rest) ?w)) = trace ?w @ es"
        "writes_only fd es" "accepted fd es = take k (drop (a_val a) rest)" using IH by blast
      ultimately show ?thesis using took
        by (intro exI [of _ "Sys ?c a # es"] exI [of _ "a_val a + k"]) (simp add: writes_only_def take_add)
    next
      case err
      with step show ?thesis
        by (intro exI [of _ "[Sys ?c a]"] exI [of _ 0]) (simp add: writes_only_def Let_def)
    next
      case none
      with step show ?thesis
        by (intro exI [of _ "[Sys ?c a]"] exI [of _ 0]) (simp add: writes_only_def Let_def)
    qed
  qed (auto simp: writes_only_def)
qed

lemma world_of_then_run:
  "world_of (then_run m f) = (case m of Ret x w \<Rightarrow> world_of (f x w) | Exit s w \<Rightarrow> w | Abort w \<Rightarrow> w | Block w \<Rightarrow> w)"
  by (cases m) simp_all

lemma Writen_world:
  "\<exists>es k. trace (world_of (Writen fd buf w)) = trace w @ es \<and> accepted fd es = take k buf \<and>
     delivered fd es = [] \<and> (\<forall>x w'. Writen fd buf w = Ret x w' \<longrightarrow> accepted fd es = buf)"
proof -
  obtain es k where es: "trace (world_of (writen fd buf w)) = trace w @ es" "writes_only fd es"
    "accepted fd es = take k buf" using writen_loop_world unfolding writen_def by blast
  show ?thesis
  proof (cases "writen fd buf w")
    case (Ret r w1)
    with es(1) have tr: "trace w1 = trace w @ es" by simp
    show ?thesis
    proof (cases "r = int (length buf)")
      case True
      with writen_loop_spec [of fd "length buf" buf w r w1] Ret have "accepted fd es = buf" using tr by (auto simp: writen_def)
      with True Ret es tr show ?thesis
        by (intro exI [of _ es] exI [of _ k]) (simp add: Writen_def writes_only_delivered)
    next
      case False
      with Ret tr es(2,3) err_doit_trace [of True LOG_ERR "''writen error''" w1] show ?thesis
        by (auto simp: Writen_def err_sys_def writes_only_delivered)
    qed
  qed (use es in \<open>auto simp: Writen_def writes_only_delivered\<close>)
qed

lemma str_echo_Nil: "script w = [] \<Longrightarrow> str_echo fd w = Block w"
  by (simp add: str_echo.simps [of fd w] sys_defs)

lemma str_echo_Cons:
  assumes "script w = a # s"
  shows "str_echo fd w =
    (let w1 = called (C_read fd MAXLINE) a s w; buf = take MAXLINE (a_data a) in
     if a_err a \<noteq> 0 then
       (if a_err a = EINTR then str_echo fd w1 else err_sys ''str_echo: read error'' w1)
     else if a_data a = [] then Ret () w1
     else then_run (Writen fd buf w1) (\<lambda>_ w. str_echo fd w))"
  using assms by (subst str_echo.simps) (auto simp: sys_defs Let_def)

lemma str_echo_world:
  "\<exists>es. trace (world_of (str_echo fd w)) = trace w @ es \<and> prefix (accepted fd es) (delivered fd es) \<and>
     (\<forall>x w'. str_echo fd w = Ret x w' \<longrightarrow>
        accepted fd es = delivered fd es \<and> es \<noteq> [] \<and> eof_event fd (last es))"
proof (induction "length (script w)" arbitrary: w rule: less_induct)
  case less
  show ?case
  proof (cases "script w")
    case Nil
    then show ?thesis by (auto simp: str_echo_Nil)
  next
    case (Cons a s)
    let ?c = "C_read fd MAXLINE"
    let ?w = "called ?c a s w" and ?buf = "take MAXLINE (a_data a)"
    note step = str_echo_Cons [OF Cons, of fd]
    consider (again) "a_err a = EINTR" | (err) "a_err a \<noteq> 0" "a_err a \<noteq> EINTR"
      | (eof) "a_err a = 0" "a_data a = []" | (data) "a_err a = 0" "a_data a \<noteq> []"
      by (auto simp: EINTR_def)
    then show ?thesis
    proof cases
      case again
      then have eq: "str_echo fd w = str_echo fd ?w" using step by (simp add: EINTR_def Let_def)
      obtain es where "trace (world_of (str_echo fd ?w)) = trace ?w @ es" "prefix (accepted fd es) (delivered fd es)"
        "\<forall>x w'. str_echo fd ?w = Ret x w' \<longrightarrow> accepted fd es = delivered fd es \<and> es \<noteq> [] \<and> eof_event fd (last es)"
        using less [of ?w] Cons by auto
      with again eq show ?thesis
        by (intro exI [of _ "Sys ?c a # es"]) (auto simp: EINTR_def)
    next
      case err
      with step err_doit_trace [of True LOG_ERR "''str_echo: read error''" ?w] show ?thesis
        by (auto simp: Let_def err_sys_def)
    next
      case eof
      with step show ?thesis by (auto simp: Let_def)
    next
      case data
      obtain es1 k where es1: "trace (world_of (Writen fd ?buf ?w)) = trace ?w @ es1"
        "accepted fd es1 = take k ?buf" "delivered fd es1 = []"
        "\<forall>x w'. Writen fd ?buf ?w = Ret x w' \<longrightarrow> accepted fd es1 = ?buf"
        using Writen_world by blast
      have pre: "prefix (accepted fd es1) ?buf" unfolding es1(2) by (rule take_is_prefix)
      show ?thesis
      proof (cases "Writen fd ?buf ?w")
        case (Ret x w2)
        then have eq: "str_echo fd w = str_echo fd w2" using step data by (simp add: Let_def)
        have "length (script w2) < length (script w)" using Writen_consumes [OF Ret] Cons by simp
        from less [OF this] obtain es2 where es2: "trace (world_of (str_echo fd w2)) = trace w2 @ es2"
          "prefix (accepted fd es2) (delivered fd es2)"
          "\<forall>x w'. str_echo fd w2 = Ret x w' \<longrightarrow> accepted fd es2 = delivered fd es2 \<and> es2 \<noteq> [] \<and> eof_event fd (last es2)"
          by blast
        from es1(4) Ret have "accepted fd es1 = ?buf" by blast
        with es1(1,3) es2 Ret eq data show ?thesis
          by (intro exI [of _ "Sys ?c a # es1 @ es2"]) auto
      qed (use step data es1(1,3) pre in \<open>auto simp: Let_def intro!: exI [of _ "Sys ?c a # es1"]\<close>)
    qed
  qed
qed

section \<open>Properties\<close>

text \<open>
  At every moment of \<^verbatim>\<open>str_echo\<close>, also while it waits or when it ends the process, what was
  sent back is a prefix of what was received; when it returns, the client closed the connection
  and everything received was sent back.
\<close>

theorem str_echo_echoes:
  "\<exists>es. trace (world_of (str_echo fd w)) = trace w @ es \<and> prefix (accepted fd es) (delivered fd es) \<and>
     (returns (str_echo fd w) \<longrightarrow> accepted fd es = delivered fd es \<and> es \<noteq> [] \<and> eof_event fd (last es))"
proof -
  obtain es where es: "trace (world_of (str_echo fd w)) = trace w @ es"
    "prefix (accepted fd es) (delivered fd es)"
    "\<forall>x w'. str_echo fd w = Ret x w' \<longrightarrow> accepted fd es = delivered fd es \<and> es \<noteq> [] \<and> eof_event fd (last es)"
    using str_echo_world by blast
  then show ?thesis by (intro exI [of _ es]) (cases "str_echo fd w"; auto)
qed

theorem str_echo_echoes_witness:
  "returns (str_echo 4 (boot [got [1, 2, 3], gave 2, fails EINTR, gave 1, got [4], gave 1, got []])) \<and>
     (\<exists>w'. str_echo 4 (boot [got [1, 2, 3], gave 2, fails EINTR, gave 1, got [4], gave 1, got []]) = Ret () w' \<and>
        accepted 4 (trace w') = [1, 2, 3, 4])"
proof -
  let ?w = "boot [got [1, 2, 3], gave 2, fails EINTR, gave 1, got [4], gave 1, got []]"
  have ret: "returns (str_echo 4 ?w)"
    and del: "delivered 4 (trace (world_of (str_echo 4 ?w))) = [1, 2, 3, 4]"
    by (simp_all add: str_echo_Cons Writen_def writen_def writen_loop_Cons Let_def EINTR_def MAXLINE_def)
  from str_echo_echoes [of 4 ?w] ret del show ?thesis by (cases "str_echo 4 ?w") auto
qed

text \<open>The rounds of a datagram echo server: a datagram received and sent back to its sender.\<close>

fun dg_rounds :: "fd \<Rightarrow> event list \<Rightarrow> bool" where
  "dg_rounds fd (Sys (C_recvfrom f n fl) a # Sys (C_sendto f' b fl' sa) r # es) \<longleftrightarrow>
     f = fd \<and> f' = fd \<and> a_err a = 0 \<and> b = take n (a_data a) \<and> sa = a_addr a \<and> dg_rounds fd es"
| "dg_rounds fd es \<longleftrightarrow> length es \<le> 2 \<and>
     (\<forall>e \<in> set es. (\<exists>n fl a. e = Sys (C_recvfrom fd n fl) a) \<or> (\<exists>m. e = Stderr m) \<or> (\<exists>l m. e = Syslog l m))"

lemma dg_rounds_short:
  "dg_rounds fd []" "dg_rounds fd [Sys (C_recvfrom fd n fl) a]"
  "e = Stderr m \<or> e = Syslog l m \<Longrightarrow> dg_rounds fd [Sys (C_recvfrom fd n fl) a, e]"
  "e = Stderr m \<or> e = Syslog l m \<Longrightarrow> dg_rounds fd [e]"
  by auto

text \<open>
  \<^verbatim>\<open>dg_echo\<close> never returns, and its trace consists of rounds: each datagram is sent back, whole
  and unchanged, to the address it came from before the next one is received.
\<close>

theorem dg_echo_rounds:
  "\<not> returns (dg_echo fd w) \<and>
   (\<exists>es. trace (world_of (dg_echo fd w)) = trace w @ es \<and> dg_rounds fd es)"
proof (induction "length (script w)" arbitrary: w rule: less_induct)
  case less
  show ?case
  proof (cases "script w")
    case Nil
    then show ?thesis
      by (subst (1 2) dg_echo.simps) (auto simp: Recvfrom.wrap_block intro!: exI [of _ "[]"])
  next
    case (Cons a s)
    let ?c = "C_recvfrom fd MAXLINE 0"
    let ?w = "called ?c a s w" and ?m = "take MAXLINE (a_data a)"
    show ?thesis
    proof (cases "a_err a = 0")
      case False
      with Cons have eq: "dg_echo fd w = Exit 1 (err_doit True LOG_ERR ''recvfrom error'' ?w)"
        by (subst dg_echo.simps) (simp add: Recvfrom.wrap_answer)
      show ?thesis unfolding eq
        using err_doit_trace [of True LOG_ERR "''recvfrom error''" ?w] by (auto simp: dg_rounds_short)
    next
      case ok: True
      with Cons have eq: "dg_echo fd w = then_run (Sendto fd ?m 0 (a_addr a) ?w) (\<lambda>_ w. dg_echo fd w)"
        by (subst dg_echo.simps) (simp add: Recvfrom.wrap_answer)
      show ?thesis
      proof (cases s)
        case Nil
        then have "Sendto fd ?m 0 (a_addr a) ?w = Block ?w"
          by (simp add: Sendto_def void_def checked_def sys_accepts_def sys_def)
        with eq show ?thesis by (auto simp: dg_rounds_short)
      next
        case s: (Cons b t)
        let ?d = "C_sendto fd ?m 0 (a_addr a)"
        let ?v = "called ?d b t ?w"
        have send: "Sendto fd ?m 0 (a_addr a) ?w = (if a_err b = 0 \<and> length ?m \<le> a_val b then Ret () ?v
            else Exit 1 (err_doit True LOG_ERR ''sendto error'' ?v))"
          using s by (auto simp: Sendto_def void_def checked_def sys_accepts_def sys_def err_sys_def min_def)
        show ?thesis
        proof (cases "a_err b = 0 \<and> length ?m \<le> a_val b")
          case True
          with eq send have eq2: "dg_echo fd w = dg_echo fd ?v" by simp
          have "length (script ?v) < length (script w)" using Cons s by simp
          from less [OF this] ok show ?thesis unfolding eq2 by auto
        next
          case False
          with eq send have eq2: "dg_echo fd w = Exit 1 (err_doit True LOG_ERR ''sendto error'' ?v)"
            by auto
          show ?thesis unfolding eq2
            using ok err_doit_trace [of True LOG_ERR "''sendto error''" ?v] by auto
        qed
      qed
    qed
  qed
qed

end
