(* ===== verification/C_Float.thy ===== *)
theory C_Float
  imports Unp_Prelude "HOL-Library.Log_Nat" Complex_Main
begin

text \<open>
  The \<^verbatim>\<open>float\<close> and \<^verbatim>\<open>double\<close> of the platform: a value is a rational number, and every operation
  rounds its exact result to the nearest number with 24 or 53 significant bits (ties to even) and
  no bit below the smallest denormal. The computations modelled stay far from overflow, so
  infinities and NaN do not occur.
\<close>

section \<open>Rounding\<close>

definition round_even :: "rat \<Rightarrow> int" where
  "round_even r =
     (let n = \<lfloor>r\<rfloor>; f = r - of_int n in
      if f < 1 / 2 then n else if 1 / 2 < f then n + 1 else if even n then n else n + 1)"

lemma round_even_ge: "of_int n \<le> r \<Longrightarrow> n \<le> round_even r"
  using le_floor_iff [of n r] by (simp add: round_even_def Let_def)

lemma round_even_le: "r \<le> of_int n \<Longrightarrow> round_even r \<le> n"
proof -
  assume r: "r \<le> of_int n"
  then have "\<lfloor>r\<rfloor> \<le> n" by (metis floor_mono floor_of_int)
  moreover have "\<lfloor>r\<rfloor> = n \<Longrightarrow> r = of_int n" using r of_int_floor_le [of r] by linarith
  ultimately show ?thesis by (cases "\<lfloor>r\<rfloor> = n") (simp_all add: round_even_def Let_def)
qed

lemma round_even_of_int [simp]: "round_even (of_int n) = n"
  by (simp add: round_even_def)

lemma round_even_mono: "r \<le> s \<Longrightarrow> round_even r \<le> round_even s"
proof (cases "\<lfloor>r\<rfloor> = \<lfloor>s\<rfloor>")
  case True
  moreover assume "r \<le> s"
  ultimately show ?thesis by (simp add: round_even_def Let_def)
next
  case False
  moreover assume "r \<le> s"
  ultimately have "\<lfloor>r\<rfloor> + 1 \<le> \<lfloor>s\<rfloor>" using floor_mono [of r s] by linarith
  then have "r \<le> of_int \<lfloor>s\<rfloor>" by linarith
  then show ?thesis by (meson order_trans round_even_ge round_even_le of_int_floor_le)
qed

text \<open>\<open>2 ^ e\<close> for an integer \<open>e\<close>, and the exponent of a positive number.\<close>

definition two_to :: "int \<Rightarrow> rat" where
  "two_to e = (if 0 \<le> e then 2 ^ nat e else 1 / 2 ^ nat (- e))"

definition expo :: "rat \<Rightarrow> int" where
  "expo x = (if 1 \<le> x then int (floorlog 2 (nat \<lfloor>x\<rfloor>)) - 1
     else - int (floorlog 2 (nat (\<lceil>1 / x\<rceil> - 1))))"

lemma two_to_powi: "two_to e = 2 powi e"
  by (cases "0 \<le> e") (simp_all add: two_to_def power_int_def power_one_over inverse_eq_divide)

lemma two_to_pos [simp]: "0 < two_to e"
  by (simp add: two_to_def)

lemma two_to_nonneg [simp]: "0 \<le> two_to e" "two_to e \<noteq> 0"
  using two_to_pos [of e] by (simp_all only: less_imp_le less_imp_neq [symmetric] not_False_eq_True)

lemma two_to_not_neg [simp]: "\<not> two_to e < 0"
  by (simp add: not_less)

lemma two_to_mono: "d \<le> e \<Longrightarrow> two_to d \<le> two_to e"
  by (simp add: two_to_powi power_int_increasing)

lemma two_to_less_imp: "two_to d < two_to e \<Longrightarrow> d < e"
  using two_to_mono [of e d] by (metis leI not_less)

lemma two_to_add: "two_to (d + e) = two_to d * two_to e"
  by (simp add: two_to_powi power_int_add)

lemma two_to_le_imp: "two_to d \<le> two_to e \<Longrightarrow> d \<le> e"
proof (rule ccontr)
  assume le: "two_to d \<le> two_to e" and "\<not> d \<le> e"
  then have "two_to (e + 1) \<le> two_to e" using two_to_mono [of "e + 1" d] by simp
  moreover have "two_to 1 = 2" by (simp add: two_to_def)
  ultimately show False using two_to_pos [of e] by (simp add: two_to_add)
qed

lemma floorlog2: "0 < n \<Longrightarrow> 2 ^ (floorlog 2 n - 1) \<le> n \<and> n < 2 ^ floorlog 2 n"
  using floorlog_bounds [of n 2] by simp

lemma expo_bounds:
  assumes "0 < x"
  shows "two_to (expo x) \<le> x \<and> x < two_to (expo x + 1)"
proof (cases "1 \<le> x")
  case True
  define n where "n = nat \<lfloor>x\<rfloor>"
  have n: "0 < n" "rat_of_nat n \<le> x" "x < rat_of_nat (n + 1)"
    using True by (simp_all add: n_def, linarith+)
  from floorlog2 [OF n(1)] obtain k where k: "floorlog 2 n = Suc k" and b: "2 ^ k \<le> n" "n + 1 \<le> 2 ^ Suc k"
    using n(1) by (cases "floorlog 2 n") auto
  from b(1) have "rat_of_nat (2 ^ k) \<le> x" using n(2) by (metis of_nat_le_iff order_trans)
  moreover from b(2) have "x < rat_of_nat (2 ^ Suc k)" using n(3) by (metis of_nat_le_iff less_le_trans)
  ultimately show ?thesis using True k by (simp add: expo_def two_to_def nat_add_distrib flip: n_def)
next
  case False
  define n where "n = nat (\<lceil>1 / x\<rceil> - 1)"
  have y: "1 < 1 / x" using assms False by simp
  then have n: "0 < n" "rat_of_nat n < 1 / x" "1 / x \<le> rat_of_nat (n + 1)"
    by (simp_all add: n_def, linarith+)
  from floorlog2 [OF n(1)] obtain k where k: "floorlog 2 n = Suc k" and b: "2 ^ k \<le> n" "n + 1 \<le> 2 ^ Suc k"
    using n(1) by (cases "floorlog 2 n") auto
  from b(1) have "rat_of_nat (2 ^ k) < 1 / x" using n(2) by (metis of_nat_le_iff le_less_trans)
  moreover from b(2) have "1 / x \<le> rat_of_nat (2 ^ Suc k)" using n(3) by (metis of_nat_le_iff order_trans)
  ultimately have "x < 1 / 2 ^ k" "1 / 2 ^ Suc k \<le> x" using assms by (simp_all add: field_simps)
  moreover have "expo x = - int (Suc k)" using False k by (simp add: expo_def flip: n_def)
  ultimately show ?thesis by (cases k) (simp_all add: two_to_def nat_add_distrib)
qed

text \<open>
  A number with \<open>p\<close> significant bits whose last bit is worth at least \<open>2 ^ emin\<close>: \<open>ulp\<close> is what the
  last bit of \<open>x\<close> is worth.
\<close>

definition ulp :: "nat \<Rightarrow> int \<Rightarrow> rat \<Rightarrow> rat" where
  "ulp p emin x = two_to (max emin (expo \<bar>x\<bar> - int p + 1))"

definition fround :: "nat \<Rightarrow> int \<Rightarrow> rat \<Rightarrow> rat" where
  "fround p emin x =
     (if x = 0 then 0 else of_int (round_even (x / ulp p emin x)) * ulp p emin x)"

definition to_float :: "rat \<Rightarrow> rat" where "to_float x = fround 24 (- 149) x"

definition to_double :: "rat \<Rightarrow> rat" where "to_double x = fround 53 (- 1074) x"

lemma ulp_pos [simp]: "0 < ulp p emin x" "ulp p emin x \<noteq> 0" "0 \<le> ulp p emin x"
  by (simp_all add: ulp_def)

lemma expo_mono:
  assumes "0 < x" "x \<le> y" shows "expo x \<le> expo y"
proof -
  have "two_to (expo x) < two_to (expo y + 1)"
    using expo_bounds [of x] expo_bounds [of y] assms by linarith
  then show ?thesis by (auto dest: two_to_less_imp)
qed

text \<open>Rounding stays on the same side of every multiple of the unit.\<close>

lemma fround_ge:
  assumes "x \<noteq> 0" "of_int n * ulp p emin x \<le> x" shows "of_int n * ulp p emin x \<le> fround p emin x"
proof -
  have "of_int n \<le> x / ulp p emin x" using assms(2) by (simp add: pos_le_divide_eq)
  then have "n \<le> round_even (x / ulp p emin x)" by (rule round_even_ge)
  then show ?thesis using assms(1) by (simp add: fround_def mult_right_mono)
qed

lemma fround_le:
  assumes "x \<noteq> 0" "x \<le> of_int n * ulp p emin x" shows "fround p emin x \<le> of_int n * ulp p emin x"
proof -
  have "x / ulp p emin x \<le> of_int n" using assms(2) by (simp add: pos_divide_le_eq)
  then have "round_even (x / ulp p emin x) \<le> n" by (rule round_even_le)
  then show ?thesis using assms(1) by (simp add: fround_def mult_right_mono)
qed

lemma fround_0 [simp]: "fround p emin 0 = 0"
  by (simp add: fround_def)

lemma fround_sign: "0 \<le> x \<Longrightarrow> 0 \<le> fround p emin x" "x \<le> 0 \<Longrightarrow> fround p emin x \<le> 0"
  using fround_ge [of x 0 p emin] fround_le [of x 0 p emin] by (cases "x = 0"; simp)+

lemma two_to_multiple:
  assumes "d \<le> e" shows "\<exists>n. two_to e = of_int n * two_to d"
proof -
  have "two_to e = two_to (e - d) * two_to d" by (simp flip: two_to_add)
  moreover have "two_to (e - d) = of_int (2 ^ nat (e - d))" using assms by (simp add: two_to_def)
  ultimately show ?thesis by metis
qed

lemma fround_mono_pos:
  assumes x: "0 < x" and xy: "x \<le> y" and p: "0 < p"
  shows "fround p emin x \<le> fround p emin y"
proof (cases "ulp p emin x = ulp p emin y")
  case True
  then have "round_even (x / ulp p emin x) \<le> round_even (y / ulp p emin y)"
    using xy by (intro round_even_mono) (simp add: divide_right_mono)
  with True x xy show ?thesis by (simp add: fround_def mult_right_mono)
next
  case False
  let ?e = "expo y"
  have y: "0 < y" using x xy by simp
  from False have ne: "max emin (expo x - int p + 1) \<noteq> max emin (?e - int p + 1)"
    using x y by (auto simp: ulp_def)
  with expo_mono [OF x xy] have lt: "expo x < ?e" and big: "emin < ?e - int p + 1" by linarith+
  have top: "x \<le> two_to ?e" using expo_bounds [OF x] two_to_mono [of "expo x + 1" ?e] lt by simp
  have low: "two_to ?e \<le> y" using expo_bounds [OF y] by simp
  obtain m where m: "two_to ?e = of_int m * ulp p emin x"
    using two_to_multiple [of "max emin (expo x - int p + 1)" ?e] lt big p x by (auto simp: ulp_def)
  obtain n where n: "two_to ?e = of_int n * ulp p emin y"
    using two_to_multiple [of "max emin (?e - int p + 1)" ?e] big p y by (auto simp: ulp_def)
  have "fround p emin x \<le> two_to ?e" using fround_le [of x m p emin] top m x by simp
  also have "\<dots> \<le> fround p emin y" using fround_ge [of y n p emin] low n y by simp
  finally show ?thesis .
qed

lemma round_even_minus: "round_even (- r) = - round_even r"
proof (cases "r = of_int \<lfloor>r\<rfloor>")
  case True
  then have "round_even r = \<lfloor>r\<rfloor>" "round_even (- r) = - \<lfloor>r\<rfloor>"
    by (metis round_even_of_int, metis of_int_minus round_even_of_int)
  then show ?thesis by simp
next
  case False
  then have "of_int \<lfloor>r\<rfloor> < r" using of_int_floor_le [of r] by linarith
  then have "\<lfloor>- r\<rfloor> = - \<lfloor>r\<rfloor> - 1" by (intro floor_unique) (simp_all, linarith)
  then show ?thesis by (auto simp: round_even_def Let_def)
qed

lemma fround_minus: "fround p emin (- x) = - fround p emin x"
  by (simp add: fround_def ulp_def round_even_minus)

lemma fround_mono:
  assumes "x \<le> y" and p: "0 < p" shows "fround p emin x \<le> fround p emin y"
proof -
  consider "0 < x" | "x \<le> 0" "0 \<le> y" | "y < 0" by linarith
  then show ?thesis
  proof cases
    case 1
    then show ?thesis using assms by (rule fround_mono_pos)
  next
    case 2
    then show ?thesis using fround_sign by (meson order_trans)
  next
    case 3
    then have "fround p emin (- y) \<le> fround p emin (- x)" using assms by (intro fround_mono_pos) simp_all
    then show ?thesis by (simp add: fround_minus)
  qed
qed

lemma fround_exact: "x = of_int n * ulp p emin x \<Longrightarrow> fround p emin x = x"
  by (cases "x = 0") (metis fround_0, metis fround_def nonzero_mult_div_cancel_right round_even_of_int ulp_pos(2))

lemma fround_multiple: "fround p emin x = x \<Longrightarrow> \<exists>n. x = of_int n * ulp p emin x"
  by (cases "x = 0") (force, metis fround_def)

lemma fround_idem_pos:
  assumes x: "0 < x" and p: "0 < p"
  shows "fround p emin (fround p emin x) = fround p emin x"
proof (cases "fround p emin x = 0")
  case False
  define y k where "y = fround p emin x" and "k = round_even (x / ulp p emin x)"
  have y: "y = of_int k * ulp p emin x" using x by (simp add: y_def k_def fround_def)
  have pos: "0 < y" using False fround_sign(1) [of x p emin] x by (simp add: y_def)
  show ?thesis
  proof (cases "expo y \<le> expo x")
    case True
    then have "max emin (expo y - int p + 1) \<le> max emin (expo x - int p + 1)" by simp
    then obtain m where "ulp p emin x = of_int m * ulp p emin y"
      using two_to_multiple x pos unfolding ulp_def by (metis abs_of_pos)
    then have "y = of_int (k * m) * ulp p emin y" using y by simp
    then show ?thesis by (fold y_def) (rule fround_exact)
  next
    case up: False
    then have E: "two_to (expo x + 1) \<le> y"
      using expo_bounds [OF pos] two_to_mono [of "expo x + 1" "expo y"] by simp
    show ?thesis
    proof (cases "emin \<le> expo x + 1")
      case True
      then obtain n where n: "two_to (expo x + 1) = of_int n * ulp p emin x"
        using two_to_multiple [of "max emin (expo x - int p + 1)" "expo x + 1"] x p by (auto simp: ulp_def)
      with fround_le [of x n p emin] expo_bounds [OF x] x have "y \<le> two_to (expo x + 1)" by (simp add: y_def)
      with E have eq: "y = two_to (expo x + 1)" by simp
      then have "two_to (expo y) \<le> two_to (expo x + 1)" using expo_bounds [OF pos] by simp
      then have "expo y = expo x + 1" using two_to_le_imp up by force
      with eq obtain m where "y = of_int m * ulp p emin y"
        using two_to_multiple [of "max emin (expo y - int p + 1)" "expo y"] True p pos by (auto simp: ulp_def)
      then show ?thesis by (fold y_def) (rule fround_exact)
    next
      case False
      then have "x < two_to emin" "ulp p emin x = two_to emin"
        using expo_bounds [OF x] two_to_mono [of "expo x + 1" emin] x p by (auto simp: ulp_def)
      then have "y \<le> two_to emin" using fround_le [of x 1 p emin] x by (simp add: y_def)
      moreover from y pos have "two_to emin \<le> y"
        using \<open>ulp p emin x = two_to emin\<close> two_to_pos [of emin]
        by (auto simp: zero_less_mult_iff mult_le_cancel_right1)
      ultimately have y2: "y = two_to emin" by simp
      show ?thesis
      proof (cases "expo y - int p + 1 \<le> emin")
        case True
        then have "y = of_int 1 * ulp p emin y" using y2 pos by (simp add: ulp_def max_def)
        then show ?thesis by (fold y_def) (rule fround_exact)
      next
        case False
        then have "emin + 1 \<le> expo y" using p by linarith
        then have "two_to (emin + 1) \<le> y" using two_to_mono expo_bounds [OF pos] by (meson order_trans)
        with y2 have "emin + 1 \<le> emin" using two_to_le_imp [of "emin + 1" emin] by simp
        then show ?thesis by simp
      qed
    qed
  qed
qed simp

lemma fround_idem: "0 < p \<Longrightarrow> fround p emin (fround p emin x) = fround p emin x"
  using fround_idem_pos [of x p emin] fround_idem_pos [of "- x" p emin]
  by (cases x "0 :: rat" rule: linorder_cases) (auto simp: fround_minus)

text \<open>\<^verbatim>\<open>%.3f\<close>: the nearest number of thousandths, printed with three digits after the point.\<close>

definition fmt3 :: "rat \<Rightarrow> string" where
  "fmt3 x = (let n = round_even (\<bar>x\<bar> * 1000); f = dec (nat (n mod 1000)) in
     (if x < 0 then ''-'' else []) @ dec (nat (n div 1000)) @ ''.'' @
       replicate (3 - length f) (CHR ''0'') @ f)"

section \<open>What the computations rely on\<close>

lemma to_float_mono: "x \<le> y \<Longrightarrow> to_float x \<le> to_float y"
  and to_double_mono: "x \<le> y \<Longrightarrow> to_double x \<le> to_double y"
  by (simp_all add: to_float_def to_double_def fround_mono)

lemma to_float_idem [simp]: "to_float (to_float x) = to_float x"
  and to_double_idem [simp]: "to_double (to_double x) = to_double x"
  by (simp_all add: to_float_def to_double_def fround_idem)

lemma to_float_sign: "0 \<le> x \<Longrightarrow> 0 \<le> to_float x" "x \<le> 0 \<Longrightarrow> to_float x \<le> 0"
  by (simp_all add: to_float_def fround_sign)

lemma to_double_sign: "0 \<le> x \<Longrightarrow> 0 \<le> to_double x" "x \<le> 0 \<Longrightarrow> to_double x \<le> 0"
  by (simp_all add: to_double_def fround_sign)

lemma to_double_minus: "to_double (- x) = - to_double x"
  by (simp add: to_double_def fround_minus)

text \<open>Every \<^verbatim>\<open>float\<close> is a \<^verbatim>\<open>double\<close>.\<close>

lemma float_is_double:
  assumes "to_float x = x" shows "to_double x = x"
proof (cases "x = 0")
  case False
  obtain n where n: "x = of_int n * ulp 24 (- 149) x"
    using assms fround_multiple unfolding to_float_def by blast
  have "max (- 1074) (expo \<bar>x\<bar> - int 53 + 1) \<le> max (- 149) (expo \<bar>x\<bar> - int 24 + 1)" by linarith
  then obtain m where "ulp 24 (- 149) x = of_int m * ulp 53 (- 1074) x"
    using two_to_multiple unfolding ulp_def by blast
  with n have "x = of_int (n * m) * ulp 53 (- 1074) x" by simp
  then show ?thesis unfolding to_double_def by (rule fround_exact)
qed (simp add: to_double_def)

lemma expo_unique: "two_to e \<le> x \<Longrightarrow> x < two_to (e + 1) \<Longrightarrow> expo x = e"
proof -
  assume x: "two_to e \<le> x" "x < two_to (e + 1)"
  then have "0 < x" using two_to_pos [of e] by linarith
  from expo_bounds [OF this] x have "two_to e < two_to (expo x + 1)" "two_to (expo x) < two_to (e + 1)"
    by linarith+
  then show ?thesis by (auto dest!: two_to_less_imp)
qed

text \<open>Doubling is exact.\<close>

lemma fround_double:
  assumes "fround p emin x = x" and x: "0 < x"
  shows "fround p emin (x * 2) = x * 2"
proof -
  obtain n where n: "x = of_int n * ulp p emin x" using fround_multiple [OF assms(1)] by blast
  have two: "two_to (e + 1) = two_to e * 2" for e by (simp add: two_to_add) (simp add: two_to_def)
  have e: "expo (x * 2) = expo x + 1"
    using expo_bounds [OF x] two [of "expo x"] two [of "expo x + 1"] by (intro expo_unique) simp_all
  have "\<exists>m. ulp p emin x * 2 = of_int m * ulp p emin (x * 2)"
  proof (cases "emin \<le> expo x - int p + 1")
    case True
    then have "max emin (expo x - int p + 1) = expo x - int p + 1"
      "max emin (expo x + 1 - int p + 1) = (expo x - int p + 1) + 1" by linarith+
    then have "ulp p emin x * 2 = of_int 1 * ulp p emin (x * 2)"
      using two [of "expo x - int p + 1"] x by (simp add: ulp_def e)
    then show ?thesis by blast
  next
    case False
    then have "max emin (expo x - int p + 1) = emin" "max emin (expo x + 1 - int p + 1) = emin" by linarith+
    then have "ulp p emin x * 2 = of_int 2 * ulp p emin (x * 2)" using x by (simp add: ulp_def e)
    then show ?thesis by blast
  qed
  then obtain m where "ulp p emin x * 2 = of_int m * ulp p emin (x * 2)" by blast
  with n have "x * 2 = of_int (n * m) * ulp p emin (x * 2)" by (metis mult.assoc of_int_mult)
  then show ?thesis by (rule fround_exact)
qed

lemma to_float_double: "to_float x = x \<Longrightarrow> 0 < x \<Longrightarrow> to_float (x * 2) = x * 2"
  by (simp add: to_float_def fround_double)

text \<open>Adding a rounded correction that is no less than \<open>- x\<close> to a \<^verbatim>\<open>float\<close> \<open>x\<close> keeps it nonnegative.\<close>

lemma correction_nonneg:
  assumes "to_float x = x" and "- x \<le> c" shows "0 \<le> x + to_double c"
proof -
  have "to_double (- x) \<le> to_double c" using assms(2) by (rule to_double_mono)
  then show ?thesis using float_is_double [OF assms(1)] by (simp add: to_double_minus)
qed

end
