(* ===== verification/Rtt.thy ===== *)
theory Rtt
  imports Echo C_Float
begin

text \<open>
  Reliable datagrams: the estimator of the retransmission timeout of \<^verbatim>\<open>lib/rtt.c\<close> and
  \<^verbatim>\<open>lib/unprtt.h\<close>, with its arithmetic in \<^verbatim>\<open>float\<close> and \<^verbatim>\<open>double\<close>, and the client side of
  \<^verbatim>\<open>rtt/dg_send_recv.c\<close> and \<^verbatim>\<open>rtt/dg_cli.c\<close>, which adds a sequence number and a timestamp to every
  request, retransmits it when the timer expires and gives up after three retransmissions.

  The expiry of the timer is the answer \<^verbatim>\<open>EINTR\<close> of the \<^verbatim>\<open>recvmsg\<close> it interrupts: its handler jumps
  out of the call.
\<close>

section \<open>lib/rtt.c\<close>

definition RTT_RXTMIN :: rat where [unp_consts]: "RTT_RXTMIN = 2"
definition RTT_RXTMAX :: rat where [unp_consts]: "RTT_RXTMAX = 60"
definition RTT_MAXNREXMT :: int where [unp_consts]: "RTT_MAXNREXMT = 3"

record rtt_info =
  rtt_rtt :: rat
  rtt_srtt :: rat
  rtt_rttvar :: rat
  rtt_rto :: rat
  rtt_nrexmt :: int
  rtt_base :: u32

text \<open>The operands are \<^verbatim>\<open>float\<close>, the constant 4.0 makes the sum a \<^verbatim>\<open>double\<close>.\<close>

definition RTT_RTOCALC :: "rtt_info \<Rightarrow> rat" where
  "RTT_RTOCALC p = to_double (rtt_srtt p + to_double (4 * rtt_rttvar p))"

definition rtt_minmax :: "rat \<Rightarrow> rat" where
  "rtt_minmax rto =
     (if rto < RTT_RXTMIN then RTT_RXTMIN else if RTT_RXTMAX < rto then RTT_RXTMAX else rto)"

definition rtt_init :: "rtt_info \<Rightarrow> world \<Rightarrow> rtt_info run" where
  "rtt_init p w = then_run (Gettimeofday w) (\<lambda>tv w.
     let p = p\<lparr>rtt_base := word_of_int (fst tv), rtt_rtt := 0, rtt_srtt := 0,
               rtt_rttvar := to_float (3 / 4)\<rparr>
     in Ret (p\<lparr>rtt_rto := rtt_minmax (to_float (RTT_RTOCALC p))\<rparr>) w)"

definition rtt_ts :: "rtt_info \<Rightarrow> world \<Rightarrow> u32 run" where
  "rtt_ts p w = then_run (Gettimeofday w) (\<lambda>tv w.
     Ret (word_of_int ((fst tv - uint (rtt_base p)) * 1000 + snd tv div 1000)) w)"

definition rtt_newpack :: "rtt_info \<Rightarrow> rtt_info" where
  "rtt_newpack p = p\<lparr>rtt_nrexmt := 0\<rparr>"

text \<open>The conversion to \<^verbatim>\<open>int\<close> cuts the fraction off.\<close>

definition rtt_start :: "rtt_info \<Rightarrow> int" where
  "rtt_start p = (let x = to_double (rtt_rto p + 1 / 2) in if 0 \<le> x then \<lfloor>x\<rfloor> else \<lceil>x\<rceil>)"

definition rtt_stop :: "u32 \<Rightarrow> rtt_info \<Rightarrow> rtt_info" where
  "rtt_stop ms p =
     (let p = p\<lparr>rtt_rtt := to_float (to_double (of_nat (unat ms) / 1000))\<rparr>;
          delta = to_float (rtt_rtt p - rtt_srtt p);
          p = p\<lparr>rtt_srtt := to_float (to_double (rtt_srtt p + to_double (delta / 8)))\<rparr>;
          delta = (if delta < 0 then - delta else delta);
          p = p\<lparr>rtt_rttvar := to_float (to_double
                 (rtt_rttvar p + to_double (to_double (delta - rtt_rttvar p) / 4)))\<rparr>
      in p\<lparr>rtt_rto := rtt_minmax (to_float (RTT_RTOCALC p))\<rparr>)"

definition rtt_timeout :: "rtt_info \<Rightarrow> int \<times> rtt_info" where
  "rtt_timeout p =
     (let p = p\<lparr>rtt_rto := to_float (rtt_rto p * 2)\<rparr>;
          p = p\<lparr>rtt_nrexmt := rtt_nrexmt p + 1\<rparr>
      in (if RTT_MAXNREXMT < rtt_nrexmt p then - 1 else 0, p))"

definition rtt_debug :: "bool \<Rightarrow> rtt_info \<Rightarrow> world \<Rightarrow> world" where
  "rtt_debug rtt_d_flag p w =
     (if rtt_d_flag then emit (Stderr (''rtt = '' @ fmt3 (rtt_rtt p) @ '', srtt = '' @ fmt3 (rtt_srtt p) @
          '', rttvar = '' @ fmt3 (rtt_rttvar p) @ '', rto = '' @ fmt3 (rtt_rto p) @ [CHR 0x0A])) w
      else w)"

section \<open>rtt/dg_send_recv.c\<close>

text \<open>The header as it lies in memory: two 32 bit numbers in host order.\<close>

definition bytes_of_u32 :: "u32 \<Rightarrow> bytes" where
  "bytes_of_u32 x = le_bytes 4 (unat x)"

definition u32_of_bytes :: "bytes \<Rightarrow> u32" where
  "u32_of_bytes bs = word_of_nat (le_nat bs)"

definition HDR_SIZE :: nat where [unp_consts]: "HDR_SIZE = 8"

text \<open>The static variables; \<^verbatim>\<open>recvhdr\<close> keeps its bytes where a shorter datagram does not replace them.\<close>

record dg_state =
  rttinfo :: rtt_info
  rttinit :: bool
  rtt_d_flag :: bool
  send_seq :: u32
  send_ts :: u32
  recvhdr :: bytes

definition dg_state0 :: dg_state where
  "dg_state0 = \<lparr>rttinfo = \<lparr>rtt_rtt = 0, rtt_srtt = 0, rtt_rttvar = 0, rtt_rto = 0, rtt_nrexmt = 0,
     rtt_base = 0\<rparr>, rttinit = False, rtt_d_flag = False, send_seq = 0, send_ts = 0,
     recvhdr = replicate HDR_SIZE 0\<rparr>"

definition recv_seq :: "dg_state \<Rightarrow> u32" where "recv_seq st = u32_of_bytes (take 4 (recvhdr st))"

definition recv_ts :: "dg_state \<Rightarrow> u32" where "recv_ts st = u32_of_bytes (take 4 (drop 4 (recvhdr st)))"

text \<open>\<^verbatim>\<open>%4d\<close> of a sequence number.\<close>

definition fmt4d :: "u32 \<Rightarrow> string" where
  "fmt4d x = (let s = decz (sint x) in replicate (4 - length s) (CHR '' '') @ s)"

text \<open>
  The loop that waits for the reply. \<^verbatim>\<open>None\<close> is the jump of \<^verbatim>\<open>sig_alrm\<close>; otherwise the number of bytes
  received and the ones behind the header.
\<close>

function await_reply ::
  "fd \<Rightarrow> nat \<Rightarrow> dg_state \<Rightarrow> world \<Rightarrow> ((nat \<times> bytes) option \<times> dg_state) run" where
  "await_reply fd inbytes st w =
     then_run (sys_recvmsg fd (HDR_SIZE + inbytes) w) (\<lambda>r w. case r of (n, data, _, _) \<Rightarrow>
       if n < 0 then (if errno w = EINTR then Ret (None, st) w else err_sys ''recvmsg error'' w)
       else
         let st = st\<lparr>recvhdr := fill (take HDR_SIZE data) (recvhdr st)\<rparr>;
             w = emit (Stderr (''recv '' @ fmt4d (recv_seq st) @ [CHR 0x0A])) w
         in if nat n < HDR_SIZE \<or> recv_seq st \<noteq> send_seq st then await_reply fd inbytes st w
            else Ret (Some (nat n, drop HDR_SIZE data), st) w)"
  by pat_completeness auto
termination
  by (relation "measure (\<lambda>(fd, n, st, w). length (script w))") (auto dest!: sys_recvmsg_consumes)

declare await_reply.simps [simp del]

lemma await_reply_consumes:
  "await_reply fd inbytes st w = Ret r w' \<Longrightarrow> length (script w') < length (script w)"
proof (induction "length (script w)" arbitrary: st w rule: less_induct)
  case less
  from less.prems obtain n data sa cs w1 where
    r: "sys_recvmsg fd (HDR_SIZE + inbytes) w = Ret (n, data, sa, cs) w1"
    by (subst (asm) await_reply.simps) (auto simp: then_run_Ret_iff)
  let ?st = "st\<lparr>recvhdr := fill (take HDR_SIZE data) (recvhdr st)\<rparr>"
  let ?w = "emit (Stderr (''recv '' @ fmt4d (recv_seq ?st) @ [CHR 0x0A])) w1"
  have c: "length (script w1) < length (script w)" using r by (rule sys_recvmsg_consumes)
  with less.hyps [of ?w ?st] less.prems r show ?case
    by (subst (asm) (2) await_reply.simps) (auto simp: Let_def err_sys_def split: if_splits)
qed

text \<open>
  From the label \<^verbatim>\<open>sendagain\<close> on. The bytes of the request are those of the header followed by
  \<^verbatim>\<open>outbuff\<close>.
\<close>

definition send_request :: "fd \<Rightarrow> bytes \<Rightarrow> sockaddr \<Rightarrow> dg_state \<Rightarrow> world \<Rightarrow> dg_state run" where
  "send_request fd outbuff destaddr st w =
     then_run (rtt_ts (rttinfo st) (emit (Stderr (''send '' @ fmt4d (send_seq st) @ '': '')) w)) (\<lambda>ts w.
     let st = st\<lparr>send_ts := ts\<rparr> in
     then_run (Sendmsg fd [bytes_of_u32 (send_seq st) @ bytes_of_u32 (send_ts st), outbuff] destaddr [] w)
       (\<lambda>_ w.
     then_run (call_quietly (C_alarm (rtt_start (rttinfo st))) w) (\<lambda>_ w.
       Ret st (rtt_debug (rtt_d_flag st) (rttinfo st) w))))"

lemma Gettimeofday_consumes: "Gettimeofday w = Ret x w' \<Longrightarrow> length (script w') < length (script w)"
  by (auto simp: Gettimeofday_def sys_time_def then_run_Ret_iff checked_Ret_iff)

lemma send_request_consumes:
  "send_request fd outbuff destaddr st w = Ret st' w' \<Longrightarrow> length (script w') < length (script w)"
  by (auto simp: send_request_def then_run_Ret_iff rtt_ts_def Let_def Sendmsg_def void_Ret_iff checked_Ret_iff
      rtt_debug_def dest!: call_quietly_consumes Gettimeofday_consumes sys_accepts_consumes)

function send_again ::
  "fd \<Rightarrow> bytes \<Rightarrow> nat \<Rightarrow> sockaddr \<Rightarrow> dg_state \<Rightarrow> world \<Rightarrow> (int \<times> bytes \<times> dg_state) run" where
  "send_again fd outbuff inbytes destaddr st w =
     then_run (send_request fd outbuff destaddr st w) (\<lambda>st w.
     then_run (await_reply fd inbytes st w) (\<lambda>r w. case r of
         (None, st) \<Rightarrow>
           (case rtt_timeout (rttinfo st) of (rc, info) \<Rightarrow>
             let st = st\<lparr>rttinfo := info\<rparr> in
             if rc < 0 then
               then_run (err_msg ''dg_send_recv: no response from server, giving up'' w) (\<lambda>_ w.
                 Ret (- 1, [], st\<lparr>rttinit := False\<rparr>) (set_errno ETIMEDOUT w))
             else
               then_run (err_msg ''dg_send_recv: timeout, retransmitting'' w) (\<lambda>_ w.
                 send_again fd outbuff inbytes destaddr st w))
       | (Some (n, data), st) \<Rightarrow>
           then_run (call_quietly (C_alarm 0) w) (\<lambda>_ w.
           then_run (rtt_ts (rttinfo st) w) (\<lambda>ts w.
             Ret (int (n - HDR_SIZE), data, st\<lparr>rttinfo := rtt_stop (ts - recv_ts st) (rttinfo st)\<rparr>) w))))"
  by pat_completeness auto
termination
  by (relation "measure (\<lambda>(fd, out, n, sa, st, w). length (script w))")
     (auto simp: err_msg_def dest!: send_request_consumes await_reply_consumes)

declare send_again.simps [simp del]

definition dg_send_recv ::
  "int \<Rightarrow> fd \<Rightarrow> bytes \<Rightarrow> nat \<Rightarrow> sockaddr \<Rightarrow> dg_state \<Rightarrow> world \<Rightarrow> (int \<times> bytes \<times> dg_state) run" where
  "dg_send_recv sig_alrm fd outbuff inbytes destaddr st w =
     then_run (if rttinit st then Ret st w
               else then_run (rtt_init (rttinfo st) w) (\<lambda>info w.
                 Ret (st\<lparr>rttinfo := info, rttinit := True, rtt_d_flag := True\<rparr>) w)) (\<lambda>st w.
     let st = st\<lparr>send_seq := send_seq st + 1\<rparr> in
     then_run (Signal SIGALRM sig_alrm w) (\<lambda>_ w.
       send_again fd outbuff inbytes destaddr (st\<lparr>rttinfo := rtt_newpack (rttinfo st)\<rparr>) w))"

definition Dg_send_recv ::
  "int \<Rightarrow> fd \<Rightarrow> bytes \<Rightarrow> nat \<Rightarrow> sockaddr \<Rightarrow> dg_state \<Rightarrow> world \<Rightarrow> (int \<times> bytes \<times> dg_state) run" where
  "Dg_send_recv sig_alrm fd outbuff inbytes destaddr st w =
     checked_quit (\<lambda>r. fst r < 0) ''dg_send_recv error''
       (dg_send_recv sig_alrm fd outbuff inbytes destaddr st w)"

text \<open>The two ways a round goes on once the request is out.\<close>

lemma send_again_timeout:
  assumes "send_request fd outbuff destaddr st w = Ret st1 w1"
    and "await_reply fd inbytes st1 w1 = Ret (None, st2) w2"
  shows "send_again fd outbuff inbytes destaddr st w =
    (let p = rtt_timeout (rttinfo st2) in
     if fst p < 0 then
       Ret (- 1, [], st2\<lparr>rttinfo := snd p, rttinit := False\<rparr>) (set_errno ETIMEDOUT
         (err_doit False LOG_INFO ''dg_send_recv: no response from server, giving up'' w2))
     else send_again fd outbuff inbytes destaddr (st2\<lparr>rttinfo := snd p\<rparr>)
       (err_doit False LOG_INFO ''dg_send_recv: timeout, retransmitting'' w2))"
  by (subst send_again.simps) (simp add: assms Let_def split_def err_msg_def)

lemma send_again_reply:
  assumes "send_request fd outbuff destaddr st w = Ret st1 w1"
    and "await_reply fd inbytes st1 w1 = Ret (Some (n, data), st2) w2"
  shows "send_again fd outbuff inbytes destaddr st w =
    then_run (call_quietly (C_alarm 0) w2) (\<lambda>_ w.
    then_run (rtt_ts (rttinfo st2) w) (\<lambda>ts w.
      Ret (int (n - HDR_SIZE), data, st2\<lparr>rttinfo := rtt_stop (ts - recv_ts st2) (rttinfo st2)\<rparr>) w))"
  by (subst send_again.simps) (simp add: assms)

lemma send_again_Ret:
  assumes "send_again fd outbuff inbytes destaddr st w = Ret r w'"
  obtains st1 w1 st2 w2 where "send_request fd outbuff destaddr st w = Ret st1 w1"
      "await_reply fd inbytes st1 w1 = Ret (None, st2) w2"
  | st1 w1 st2 w2 n data where "send_request fd outbuff destaddr st w = Ret st1 w1"
      "await_reply fd inbytes st1 w1 = Ret (Some (n, data), st2) w2"
proof -
  from assms obtain st1 w1 r2 w2 where "send_request fd outbuff destaddr st w = Ret st1 w1"
    "await_reply fd inbytes st1 w1 = Ret r2 w2"
    by (subst (asm) send_again.simps) (auto simp: then_run_Ret_iff)
  with that show thesis by (cases r2; cases "fst r2") auto
qed

lemma send_again_consumes:
  "send_again fd outbuff inbytes destaddr st w = Ret r w' \<Longrightarrow> length (script w') < length (script w)"
proof (induction "length (script w)" arbitrary: st w rule: less_induct)
  case less
  from less.prems show ?case
  proof (cases rule: send_again_Ret)
    case (1 st1 w1 st2 w2)
    let ?w = "err_doit False LOG_INFO ''dg_send_recv: timeout, retransmitting'' w2"
    have c: "length (script w2) < length (script w)"
      using send_request_consumes [OF 1(1)] await_reply_consumes [OF 1(2)] by simp
    from less.prems send_again_timeout [OF 1] less.hyps [of ?w] c show ?thesis
      by (fastforce simp: Let_def split: if_splits)
  next
    case (2 st1 w1 st2 w2 n data)
    have c: "length (script w2) < length (script w)"
      using send_request_consumes [OF 2(1)] await_reply_consumes [OF 2(2)] by simp
    with less.prems send_again_reply [OF 2] show ?thesis
      by (auto simp: then_run_Ret_iff rtt_ts_def dest!: call_quietly_consumes Gettimeofday_consumes)
  qed
qed

lemma Dg_send_recv_consumes:
  assumes "Dg_send_recv sig_alrm fd outbuff inbytes destaddr st w = Ret r w'"
  shows "length (script w') < length (script w)"
proof -
  have sig: "length (script v) \<le> length (script u)" if "Signal signo f u = Ret old v" for signo f old u v
    using that by (auto simp: Signal_def signal_def checked_Ret_iff then_run_Ret_iff Let_def
        dest!: sys_int_consumes split: if_splits)
  from assms show ?thesis
    by (auto simp: Dg_send_recv_def checked_quit_Ret_iff dg_send_recv_def then_run_Ret_iff rtt_init_def Let_def
        dest!: sig send_again_consumes Gettimeofday_consumes split: if_splits)
qed

section \<open>rtt/dg_cli.c\<close>

function rtt_dg_cli :: "int \<Rightarrow> int \<Rightarrow> fd \<Rightarrow> sockaddr \<Rightarrow> dg_state \<Rightarrow> world \<Rightarrow> dg_state run" where
  "rtt_dg_cli sig_alrm fp sockfd servaddr st w = then_run (Fgets fp MAXLINE w) (\<lambda>r w. case r of
       None \<Rightarrow> Ret st w
     | Some sendline \<Rightarrow>
         then_run (Dg_send_recv sig_alrm sockfd (c_str sendline) MAXLINE servaddr st w) (\<lambda>r w. case r of
           (n, recvline, st) \<Rightarrow>
             then_run (Fputs STDOUT (c_str recvline) w) (\<lambda>_ w.
               rtt_dg_cli sig_alrm fp sockfd servaddr st w)))"
  by pat_completeness auto
termination
  by (relation "measure (\<lambda>(s, fp, fd, sa, st, w). length (script w))")
     (auto dest!: Fgets_consumes Dg_send_recv_consumes Fputs.wrap_consumes)

declare rtt_dg_cli.simps [simp del]

section \<open>The estimator\<close>

text \<open>The fields are \<^verbatim>\<open>float\<close> values, the estimates are not negative, the timeout is positive.\<close>

definition rtt_ok :: "rtt_info \<Rightarrow> bool" where
  "rtt_ok p \<longleftrightarrow> to_float (rtt_srtt p) = rtt_srtt p \<and> 0 \<le> rtt_srtt p \<and>
     to_float (rtt_rttvar p) = rtt_rttvar p \<and> 0 \<le> rtt_rttvar p \<and>
     to_float (rtt_rto p) = rtt_rto p \<and> RTT_RXTMIN \<le> rtt_rto p"

lemma exact_constants:
  "to_float 2 = 2" "to_float 60 = 60" "to_double (5 / 2) = 5 / 2" "to_double (121 / 2) = 121 / 2"
  "to_float (3 / 4) = 3 / 4" "to_double 3 = 3" "to_float 3 = 3"
  by code_simp+

lemma minmax_bounds: "RTT_RXTMIN \<le> rtt_minmax x" "rtt_minmax x \<le> RTT_RXTMAX"
  by (auto simp: rtt_minmax_def RTT_RXTMIN_def RTT_RXTMAX_def)

lemma minmax_float: "to_float x = x \<Longrightarrow> to_float (rtt_minmax x) = rtt_minmax x"
  by (simp add: rtt_minmax_def RTT_RXTMIN_def RTT_RXTMAX_def exact_constants)

lemma rtt_start_bounds:
  assumes "RTT_RXTMIN \<le> rtt_rto p"
  shows "2 \<le> rtt_start p" and "rtt_rto p \<le> RTT_RXTMAX \<Longrightarrow> rtt_start p \<le> 60"
proof -
  let ?x = "to_double (rtt_rto p + 1 / 2)"
  have lo: "5 / 2 \<le> ?x"
    using to_double_mono [of "5 / 2" "rtt_rto p + 1 / 2"] assms exact_constants by (simp add: RTT_RXTMIN_def)
  then show "2 \<le> rtt_start p" by (simp add: rtt_start_def Let_def le_floor_iff)
  assume "rtt_rto p \<le> RTT_RXTMAX"
  then have "?x \<le> 121 / 2"
    using to_double_mono [of "rtt_rto p + 1 / 2" "121 / 2"] exact_constants by (simp add: RTT_RXTMAX_def)
  with lo show "rtt_start p \<le> 60" by (simp add: rtt_start_def Let_def floor_le_iff)
qed

lemma rtt_stop_ok:
  assumes "rtt_ok p"
  shows "rtt_ok (rtt_stop ms p) \<and> rtt_rto (rtt_stop ms p) \<le> RTT_RXTMAX"
proof -
  let ?r = "to_float (to_double (of_nat (unat ms) / 1000))"
  let ?d = "to_float (?r - rtt_srtt p)"
  let ?s = "to_float (to_double (rtt_srtt p + to_double (?d / 8)))"
  let ?a = "if ?d < 0 then - ?d else ?d"
  let ?v = "to_float (to_double (rtt_rttvar p + to_double (to_double (?a - rtt_rttvar p) / 4)))"
  from assms have p: "to_float (rtt_srtt p) = rtt_srtt p" "0 \<le> rtt_srtt p"
    "to_float (rtt_rttvar p) = rtt_rttvar p" "0 \<le> rtt_rttvar p" by (simp_all add: rtt_ok_def)
  have "0 \<le> ?r"
    by (intro to_float_sign to_double_sign divide_nonneg_nonneg of_nat_0_le_iff) simp
  then have "to_float (- rtt_srtt p) \<le> ?d" by (intro to_float_mono) simp
  then have d: "- rtt_srtt p \<le> ?d" using p(1) by (simp add: to_float_def fround_minus)
  then have "- rtt_srtt p \<le> ?d / 8" using p(2) by simp
  with p(1) have "0 \<le> rtt_srtt p + to_double (?d / 8)" by (rule correction_nonneg)
  then have s: "0 \<le> ?s" by (intro to_float_sign to_double_sign) simp
  have "to_double (- rtt_rttvar p) \<le> to_double (?a - rtt_rttvar p)" by (intro to_double_mono) simp
  then have "- rtt_rttvar p \<le> to_double (?a - rtt_rttvar p)"
    using float_is_double [OF p(3)] by (simp add: to_double_minus)
  then have "- rtt_rttvar p \<le> to_double (?a - rtt_rttvar p) / 4" using p(4) by simp
  with p(3) have "0 \<le> rtt_rttvar p + to_double (to_double (?a - rtt_rttvar p) / 4)" by (rule correction_nonneg)
  then have v: "0 \<le> ?v" by (intro to_float_sign to_double_sign) simp
  show ?thesis
    using s v by (simp add: rtt_ok_def rtt_stop_def Let_def minmax_bounds minmax_float del: of_nat_unat cong: if_cong split del: if_split)
qed

lemma rtt_timeout_fields [simp]:
  "rtt_nrexmt (snd (rtt_timeout p)) = rtt_nrexmt p + 1" "rtt_rto (snd (rtt_timeout p)) = to_float (rtt_rto p * 2)"
  "fst (rtt_timeout p) < 0 \<longleftrightarrow> 3 \<le> rtt_nrexmt p"
  by (auto simp: rtt_timeout_def Let_def RTT_MAXNREXMT_def)

lemma rtt_timeout_ok:
  assumes "rtt_ok p"
  shows "rtt_ok (snd (rtt_timeout p)) \<and> rtt_rto (snd (rtt_timeout p)) = 2 * rtt_rto p"
proof -
  from assms have "to_float (rtt_rto p * 2) = rtt_rto p * 2"
    by (intro to_float_double) (simp_all add: rtt_ok_def RTT_RXTMIN_def)
  with assms show ?thesis by (simp add: rtt_ok_def rtt_timeout_def Let_def RTT_RXTMIN_def)
qed

section \<open>The exchange\<close>

text \<open>The requests a trace sends on a descriptor.\<close>

fun request_ev :: "fd \<Rightarrow> event \<Rightarrow> bytes list" where
  "request_ev fd (Sys (C_sendmsg f b name ctl) a) = (if f = fd then [b] else [])"
| "request_ev fd _ = []"

definition requests :: "fd \<Rightarrow> event list \<Rightarrow> bytes list" where
  "requests fd es = concat (map (request_ev fd) es)"

lemma requests_simps [simp]:
  "requests fd [] = []" "requests fd (e # es) = request_ev fd e @ requests fd es"
  "requests fd (xs @ ys) = requests fd xs @ requests fd ys"
  by (simp_all add: requests_def)

definition request_bytes :: "u32 \<Rightarrow> bytes \<Rightarrow> u32 \<Rightarrow> bytes" where
  "request_bytes seq outbuff ts = bytes_of_u32 seq @ bytes_of_u32 ts @ outbuff"

lemma rtt_debug_trace: "\<exists>es. trace (rtt_debug d p w) = trace w @ es \<and> (\<forall>e \<in> set es. \<exists>m. e = Stderr m)"
  "script (rtt_debug d p w) = script w" "errno (rtt_debug d p w) = errno w"
  by (auto simp: rtt_debug_def)

lemma stderr_requests: "\<forall>e \<in> set es. \<exists>m. e = Stderr m \<Longrightarrow> requests fd es = []"
  by (induction es) auto

lemma rtt_ts_Ret:
  "rtt_ts p w = Ret ts w' \<longleftrightarrow> (\<exists>a s. script w = a # s \<and> a_err a = 0 \<and> w' = called C_gettimeofday a s w \<and>
     ts = word_of_int ((fst (a_time a) - uint (rtt_base p)) * 1000 + snd (a_time a) div 1000))"
  by (cases "script w")
     (auto simp: rtt_ts_def Gettimeofday_def sys_time_def checked_def sys_def err_sys_def)

lemma Sendmsg_Ret:
  "Sendmsg fd iov name ctl w = Ret x w' \<longleftrightarrow> (\<exists>a s. script w = a # s \<and> a_err a = 0 \<and>
     sum_list (map length iov) \<le> a_val a \<and> w' = called (C_sendmsg fd (concat iov) name ctl) a s w)"
  by (cases "script w")
     (auto simp: Sendmsg_def Let_def void_def checked_def sys_accepts_def sys_def err_sys_def min_def)

lemma call_quietly_Ret:
  "call_quietly c w = Ret x w' \<longleftrightarrow> (\<exists>a s. script w = a # s \<and> w' = called c a s w)"
  by (cases "script w") (auto simp: call_quietly_def void_def sys_def)

lemma length_bytes_of_u32 [simp]: "length (bytes_of_u32 x) = 4"
  by (simp add: bytes_of_u32_def)

lemma u32_of_bytes_of_u32 [simp]: "u32_of_bytes (bytes_of_u32 x) = x"
proof -
  have "unat x < 256 ^ 4" using unsigned_less [of x] by simp
  then show ?thesis by (simp add: u32_of_bytes_def bytes_of_u32_def le_nat_le_bytes)
qed

lemma send_request_Ret:
  assumes "send_request fd outbuff destaddr st w = Ret st' w'"
  shows "\<exists>es ts. trace w' = trace w @ es \<and> st' = st\<lparr>send_ts := ts\<rparr> \<and>
    requests fd es = [request_bytes (send_seq st) outbuff ts]"
proof -
  from assms obtain ts a b c s where st': "st' = st\<lparr>send_ts := ts\<rparr>"
    and w': "w' = rtt_debug (rtt_d_flag st) (rttinfo st) (called (C_alarm (rtt_start (rttinfo st))) c s
      (called (C_sendmsg fd (request_bytes (send_seq st) outbuff ts) destaddr []) b (c # s)
      (called C_gettimeofday a (b # c # s) (emit (Stderr (''send '' @ fmt4d (send_seq st) @ '': '')) w))))"
    by (auto simp: send_request_def then_run_Ret_iff Let_def rtt_ts_Ret Sendmsg_Ret call_quietly_Ret
        request_bytes_def)
  obtain es where "trace w' = trace (called (C_alarm (rtt_start (rttinfo st))) c s
      (called (C_sendmsg fd (request_bytes (send_seq st) outbuff ts) destaddr []) b (c # s)
      (called C_gettimeofday a (b # c # s) (emit (Stderr (''send '' @ fmt4d (send_seq st) @ '': '')) w)))) @ es"
    and "requests fd es = []"
    unfolding w' using rtt_debug_trace(1) stderr_requests by blast
  with st' show ?thesis by auto
qed

lemma await_reply_Cons:
  "script w = a # s \<Longrightarrow> await_reply fd inbytes st w =
     (let w1 = called (C_recvmsg fd (HDR_SIZE + inbytes)) a s w; d = take (HDR_SIZE + inbytes) (a_data a);
          st1 = st\<lparr>recvhdr := fill (take HDR_SIZE d) (recvhdr st)\<rparr>;
          w2 = emit (Stderr (''recv '' @ fmt4d (recv_seq st1) @ [CHR 0x0A])) w1 in
      if a_err a \<noteq> 0 then (if a_err a = EINTR then Ret (None, st) w1 else err_sys ''recvmsg error'' w1)
      else if length d < HDR_SIZE \<or> recv_seq st1 \<noteq> send_seq st then await_reply fd inbytes st1 w2
      else Ret (Some (length d, drop HDR_SIZE d), st1) w2)"
  by (subst await_reply.simps) (simp add: sys_recvmsg_def sys_def Let_def)

lemma await_reply_Nil: "script w = [] \<Longrightarrow> await_reply fd inbytes st w = Block w"
  by (subst await_reply.simps) (simp add: sys_recvmsg_def sys_def)

text \<open>A datagram that is the reply to the request with sequence number \<open>seq\<close>.\<close>

definition replies :: "u32 \<Rightarrow> bytes \<Rightarrow> bool" where
  "replies seq d \<longleftrightarrow> HDR_SIZE \<le> length d \<and> u32_of_bytes (take 4 d) = seq"

text \<open>A server that echoes the request has replied to it.\<close>

lemma echoed_request_replies: "replies seq (request_bytes seq outbuff ts)"
  by (simp add: replies_def request_bytes_def HDR_SIZE_def)

lemma recv_seq_fill:
  "HDR_SIZE \<le> length d \<Longrightarrow> recv_seq (st\<lparr>recvhdr := fill (take HDR_SIZE d) h\<rparr>) = u32_of_bytes (take 4 d)"
  by (simp add: recv_seq_def fill_def HDR_SIZE_def)

lemma await_reply_Ret:
  "await_reply fd inbytes st w = Ret (r, st') w' \<Longrightarrow> \<exists>es. trace w' = trace w @ es \<and> requests fd es = [] \<and>
     rttinfo st' = rttinfo st \<and> send_seq st' = send_seq st \<and>
     (\<forall>n data. r = Some (n, data) \<longrightarrow> (\<exists>a. Sys (C_recvmsg fd (HDR_SIZE + inbytes)) a \<in> set es \<and> a_err a = 0 \<and>
        replies (send_seq st) (take (HDR_SIZE + inbytes) (a_data a)) \<and>
        n = length (take (HDR_SIZE + inbytes) (a_data a)) \<and> data = drop HDR_SIZE (take (HDR_SIZE + inbytes) (a_data a))))"
proof (induction "script w" arbitrary: st w)
  case Nil
  then show ?case by (simp add: await_reply_Nil)
next
  case (Cons a s)
  let ?c = "C_recvmsg fd (HDR_SIZE + inbytes)" and ?d = "take (HDR_SIZE + inbytes) (a_data a)"
  let ?w1 = "called ?c a s w" and ?st = "st\<lparr>recvhdr := fill (take HDR_SIZE ?d) (recvhdr st)\<rparr>"
  let ?m = "Stderr (''recv '' @ fmt4d (recv_seq ?st) @ [CHR 0x0A])"
  note step = await_reply_Cons [OF Cons.hyps(2) [symmetric], of fd inbytes st]
  show ?case
  proof (cases "a_err a = 0")
    case False
    with step Cons.prems have "r = None" "st' = st" "w' = ?w1"
      by (auto simp: Let_def err_sys_def split: if_splits)
    then show ?thesis by simp
  next
    case ok: True
    show ?thesis
    proof (cases "length ?d < HDR_SIZE \<or> recv_seq ?st \<noteq> send_seq st")
      case True
      with step ok Cons.prems have "await_reply fd inbytes ?st (emit ?m ?w1) = Ret (r, st') w'"
        by (simp add: Let_def)
      from Cons.hyps(1) [OF _ this] obtain es where
        "trace w' = trace w @ Sys ?c a # ?m # es" "requests fd es = []"
        "rttinfo st' = rttinfo st" "send_seq st' = send_seq st"
        "\<forall>n data. r = Some (n, data) \<longrightarrow> (\<exists>a. Sys ?c a \<in> set es \<and> a_err a = 0 \<and>
           replies (send_seq st) (take (HDR_SIZE + inbytes) (a_data a)) \<and>
           n = length (take (HDR_SIZE + inbytes) (a_data a)) \<and> data = drop HDR_SIZE (take (HDR_SIZE + inbytes) (a_data a)))"
        by auto
      then show ?thesis by (intro exI [of _ "Sys ?c a # ?m # es"]) auto
    next
      case False
      with step ok Cons.prems have "r = Some (length ?d, drop HDR_SIZE ?d)" "st' = ?st" "w' = emit ?m ?w1"
        by (auto simp: Let_def)
      moreover have "replies (send_seq st) ?d"
        using False recv_seq_fill [of ?d "recvhdr st" st] by (auto simp: replies_def not_less simp del: take_take length_take)
      ultimately show ?thesis using ok by (intro exI [of _ "[Sys ?c a, ?m]"]) simp
    qed
  qed
qed

lemma err_doit_requests:
  "\<exists>es. trace (err_doit f l m w) = trace w @ es \<and> requests fd es = []"
  using err_doit_trace [of f l m w] by auto

text \<open>What the datagrams received say about a reply of length \<open>n\<close> with data \<open>data\<close>.\<close>

definition got_reply :: "fd \<Rightarrow> nat \<Rightarrow> u32 \<Rightarrow> event list \<Rightarrow> int \<Rightarrow> bytes \<Rightarrow> bool" where
  "got_reply fd inbytes seq es n data \<longleftrightarrow> (\<exists>a. Sys (C_recvmsg fd (HDR_SIZE + inbytes)) a \<in> set es \<and> a_err a = 0 \<and>
     replies seq (take (HDR_SIZE + inbytes) (a_data a)) \<and>
     data = drop HDR_SIZE (take (HDR_SIZE + inbytes) (a_data a)) \<and> n = int (length data))"

lemma got_reply_append: "got_reply fd i seq es n data \<Longrightarrow> got_reply fd i seq (xs @ es) n data"
  by (auto simp: got_reply_def)

lemma send_again_spec:
  assumes "send_again fd outbuff inbytes destaddr st w = Ret (n, data, st') w'"
    and "rtt_nrexmt (rttinfo st) = int k" and "k \<le> 3"
  shows "\<exists>es tss. trace w' = trace w @ es \<and>
    requests fd es = map (request_bytes (send_seq st) outbuff) tss \<and> 1 \<le> length tss \<and> length tss + k \<le> 4 \<and>
    (if 0 \<le> n then got_reply fd inbytes (send_seq st) es n data
     else n = - 1 \<and> length tss + k = 4 \<and> errno w' = ETIMEDOUT \<and> \<not> rttinit st')"
  using assms
proof (induction "3 - k" arbitrary: k st w rule: less_induct)
  case less
  from less.prems(1) show ?case
  proof (cases rule: send_again_Ret)
    case (1 st1 w1 st2 w2)
    from send_request_Ret [OF 1(1)] obtain es1 ts where r1: "trace w1 = trace w @ es1"
      "requests fd es1 = [request_bytes (send_seq st) outbuff ts]" "st1 = st\<lparr>send_ts := ts\<rparr>" by blast
    from await_reply_Ret [OF 1(2)] obtain es2 where r2: "trace w2 = trace w1 @ es2" "requests fd es2 = []"
      "rttinfo st2 = rttinfo st" "send_seq st2 = send_seq st" using r1(3) by auto
    let ?st = "st2\<lparr>rttinfo := snd (rtt_timeout (rttinfo st2))\<rparr>"
    show ?thesis
    proof (cases "k = 3")
      case True
      let ?w = "err_doit False LOG_INFO ''dg_send_recv: no response from server, giving up'' w2"
      obtain es3 where r3: "trace ?w = trace w2 @ es3" "requests fd es3 = []"
        using err_doit_requests by blast
      from True less.prems send_again_timeout [OF 1] r2(3)
      have "n = - 1" "\<not> rttinit st'" "w' = set_errno ETIMEDOUT ?w" by (auto simp: Let_def)
      with r1 r2 r3 True show ?thesis
        by (intro exI [of _ "es1 @ es2 @ es3"] exI [of _ "[ts]"]) simp
    next
      case False
      let ?w = "err_doit False LOG_INFO ''dg_send_recv: timeout, retransmitting'' w2"
      obtain es3 where r3: "trace ?w = trace w2 @ es3" "requests fd es3 = []"
        using err_doit_requests by blast
      from False less.prems send_again_timeout [OF 1] r2(3)
      have again: "send_again fd outbuff inbytes destaddr ?st ?w = Ret (n, data, st') w'"
        by (auto simp: Let_def)
      have "3 - Suc k < 3 - k" "rtt_nrexmt (rttinfo ?st) = int (Suc k)" "Suc k \<le> 3"
        using False less.prems(2,3) r2(3) by simp_all
      have seq: "send_seq ?st = send_seq st" using r2(4) by simp
      from less.hyps [OF \<open>3 - Suc k < 3 - k\<close> again \<open>rtt_nrexmt (rttinfo ?st) = int (Suc k)\<close> \<open>Suc k \<le> 3\<close>]
      obtain es tss where IH: "trace w' = trace ?w @ es"
        "requests fd es = map (request_bytes (send_seq st) outbuff) tss" "1 \<le> length tss" "length tss + Suc k \<le> 4"
        "if 0 \<le> n then got_reply fd inbytes (send_seq st) es n data
         else n = - 1 \<and> length tss + Suc k = 4 \<and> errno w' = ETIMEDOUT \<and> \<not> rttinit st'"
        unfolding seq by blast
      with r1 r2 r3 got_reply_append [of fd inbytes "send_seq st" es n data "es1 @ es2 @ es3"] show ?thesis
        by (intro exI [of _ "es1 @ es2 @ es3 @ es"] exI [of _ "ts # tss"]) (simp split: if_splits)
    qed
  next
    case (2 st1 w1 st2 w2 m d)
    from send_request_Ret [OF 2(1)] obtain es1 ts where r1: "trace w1 = trace w @ es1"
      "requests fd es1 = [request_bytes (send_seq st) outbuff ts]" "st1 = st\<lparr>send_ts := ts\<rparr>" by blast
    from await_reply_Ret [OF 2(2)] obtain es2 a where r2: "trace w2 = trace w1 @ es2" "requests fd es2 = []"
      "Sys (C_recvmsg fd (HDR_SIZE + inbytes)) a \<in> set es2" "a_err a = 0"
      "replies (send_seq st) (take (HDR_SIZE + inbytes) (a_data a))"
      "m = length (take (HDR_SIZE + inbytes) (a_data a))" "d = drop HDR_SIZE (take (HDR_SIZE + inbytes) (a_data a))"
      using r1(3) by auto
    from less.prems(1) send_again_reply [OF 2] obtain x y where n: "n = int (m - HDR_SIZE)" "data = d"
      and w': "trace w' = trace w2 @ [Sys (C_alarm 0) x, Sys C_gettimeofday y]"
      by (auto simp: then_run_Ret_iff rtt_ts_Ret call_quietly_Ret)
    have "got_reply fd inbytes (send_seq st) es2 n data"
      unfolding got_reply_def using r2 n by (intro exI [of _ a]) simp
    then have "got_reply fd inbytes (send_seq st) (es1 @ es2 @ [Sys (C_alarm 0) x, Sys C_gettimeofday y]) n data"
      by (auto simp: got_reply_def)
    with r1 r2(1,2) n w' less.prems(3) show ?thesis
      by (intro exI [of _ "es1 @ es2 @ [Sys (C_alarm 0) x, Sys C_gettimeofday y]"] exI [of _ "[ts]"]) simp
  qed
qed

lemma Signal_requests:
  "Signal signo f w = Ret old w' \<Longrightarrow> \<exists>es. trace w' = trace w @ es \<and> requests fd es = []"
  by (auto simp: Signal_def signal_def checked_Ret_iff then_run_Ret_iff Let_def
      dest!: sys_int_Ret split: if_splits)

lemma rtt_init_Ret:
  assumes "rtt_init p w = Ret p' w'"
  shows "rtt_ok p' \<and> rtt_rto p' = 3" and "\<exists>a. trace w' = trace w @ [Sys C_gettimeofday a]"
proof -
  from assms obtain a s where w': "w' = called C_gettimeofday a s w"
    and p': "p' = p\<lparr>rtt_base := word_of_int (fst (a_time a)), rtt_rtt := 0, rtt_srtt := 0, rtt_rttvar := 3 / 4,
      rtt_rto := rtt_minmax 3\<rparr>"
    by (cases "script w") (auto simp: rtt_init_def Gettimeofday_def sys_time_def checked_def sys_def err_sys_def
        Let_def RTT_RTOCALC_def exact_constants split: if_splits)
  then show "rtt_ok p' \<and> rtt_rto p' = 3"
    by (simp add: rtt_ok_def rtt_minmax_def exact_constants RTT_RXTMIN_def RTT_RXTMAX_def) (simp add: to_float_def)
  from w' show "\<exists>a. trace w' = trace w @ [Sys C_gettimeofday a]" by auto
qed

section \<open>Waiting and giving up\<close>

text \<open>
  An answer to \<^verbatim>\<open>recvmsg\<close> that is no reply: too short, or another sequence number. A round that brings
  none: the time, the request accepted, the timer started, such datagrams, the expiry.
\<close>

definition stale :: "nat \<Rightarrow> u32 \<Rightarrow> answer \<Rightarrow> bool" where
  "stale inbytes seq a \<longleftrightarrow> a_err a = 0 \<and> \<not> replies seq (take (HDR_SIZE + inbytes) (a_data a))"

definition lost_round :: "nat \<Rightarrow> u32 \<Rightarrow> bytes \<Rightarrow> answer list \<Rightarrow> bool" where
  "lost_round inbytes seq outbuff r \<longleftrightarrow> (\<exists>a b c stales e. r = a # b # c # stales @ [e] \<and> a_err a = 0 \<and>
     a_err b = 0 \<and> HDR_SIZE + length outbuff \<le> a_val b \<and> (\<forall>s \<in> set stales. stale inbytes seq s) \<and>
     a_err e = EINTR)"

lemma await_stale:
  assumes "script w = stales @ e # s" and "\<forall>a \<in> set stales. stale inbytes (send_seq st) a" and "a_err e = EINTR"
  shows "\<exists>st' w'. await_reply fd inbytes st w = Ret (None, st') w' \<and> script w' = s \<and> rttinfo st' = rttinfo st \<and>
    send_seq st' = send_seq st"
  using assms
proof (induction stales arbitrary: st w)
  case Nil
  then show ?case by (simp add: await_reply_Cons Let_def EINTR_def)
next
  case (Cons a as)
  let ?d = "take (HDR_SIZE + inbytes) (a_data a)" and ?st = "st\<lparr>recvhdr := fill (take HDR_SIZE (take (HDR_SIZE + inbytes) (a_data a))) (recvhdr st)\<rparr>"
  let ?w = "emit (Stderr (''recv '' @ fmt4d (recv_seq ?st) @ [CHR 0x0A])) (called (C_recvmsg fd (HDR_SIZE + inbytes)) a (as @ e # s) w)"
  have st: "length ?d < HDR_SIZE \<or> recv_seq ?st \<noteq> send_seq st" "a_err a = 0"
    using Cons.prems(2) recv_seq_fill [of ?d "recvhdr st" st] by (auto simp: stale_def replies_def not_le simp del: take_take length_take)
  have "await_reply fd inbytes st w = await_reply fd inbytes ?st ?w"
    using await_reply_Cons [of w a "as @ e # s" fd inbytes st] st Cons.prems(1)
    by (simp add: Let_def del: take_take length_take)
  with Cons.IH [of ?w ?st] Cons.prems show ?case by simp
qed

lemma send_request_ok:
  assumes "script w = a # b # c # s" and "a_err a = 0" and "a_err b = 0" and "HDR_SIZE + length outbuff \<le> a_val b"
  shows "\<exists>st' w'. send_request fd outbuff destaddr st w = Ret st' w' \<and> script w' = s \<and>
    rttinfo st' = rttinfo st \<and> send_seq st' = send_seq st"
  using assms
  by (simp add: send_request_def rtt_ts_def Gettimeofday_def sys_time_def checked_def sys_def Sendmsg_def
      void_def sys_accepts_def call_quietly_def Let_def HDR_SIZE_def rtt_debug_trace)

lemma send_again_gives_up:
  "\<forall>r \<in> set rounds. lost_round inbytes (send_seq st) outbuff r \<Longrightarrow> script w = concat rounds @ s \<Longrightarrow>
     rounds \<noteq> [] \<Longrightarrow> rtt_nrexmt (rttinfo st) = 4 - int (length rounds) \<Longrightarrow>
     \<exists>st' w'. send_again fd outbuff inbytes destaddr st w = Ret (- 1, [], st') w' \<and> script w' = s"
proof (induction rounds arbitrary: st w)
  case (Cons r rs)
  then obtain a b c stales e where r: "r = a # b # c # stales @ [e]" "a_err a = 0" "a_err b = 0"
    "HDR_SIZE + length outbuff \<le> a_val b" "\<forall>s \<in> set stales. stale inbytes (send_seq st) s" "a_err e = EINTR"
    unfolding lost_round_def by auto
  then obtain st1 w1 where s1: "send_request fd outbuff destaddr st w = Ret st1 w1"
    "script w1 = stales @ e # concat rs @ s" "rttinfo st1 = rttinfo st" "send_seq st1 = send_seq st"
    using send_request_ok [of w a b c "stales @ e # concat rs @ s" outbuff fd destaddr st] Cons.prems(2) by auto
  then obtain st2 w2 where s2: "await_reply fd inbytes st1 w1 = Ret (None, st2) w2"
    "script w2 = concat rs @ s" "rttinfo st2 = rttinfo st" "send_seq st2 = send_seq st"
    using await_stale [OF s1(2), of inbytes st1 fd] r by auto
  note step = send_again_timeout [OF s1(1) s2(1)]
  show ?case
  proof (cases "rs = []")
    case True
    with step s2 Cons.prems(4) show ?thesis by (simp add: Let_def)
  next
    case False
    let ?st = "st2\<lparr>rttinfo := snd (rtt_timeout (rttinfo st2))\<rparr>"
    let ?w = "err_doit False LOG_INFO ''dg_send_recv: timeout, retransmitting'' w2"
    have "send_again fd outbuff inbytes destaddr st w = send_again fd outbuff inbytes destaddr ?st ?w"
      using step s2 Cons.prems(4) False by (cases rs) (simp_all add: Let_def)
    with Cons.IH [of ?st ?w] s2 Cons.prems False show ?thesis by simp
  qed
qed simp

section \<open>Properties\<close>



text \<open>
  A timeout doubles the timer exactly and gives up the fourth time for a packet. Nothing bounds
  the doubled value by \<^verbatim>\<open>RTT_RXTMAX\<close>: from 60 seconds, three timeouts lead to 480.
\<close>

theorem rtt_timeout_backoff:
  assumes "rtt_ok p" and "rtt_nrexmt p = 0" and "k < 4"
  shows "let q = ((\<lambda>p. snd (rtt_timeout p)) ^^ k) p in
    rtt_rto q = 2 ^ k * rtt_rto p \<and> rtt_nrexmt q = int k \<and> rtt_ok q \<and>
    fst (rtt_timeout q) = (if k = 3 then - 1 else 0)"
proof -
  have "rtt_rto (((\<lambda>p. snd (rtt_timeout p)) ^^ k) p) = 2 ^ k * rtt_rto p \<and>
      rtt_nrexmt (((\<lambda>p. snd (rtt_timeout p)) ^^ k) p) = int k \<and> rtt_ok (((\<lambda>p. snd (rtt_timeout p)) ^^ k) p)" for k
  proof (induction k)
    case (Suc k)
    with rtt_timeout_ok [of "((\<lambda>p. snd (rtt_timeout p)) ^^ k) p"] show ?case by simp
  qed (simp add: assms)
  then show ?thesis using assms(3)
    by (auto simp: Let_def rtt_timeout_def RTT_MAXNREXMT_def)
qed

theorem rtt_timeout_backoff_witness:
  "rtt_rto (((\<lambda>p. snd (rtt_timeout p)) ^^ 3)
     \<lparr>rtt_rtt = 0, rtt_srtt = 0, rtt_rttvar = 0, rtt_rto = 60, rtt_nrexmt = 0, rtt_base = 0\<rparr>) = 480"
proof -
  let ?p = "\<lparr>rtt_rtt = 0, rtt_srtt = 0, rtt_rttvar = 0, rtt_rto = 60, rtt_nrexmt = 0, rtt_base = 0 :: u32\<rparr>"
  have ok: "rtt_ok ?p" by code_simp
  from rtt_timeout_backoff [OF ok, of 3] show ?thesis by (simp add: Let_def)
qed

text \<open>
  (C20) One exchange of \<^verbatim>\<open>dg_send_recv\<close>: between one and four requests are sent, all with the next sequence
  number and the same data. A result that is not negative is the payload of a datagram received
  during the call that carries this sequence number; otherwise four requests went unanswered, the result is
  \<open>- 1\<close> with \<^verbatim>\<open>ETIMEDOUT\<close>, and the estimator is initialised again by the next call.
\<close>

theorem dg_send_recv_exchange:
  assumes "dg_send_recv sig_alrm fd outbuff inbytes destaddr st w = Ret (n, data, st') w'"
  shows "\<exists>es tss. trace w' = trace w @ es \<and>
    requests fd es = map (request_bytes (send_seq st + 1) outbuff) tss \<and> 1 \<le> length tss \<and> length tss \<le> 4 \<and>
    (if 0 \<le> n then got_reply fd inbytes (send_seq st + 1) es n data
     else n = - 1 \<and> length tss = 4 \<and> errno w' = ETIMEDOUT \<and> \<not> rttinit st')"
proof -
  from assms obtain st1 w1 old w2 where
    i: "(if rttinit st then Ret st w else then_run (rtt_init (rttinfo st) w) (\<lambda>info w.
           Ret (st\<lparr>rttinfo := info, rttinit := True, rtt_d_flag := True\<rparr>) w)) = Ret st1 w1"
    and s: "Signal SIGALRM sig_alrm w1 = Ret old w2"
    and g: "send_again fd outbuff inbytes destaddr
      (st1\<lparr>send_seq := send_seq st1 + 1, rttinfo := rtt_newpack (rttinfo st1)\<rparr>) w2 = Ret (n, data, st') w'"
    by (auto simp: dg_send_recv_def then_run_Ret_iff Let_def)
  let ?st = "st1\<lparr>send_seq := send_seq st1 + 1, rttinfo := rtt_newpack (rttinfo st1)\<rparr>"
  have seq: "send_seq st1 = send_seq st" using i by (auto simp: then_run_Ret_iff split: if_splits)
  have "\<exists>es. trace w1 = trace w @ es \<and> requests fd es = []"
    using i by (auto simp: then_run_Ret_iff dest!: rtt_init_Ret(2) split: if_splits)
  then obtain e1 where e1: "trace w1 = trace w @ e1" "requests fd e1 = []" by blast
  from Signal_requests [OF s] obtain e2 where e2: "trace w2 = trace w1 @ e2" "requests fd e2 = []" by blast
  have seq': "send_seq ?st = send_seq st + 1" using seq by simp
  have "rtt_nrexmt (rttinfo ?st) = int 0" by (simp add: rtt_newpack_def)
  from send_again_spec [OF g this, unfolded seq' add_0_right] obtain es tss where "trace w' = trace w2 @ es"
    "requests fd es = map (request_bytes (send_seq st + 1) outbuff) tss" "1 \<le> length tss" "length tss \<le> 4"
    "if 0 \<le> n then got_reply fd inbytes (send_seq st + 1) es n data
     else n = - 1 \<and> length tss = 4 \<and> errno w' = ETIMEDOUT \<and> \<not> rttinit st'" by blast
  with e1 e2 got_reply_append [of fd inbytes "send_seq st + 1" es n data "e1 @ e2"] show ?thesis
    by (intro exI [of _ "e1 @ e2 @ es"] exI [of _ tss]) (simp split: if_splits)
qed

lemma Signal_alarm_eq:
  "script w = a # s \<Longrightarrow> a_err a = 0 \<Longrightarrow>
     Signal SIGALRM h w = Ret (int (a_val a)) (called (C_sigaction SIGALRM h SA_INTERRUPT) a s w)"
  by (simp add: Signal_def signal_def checked_def sys_int_def sys_def SIG_ERR_def)

theorem dg_send_recv_exchange_witness:
  "\<exists>st' w' tss. dg_send_recv 9 4 [7] 10 (SA_other 0) (dg_state0\<lparr>rttinit := True\<rparr>)
       (boot [gave 0, ans0, gave 9, ans0, got [2, 0, 0, 0, 0, 0, 0, 0], got [1, 0, 0, 0, 0, 0, 0, 0, 65], ans0, ans0])
     = Ret (1, [65], st') w' \<and> requests 4 (trace w') = map (request_bytes 1 [7]) tss \<and> tss \<noteq> []"
proof -
  let ?s = "[got [2, 0, 0, 0, 0, 0, 0, 0], got [1, 0, 0, 0, 0, 0, 0, 0, 65], ans0, ans0]"
  let ?w = "boot (gave 0 # ans0 # gave 9 # ans0 # ?s)"
  let ?st = "dg_state0\<lparr>rttinit := True\<rparr>"
  let ?sta = "?st\<lparr>send_seq := 1, rttinfo := rtt_newpack (rttinfo ?st)\<rparr>"
  let ?wa = "called (C_sigaction SIGALRM 9 SA_INTERRUPT) (gave 0) (ans0 # gave 9 # ans0 # ?s) ?w"
  have u: "u32_of_bytes [2, 0, 0, 0] = 2" "u32_of_bytes [1, 0, 0, 0] = 1"
    by (simp_all add: u32_of_bytes_def)
  obtain st1 w1 where s1: "send_request 4 [7] (SA_other 0) ?sta ?wa = Ret st1 w1" "script w1 = ?s" "send_seq st1 = 1"
    using send_request_ok [of ?wa ans0 "gave 9" ans0 ?s "[7]" 4 "SA_other 0" ?sta] by (auto simp: HDR_SIZE_def)
  then obtain st2 w2 where s2: "await_reply 4 10 st1 w1 = Ret (Some (9, [65]), st2) w2" "script w2 = [ans0, ans0]"
    by (simp add: await_reply_Cons Let_def HDR_SIZE_def recv_seq_def fill_def u)
  have "\<exists>st' w'. send_again 4 [7] 10 (SA_other 0) ?sta ?wa = Ret (1, [65], st') w'"
    unfolding send_again_reply [OF s1(1) s2(1)]
    by (simp add: s2(2) call_quietly_def void_def sys_def rtt_ts_def Gettimeofday_def sys_time_def checked_def
        HDR_SIZE_def)
  then obtain st' w' where run: "dg_send_recv 9 4 [7] 10 (SA_other 0) ?st ?w = Ret (1, [65], st') w'"
    by (auto simp: dg_send_recv_def Signal_alarm_eq dg_state0_def Let_def)
  from dg_send_recv_exchange [OF run] obtain tss where
    "requests 4 (trace w') = map (request_bytes 1 [7]) tss" "1 \<le> length tss"
    by (auto simp: dg_state0_def)
  with run show ?thesis by (intro exI [of _ st'] exI [of _ w'] exI [of _ tss]) auto
qed



end
