(* ===== verification/In_Cksum.thy ===== *)
theory In_Cksum
  imports Unp_Prelude
begin

text \<open>
  The Internet checksum of \<^verbatim>\<open>libfree/in_cksum.c\<close>, with its 32 bit accumulator, and the one's complement
  sum it computes.
\<close>

section \<open>libfree/in_cksum.c\<close>

fun cksum_words :: "bytes \<Rightarrow> u32 \<Rightarrow> u32" where
  "cksum_words (a # b # rest) acc = cksum_words rest (acc + ucast (le16 a b))"
| "cksum_words [a] acc = acc + ucast (le16 a 0)"
| "cksum_words [] acc = acc"

definition in_cksum :: "bytes \<Rightarrow> u16" where
  "in_cksum addr =
     (let sum = cksum_words addr 0;
          sum = drop_bit 16 sum + (sum AND 0xFFFF);
          sum = sum + drop_bit 16 sum
      in NOT (ucast sum))"

section \<open>One's complement arithmetic\<close>

text \<open>Addition of 16 bit numbers with the carry added back in at the low end.\<close>

definition oc_add :: "nat \<Rightarrow> nat \<Rightarrow> nat" where
  "oc_add a b = (if 65536 \<le> a + b then a + b - 65535 else a + b)"

fun words16 :: "bytes \<Rightarrow> nat list" where
  "words16 (a # b # rest) = unat (le16 a b) # words16 rest"
| "words16 [a] = [unat (le16 a 0)]"
| "words16 [] = []"

text \<open>The number below 65536 that is congruent to a sum modulo 65535, 0 only for the sum 0.\<close>

definition oc :: "nat \<Rightarrow> nat" where
  "oc s = (if s = 0 then 0 else (s - 1) mod 65535 + 1)"

lemma oc_less: "oc s < 65536"
  using mod_less_divisor [of 65535 "s - 1"] by (simp add: oc_def)

lemma oc_small: "s < 65536 \<Longrightarrow> oc s = s"
  by (auto simp: oc_def mod_if)

lemma oc_add_oc: "b < 65536 \<Longrightarrow> oc_add (oc a) b = oc (a + b)"
proof -
  assume b: "b < 65536"
  show ?thesis
  proof (cases "a = 0")
    case True
    with b show ?thesis by (simp add: oc_add_def oc_small oc_def [of 0])
  next
    case False
    define k where "k = (a - 1) mod 65535"
    have k: "k < 65535" by (simp add: k_def)
    have "(a + b - 1) mod 65535 = ((a - 1) mod 65535 + b) mod 65535"
      using False by (simp add: mod_simps)
    then have r: "oc (a + b) = (k + b) mod 65535 + 1" using False by (simp add: oc_def k_def)
    have "oc a = k + 1" using False by (simp add: oc_def k_def)
    moreover have "(k + b) mod 65535 = (if k + b < 65535 then k + b else k + b - 65535)"
      using k b by (auto simp: mod_if)
    ultimately show ?thesis using r k b by (auto simp: oc_add_def)
  qed
qed

lemma words16_bound: "x \<in> set (words16 bs) \<Longrightarrow> x < 65536"
  by (induction bs rule: words16.induct) auto

lemma fold_oc_add: "\<forall>x \<in> set ws. x < 65536 \<Longrightarrow> fold (\<lambda>b a. oc_add a b) ws (oc s) = oc (s + sum_list ws)"
  by (induction ws arbitrary: s) (simp_all add: oc_add_oc add.assoc)

section \<open>What the routine computes\<close>

lemma length_words16: "length (words16 bs) = (length bs + 1) div 2"
  by (induction bs rule: words16.induct) simp_all

lemma sum_words16_bound: "sum_list (words16 bs) \<le> 65535 * ((length bs + 1) div 2)"
proof -
  have "sum_list ws \<le> 65535 * length ws" if "\<forall>x \<in> set ws. x < 65536" for ws :: "nat list"
    using that by (induction ws) auto
  from this [of "words16 bs"] show ?thesis using words16_bound [of _ bs] by (simp add: length_words16)
qed

lemma ucast_u16: "(ucast (x :: u16) :: u32) = word_of_nat (unat x)"
  by simp

lemma cksum_words_eq: "cksum_words bs s = s + word_of_nat (sum_list (words16 bs))"
  by (induction bs s rule: cksum_words.induct) (simp_all only: cksum_words.simps words16.simps
      sum_list.Cons sum_list.Nil of_nat_add ucast_u16 add.assoc, simp_all)

lemma fold_carries:
  assumes "s < 2 ^ 32"
  shows "(s div 65536 + s mod 65536 + (s div 65536 + s mod 65536) div 65536) mod 65536 = oc s"
proof -
  define h l where "h = s div 65536" and "l = s mod 65536"
  have s: "s = 65536 * h + l" "h < 65536" "l < 65536"
    using assms by (simp_all add: h_def l_def less_mult_imp_div_less)
  have h1: "(h + l) div 65536 = (if h + l < 65536 then 0 else 1)"
    using s(2,3) by (auto intro: div_nat_eqI)
  show ?thesis
  proof (cases "s = 0")
    case False
    then have "s - 1 = h + l - 1 + 65535 * h" using s(1) by auto
    then have "(s - 1) mod 65535 = (h + l - 1) mod 65535" by (simp only: mod_mult_self2)
    also have "\<dots> = (if h + l < 65536 then h + l - 1 else h + l - 65536)"
      using s(2,3) by (cases "h + l < 65536") (simp_all add: le_mod_geq)
    finally have "oc s = (if h + l < 65536 then h + l else h + l - 65535)"
      using False s(1) by (cases "h + l < 65536") (auto simp: oc_def)
    moreover have "(h + l + (h + l) div 65536) mod 65536 = (if h + l < 65536 then h + l else h + l - 65535)"
      using s(2,3) unfolding h1 by (cases "h + l < 65536") (simp_all add: le_mod_geq)
    ultimately show ?thesis by (simp flip: h_def l_def)
  qed (simp add: oc_def)
qed

lemma in_cksum_oc:
  assumes "length bs \<le> 131070"
  shows "unat (in_cksum bs) = 65535 - oc (sum_list (words16 bs))"
proof -
  let ?S = "sum_list (words16 bs)"
  have "(length bs + 1) div 2 \<le> 65535" using assms by simp
  then have S: "?S < 2 ^ 32" using sum_words16_bound [of bs] by simp
  define s :: u32 where "s = word_of_nat ?S"
  have us: "unat s = ?S" using S by (simp add: s_def unat_of_nat take_bit_nat_eq_self)
  have m: "s AND 0xFFFF = take_bit 16 s" by (simp add: take_bit_eq_mask mask_eq_exp_minus_1)
  have tb: "take_bit 32 (unat x) = unat x" for x :: u32
    using unsigned_less [of x, where 'a = nat] by (simp add: take_bit_nat_eq_self)
  have "unat (drop_bit 16 s) = drop_bit 16 (unat s)" "unat (take_bit 16 s) = take_bit 16 (unat s)"
    by (simp_all add: unsigned_drop_bit_eq unsigned_take_bit_eq tb)
  then have d: "unat (drop_bit 16 s) = ?S div 65536" "unat (take_bit 16 s) = ?S mod 65536"
    by (simp_all add: us drop_bit_eq_div take_bit_eq_mod)
  have b: "?S div 65536 < 65536" "?S mod 65536 < 65536" using S by (simp_all add: less_mult_imp_div_less)
  define t where "t = drop_bit 16 s + take_bit 16 s"
  have t: "unat t = ?S div 65536 + ?S mod 65536"
    unfolding t_def using b by (subst unat_add_lem [THEN iffD1]) (simp_all add: d)
  have "unat (drop_bit 16 t) = drop_bit 16 (unat t)" by (simp add: unsigned_drop_bit_eq tb)
  then have dt: "unat (drop_bit 16 t) = unat t div 65536" by (simp add: drop_bit_eq_div)
  have "unat t < 131072" using b t by linarith
  moreover have "unat t div 65536 \<le> unat t" by simp
  ultimately have "unat t + unat (drop_bit 16 t) < 2 ^ 32" unfolding dt by (simp del: div_le_dividend)
  then have "unat (t + drop_bit 16 t) = unat t + unat t div 65536"
    by (subst unat_add_lem [THEN iffD1]) (simp_all add: dt)
  then have "unat (ucast (t + drop_bit 16 t) :: u16) = oc ?S"
    using fold_carries [OF S] t by (simp add: unsigned_ucast_eq take_bit_eq_mod)
  moreover have "in_cksum bs = NOT (ucast (t + drop_bit 16 t))"
    by (simp add: in_cksum_def Let_def cksum_words_eq m t_def flip: s_def)
  moreover have "unat (NOT x) = 65535 - unat x" for x :: u16
  proof -
    have "NOT x = - 1 - x" by (simp add: not_eq_complement)
    moreover have "unat (- 1 :: u16) = 65535" by (simp add: unsigned_minus_1_eq_mask mask_eq_exp_minus_1)
    ultimately show ?thesis using unat_sub [of x "- 1"] by simp
  qed
  ultimately show ?thesis by metis
qed

text \<open>Storing the checksum in a field that was zero.\<close>

lemma words16_append: "even (length xs) \<Longrightarrow> words16 (xs @ ys) = words16 xs @ words16 ys"
  by (induction xs rule: words16.induct) auto

lemma oc_complement: "oc (s + (65535 - oc s)) = 65535"
proof (cases "s = 0")
  case False
  define m where "m = (s - 1) mod 65535"
  define q where "q = (s - 1) div 65535"
  have "s - 1 = 65535 * q + m" by (simp add: m_def q_def)
  moreover have "m < 65535" by (simp add: m_def)
  moreover have "oc s = m + 1" using False by (simp add: oc_def m_def)
  ultimately have "s + (65535 - oc s) - 1 = 65534 + 65535 * q" "s + (65535 - oc s) \<noteq> 0" using False by auto
  then show ?thesis by (simp add: oc_def)
qed (simp add: oc_def)

lemma in_cksum_stored:
  assumes "even (length xs)" and "length xs + length ys \<le> 131068"
    and c: "c = in_cksum (xs @ [0, 0] @ ys)"
  shows "in_cksum (xs @ [lo8 c, hi8 c] @ ys) = 0"
proof -
  let ?s = "sum_list (words16 xs) + sum_list (words16 ys)"
  have w: "words16 ([a, b] @ ys) = unat (le16 a b) # words16 ys" for a b by simp
  have "unat (le16 0 0) = 0" by (simp add: unat_le16)
  with assms w have "unat c = 65535 - oc ?s"
    using in_cksum_oc [of "xs @ [0, 0] @ ys"] by (simp add: words16_append)
  then have "sum_list (words16 (xs @ [lo8 c, hi8 c] @ ys)) = ?s + (65535 - oc ?s)"
    using assms(1) w by (simp add: words16_append)
  then have "unat (in_cksum (xs @ [lo8 c, hi8 c] @ ys)) = 0"
    using in_cksum_oc [of "xs @ [lo8 c, hi8 c] @ ys"] assms(2) by (simp add: oc_complement)
  then show ?thesis by (simp add: unat_eq_0)
qed

section \<open>Properties\<close>

text \<open>
  (C33) Up to 131070 bytes, \<^verbatim>\<open>in_cksum\<close>, which adds in 32 bits and folds the carries in once at the end,
  computes the complement of the one's complement sum, where every carry is added back at once.
\<close>

theorem in_cksum_ones_complement:
  assumes "length bs \<le> 131070"
  shows "unat (in_cksum bs) = 65535 - fold (\<lambda>b a. oc_add a b) (words16 bs) 0"
proof -
  have "fold (\<lambda>b a. oc_add a b) (words16 bs) (oc 0) = oc (0 + sum_list (words16 bs))"
    by (rule fold_oc_add) (use words16_bound in blast)
  then show ?thesis using in_cksum_oc [OF assms] by (simp add: oc_def [of 0])
qed

theorem in_cksum_ones_complement_witness:
  "unat (in_cksum [255, 255, 1, 0, 7]) = 65527"
  using in_cksum_ones_complement [of "[255, 255, 1, 0, 7]"] by (simp add: unat_le16 oc_add_def)

text \<open>
  A packet verifies: with the checksum stored in a 16 bit field that was zero while it was computed,
  the checksum of the whole packet is 0. Bytes behind the field may be any, an odd one at the end
  included.
\<close>

theorem in_cksum_verifies:
  assumes "even (length xs)" and "length xs + length ys \<le> 131068"
  shows "let c = in_cksum (xs @ [0, 0] @ ys) in in_cksum (xs @ [lo8 c, hi8 c] @ ys) = 0"
  using in_cksum_stored [OF assms refl] by (simp add: Let_def)

theorem in_cksum_verifies_witness:
  "let c = in_cksum [8, 0, 0, 0, 1, 2, 3] in in_cksum [8, 0, lo8 c, hi8 c, 1, 2, 3] = 0"
  using in_cksum_verifies [of "[8, 0]" "[1, 2, 3]"] by simp

end
