(* ===== verification/Icmp.thy ===== *)
theory Icmp
  imports Net_Helpers
begin

text \<open>
  What the programs that receive ICMP messages share: the message types and codes of the system
  headers, output on the standard output, and the shape of a message that returns a UDP datagram.
\<close>

section \<open>Types and codes\<close>

definition ICMP_ECHOREPLY :: byte where [unp_consts]: "ICMP_ECHOREPLY = 0"
definition ICMP_ECHO :: byte where [unp_consts]: "ICMP_ECHO = 8"
definition ICMP6_ECHO_REQUEST :: byte where [unp_consts]: "ICMP6_ECHO_REQUEST = 128"
definition ICMP6_ECHO_REPLY :: byte where [unp_consts]: "ICMP6_ECHO_REPLY = 129"
definition IPPROTO_ICMPV6 :: int where [unp_consts]: "IPPROTO_ICMPV6 = 58"
definition ICMP6_FILTER :: int where [unp_consts]: "ICMP6_FILTER = 1"
definition ICMP_UNREACH :: byte where [unp_consts]: "ICMP_UNREACH = 3"
definition ICMP_SOURCEQUENCH :: byte where [unp_consts]: "ICMP_SOURCEQUENCH = 4"
definition ICMP_TIMXCEED :: byte where [unp_consts]: "ICMP_TIMXCEED = 11"
definition ICMP_UNREACH_PORT :: byte where [unp_consts]: "ICMP_UNREACH_PORT = 3"
definition ICMP_UNREACH_NEEDFRAG :: byte where [unp_consts]: "ICMP_UNREACH_NEEDFRAG = 4"
definition ICMP6_DST_UNREACH :: byte where [unp_consts]: "ICMP6_DST_UNREACH = 1"
definition ICMP6_PACKET_TOO_BIG :: byte where [unp_consts]: "ICMP6_PACKET_TOO_BIG = 2"
definition ICMP6_TIME_EXCEEDED :: byte where [unp_consts]: "ICMP6_TIME_EXCEEDED = 3"
definition ICMP6_DST_UNREACH_NOPORT :: byte where [unp_consts]: "ICMP6_DST_UNREACH_NOPORT = 4"

definition puts :: "string \<Rightarrow> world \<Rightarrow> world" where
  "puts s w = emit (Stdout s) w"

section \<open>Returned datagrams\<close>

lemma le16_lo_hi: "le16 (lo8 x) (hi8 x) = x"
  by (simp add: le16_lo8_hi8)

text \<open>
  An ICMP message about a UDP datagram: the IP header in front (the first byte gives its length),
  the ICMP header, and of the datagram its own IP header and the ports.
\<close>

record returned =
  r_outer :: bytes
  r_type :: byte
  r_code :: byte
  r_check :: bytes
  r_inner :: bytes
  r_dst :: bytes
  r_options :: bytes
  r_sport :: u16
  r_dport :: u16
  r_rest :: bytes

definition returned_ok :: "returned \<Rightarrow> bool" where
  "returned_ok p \<longleftrightarrow> 20 \<le> length (r_outer p) \<and> length (r_outer p) = 4 * (unat (hd (r_outer p)) mod 16) \<and>
     length (r_check p) = 6 \<and> length (r_inner p) = 16 \<and> length (r_dst p) = 4 \<and>
     20 + length (r_options p) = 4 * (unat (hd (r_inner p)) mod 16) \<and> uint (r_inner p ! 9) = IPPROTO_UDP \<and>
     4 \<le> length (r_rest p)"

definition packet :: "returned \<Rightarrow> bytes" where
  "packet p = r_outer p @ [r_type p, r_code p] @ r_check p @ r_inner p @ r_dst p @ r_options p @
     [lo8 (r_sport p), hi8 (r_sport p), lo8 (r_dport p), hi8 (r_dport p)] @ r_rest p"

lemma packet_parts:
  assumes ok: "returned_ok p" and buf: "buf = packet p @ tail"
  shows "4 * (unat (buf ! 0) mod 16) = length (r_outer p)"
    and "drop (length (r_outer p)) buf ! 0 = r_type p" and "drop (length (r_outer p)) buf ! 1 = r_code p"
    and "drop (length (r_outer p) + 8) buf = r_inner p @ r_dst p @ r_options p @
     [lo8 (r_sport p), hi8 (r_sport p), lo8 (r_dport p), hi8 (r_dport p)] @ r_rest p @ tail"
proof -
  have "buf ! 0 = hd (r_outer p)"
    using ok by (cases "r_outer p") (auto simp: returned_ok_def buf packet_def)
  then show "4 * (unat (buf ! 0) mod 16) = length (r_outer p)" using ok by (simp add: returned_ok_def)
  show "drop (length (r_outer p)) buf ! 0 = r_type p" "drop (length (r_outer p)) buf ! 1 = r_code p"
    by (simp_all add: buf packet_def)
  have "drop (length (r_outer p) + 8) buf = drop 8 (drop (length (r_outer p)) buf)" by (simp add: add.commute)
  then show "drop (length (r_outer p) + 8) buf = r_inner p @ r_dst p @ r_options p @
     [lo8 (r_sport p), hi8 (r_sport p), lo8 (r_dport p), hi8 (r_dport p)] @ r_rest p @ tail"
    using ok by (simp add: returned_ok_def buf packet_def)
qed

text \<open>The datagram's own header, the offsets into it and the ports behind it.\<close>

lemma header_parts:
  assumes ok: "returned_ok p" and hip: "hip = r_inner p @ r_dst p @ r_options p @
     [lo8 (r_sport p), hi8 (r_sport p), lo8 (r_dport p), hi8 (r_dport p)] @ r_rest p @ tail"
  shows "uint (hip ! 9) = IPPROTO_UDP" and "take 4 (drop 16 hip) = r_dst p"
    and "le16 (drop (4 * (unat (hip ! 0) mod 16)) hip ! 0) (drop (4 * (unat (hip ! 0) mod 16)) hip ! 1) = r_sport p"
    and "le16 (drop (4 * (unat (hip ! 0) mod 16)) hip ! 2) (drop (4 * (unat (hip ! 0) mod 16)) hip ! 3) = r_dport p"
proof -
  show "uint (hip ! 9) = IPPROTO_UDP" "take 4 (drop 16 hip) = r_dst p"
    using ok by (simp_all add: returned_ok_def hip nth_append)
  have "hip ! 0 = hd (r_inner p)"
    using ok by (cases "r_inner p") (auto simp: returned_ok_def hip)
  then have "4 * (unat (hip ! 0) mod 16) = length (r_inner p @ r_dst p @ r_options p)"
    using ok by (simp add: returned_ok_def)
  then have udp: "drop (4 * (unat (hip ! 0) mod 16)) hip =
      [lo8 (r_sport p), hi8 (r_sport p), lo8 (r_dport p), hi8 (r_dport p)] @ r_rest p @ tail"
    unfolding hip by simp
  show "le16 (drop (4 * (unat (hip ! 0) mod 16)) hip ! 0) (drop (4 * (unat (hip ! 0) mod 16)) hip ! 1) = r_sport p"
    "le16 (drop (4 * (unat (hip ! 0) mod 16)) hip ! 2) (drop (4 * (unat (hip ! 0) mod 16)) hip ! 3) = r_dport p"
    unfolding udp by (simp_all add: le16_lo_hi eval_nat_numeral)
qed

end
