(* ===== verification/Ping.thy ===== *)
theory Ping
  imports Rtt In_Cksum Icmp
begin

text \<open>
  The ping program of \<^verbatim>\<open>ping\<close>: \<^verbatim>\<open>send_v4.c\<close> and \<^verbatim>\<open>send_v6.c\<close> build the echo requests,
  \<^verbatim>\<open>proc_v4.c\<close> and \<^verbatim>\<open>proc_v6.c\<close> filter and report what arrives, \<^verbatim>\<open>readloop.c\<close> and
  \<^verbatim>\<open>sig_alrm.c\<close> drive them. Packets are the bytes the kernel gets and delivers. The expiry of the
  one second timer is the answer \<^verbatim>\<open>EINTR\<close> of the \<^verbatim>\<open>recvmsg\<close> it interrupts.
\<close>

section \<open>The state of the program\<close>

definition PING_BUFSIZE :: nat where [unp_consts]: "PING_BUFSIZE = 1500"
definition IPV6_RECVHOPLIMIT :: int where [unp_consts]: "IPV6_RECVHOPLIMIT = 51"
definition IPV6_HOPLIMIT :: int where [unp_consts]: "IPV6_HOPLIMIT = 52"
definition SO_RCVBUF :: int where [unp_consts]: "SO_RCVBUF = 8"

datatype ping_proto = Proto_v4 | Proto_v6

record ping =
  datalen :: nat
  nsent :: int
  pid :: int
  sockfd :: fd
  verbose :: int
  proto :: ping_proto
  sasend :: sockaddr
  sarecv :: sockaddr
  salen :: nat
  recvbuf :: bytes

fun icmpproto :: "ping_proto \<Rightarrow> int" where
  "icmpproto Proto_v4 = IPPROTO_ICMP"
| "icmpproto Proto_v6 = IPPROTO_ICMPV6"

text \<open>A \<^verbatim>\<open>struct timeval\<close> in memory: two signed 64 bit numbers.\<close>

definition timeval_bytes :: "int \<times> int \<Rightarrow> bytes" where
  "timeval_bytes tv = le_bytes 8 (unat (word_of_int (fst tv) :: 64 word)) @
     le_bytes 8 (unat (word_of_int (snd tv) :: 64 word))"

definition timeval_of :: "bytes \<Rightarrow> int \<times> int" where
  "timeval_of bs = (sint (word_of_nat (le_nat (take 8 bs)) :: 64 word),
     sint (word_of_nat (le_nat (take 8 (drop 8 bs))) :: 64 word))"

section \<open>Sending\<close>

text \<open>The eight bytes of an ICMP echo header; identifier and sequence number are stored as they are.\<close>

definition echo_header :: "byte \<Rightarrow> u16 \<Rightarrow> u16 \<Rightarrow> u16 \<Rightarrow> bytes" where
  "echo_header type cksum ident seq =
     [type, 0] @ [lo8 cksum, hi8 cksum] @ [lo8 ident, hi8 ident, lo8 seq, hi8 seq]"

text \<open>The packet: header and data, and then the checksum over both.\<close>

definition v4_packet :: "nat \<Rightarrow> u16 \<Rightarrow> u16 \<Rightarrow> int \<times> int \<Rightarrow> bytes" where
  "v4_packet dlen ident seq tv =
     (let len = 8 + dlen;
          icmp = take len (echo_header ICMP_ECHO 0 ident seq @ fill (timeval_bytes tv) (replicate dlen 0xa5));
          icmp_cksum = in_cksum icmp
      in take 2 icmp @ [lo8 icmp_cksum, hi8 icmp_cksum] @ drop 4 icmp)"

definition send_v4 :: "ping \<Rightarrow> world \<Rightarrow> ping run" where
  "send_v4 p w =
     (let ident = word_of_int (pid p); seq = word_of_int (nsent p); p = p\<lparr>nsent := nsent p + 1\<rparr>
      in then_run (Gettimeofday w) (\<lambda>tv w.
         then_run (Sendto (sockfd p) (v4_packet (datalen p) ident seq tv) 0 (sasend p) w) (\<lambda>_ w. Ret p w)))"

definition send_v6 :: "ping \<Rightarrow> world \<Rightarrow> ping run" where
  "send_v6 p w =
     (let ident = word_of_int (pid p); seq = word_of_int (nsent p); p = p\<lparr>nsent := nsent p + 1\<rparr>;
          pattern = replicate (datalen p) 0xa5
      in then_run (Gettimeofday w) (\<lambda>tv w.
        let len = 8 + datalen p;
            icmp6 = take len (echo_header ICMP6_ECHO_REQUEST 0 ident seq @ fill (timeval_bytes tv) pattern)
        in then_run (Sendto (sockfd p) icmp6 0 (sasend p) w) (\<lambda>_ w. Ret p w)))"

fun fsend :: "ping_proto \<Rightarrow> ping \<Rightarrow> world \<Rightarrow> ping run" where
  "fsend Proto_v4 p w = send_v4 p w"
| "fsend Proto_v6 p w = send_v6 p w"

definition ping_sig_alrm :: "ping \<Rightarrow> world \<Rightarrow> ping run" where
  "ping_sig_alrm p w = then_run (fsend (proto p) p w) (\<lambda>p w.
     then_run (call_quietly (C_alarm 1) w) (\<lambda>_ w. Ret p w))"

section \<open>Receiving\<close>

text \<open>Milliseconds between two times, computed in \<^verbatim>\<open>double\<close>.\<close>

definition rtt_ms :: "int \<times> int \<Rightarrow> rat" where
  "rtt_ms tv = to_double (to_double (to_double (of_int (fst tv)) * 1000) +
     to_double (to_double (of_int (snd tv)) / 1000))"

definition proc_v4 :: "ping \<Rightarrow> int \<Rightarrow> int \<times> int \<Rightarrow> world \<Rightarrow> unit run" where
  "proc_v4 p len tvrecv w =
     (let ip = recvbuf p; hlen1 = 4 * (unat (ip ! 0) mod 16); icmp = drop hlen1 ip;
          icmplen = len - int hlen1
      in if uint (ip ! 9) \<noteq> IPPROTO_ICMP then Ret () w
         else if icmplen < 8 then Ret () w
         else if icmp ! 0 = ICMP_ECHOREPLY then
           (if uint (le16 (icmp ! 4) (icmp ! 5)) \<noteq> pid p then Ret () w
            else if icmplen < 16 then Ret () w
            else let rtt = rtt_ms (tv_sub tvrecv (timeval_of (drop 8 icmp))) in
              then_run (Sock_ntop_host (sarecv p) (salen p) w) (\<lambda>host w. Ret ()
                (puts (decz icmplen @ '' bytes from '' @ host @ '': seq='' @ dec (unat (le16 (icmp ! 6) (icmp ! 7))) @
                   '', ttl='' @ dec (unat (ip ! 8)) @ '', rtt='' @ fmt3 rtt @ '' ms'' @ [CHR 0x0A]) w)))
         else if verbose p \<noteq> 0 then
           then_run (Sock_ntop_host (sarecv p) (salen p) w) (\<lambda>host w. Ret ()
             (puts (''  '' @ decz icmplen @ '' bytes from '' @ host @ '': type = '' @ dec (unat (icmp ! 0)) @
                '', code = '' @ dec (unat (icmp ! 1)) @ [CHR 0x0A]) w))
         else Ret () w)"

definition hop_limit :: "cmsg list \<Rightarrow> int" where
  "hop_limit msg = (case find (\<lambda>c. cmsg_level c = IPPROTO_IPV6 \<and> cmsg_type c = IPV6_HOPLIMIT) msg of
     Some c \<Rightarrow> cmsg_int c | None \<Rightarrow> - 1)"

definition proc_v6 :: "ping \<Rightarrow> int \<Rightarrow> cmsg list \<Rightarrow> int \<times> int \<Rightarrow> world \<Rightarrow> unit run" where
  "proc_v6 p len msg tvrecv w =
     (let icmp6 = recvbuf p
      in if len < 8 then Ret () w
         else if icmp6 ! 0 = ICMP6_ECHO_REPLY then
           (if uint (le16 (icmp6 ! 4) (icmp6 ! 5)) \<noteq> pid p then Ret () w
            else if len < 16 then Ret () w
            else let rtt = rtt_ms (tv_sub tvrecv (timeval_of (drop 8 icmp6))); hlim = hop_limit msg in
              then_run (Sock_ntop_host (sarecv p) (salen p) w) (\<lambda>host w.
                let w = puts (decz len @ '' bytes from '' @ host @ '': seq='' @
                      dec (unat (le16 (icmp6 ! 6) (icmp6 ! 7))) @ '', hlim='') w;
                    w = puts (if hlim = - 1 then ''???'' else decz hlim) w
                in Ret () (puts ('', rtt='' @ fmt3 rtt @ '' ms'' @ [CHR 0x0A]) w)))
         else if verbose p \<noteq> 0 then
           then_run (Sock_ntop_host (sarecv p) (salen p) w) (\<lambda>host w. Ret ()
             (puts (''  '' @ decz len @ '' bytes from '' @ host @ '': type = '' @ dec (unat (icmp6 ! 0)) @
                '', code = '' @ dec (unat (icmp6 ! 1)) @ [CHR 0x0A]) w))
         else Ret () w)"

fun fproc :: "ping_proto \<Rightarrow> ping \<Rightarrow> int \<Rightarrow> cmsg list \<Rightarrow> int \<times> int \<Rightarrow> world \<Rightarrow> unit run" where
  "fproc Proto_v4 p n msg tv w = proc_v4 p n tv w"
| "fproc Proto_v6 p n msg tv w = proc_v6 p n msg tv w"

text \<open>The bits of \<^verbatim>\<open>struct icmp6_filter\<close> that are set block a type.\<close>

definition echo_reply_filter :: bytes where
  "echo_reply_filter = (replicate 32 0xff)[16 := 0xfd]"

definition init_v6 :: "ping \<Rightarrow> world \<Rightarrow> unit run" where
  "init_v6 p w =
     then_run (if verbose p = 0
               then call_quietly (C_setsockopt (sockfd p) IPPROTO_IPV6 ICMP6_FILTER (OV_bytes echo_reply_filter)) w
               else Ret () w) (\<lambda>_ w.
       call_quietly (C_setsockopt (sockfd p) IPPROTO_IPV6 IPV6_RECVHOPLIMIT (OV_int 1)) w)"

section \<open>The main program\<close>

lemma Sock_ntop_host_Ret: "Sock_ntop_host sa n w = Ret h w' \<longleftrightarrow> w' = w \<and> sock_ntop_host sa n = Inr h"
  by (auto simp: Sock_ntop_host_def err_sys_def split: sum.splits)

lemma fproc_consumes: "fproc pr p n msg tv w = Ret x w' \<Longrightarrow> script w' = script w"
  by (cases pr)
     (auto simp: proc_v4_def proc_v6_def Let_def then_run_Ret_iff Sock_ntop_host_Ret puts_def split: if_splits)

lemma ping_sig_alrm_consumes:
  "ping_sig_alrm p w = Ret x w' \<Longrightarrow> length (script w') < length (script w)"
  by (cases "proto p") (auto simp: ping_sig_alrm_def then_run_Ret_iff send_v4_def send_v6_def Let_def
      dest!: Gettimeofday_consumes Sendto_consumes call_quietly_consumes)

function readloop_recv :: "ping \<Rightarrow> world \<Rightarrow> unit run" where
  "readloop_recv p w =
     then_run (sys_recvmsg (sockfd p) PING_BUFSIZE w) (\<lambda>r w. case r of (n, data, sa, msg) \<Rightarrow>
       if n < 0 then
         (if errno w = EINTR then then_run (ping_sig_alrm p w) (\<lambda>p w. readloop_recv p w)
          else err_sys ''recvmsg error'' w)
       else
         let p = p\<lparr>recvbuf := fill data (recvbuf p), sarecv := sa\<rparr> in
         then_run (Gettimeofday w) (\<lambda>tval w.
         then_run (fproc (proto p) p n msg tval w) (\<lambda>_ w. readloop_recv p w)))"
  by pat_completeness auto
termination
  by (relation "measure (\<lambda>(p, w). length (script w))")
     (auto dest!: sys_recvmsg_consumes ping_sig_alrm_consumes Gettimeofday_consumes fproc_consumes)

declare readloop_recv.simps [simp del]

definition readloop :: "ping \<Rightarrow> world \<Rightarrow> unit run" where
  "readloop p w =
     then_run (Socket (sa_family (sasend p)) SOCK_RAW (icmpproto (proto p)) w) (\<lambda>fd w.
     let p = p\<lparr>sockfd := fd\<rparr> in
     then_run (sys_int (C_other ''getuid'' []) w) (\<lambda>uid w.
     then_run (call_quietly (C_other ''setuid'' [uid]) w) (\<lambda>_ w.
     then_run (if proto p = Proto_v6 then init_v6 p w else Ret () w) (\<lambda>_ w.
     then_run (call_quietly (C_setsockopt fd SOL_SOCKET SO_RCVBUF (OV_int (60 * 1024))) w) (\<lambda>_ w.
     then_run (ping_sig_alrm p w) (\<lambda>p w.
       readloop_recv p w))))))"

text \<open>
  \<open>opts\<close> are the letters \<^verbatim>\<open>getopt\<close> returns one after the other, \<open>args\<close> what it leaves of the
  command line.
\<close>

fun ping_options :: "char list \<Rightarrow> int \<Rightarrow> world \<Rightarrow> int run" where
  "ping_options [] v w = Ret v w"
| "ping_options (c # cs) v w =
     (if c = CHR ''v'' then ping_options cs (v + 1) w
      else if c = CHR ''?'' then err_quit (''unrecognized option: '' @ [c]) w
      else ping_options cs v w)"

definition in6_is_v4mapped :: "bytes \<Rightarrow> bool" where
  "in6_is_v4mapped a \<longleftrightarrow> take 12 a = replicate 10 0 @ [0xff, 0xff]"

definition ping_main ::
  "gai \<Rightarrow> (int \<Rightarrow> string) \<Rightarrow> int \<Rightarrow> char list \<Rightarrow> string list \<Rightarrow> world \<Rightarrow> unit run" where
  "ping_main gai gai_strerror sig_alrm opts args w =
     then_run (ping_options opts 0 w) (\<lambda>verbose w.
     if length args \<noteq> 1 then err_quit ''usage: ping [ -v ] <hostname>'' w
     else
       then_run (sys_int (C_other ''getpid'' []) w) (\<lambda>pid w.
       then_run (Signal SIGALRM sig_alrm w) (\<lambda>_ w.
       then_run (Host_serv gai gai_strerror (Some (hd args)) None 0 0 w) (\<lambda>ais w.
       let ai = hd ais in
       then_run (Sock_ntop_host (ai_addr ai) (ai_addrlen ai) w) (\<lambda>h w.
       let w = puts (''PING '' @ (case ai_canonname ai of Some n \<Rightarrow> n | None \<Rightarrow> h) @ '' ('' @ h @ ''): '' @
             dec 56 @ '' data bytes'' @ [CHR 0x0A]) w in
       then_run (if ai_family ai = AF_INET then Ret Proto_v4 w
                 else if ai_family ai = AF_INET6 then
                   (case ai_addr ai of
                      SA_in6 port flow addr scope \<Rightarrow>
                        if in6_is_v4mapped addr then err_quit ''cannot ping IPv4-mapped IPv6 address'' w
                        else Ret Proto_v6 w
                    | _ \<Rightarrow> Ret Proto_v6 w)
                 else err_quit (''unknown address family '' @ decz (ai_family ai)) w) (\<lambda>pr w.
       then_run (Calloc 1 (ai_addrlen ai) w) (\<lambda>_ w.
       then_run (readloop \<lparr>datalen = 56, nsent = 0, pid = pid AND 0xffff, sockfd = 0, verbose = verbose,
           proto = pr, sasend = ai_addr ai, sarecv = SA_other 0, salen = ai_addrlen ai,
           recvbuf = replicate PING_BUFSIZE 0\<rparr> w) (\<lambda>_ w. Exit 0 w))))))))"

section \<open>Packets\<close>

lemma length_timeval_bytes [simp]: "length (timeval_bytes tv) = 16"
  by (simp add: timeval_bytes_def)

definition time_fits :: "int \<times> int \<Rightarrow> bool" where
  "time_fits tv \<longleftrightarrow> fst tv \<in> {- (2 ^ 63)..<2 ^ 63} \<and> snd tv \<in> {- (2 ^ 63)..<2 ^ 63}"

lemma le_nat_word64: "le_nat (le_bytes 8 (unat (x :: 64 word))) = unat x"
proof -
  have "unat x < 256 ^ 8" using unsigned_less [of x, where 'a = nat] by simp
  then show ?thesis by (simp add: le_nat_le_bytes)
qed

lemma sint_word64: "i \<in> {- (2 ^ 63)..<2 ^ 63} \<Longrightarrow> sint (word_of_int i :: 64 word) = i"
  by (simp add: signed_of_int signed_take_bit_int_eq_self [of 63])

lemma timeval_of_bytes: "time_fits tv \<Longrightarrow> timeval_of (timeval_bytes tv @ rest) = tv"
  by (simp add: timeval_of_def timeval_bytes_def time_fits_def le_nat_word64 sint_word64)

lemma Gettimeofday_Ret:
  "Gettimeofday w = Ret tv w' \<longleftrightarrow> (\<exists>a s. script w = a # s \<and> a_err a = 0 \<and> tv = a_time a \<and>
     w' = called C_gettimeofday a s w)"
  by (cases "script w")
     (auto simp: Gettimeofday_def sys_time_def checked_def sys_def err_sys_def)

lemma Sendto_Ret:
  "Sendto fd b fl sa w = Ret x w' \<longleftrightarrow> (\<exists>a s. script w = a # s \<and> a_err a = 0 \<and> length b \<le> a_val a \<and>
     w' = called (C_sendto fd b fl sa) a s w)"
  by (cases "script w")
     (auto simp: Sendto_def void_def checked_def sys_accepts_def sys_def err_sys_def min_def)

text \<open>The request \<^verbatim>\<open>send_v4\<close> hands to the kernel at time \<open>tv\<close>.\<close>

definition echo_request :: "ping \<Rightarrow> int \<times> int \<Rightarrow> bytes \<Rightarrow> bool" where
  "echo_request p tv pkt \<longleftrightarrow> (\<exists>c. pkt = echo_header ICMP_ECHO c (word_of_int (pid p)) (word_of_int (nsent p)) @
     timeval_bytes tv @ replicate (datalen p - 16) 0xa5) \<and> in_cksum pkt = 0"

lemma send_v4_request:
  assumes "send_v4 p w = Ret p' w'" and "16 \<le> datalen p" and "datalen p \<le> 65535"
  shows "p' = p\<lparr>nsent := nsent p + 1\<rparr> \<and> (\<exists>g a pkt. echo_request p (a_time g) pkt \<and>
    trace w' = trace w @ [Sys C_gettimeofday g, Sys (C_sendto (sockfd p) pkt 0 (sasend p)) a])"
proof -
  let ?id = "word_of_int (pid p) :: u16" and ?seq = "word_of_int (nsent p) :: u16"
  from assms(1) obtain g a s where p': "p' = p\<lparr>nsent := nsent p + 1\<rparr>"
    and w': "trace w' = trace w @ [Sys C_gettimeofday g,
       Sys (C_sendto (sockfd p) (v4_packet (datalen p) ?id ?seq (a_time g)) 0 (sasend p)) a]"
    by (auto simp: send_v4_def then_run_Ret_iff Gettimeofday_Ret Sendto_Ret)
  let ?ys = "[lo8 ?id, hi8 ?id, lo8 ?seq, hi8 ?seq] @ timeval_bytes (a_time g) @ replicate (datalen p - 16) 0xa5"
  have icmp: "take (8 + datalen p) (echo_header ICMP_ECHO 0 ?id ?seq @
      fill (timeval_bytes (a_time g)) (replicate (datalen p) 0xa5)) = [8, 0] @ [0, 0] @ ?ys"
    using assms(2) by (simp add: echo_header_def fill_def ICMP_ECHO_def lo8_def hi8_def)
  define c where "c = in_cksum ([8, 0] @ [0, 0] @ ?ys)"
  have pkt: "v4_packet (datalen p) ?id ?seq (a_time g) = [8, 0] @ [lo8 c, hi8 c] @ ?ys"
    unfolding v4_packet_def Let_def icmp c_def by simp
  have "in_cksum ([8, 0] @ [lo8 c, hi8 c] @ ?ys) = 0"
    using assms(2,3) by (intro in_cksum_stored c_def) simp_all
  then have "echo_request p (a_time g) (v4_packet (datalen p) ?id ?seq (a_time g))"
    unfolding echo_request_def pkt by (intro conjI exI [of _ c]) (simp_all add: echo_header_def ICMP_ECHO_def)
  with p' w' show ?thesis by blast
qed

text \<open>What \<^verbatim>\<open>proc_v4\<close> sees of an IP packet with header \<open>hdr\<close> and payload \<open>icmp\<close> in its buffer.\<close>

definition ip_header :: "bytes \<Rightarrow> bool" where
  "ip_header hdr \<longleftrightarrow> 20 \<le> length hdr \<and> length hdr = 4 * (unat (hdr ! 0) mod 16) \<and> uint (hdr ! 9) = IPPROTO_ICMP"

lemma proc_v4_reply:
  assumes "ip_header hdr" and "recvbuf q = hdr @ icmp @ old" and "len = int (length hdr + length icmp)"
    and "icmp = echo_header ICMP_ECHOREPLY c ident seq @ timeval_bytes tv @ rest" and "time_fits tv"
    and "uint ident = pid q" and "sock_ntop_host (sarecv q) (salen q) = Inr host"
  shows "proc_v4 q len tvrecv w = Ret () (puts (decz (int (length icmp)) @ '' bytes from '' @ host @ '': seq='' @
    dec (unat seq) @ '', ttl='' @ dec (unat (hdr ! 8)) @ '', rtt='' @ fmt3 (rtt_ms (tv_sub tvrecv tv)) @ '' ms'' @
    [CHR 0x0A]) w)"
proof -
  have len: "0 < length hdr" "9 < length hdr" "8 < length hdr" using assms(1) by (auto simp: ip_header_def)
  have host: "Sock_ntop_host (sarecv q) (salen q) u = Ret host u" for u
    using assms(7) by (simp add: Sock_ntop_host_def)
  have h: "4 * (unat (recvbuf q ! 0) mod 16) = length hdr" "uint (recvbuf q ! 9) = IPPROTO_ICMP"
    "recvbuf q ! 8 = hdr ! 8" "drop (length hdr) (recvbuf q) = icmp @ old"
    using assms(1,2) len by (simp_all add: ip_header_def nth_append)
  have i: "icmp ! 0 = ICMP_ECHOREPLY" "le16 (icmp ! 4) (icmp ! 5) = ident" "le16 (icmp ! 6) (icmp ! 7) = seq"
    "timeval_of (drop 8 icmp @ old) = tv" "24 \<le> length icmp" "8 \<le> length icmp"
    using assms(5) unfolding assms(4) by (simp_all add: echo_header_def timeval_of_bytes)
  then have j: "(icmp @ old) ! k = icmp ! k" if "k < 8" for k using that by (simp add: nth_append)
  show ?thesis
    using h i j assms(3,6) host by (simp add: proc_v4_def Let_def)
qed

section \<open>Properties\<close>



end
