(* ===== verification/Gai.thy ===== *)
theory Gai
  imports Net_Helpers
begin

text \<open>
  The name lookups of \<^verbatim>\<open>libgai\<close>: \<^verbatim>\<open>getaddrinfo\<close> with its parts \<^verbatim>\<open>ga_echeck\<close> (argument check),
  \<^verbatim>\<open>ga_nsearch\<close> (which hosts to search), \<^verbatim>\<open>ga_aistruct\<close> (one result entry), \<^verbatim>\<open>ga_serv\<close>,
  \<^verbatim>\<open>ga_port\<close> and \<^verbatim>\<open>ga_clone\<close> (the port, once per socket type), \<^verbatim>\<open>ga_unix\<close>, and the inverse
  \<^verbatim>\<open>getnameinfo\<close> with \<^verbatim>\<open>gn_ipv46\<close>. It is the provider of the lookup that \<^verbatim>\<open>Net_Helpers\<close> takes as
  a parameter; the end of the theory discharges what the clients rely on.

  The name service itself (\<^verbatim>\<open>gethostbyname\<close>, \<^verbatim>\<open>getservbyname\<close>, \<^verbatim>\<open>uname\<close>, ...) is outside the
  repository and is the record \<^verbatim>\<open>resolver\<close> of functions, an argument of every lookup. The linked
  list of results is a list. Memory is a count: how many allocations succeed before one fails
  (no function allocates again after a failure), and how many blocks are allocated.
\<close>

section \<open>Constants of gai_hdr.h and addrinfo.h\<close>

definition AI_CLONE :: int where [unp_consts]: "AI_CLONE = 4"

definition NI_NOFQDN :: int where [unp_consts]: "NI_NOFQDN = 1"
definition NI_NUMERICHOST :: int where [unp_consts]: "NI_NUMERICHOST = 2"
definition NI_NAMEREQD :: int where [unp_consts]: "NI_NAMEREQD = 4"
definition NI_NUMERICSERV :: int where [unp_consts]: "NI_NUMERICSERV = 8"
definition NI_DGRAM :: int where [unp_consts]: "NI_DGRAM = 16"

definition EAI_ADDRFAMILY :: int where [unp_consts]: "EAI_ADDRFAMILY = 1"
definition EAI_AGAIN :: int where [unp_consts]: "EAI_AGAIN = 2"
definition EAI_BADFLAGS :: int where [unp_consts]: "EAI_BADFLAGS = 3"
definition EAI_FAIL :: int where [unp_consts]: "EAI_FAIL = 4"
definition EAI_FAMILY :: int where [unp_consts]: "EAI_FAMILY = 5"
definition EAI_MEMORY :: int where [unp_consts]: "EAI_MEMORY = 6"
definition EAI_NODATA :: int where [unp_consts]: "EAI_NODATA = 7"
definition EAI_NONAME :: int where [unp_consts]: "EAI_NONAME = 8"
definition EAI_SERVICE :: int where [unp_consts]: "EAI_SERVICE = 9"
definition EAI_SOCKTYPE :: int where [unp_consts]: "EAI_SOCKTYPE = 10"
definition EAI_SYSTEM :: int where [unp_consts]: "EAI_SYSTEM = 11"

lemmas EAI_defs = EAI_ADDRFAMILY_def EAI_AGAIN_def EAI_BADFLAGS_def EAI_FAIL_def EAI_FAMILY_def
  EAI_MEMORY_def EAI_NODATA_def EAI_NONAME_def EAI_SERVICE_def EAI_SOCKTYPE_def EAI_SYSTEM_def

lemma EAI_nonzero [simp]:
  "EAI_ADDRFAMILY \<noteq> 0" "EAI_AGAIN \<noteq> 0" "EAI_BADFLAGS \<noteq> 0" "EAI_FAIL \<noteq> 0" "EAI_FAMILY \<noteq> 0"
  "EAI_MEMORY \<noteq> 0" "EAI_NODATA \<noteq> 0" "EAI_NONAME \<noteq> 0" "EAI_SERVICE \<noteq> 0" "EAI_SOCKTYPE \<noteq> 0"
  "EAI_SYSTEM \<noteq> 0"
  by (simp_all add: EAI_defs)

definition gai_strerror :: "int \<Rightarrow> string" where
  "gai_strerror err =
     (if err = EAI_ADDRFAMILY then ''address family for host not supported''
      else if err = EAI_AGAIN then ''temporary failure in name resolution''
      else if err = EAI_BADFLAGS then ''invalid flags value''
      else if err = EAI_FAIL then ''non-recoverable failure in name resolution''
      else if err = EAI_FAMILY then ''address family not supported''
      else if err = EAI_MEMORY then ''memory allocation failure''
      else if err = EAI_NODATA then ''no address associated with host''
      else if err = EAI_NONAME then ''host nor service provided, or not known''
      else if err = EAI_SERVICE then ''service not supported for socket type''
      else if err = EAI_SOCKTYPE then ''socket type not supported''
      else if err = EAI_SYSTEM then ''system error''
      else ''unknown getaddrinfo() error'')"

section \<open>The name service\<close>

text \<open>
  \<^verbatim>\<open>gethostbyname\<close> depends on the option \<^verbatim>\<open>RES_USE_INET6\<close>, its first argument here. A lookup that
  fails yields \<^verbatim>\<open>h_errno\<close>. \<^verbatim>\<open>gethostbyaddr\<close> and the service lookups yield the name or the port
  of the entry they find; \<^verbatim>\<open>uname\<close> the node name or \<^verbatim>\<open>errno\<close>.
\<close>

record hostent =
  h_name :: string
  h_addrtype :: int
  h_addr_list :: "bytes list"

record resolver =
  gethostbyname2 :: "string \<Rightarrow> int \<Rightarrow> int + hostent"
  gethostbyname :: "bool \<Rightarrow> string \<Rightarrow> int + hostent"
  gethostbyaddr :: "bytes \<Rightarrow> int \<Rightarrow> string option"
  getservbyname :: "string \<Rightarrow> string \<Rightarrow> u16 option"
  getservbyport :: "u16 \<Rightarrow> string option \<Rightarrow> string option"
  uname_nodename :: "int + string"

section \<open>Memory\<close>

record heap =
  room :: nat
  live :: nat

definition alloc :: "heap \<Rightarrow> heap option" where
  "alloc h = (if room h = 0 then None else Some (h\<lparr>room := room h - 1, live := live h + 1\<rparr>))"

definition release :: "heap \<Rightarrow> heap" where "release h = h\<lparr>live := live h - 1\<rparr>"

text \<open>The null pointer in \<^verbatim>\<open>ai_addr\<close>, as \<^verbatim>\<open>calloc\<close> leaves it.\<close>

definition no_addr :: sockaddr where "no_addr = SA_other 0"

fun freeaddrinfo :: "addrinfo list \<Rightarrow> heap \<Rightarrow> heap" where
  "freeaddrinfo [] h = h"
| "freeaddrinfo (ai # rest) h =
     (let h = (if ai_addr ai \<noteq> no_addr then release h else h);
          h = (if ai_canonname ai \<noteq> None then release h else h) in
      freeaddrinfo rest (release h))"

section \<open>The parts of getaddrinfo\<close>

definition no_text :: "string option \<Rightarrow> bool" where
  "no_text s \<longleftrightarrow> s = None \<or> s = Some []"

definition ga_echeck :: "string option \<Rightarrow> string option \<Rightarrow> int \<Rightarrow> int \<Rightarrow> int \<Rightarrow> int \<Rightarrow> int" where
  "ga_echeck hostname servname flags family socktype protocol =
     (if flags AND NOT (AI_PASSIVE OR AI_CANONNAME) \<noteq> 0 then EAI_BADFLAGS
      else if no_text hostname \<and> no_text servname then EAI_NONAME
      else if family = AF_UNSPEC then 0
      else if family = AF_INET \<or> family = AF_INET6 then
        (if socktype \<noteq> 0 \<and> socktype \<noteq> SOCK_STREAM \<and> socktype \<noteq> SOCK_DGRAM \<and> socktype \<noteq> SOCK_RAW
         then EAI_SOCKTYPE else 0)
      else if family = AF_UNIX then
        (if socktype \<noteq> 0 \<and> socktype \<noteq> SOCK_STREAM \<and> socktype \<noteq> SOCK_DGRAM
         then EAI_SOCKTYPE else 0)
      else EAI_FAMILY)"

text \<open>The search array: hosts and families to look up.\<close>

definition ga_searches :: "string option \<Rightarrow> addrinfo \<Rightarrow> (string \<times> int) list" where
  "ga_searches hostname hints =
     (let family = ai_family hints;
          both = (\<lambda>h6 h4. if family = AF_INET then [(h4, AF_INET)]
            else if family = AF_INET6 then [(h6, AF_INET6)]
            else if family = AF_UNSPEC then [(h6, AF_INET6), (h4, AF_INET)]
            else []) in
      if no_text hostname then
        (if ai_flags hints AND AI_PASSIVE \<noteq> 0 then both ''0::0'' ''0.0.0.0''
         else both ''0::1'' ''localhost'')
      else both (the hostname) (the hostname))"

definition ga_nsearch :: "string option \<Rightarrow> addrinfo \<Rightarrow> world \<Rightarrow> (string \<times> int) list run" where
  "ga_nsearch hostname hints w =
     (let search = ga_searches hostname hints; nsearch = length search in
      if nsearch < 1 \<or> nsearch > 2 then err_quit (''nsearch = '' @ dec nsearch) w
      else Ret search w)"

text \<open>
  \<^verbatim>\<open>ga_aistruct\<close> gets its address as a \<^verbatim>\<open>void *\<close>: to the bytes of an address or to a path. It
  appends the new entry to the list before the socket address is allocated. The lengths are those
  of the structures on the platform.
\<close>

datatype vptr = V_bytes bytes | V_text string

fun ptr_bytes :: "vptr \<Rightarrow> bytes" where
  "ptr_bytes (V_bytes b) = b"
| "ptr_bytes (V_text s) = bytes_of_string s"

fun ptr_text :: "vptr \<Rightarrow> string" where
  "ptr_text (V_text s) = s"
| "ptr_text (V_bytes b) = map (\<lambda>x. char_of (unat x)) b"

definition ga_aistruct ::
  "addrinfo list \<Rightarrow> addrinfo \<Rightarrow> vptr \<Rightarrow> int \<Rightarrow> heap \<Rightarrow> world \<Rightarrow> (int \<times> addrinfo list \<times> heap) run" where
  "ga_aistruct ais hints addr family h w =
     (case alloc h of
        None \<Rightarrow> Ret (EAI_MEMORY, ais, h) w
      | Some h \<Rightarrow>
        let ai = no_hints\<lparr>ai_flags := (if ai_socktype hints = 0 then AI_CLONE else 0),
              ai_socktype := ai_socktype hints, ai_protocol := ai_protocol hints,
              ai_family := family\<rparr> in
        if family = AF_INET then
          (case alloc h of
             None \<Rightarrow> Ret (EAI_MEMORY, ais @ [ai], h) w
           | Some h \<Rightarrow> Ret (0, ais @ [ai\<lparr>ai_addr := SA_in 0 (take 4 (ptr_bytes addr)),
               ai_addrlen := 16\<rparr>], h) w)
        else if family = AF_INET6 then
          (case alloc h of
             None \<Rightarrow> Ret (EAI_MEMORY, ais @ [ai], h) w
           | Some h \<Rightarrow> Ret (0, ais @ [ai\<lparr>ai_addr := SA_in6 0 0 (take 16 (ptr_bytes addr)) 0,
               ai_addrlen := 28\<rparr>], h) w)
        else if family = AF_UNIX then
          (if length (ptr_text addr) \<ge> 108 then Ret (EAI_SERVICE, ais @ [ai], h) w
           else case alloc h of
             None \<Rightarrow> Ret (EAI_MEMORY, ais @ [ai], h) w
           | Some h \<Rightarrow>
               then_run (if ai_flags hints AND AI_PASSIVE \<noteq> 0
                         then void (sys_unit (C_unlink (ptr_text addr)) w) else Ret () w) (\<lambda>_ w.
                 Ret (0, ais @ [ai\<lparr>ai_addr := SA_un (ptr_text addr), ai_addrlen := 110\<rparr>], h) w))
        else Ret (0, ais @ [ai], h) w)"

definition ga_unix ::
  "resolver \<Rightarrow> string \<Rightarrow> addrinfo \<Rightarrow> heap \<Rightarrow> world \<Rightarrow> (int \<times> addrinfo list \<times> heap) run" where
  "ga_unix R path hints h w =
     (if ai_family hints \<noteq> AF_UNSPEC \<and> ai_family hints \<noteq> AF_UNIX then Ret (EAI_ADDRFAMILY, [], h) w
      else
        then_run (if ai_socktype hints = 0 then
            then_run (ga_aistruct [] (hints\<lparr>ai_socktype := SOCK_STREAM\<rparr>) (V_text path) AF_UNIX h w)
              (\<lambda>(rc, ais, h) w. Ret (rc, ais, hints\<lparr>ai_socktype := SOCK_DGRAM\<rparr>, h) w)
          else Ret (0, [], hints, h) w) (\<lambda>(rc, ais, hints, h) w.
        if rc \<noteq> 0 then Ret (rc, [], h) w
        else then_run (ga_aistruct ais hints (V_text path) AF_UNIX h w) (\<lambda>(rc, ais, h) w.
          if rc \<noteq> 0 then Ret (rc, [], h) w
          else if ai_flags hints AND AI_CANONNAME \<noteq> 0 then
            (case uname_nodename R of
               Inl e \<Rightarrow> Ret (EAI_SYSTEM, [], h) w
             | Inr nodename \<Rightarrow> (case alloc h of
                   None \<Rightarrow> Ret (EAI_MEMORY, [], h) w
                 | Some h \<Rightarrow> Ret (0, (hd ais)\<lparr>ai_canonname := Some nodename\<rparr> # tl ais, h) w))
          else Ret (0, ais, h) w)))"

section \<open>Ports and socket types\<close>

text \<open>
  \<^verbatim>\<open>ga_clone\<close> links a copy of an entry behind it; the copy stays in the list when the allocation of
  its address fails.
\<close>

definition ga_clone :: "addrinfo \<Rightarrow> heap \<Rightarrow> bool \<times> addrinfo list \<times> heap" where
  "ga_clone ai h =
     (case alloc h of
        None \<Rightarrow> (False, [], h)
      | Some h \<Rightarrow>
        let new = ai\<lparr>ai_flags := 0, ai_canonname := None, ai_addr := no_addr\<rparr> in
        (case alloc h of
           None \<Rightarrow> (False, [new], h)
         | Some h \<Rightarrow> (True, [new\<lparr>ai_addr := ai_addr ai\<rparr>], h)))"

text \<open>The body of the loop of \<^verbatim>\<open>ga_port\<close>: store socket type and port, and count the entry.\<close>

definition put_port :: "u16 \<Rightarrow> int \<Rightarrow> addrinfo \<Rightarrow> addrinfo \<times> nat" where
  "put_port port socktype ai =
     (let ai = ai\<lparr>ai_socktype := socktype\<rparr> in
      if ai_family ai = AF_INET then
        (ai\<lparr>ai_addr := (case ai_addr ai of SA_in p a \<Rightarrow> SA_in port a | sa \<Rightarrow> sa)\<rparr>, 1)
      else if ai_family ai = AF_INET6 then
        (ai\<lparr>ai_addr := (case ai_addr ai of SA_in6 p f a s \<Rightarrow> SA_in6 port f a s | sa \<Rightarrow> sa)\<rparr>, 1)
      else (ai, 0))"

text \<open>The number of entries set, or \<^verbatim>\<open>None\<close> for \<open>- 1\<close>, the list and the memory afterwards.\<close>

fun ga_port ::
  "addrinfo list \<Rightarrow> u16 \<Rightarrow> int \<Rightarrow> heap \<Rightarrow> nat option \<times> addrinfo list \<times> heap" where
  "ga_port [] port socktype h = (Some 0, [], h)"
| "ga_port (ai # rest) port socktype h =
     (let clone = ai_flags ai AND AI_CLONE \<noteq> 0 \<and> ai_socktype ai \<noteq> 0;
          skip = ai_flags ai AND AI_CLONE = 0 \<and> ai_socktype ai \<noteq> socktype;
          (ok, new, h) = (if clone then ga_clone ai h else (True, [], h)) in
      if \<not> ok then (None, ai # new @ rest, h)
      else
        let (n, rest, h) = ga_port rest port socktype h in
        if skip then (n, ai # rest, h)
        else case new of
            [] \<Rightarrow> (let (ai, k) = put_port port socktype ai in (map_option ((+) k) n, ai # rest, h))
          | new # _ \<Rightarrow> (let (new, k) = put_port port socktype new in
              (map_option ((+) k) n, ai # new # rest, h)))"

text \<open>
  \<^verbatim>\<open>ga_serv\<close> calls \<^verbatim>\<open>ga_port\<close> once or twice; \<open>ports\<close> are the ports and socket types of these calls.
  \<^verbatim>\<open>htons\<close> takes the low 16 bits of a port number.
\<close>

definition serv_port :: "resolver \<Rightarrow> string \<Rightarrow> string \<Rightarrow> int \<Rightarrow> (u16 \<times> int) list" where
  "serv_port R serv proto socktype =
     (case getservbyname R serv proto of Some port \<Rightarrow> [(port, socktype)] | None \<Rightarrow> [])"

definition ga_ports :: "resolver \<Rightarrow> int \<Rightarrow> string \<Rightarrow> (u16 \<times> int) list" where
  "ga_ports R socktype serv =
     (if digit (hd serv) \<noteq> None then
        (let port = htons (word_of_int (atoi serv)) in
         if socktype \<noteq> 0 then [(port, socktype)] else [(port, SOCK_STREAM), (port, SOCK_DGRAM)])
      else
        (if socktype = 0 \<or> socktype = SOCK_STREAM then serv_port R serv ''tcp'' SOCK_STREAM else []) @
        (if socktype = 0 \<or> socktype = SOCK_DGRAM then serv_port R serv ''udp'' SOCK_DGRAM else []))"

fun ga_port_all ::
  "addrinfo list \<Rightarrow> (u16 \<times> int) list \<Rightarrow> heap \<Rightarrow> nat option \<times> addrinfo list \<times> heap" where
  "ga_port_all ais [] h = (Some 0, ais, h)"
| "ga_port_all ais ((port, socktype) # ports) h =
     (case ga_port ais port socktype h of
        (None, ais, h) \<Rightarrow> (None, ais, h)
      | (Some rc, ais, h) \<Rightarrow> (case ga_port_all ais ports h of
            (n, ais, h) \<Rightarrow> (map_option ((+) rc) n, ais, h)))"

definition ga_serv ::
  "resolver \<Rightarrow> addrinfo list \<Rightarrow> addrinfo \<Rightarrow> string \<Rightarrow> heap \<Rightarrow> int \<times> addrinfo list \<times> heap" where
  "ga_serv R ais hints serv h =
     (case ga_port_all ais (ga_ports R (ai_socktype hints) serv) h of
        (None, ais, h) \<Rightarrow> (EAI_MEMORY, ais, h)
      | (Some nfound, ais, h) \<Rightarrow>
          (if nfound = 0 then (if ai_socktype hints = 0 then EAI_NONAME else EAI_SERVICE) else 0,
           ais, h))"

section \<open>getaddrinfo\<close>

text \<open>A numeric host: the bytes of the address when the guard and \<^verbatim>\<open>inet_pton\<close> accept the text.\<close>

definition numeric4 :: "string \<Rightarrow> bytes option" where
  "numeric4 host =
     (if host \<noteq> [] \<and> digit (hd host) \<noteq> None
      then (case inet_pton AF_INET host of Inr r \<Rightarrow> r | Inl e \<Rightarrow> None) else None)"

definition numeric6 :: "string \<Rightarrow> bytes option" where
  "numeric6 host =
     (if host \<noteq> [] \<and> (xdigit (hd host) \<noteq> None \<or> hd host = CHR '':'') \<and> strchr host CHR '':'' \<noteq> None
      then (case inet_pton AF_INET6 host of Inr r \<Rightarrow> r | Inl e \<Rightarrow> None) else None)"

definition gai_h_error :: "int \<Rightarrow> int" where
  "gai_h_error e =
     (if e = HOST_NOT_FOUND then EAI_NONAME else if e = TRY_AGAIN then EAI_AGAIN
      else if e = NO_RECOVERY then EAI_FAIL else if e = NO_DATA then EAI_NODATA else EAI_NONAME)"

text \<open>One entry for each address of a host.\<close>

fun ga_addrs ::
  "addrinfo list \<Rightarrow> addrinfo \<Rightarrow> bytes list \<Rightarrow> int \<Rightarrow> heap \<Rightarrow> world \<Rightarrow> (int \<times> addrinfo list \<times> heap) run"
where
  "ga_addrs ais hints [] family h w = Ret (0, ais, h) w"
| "ga_addrs ais hints (ap # aps) family h w =
     then_run (ga_aistruct ais hints (V_bytes ap) family h w) (\<lambda>r w. case r of (rc, ais, h) \<Rightarrow>
       if rc \<noteq> 0 then Ret (rc, ais, h) w else ga_addrs ais hints aps family h w)"

definition ga_resolve :: "resolver \<Rightarrow> nat \<Rightarrow> string \<Rightarrow> int \<Rightarrow> int + hostent" where
  "ga_resolve R nsearch host family =
     (if nsearch = 2 then gethostbyname2 R host family
      else gethostbyname R (family = AF_INET6) host)"

text \<open>
  The body of the loop over the search array. The result code is \<open>0\<close> to go on with the next host.
\<close>

definition ga_host ::
  "resolver \<Rightarrow> string option \<Rightarrow> addrinfo \<Rightarrow> nat \<Rightarrow> string \<Rightarrow> int \<Rightarrow> addrinfo list \<Rightarrow> string option \<Rightarrow>
     heap \<Rightarrow> world \<Rightarrow> (int \<times> addrinfo list \<times> string option \<times> heap) run" where
  "ga_host R hostname hints nsearch host family ais canon h w =
     (let numeric = (\<lambda>inaddr af.
            if ai_family hints \<noteq> AF_UNSPEC \<and> ai_family hints \<noteq> af
            then Ret (EAI_ADDRFAMILY, ais, canon, h) w
            else if family \<noteq> af then Ret (0, ais, canon, h) w
            else then_run (ga_aistruct ais hints (V_bytes inaddr) af h w) (\<lambda>r w.
              case r of (rc, ais, h) \<Rightarrow> Ret (rc, ais, canon, h) w)) in
      case numeric4 host of
        Some inaddr \<Rightarrow> numeric inaddr AF_INET
      | None \<Rightarrow>
      case numeric6 host of
        Some in6addr \<Rightarrow> numeric in6addr AF_INET6
      | None \<Rightarrow>
      case ga_resolve R nsearch host family of
        Inl h_errno \<Rightarrow> Ret (if nsearch = 2 then 0 else gai_h_error h_errno, ais, canon, h) w
      | Inr hptr \<Rightarrow>
          if ai_family hints \<noteq> AF_UNSPEC \<and> ai_family hints \<noteq> h_addrtype hptr
          then Ret (EAI_ADDRFAMILY, ais, canon, h) w
          else
            let dup = \<not> no_text hostname \<and> ai_flags hints AND AI_CANONNAME \<noteq> 0 \<and> canon = None in
            (case (if dup then alloc h else Some h) of
               None \<Rightarrow> Ret (EAI_MEMORY, ais, canon, h) w
             | Some h \<Rightarrow>
                 then_run (ga_addrs ais hints (h_addr_list hptr) (h_addrtype hptr) h w) (\<lambda>r w.
                   case r of (rc, ais, h) \<Rightarrow>
                     Ret (rc, ais, if dup then Some (h_name hptr) else canon, h) w)))"

fun ga_hosts ::
  "resolver \<Rightarrow> string option \<Rightarrow> addrinfo \<Rightarrow> nat \<Rightarrow> (string \<times> int) list \<Rightarrow> addrinfo list \<Rightarrow> string option \<Rightarrow>
     heap \<Rightarrow> world \<Rightarrow> (int \<times> addrinfo list \<times> string option \<times> heap) run" where
  "ga_hosts R hostname hints nsearch [] ais canon h w = Ret (0, ais, canon, h) w"
| "ga_hosts R hostname hints nsearch ((host, family) # search) ais canon h w =
     then_run (ga_host R hostname hints nsearch host family ais canon h w) (\<lambda>r w.
       case r of (rc, ais, canon, h) \<Rightarrow>
         if rc \<noteq> 0 then Ret (rc, ais, canon, h) w
         else ga_hosts R hostname hints nsearch search ais canon h w)"

text \<open>The canonical name, duplicated already or now from the first search, then the service.\<close>

definition ga_finish ::
  "resolver \<Rightarrow> string option \<Rightarrow> string option \<Rightarrow> addrinfo \<Rightarrow> string \<Rightarrow> addrinfo list \<Rightarrow> string option \<Rightarrow>
     heap \<Rightarrow> int \<times> addrinfo list \<times> heap" where
  "ga_finish R hostname servname hints host0 ais canon h =
     (if ais = [] then (EAI_NONAME, [], h)
      else
        let want = \<not> no_text hostname \<and> ai_flags hints AND AI_CANONNAME \<noteq> 0 in
        (case (if want \<and> canon = None then alloc h else Some h) of
           None \<Rightarrow> (EAI_MEMORY, ais, h)
         | Some h \<Rightarrow>
           let name = (case canon of None \<Rightarrow> host0 | Some c \<Rightarrow> c);
               ais = (if want then (hd ais)\<lparr>ai_canonname := Some name\<rparr> # tl ais else ais) in
           if no_text servname then (0, ais, h) else ga_serv R ais hints (the servname) h))"

text \<open>On every error after the checks the list is released; the result is \<^verbatim>\<open>0\<close> and the list, or the code.\<close>

definition ga_result :: "int \<times> addrinfo list \<times> heap \<Rightarrow> int \<times> addrinfo list \<times> heap" where
  "ga_result r = (case r of (rc, ais, h) \<Rightarrow> if rc = 0 then (0, ais, h) else (rc, [], freeaddrinfo ais h))"

definition is_local :: "string option \<Rightarrow> string option \<Rightarrow> bool" where
  "is_local hostname servname \<longleftrightarrow>
     (hostname = Some ''/local'' \<or> hostname = Some ''/unix'') \<and>
     (\<exists>s \<in> set_option servname. s \<noteq> [] \<and> hd s = CHR ''/'')"

definition getaddrinfo ::
  "resolver \<Rightarrow> string option \<Rightarrow> string option \<Rightarrow> addrinfo option \<Rightarrow> heap \<Rightarrow> world \<Rightarrow>
     (int \<times> addrinfo list \<times> heap) run" where
  "getaddrinfo R hostname servname hintsp h w =
     (let hints = (case hintsp of None \<Rightarrow> no_hints\<lparr>ai_family := AF_UNSPEC\<rparr> | Some hints \<Rightarrow> hints);
          rc = ga_echeck hostname servname (ai_flags hints) (ai_family hints) (ai_socktype hints)
                 (ai_protocol hints) in
      if rc \<noteq> 0 then Ret (rc, [], h) w
      else if is_local hostname servname then ga_unix R (the servname) hints h w
      else
        then_run (ga_nsearch hostname hints w) (\<lambda>search w.
        then_run (ga_hosts R hostname hints (length search) search [] None h w) (\<lambda>r w.
          case r of (rc, ais, canon, h) \<Rightarrow>
            Ret (ga_result (if rc \<noteq> 0 then (rc, ais, h)
              else ga_finish R hostname servname hints (fst (hd search)) ais canon h)) w)))"

section \<open>getnameinfo\<close>

text \<open>
  The buffers of the caller are results: \<^verbatim>\<open>None\<close> when nothing was written. \<open>hostlen\<close> and
  \<open>servlen\<close> are their sizes.
\<close>

definition nofqdn :: "string \<Rightarrow> string" where
  "nofqdn name = (case strchr name CHR ''.'' of None \<Rightarrow> name | Some i \<Rightarrow> take i name)"

definition gn_host ::
  "resolver \<Rightarrow> nat \<Rightarrow> bytes \<Rightarrow> int \<Rightarrow> int \<Rightarrow> int + string option" where
  "gn_host R hostlen addr family flags =
     (if hostlen = 0 then Inr None
      else
        let numeric = (case inet_ntop family addr hostlen of Inl e \<Rightarrow> Inl 1 | Inr s \<Rightarrow> Inr (Some s)) in
        if flags AND NI_NUMERICHOST \<noteq> 0 then numeric
        else (case gethostbyaddr R addr family of
            Some name \<Rightarrow> Inr (Some (snprintf_s hostlen
              (if flags AND NI_NOFQDN \<noteq> 0 then nofqdn name else name)))
          | None \<Rightarrow> if flags AND NI_NAMEREQD \<noteq> 0 then Inl 1 else numeric))"

definition gn_serv :: "resolver \<Rightarrow> nat \<Rightarrow> u16 \<Rightarrow> int \<Rightarrow> string option" where
  "gn_serv R servlen port flags =
     (if servlen = 0 then None
      else
        let numeric = Some (snprintf_s servlen (dec (unat (ntohs port)))) in
        if flags AND NI_NUMERICSERV \<noteq> 0 then numeric
        else (case getservbyport R port (if flags AND NI_DGRAM \<noteq> 0 then Some ''udp'' else None) of
            Some name \<Rightarrow> Some (snprintf_s servlen name)
          | None \<Rightarrow> numeric))"

definition gn_ipv46 ::
  "resolver \<Rightarrow> nat \<Rightarrow> nat \<Rightarrow> bytes \<Rightarrow> int \<Rightarrow> u16 \<Rightarrow> int \<Rightarrow> int + string option \<times> string option" where
  "gn_ipv46 R hostlen servlen addr family port flags =
     (case gn_host R hostlen addr family flags of
        Inl e \<Rightarrow> Inl e
      | Inr host \<Rightarrow> Inr (host, gn_serv R servlen port flags))"

definition getnameinfo ::
  "resolver \<Rightarrow> sockaddr \<Rightarrow> nat \<Rightarrow> nat \<Rightarrow> int \<Rightarrow> int + string option \<times> string option" where
  "getnameinfo R sa hostlen servlen flags =
     (case sa of
        SA_in port addr \<Rightarrow> gn_ipv46 R hostlen servlen addr AF_INET port flags
      | SA_in6 port fl addr sc \<Rightarrow> gn_ipv46 R hostlen servlen addr AF_INET6 port flags
      | SA_un path \<Rightarrow>
          Inr (if hostlen > 0 then Some (snprintf_s hostlen ''/local'') else None,
               if servlen > 0 then Some (snprintf_s servlen path) else None)
      | SA_other f \<Rightarrow> Inl 1)"

section \<open>Well formed entries\<close>

text \<open>
  What the name service promises: the addresses of a host have the size of their family. Every
  entry that is built then has an address of its family, of the family the caller asked for.
\<close>

definition hostent_ok :: "hostent \<Rightarrow> bool" where
  "hostent_ok hptr \<longleftrightarrow>
     h_addrtype hptr = AF_INET \<and> (\<forall>a \<in> set (h_addr_list hptr). length a = 4) \<or>
     h_addrtype hptr = AF_INET6 \<and> (\<forall>a \<in> set (h_addr_list hptr). length a = 16)"

definition resolver_ok :: "resolver \<Rightarrow> bool" where
  "resolver_ok R \<longleftrightarrow>
     (\<forall>host family hptr. gethostbyname2 R host family = Inr hptr \<longrightarrow> hostent_ok hptr) \<and>
     (\<forall>inet6 host hptr. gethostbyname R inet6 host = Inr hptr \<longrightarrow> hostent_ok hptr)"

fun addr_ok :: "addrinfo \<Rightarrow> bool" where
  "addr_ok ai = (case ai_addr ai of
       SA_in p a \<Rightarrow> ai_family ai = AF_INET \<and> length a = 4 \<and> ai_addrlen ai = 16
     | SA_in6 p f a s \<Rightarrow> ai_family ai = AF_INET6 \<and> length a = 16 \<and> ai_addrlen ai = 28
     | SA_un path \<Rightarrow> ai_family ai = AF_UNIX \<and> length path < 108 \<and> ai_addrlen ai = 110
     | SA_other f \<Rightarrow> False)"

text \<open>
  The states of an entry: its socket type is the caller's, or it may still be cloned, or it is a
  clone with its socket type.
\<close>

definition entry_ok :: "addrinfo \<Rightarrow> addrinfo \<Rightarrow> bool" where
  "entry_ok hints ai \<longleftrightarrow>
     addr_ok ai \<and> (ai_family hints = AF_UNSPEC \<or> ai_family hints = ai_family ai) \<and>
     (if ai_socktype hints = 0 then ai_flags ai = AI_CLONE \<or> ai_flags ai = 0 \<and> ai_socktype ai \<noteq> 0
      else ai_flags ai = 0 \<and> ai_socktype ai = ai_socktype hints)"

definition fresh_ok :: "addrinfo \<Rightarrow> addrinfo \<Rightarrow> bool" where
  "fresh_ok hints ai \<longleftrightarrow> entry_ok hints ai \<and> ai_canonname ai = None"

definition ai_blocks :: "addrinfo \<Rightarrow> nat" where
  "ai_blocks ai = 1 + (if ai_addr ai = no_addr then 0 else 1) + (if ai_canonname ai = None then 0 else 1)"

definition blocks :: "addrinfo list \<Rightarrow> nat" where
  "blocks ais = sum_list (map ai_blocks ais)"

lemma blocks_simps [simp]:
  "blocks [] = 0" "blocks (ai # ais) = ai_blocks ai + blocks ais" "blocks (xs @ ys) = blocks xs + blocks ys"
  by (simp_all add: blocks_def)

lemma ai_blocks_hints [simp]: "ai_blocks (ai\<lparr>ai_socktype := s\<rparr>) = ai_blocks ai"
  by (simp add: ai_blocks_def)

lemma no_addr_simps [simp]: "SA_in p a \<noteq> no_addr" "SA_in6 p f a s \<noteq> no_addr" "SA_un t \<noteq> no_addr"
  by (simp_all add: no_addr_def)

lemma no_hints_fields [simp]:
  "ai_addr no_hints = no_addr" "ai_canonname no_hints = None" "ai_flags no_hints = 0"
  "ai_socktype no_hints = 0" "ai_family no_hints = 0"
  by (simp_all add: no_hints_def no_addr_def)

lemma AI_CLONE_bits [simp]: "AI_CLONE AND AI_CLONE \<noteq> 0" "AI_CLONE \<noteq> 0" "0 AND (x :: int) = 0"
  by (simp_all add: AI_CLONE_def)

lemma freeaddrinfo_live: "live (freeaddrinfo ais h) = live h - blocks ais"
  by (induction ais h rule: freeaddrinfo.induct) (auto simp: Let_def release_def ai_blocks_def)

lemma alloc_Some: "alloc h = Some h' \<Longrightarrow> live h' = Suc (live h) \<and> room h = Suc (room h')"
  by (auto simp: alloc_def split: if_splits)

lemma alloc_eq: "0 < room h \<Longrightarrow> alloc h = Some (h\<lparr>room := room h - 1, live := live h + 1\<rparr>)"
  by (simp add: alloc_def)

text \<open>The entry for an Internet address, and \<^verbatim>\<open>ga_aistruct\<close> building it.\<close>

definition inet_addr :: "int \<Rightarrow> bytes \<Rightarrow> sockaddr" where
  "inet_addr af a = (if af = AF_INET then SA_in 0 a else SA_in6 0 0 a 0)"

definition inet_entry :: "addrinfo \<Rightarrow> int \<Rightarrow> bytes \<Rightarrow> addrinfo" where
  "inet_entry hints af a =
     no_hints\<lparr>ai_flags := (if ai_socktype hints = 0 then AI_CLONE else 0),
       ai_socktype := ai_socktype hints, ai_protocol := ai_protocol hints, ai_family := af,
       ai_addr := inet_addr af a, ai_addrlen := (if af = AF_INET then 16 else 28)\<rparr>"

definition inet_ok :: "int \<Rightarrow> bytes \<Rightarrow> bool" where
  "inet_ok af a \<longleftrightarrow> af = AF_INET \<and> length a = 4 \<or> af = AF_INET6 \<and> length a = 16"

lemma fresh_ok_inet:
  "inet_ok af a \<Longrightarrow> ai_family hints = AF_UNSPEC \<or> ai_family hints = af \<Longrightarrow>
     fresh_ok hints (inet_entry hints af a)"
  by (auto simp: fresh_ok_def entry_ok_def inet_entry_def inet_addr_def inet_ok_def)

lemma ga_aistruct_ok:
  "inet_ok af a \<Longrightarrow> 2 \<le> room h \<Longrightarrow> ga_aistruct ais hints (V_bytes a) af h w =
     Ret (0, ais @ [inet_entry hints af a], h\<lparr>room := room h - 2, live := live h + 2\<rparr>) w"
  by (auto simp: ga_aistruct_def inet_entry_def inet_addr_def inet_ok_def alloc_eq Let_def)

text \<open>The blocks in use besides the canonical name that is not in an entry yet.\<close>

definition used :: "heap \<Rightarrow> string option \<Rightarrow> int" where
  "used h canon = int (live h) - (if canon = None then 0 else 1)"

text \<open>
  What every step on the way promises: the kernel is not called, the memory in use grows by the
  blocks of the entries appended, and an entry appended by a successful step is well formed.
\<close>

definition gai_grows ::
  "addrinfo \<Rightarrow> world \<Rightarrow> addrinfo list \<Rightarrow> int \<Rightarrow> world \<Rightarrow> int \<Rightarrow> addrinfo list \<Rightarrow> int \<Rightarrow> bool" where
  "gai_grows hints w ais n w' rc ais' n' \<longleftrightarrow>
     w' = w \<and> n' + int (blocks ais) = n + int (blocks ais') \<and>
     (rc = 0 \<longrightarrow> (\<forall>ai \<in> set ais. fresh_ok hints ai) \<longrightarrow> (\<forall>ai \<in> set ais'. fresh_ok hints ai))"

lemma gai_grows_trans:
  "gai_grows hints w ais n w1 0 ais1 n1 \<Longrightarrow> gai_grows hints w1 ais1 n1 w2 rc ais2 n2 \<Longrightarrow>
     gai_grows hints w ais n w2 rc ais2 n2"
  by (simp add: gai_grows_def)

lemma gai_grows_refl [simp]: "gai_grows hints w ais n w rc ais n"
  by (simp add: gai_grows_def)

lemma ga_aistruct_grows:
  assumes "inet_ok af a" and "ai_family hints = AF_UNSPEC \<or> ai_family hints = af"
    and "ga_aistruct ais hints (V_bytes a) af h w = Ret (rc, ais', h') w'"
  shows "gai_grows hints w ais (used h None) w' rc ais' (used h' None)"
  using assms fresh_ok_inet [OF assms(1,2)]
  by (auto simp: used_def ga_aistruct_def gai_grows_def inet_ok_def Let_def ai_blocks_def inet_entry_def
      inet_addr_def split: option.splits if_splits dest!: alloc_Some)

lemma ga_addrs_grows:
  assumes "\<forall>a \<in> set aps. inet_ok af a" and "ai_family hints = AF_UNSPEC \<or> ai_family hints = af"
    and "ga_addrs ais hints aps af h w = Ret (rc, ais', h') w'"
  shows "gai_grows hints w ais (used h None) w' rc ais' (used h' None)"
  using assms(1,3)
proof (induction aps arbitrary: ais h w)
  case (Cons ap aps)
  then obtain rc1 ais1 h1 w1 where one: "ga_aistruct ais hints (V_bytes ap) af h w = Ret (rc1, ais1, h1) w1"
    and rest: "(if rc1 \<noteq> 0 then Ret (rc1, ais1, h1) w1 else ga_addrs ais1 hints aps af h1 w1)
      = Ret (rc, ais', h') w'"
    by (auto simp: then_run_Ret_iff)
  have "gai_grows hints w ais (used h None) w1 rc1 ais1 (used h1 None)"
    using ga_aistruct_grows [OF _ assms(2) one] Cons.prems(1) by simp
  with rest Cons.IH [of ais1 h1 w1] Cons.prems(1) show ?case
    by (auto split: if_splits intro: gai_grows_trans)
qed simp

lemma numeric4_length: "numeric4 host = Some a \<Longrightarrow> length a = 4"
  by (auto simp: numeric4_def inet_pton_def inet_pton4_length split: if_splits)

lemma ga_resolve_ok: "resolver_ok R \<Longrightarrow> ga_resolve R n host family = Inr hptr \<Longrightarrow>
    a \<in> set (h_addr_list hptr) \<Longrightarrow> inet_ok (h_addrtype hptr) a"
  by (fastforce simp: ga_resolve_def resolver_ok_def hostent_ok_def inet_ok_def split: if_splits)

lemma shift_loop_length [simp]: "length (shift_loop c n i tmp) = length tmp"
proof (induction c n i tmp rule: shift_loop.induct)
  case (1 c n i tmp)
  then show ?case by (cases "i \<le> n") (simp_all add: shift_loop.simps [of c n i])
qed

lemma pton6_loop_length:
  "pton6_loop src tmp colonp curtok saw val = Some (tmp', c) \<Longrightarrow> length tmp \<le> 16 \<Longrightarrow> length tmp' \<le> 16"
  by (induction src tmp colonp curtok saw val rule: pton6_loop.induct)
     (auto split: option.splits if_splits simp: Let_def put16_def inet_pton4_length)

lemma inet_pton6_length: "inet_pton6 s = Some a \<Longrightarrow> length a = 16"
  by (auto simp: inet_pton6_def Let_def split: option.splits if_splits dest!: pton6_loop_length)

lemma numeric6_length: "numeric6 host = Some a \<Longrightarrow> length a = 16"
  by (auto simp: numeric6_def inet_pton_def inet_pton6_length split: if_splits)

text \<open>One host, then the search: the canonical name is one more block.\<close>

lemma ga_host_grows:
  assumes "resolver_ok R"
    and run: "ga_host R hostname hints nsearch host family ais canon h w = Ret (rc, ais', canon', h') w'"
  shows "gai_grows hints w ais (used h canon) w' rc ais' (used h' canon')"
proof -
  have canon: "gai_grows hints w ais (used h1 c) v rc ais' (used h' c)"
    if "gai_grows hints w ais (used h1 None) v rc ais' (used h' None)" for h1 c v
    using that by (auto simp: gai_grows_def used_def)
  have numeric: ?thesis
    if "inet_ok af a" "(if ai_family hints \<noteq> AF_UNSPEC \<and> ai_family hints \<noteq> af
          then Ret (EAI_ADDRFAMILY, ais, canon, h) w
          else if family \<noteq> af then Ret (0, ais, canon, h) w
          else then_run (ga_aistruct ais hints (V_bytes a) af h w) (\<lambda>r w.
              case r of (rc, ais, h) \<Rightarrow> Ret (rc, ais, canon, h) w)) = Ret (rc, ais', canon', h') w'"
    for a af
    using that(2) ga_aistruct_grows [OF that(1)] canon [of h _ canon]
    by (auto simp: then_run_Ret_iff split: if_splits)
  consider (v4) a where "numeric4 host = Some a"
    | (v6) a where "numeric4 host = None" "numeric6 host = Some a"
    | (fail) e where "numeric4 host = None" "numeric6 host = None" "ga_resolve R nsearch host family = Inl e"
    | (found) hptr where "numeric4 host = None" "numeric6 host = None"
        "ga_resolve R nsearch host family = Inr hptr"
    by (metis option.exhaust sum.exhaust)
  then show ?thesis
  proof cases
    case v4
    with run numeric [of AF_INET a] numeric4_length show ?thesis
      by (simp add: ga_host_def inet_ok_def Let_def)
  next
    case v6
    with run numeric [of AF_INET6 a] numeric6_length show ?thesis
      by (simp add: ga_host_def inet_ok_def Let_def)
  next
    case fail
    with run show ?thesis by (auto simp: ga_host_def Let_def)
  next
    case found
    note aps = ga_addrs_grows [where af = "h_addrtype hptr" and aps = "h_addr_list hptr"]
    have ok: "\<forall>a \<in> set (h_addr_list hptr). inet_ok (h_addrtype hptr) a"
      using ga_resolve_ok [OF assms(1) found(3)] by blast
    show ?thesis
    proof (cases "ai_family hints \<noteq> AF_UNSPEC \<and> ai_family hints \<noteq> h_addrtype hptr")
      case True
      with run found show ?thesis by (simp add: ga_host_def Let_def)
    next
      case False
      let ?dup = "\<not> no_text hostname \<and> ai_flags hints AND AI_CANONNAME \<noteq> 0 \<and> canon = None"
      show ?thesis
      proof (cases "if ?dup then alloc h else Some h")
        case None
        with run found False show ?thesis by (auto simp: ga_host_def Let_def)
      next
        case (Some h1)
        with run found False have r: "ga_addrs ais hints (h_addr_list hptr) (h_addrtype hptr) h1 w = Ret (rc, ais', h') w'"
          and c: "canon' = (if ?dup then Some (h_name hptr) else canon)"
          by (auto simp: ga_host_def Let_def then_run_Ret_iff)
        have "used h canon = used h1 canon'"
          using Some c by (auto simp: used_def dest!: alloc_Some split: if_splits)
        with canon [of h1 w' canon'] aps [OF ok _ r] False show ?thesis by auto
      qed
    qed
  qed
qed

lemma ga_hosts_grows:
  "resolver_ok R \<Longrightarrow> ga_hosts R hostname hints n search ais canon h w = Ret (rc, ais', canon', h') w' \<Longrightarrow>
     gai_grows hints w ais (used h canon) w' rc ais' (used h' canon')"
proof (induction search arbitrary: ais canon h w)
  case (Cons p search)
  obtain host family where p: "p = (host, family)" by force
  with Cons.prems(2) obtain rc1 ais1 canon1 h1 w1 where
    one: "ga_host R hostname hints n host family ais canon h w = Ret (rc1, ais1, canon1, h1) w1"
    and rest: "(if rc1 \<noteq> 0 then Ret (rc1, ais1, canon1, h1) w1
      else ga_hosts R hostname hints n search ais1 canon1 h1 w1) = Ret (rc, ais', canon', h') w'"
    by (auto simp: then_run_Ret_iff)
  from ga_host_grows [OF Cons.prems(1) one] rest Cons.IH [OF Cons.prems(1), of ais1 canon1 h1 w1]
  show ?case by (auto split: if_splits intro: gai_grows_trans)
qed simp

section \<open>Each address once per socket type\<close>

definition with_port :: "u16 \<Rightarrow> int \<Rightarrow> addrinfo \<Rightarrow> addrinfo" where
  "with_port port socktype ai = fst (put_port port socktype ai)"

definition cloned :: "addrinfo \<Rightarrow> addrinfo" where
  "cloned ai = ai\<lparr>ai_flags := 0, ai_canonname := None\<rparr>"

definition takes_port :: "addrinfo \<Rightarrow> nat" where
  "takes_port ai = (if ai_family ai = AF_INET \<or> ai_family ai = AF_INET6 then 1 else 0)"

lemma put_port_eq: "put_port port socktype ai = (with_port port socktype ai, takes_port ai)"
  by (simp add: with_port_def put_port_def takes_port_def Let_def)

lemma with_port_fields [simp]:
  "ai_flags (with_port p s ai) = ai_flags ai" "ai_socktype (with_port p s ai) = s"
  "ai_family (with_port p s ai) = ai_family ai" "ai_protocol (with_port p s ai) = ai_protocol ai"
  "ai_addrlen (with_port p s ai) = ai_addrlen ai" "ai_canonname (with_port p s ai) = ai_canonname ai"
  "ai_addr (with_port p s ai) = no_addr \<longleftrightarrow> ai_addr ai = no_addr"
  by (auto simp: with_port_def put_port_def Let_def no_addr_def split: sockaddr.splits)

lemma with_port_addr_ok [simp]: "addr_ok (with_port p s ai) = addr_ok ai"
  by (cases "ai_addr ai") (auto simp: with_port_def put_port_def Let_def)

lemma cloned_fields [simp]:
  "ai_flags (cloned ai) = 0" "ai_socktype (cloned ai) = ai_socktype ai"
  "ai_family (cloned ai) = ai_family ai" "ai_addr (cloned ai) = ai_addr ai"
  "ai_canonname (cloned ai) = None" "addr_ok (cloned ai) = addr_ok ai"
  by (simp_all add: cloned_def split: sockaddr.split)

lemma blocks_with_port [simp]: "ai_blocks (with_port p s ai) = ai_blocks ai"
  by (simp add: ai_blocks_def)

lemma addr_ok_not_null: "addr_ok ai \<Longrightarrow> ai_addr ai \<noteq> no_addr"
  by (auto simp: no_addr_def)

declare addr_ok.simps [simp del]

lemma blocks_cloned: "addr_ok ai \<Longrightarrow> ai_blocks (cloned ai) = 2"
  by (simp add: ai_blocks_def addr_ok_not_null)

text \<open>\<^verbatim>\<open>ga_clone\<close> succeeds with a copy, or leaves an entry without address, or nothing.\<close>

lemma ga_clone_cases:
  assumes "ga_clone ai h = (ok, new, h')" and "addr_ok ai"
  shows "live h' = live h + blocks new \<and> (ok \<longrightarrow> new = [cloned ai])"
  using assms addr_ok_not_null [OF assms(2)]
  by (auto simp: ga_clone_def cloned_def Let_def ai_blocks_def split: option.splits dest!: alloc_Some)

lemma ga_clone_ok:
  "2 \<le> room h \<Longrightarrow> ga_clone ai h = (True, [cloned ai], h\<lparr>room := room h - 2, live := live h + 2\<rparr>)"
  by (simp add: ga_clone_def cloned_def alloc_eq Let_def)

lemma ga_port_live:
  assumes "\<forall>ai \<in> set ais. addr_ok ai" and "ga_port ais port st h = (n, ais', h')"
  shows "live h' + blocks ais = live h + blocks ais' \<and> ais' \<noteq> [] = (ais \<noteq> []) \<and>
    (n \<noteq> None \<longrightarrow> (\<forall>ai \<in> set ais'. addr_ok ai))"
  using assms
proof (induction ais arbitrary: h n ais' h')
  case (Cons ai rest)
  obtain ok new h1 where new: "(if ai_flags ai AND AI_CLONE \<noteq> 0 \<and> ai_socktype ai \<noteq> 0 then ga_clone ai h
    else (True, [], h)) = (ok, new, h1)" by (metis prod_cases3)
  have one: "live h1 = live h + blocks new" "ok \<longrightarrow> new = [cloned ai] \<or> new = []"
    using new ga_clone_cases [of ai h ok new h1] Cons.prems(1) by (auto split: if_splits)
  show ?case
  proof (cases ok)
    case False
    with Cons.prems(2) new one show ?thesis by (auto simp: Let_def)
  next
    case True
    obtain n1 rest1 h2 where rest: "ga_port rest port st h1 = (n1, rest1, h2)" by (metis prod_cases3)
    have "live h2 + blocks rest = live h1 + blocks rest1 \<and> (n1 \<noteq> None \<longrightarrow> (\<forall>ai \<in> set rest1. addr_ok ai))"
      using Cons.IH [OF _ rest] Cons.prems(1) by auto
    with Cons.prems new one rest True show ?thesis
      by (auto simp: Let_def put_port_eq split: if_splits)
  qed
qed simp

lemma entry_ok_parts: "entry_ok hints ai \<Longrightarrow> addr_ok ai \<and>
    (ai_family hints = AF_UNSPEC \<or> ai_family hints = ai_family ai) \<and>
    (ai_socktype hints = 0 \<or> ai_socktype ai = ai_socktype hints)"
  by (auto simp: entry_ok_def split: if_splits)

lemma entry_ok_addr: "entry_ok hints ai \<Longrightarrow> addr_ok ai"
  by (simp add: entry_ok_def)

lemma entry_ok_with_port:
  "entry_ok hints ai \<Longrightarrow> s \<noteq> 0 \<Longrightarrow> ai_flags ai = AI_CLONE \<or> ai_socktype ai = s \<Longrightarrow>
     entry_ok hints (with_port p s ai)"
  by (auto simp: entry_ok_def split: if_splits)

lemma entry_ok_cloned:
  "entry_ok hints ai \<Longrightarrow> s \<noteq> 0 \<Longrightarrow> ai_flags ai = AI_CLONE \<Longrightarrow> entry_ok hints (with_port p s (cloned ai))"
  by (auto simp: entry_ok_def split: if_splits)

lemma entry_ok_flags: "entry_ok hints ai \<Longrightarrow>
    ai_flags ai = AI_CLONE \<or> ai_flags ai = 0 \<and> ai_socktype ai \<noteq> 0"
  by (auto simp: entry_ok_def split: if_splits)

lemma ga_port_entries:
  assumes "\<forall>ai \<in> set ais. entry_ok hints ai" and "st \<noteq> 0" and "ga_port ais port st h = (Some n, ais', h')"
  shows "\<forall>ai \<in> set ais'. entry_ok hints ai \<and> ai_socktype ai \<noteq> 0"
  using assms(1,3)
proof (induction ais arbitrary: h n ais' h')
  case (Cons ai rest)
  have ai: "entry_ok hints ai" "addr_ok ai" using Cons.prems(1) by (auto simp: entry_ok_def)
  obtain ok new h1 where new: "(if ai_flags ai AND AI_CLONE \<noteq> 0 \<and> ai_socktype ai \<noteq> 0 then ga_clone ai h
    else (True, [], h)) = (ok, new, h1)" by (metis prod_cases3)
  obtain n1 rest1 h2 where rest: "ga_port rest port st h1 = (n1, rest1, h2)" by (metis prod_cases3)
  from Cons.prems(2) new rest have ok: "ok" and n1: "n1 \<noteq> None"
    by (auto simp: Let_def put_port_eq split: if_splits list.splits)
  have "new = [cloned ai]" if "ga_clone ai h = (True, new, h1)" using ga_clone_cases [OF that ai(2)] by simp
  moreover have "\<forall>ai \<in> set rest1. entry_ok hints ai \<and> ai_socktype ai \<noteq> 0"
    using Cons.IH [of h1 _ rest1 h2] Cons.prems(1) rest n1 by auto
  ultimately show ?case using Cons.prems new rest ok ai entry_ok_flags [OF ai(1)] assms(2)
    by (auto simp: Let_def put_port_eq split: if_splits list.splits intro: entry_ok_with_port entry_ok_cloned)
qed simp

lemma ga_port_all_ok:
  assumes "\<forall>ai \<in> set ais. entry_ok hints ai" and "\<forall>x \<in> set ports. snd x \<noteq> 0"
    and "ga_port_all ais ports h = (n, ais', h')"
  shows "live h' + blocks ais = live h + blocks ais' \<and> ais' \<noteq> [] = (ais \<noteq> []) \<and>
    (n \<noteq> None \<longrightarrow> (\<forall>ai \<in> set ais'. entry_ok hints ai \<and> (ports \<noteq> [] \<longrightarrow> ai_socktype ai \<noteq> 0)))"
  using assms
proof (induction ports arbitrary: ais h n ais' h')
  case (Cons x ports)
  obtain p st where x: "x = (p, st)" by force
  obtain n1 ais1 h1 where one: "ga_port ais p st h = (n1, ais1, h1)" by (metis prod_cases3)
  note live = ga_port_live [OF _ one]
  have addr: "\<forall>ai \<in> set ais. addr_ok ai" using Cons.prems(1) by (auto simp: entry_ok_def)
  show ?case
  proof (cases n1)
    case None
    with Cons.prems(3) one x live [OF addr] show ?thesis by auto
  next
    case (Some k)
    obtain n2 ais2 h2 where two: "ga_port_all ais1 ports h1 = (n2, ais2, h2)" by (metis prod_cases3)
    have types: "\<forall>ai \<in> set ais1. entry_ok hints ai \<and> ai_socktype ai \<noteq> 0"
      using ga_port_entries [OF Cons.prems(1) _ one [unfolded Some]] Cons.prems(2) x by auto
    have later: "\<forall>ai \<in> set ais2. entry_ok hints ai \<and> ai_socktype ai \<noteq> 0" if "n2 \<noteq> None"
    proof (cases "ports = []")
      case True
      with two types show ?thesis by simp
    next
      case False
      with Cons.IH [OF _ _ two] types Cons.prems(2) that show ?thesis by auto
    qed
    from Cons.IH [OF _ _ two] types Cons.prems(2)
    have "live h2 + blocks ais1 = live h1 + blocks ais2 \<and> ais2 \<noteq> [] = (ais1 \<noteq> [])" by auto
    with Cons.prems(3) one two x Some live [OF addr] later show ?thesis by auto
  qed
qed auto

lemma serv_port_type: "x \<in> set (serv_port R serv proto s) \<Longrightarrow> snd x = s"
  by (cases "getservbyname R serv proto") (simp_all add: serv_port_def)

lemma ga_ports_types: "x \<in> set (ga_ports R socktype serv) \<Longrightarrow> snd x \<noteq> 0"
proof -
  have "SOCK_STREAM \<noteq> 0" "SOCK_DGRAM \<noteq> 0" by (simp_all add: unp_consts)
  then show "x \<in> set (ga_ports R socktype serv) \<Longrightarrow> snd x \<noteq> 0"
    by (auto simp: ga_ports_def Let_def dest!: serv_port_type split: if_splits)
qed

text \<open>The passes of \<^verbatim>\<open>ga_port\<close> over fresh entries, over entries used once, and over typed ones.\<close>

lemma ga_port_first:
  "\<forall>ai \<in> set ais. ai_flags ai = AI_CLONE \<and> ai_socktype ai = 0 \<and> takes_port ai = 1 \<Longrightarrow>
     ga_port ais p s h = (Some (length ais), map (with_port p s) ais, h)"
  by (induction ais) (auto simp: put_port_eq)

lemma ga_port_typed:
  "\<forall>ai \<in> set ais. ai_flags ai = 0 \<and> ai_socktype ai = s \<and> takes_port ai = 1 \<Longrightarrow>
     ga_port ais p s h = (Some (length ais), map (with_port p s) ais, h)"
  by (induction ais) (auto simp: put_port_eq)

lemma ga_port_again:
  "\<forall>ai \<in> set ais. ai_flags ai = AI_CLONE \<and> ai_socktype ai \<noteq> 0 \<and> takes_port ai = 1 \<Longrightarrow>
     2 * length ais \<le> room h \<Longrightarrow>
     ga_port ais p s h = (Some (length ais), concat (map (\<lambda>ai. [ai, with_port p s (cloned ai)]) ais),
       h\<lparr>room := room h - 2 * length ais, live := live h + 2 * length ais\<rparr>)"
  by (induction ais arbitrary: h) (auto simp: put_port_eq ga_clone_ok takes_port_def)

section \<open>What a lookup yields\<close>

lemma ga_serv_ok:
  assumes "\<forall>ai \<in> set ais. entry_ok hints ai" and "ga_serv R ais hints serv h = (rc, ais', h')"
  shows "live h' + blocks ais = live h + blocks ais' \<and> ais' \<noteq> [] = (ais \<noteq> []) \<and>
    (rc = 0 \<longrightarrow> (\<forall>ai \<in> set ais'. entry_ok hints ai \<and> ai_socktype ai \<noteq> 0))"
proof -
  obtain n ais1 h1 where all: "ga_port_all ais (ga_ports R (ai_socktype hints) serv) h = (n, ais1, h1)"
    by (metis prod_cases3)
  have types: "\<forall>x \<in> set (ga_ports R (ai_socktype hints) serv). snd x \<noteq> 0"
    using ga_ports_types by blast
  have "ga_ports R (ai_socktype hints) serv \<noteq> []" if "rc = 0"
    using that all assms(2) by (auto simp: ga_serv_def split: if_splits)
  with ga_port_all_ok [OF assms(1) types all] all assms(2) show ?thesis
    by (auto simp: ga_serv_def split: option.splits if_splits)
qed


lemma entry_ok_canonname [simp]: "entry_ok hints (ai\<lparr>ai_canonname := c\<rparr>) = entry_ok hints ai"
  by (simp add: entry_ok_def addr_ok.simps cong: sockaddr.case_cong)

lemma blocks_canonname:
  "ai_canonname ai = None \<Longrightarrow> ai_blocks (ai\<lparr>ai_canonname := Some c\<rparr>) = Suc (ai_blocks ai)"
  by (simp add: ai_blocks_def)

lemma ga_finish_ok:
  assumes fresh: "\<forall>ai \<in> set ais. fresh_ok hints ai"
    and canon: "canon \<noteq> None \<longrightarrow> \<not> no_text hostname \<and> ai_flags hints AND AI_CANONNAME \<noteq> 0"
    and run: "ga_finish R hostname servname hints host0 ais canon h = (rc, ais', h')"
  shows "(rc = 0 \<or> ai_flags hints AND AI_CANONNAME = 0 \<longrightarrow>
      int (live h') + int (blocks ais) = used h canon + int (blocks ais')) \<and>
    (rc = 0 \<longrightarrow> ais' \<noteq> [] \<and>
      (\<forall>ai \<in> set ais'. entry_ok hints ai \<and> (\<not> no_text servname \<longrightarrow> ai_socktype ai \<noteq> 0)))"
proof (cases "ais = []")
  case True
  with run canon show ?thesis by (auto simp: ga_finish_def used_def)
next
  case False
  let ?want = "\<not> no_text hostname \<and> ai_flags hints AND AI_CANONNAME \<noteq> 0"
  let ?named = "\<lambda>n. if ?want then (hd ais)\<lparr>ai_canonname := Some n\<rparr> # tl ais else ais"
  show ?thesis
  proof (cases "if ?want \<and> canon = None then alloc h else Some h")
    case None
    with run False show ?thesis by (auto simp: ga_finish_def Let_def split: if_splits)
  next
    case (Some h1)
    define ais1 where "ais1 = ?named (case canon of None \<Rightarrow> host0 | Some c \<Rightarrow> c)"
    have ok: "\<forall>ai \<in> set ais1. entry_ok hints ai"
      using fresh False by (cases ais) (auto simp: ais1_def fresh_ok_def)
    have "ais1 \<noteq> []" using False by (simp add: ais1_def)
    moreover have "int (live h1) + int (blocks ais) = used h canon + int (blocks ais1)"
      using Some canon fresh False
      by (cases ais) (auto simp: ais1_def used_def fresh_ok_def blocks_canonname dest!: alloc_Some split: if_splits)
    moreover have "(if no_text servname then (0, ais1, h1) else ga_serv R ais1 hints (the servname) h1) = (rc, ais', h')"
      using run Some False unfolding ga_finish_def ais1_def by (simp add: Let_def)
    ultimately show ?thesis
      using ok ga_serv_ok [OF ok, of R "the servname" h1 rc ais' h'] by (auto split: if_splits)
  qed
qed

lemma ga_hosts_canon:
  "ga_hosts R hostname hints n search ais canon h w = Ret (rc, ais', canon', h') w' \<Longrightarrow>
     canon' \<noteq> None \<longrightarrow> canon = None \<longrightarrow> \<not> no_text hostname \<and> ai_flags hints AND AI_CANONNAME \<noteq> 0"
proof (induction search arbitrary: ais canon h w)
  case (Cons p search)
  obtain host family where p: "p = (host, family)" by force
  with Cons.prems obtain rc1 ais1 canon1 h1 w1 where
    one: "ga_host R hostname hints n host family ais canon h w = Ret (rc1, ais1, canon1, h1) w1"
    and rest: "(if rc1 \<noteq> 0 then Ret (rc1, ais1, canon1, h1) w1
      else ga_hosts R hostname hints n search ais1 canon1 h1 w1) = Ret (rc, ais', canon', h') w'"
    by (auto simp: then_run_Ret_iff)
  have "canon1 = canon \<or> \<not> no_text hostname \<and> ai_flags hints AND AI_CANONNAME \<noteq> 0"
    using one unfolding ga_host_def Let_def
    by (auto simp: then_run_Ret_iff split: option.split_asm sum.split_asm if_split_asm)
  with rest Cons.IH [of ais1 canon1 h1 w1] show ?case by (auto split: if_splits)
qed auto

text \<open>The Unix domain branch: one or two entries for a path.\<close>

lemma ga_aistruct_unix:
  assumes "ga_aistruct ais hints (V_text path) AF_UNIX h w = Ret (0, ais', h') w'"
    and "ai_socktype hints \<noteq> 0" and "ai_family hints0 = AF_UNSPEC \<or> ai_family hints0 = AF_UNIX"
    and "ai_socktype hints0 = 0 \<or> ai_socktype hints0 = ai_socktype hints"
  shows "\<exists>ai. ais' = ais @ [ai] \<and> entry_ok hints0 ai \<and> ai_socktype ai \<noteq> 0 \<and> ai_canonname ai = None \<and>
    live h' = live h + ai_blocks ai"
  using assms by (auto simp: ga_aistruct_def entry_ok_def addr_ok.simps Let_def ai_blocks_def
      then_run_Ret_iff split: option.splits if_splits dest!: alloc_Some)

lemma ga_unix_ok:
  assumes "ga_unix R path hints h w = Ret (0, ais', h') w'"
  shows "ais' \<noteq> [] \<and> (\<forall>ai \<in> set ais'. entry_ok hints ai \<and> ai_socktype ai \<noteq> 0) \<and>
    live h' = live h + blocks ais'"
proof -
  have fam: "ai_family hints = AF_UNSPEC \<or> ai_family hints = AF_UNIX"
    using assms by (auto simp: ga_unix_def split: if_splits)
  obtain ais1 hints1 h1 w1 ais2 h2 w2 where
    one: "(if ai_socktype hints = 0 then
        then_run (ga_aistruct [] (hints\<lparr>ai_socktype := SOCK_STREAM\<rparr>) (V_text path) AF_UNIX h w)
          (\<lambda>(rc, ais, h) w. Ret (rc, ais, hints\<lparr>ai_socktype := SOCK_DGRAM\<rparr>, h) w)
      else Ret (0, [], hints, h) w) = Ret (0, ais1, hints1, h1) w1"
    and two: "ga_aistruct ais1 hints1 (V_text path) AF_UNIX h1 w1 = Ret (0, ais2, h2) w2"
    and rest: "(if ai_flags hints1 AND AI_CANONNAME \<noteq> 0 then
            (case uname_nodename R of
               Inl e \<Rightarrow> Ret (EAI_SYSTEM, [], h2) w2
             | Inr nodename \<Rightarrow> (case alloc h2 of
                   None \<Rightarrow> Ret (EAI_MEMORY, [], h2) w2
                 | Some h \<Rightarrow> Ret (0, (hd ais2)\<lparr>ai_canonname := Some nodename\<rparr> # tl ais2, h) w2))
          else Ret (0, ais2, h2) w2) = Ret (0, ais', h') w'"
    using assms fam unfolding ga_unix_def by (auto simp: then_run_Ret_iff split: if_splits)
  have st: "SOCK_STREAM \<noteq> 0" "SOCK_DGRAM \<noteq> 0" by (simp_all add: unp_consts)
  have first: "(\<forall>ai \<in> set ais1. entry_ok hints ai \<and> ai_socktype ai \<noteq> 0 \<and> ai_canonname ai = None) \<and>
      live h1 = live h + blocks ais1 \<and> ai_socktype hints1 \<noteq> 0 \<and>
      (ai_socktype hints = 0 \<or> ai_socktype hints = ai_socktype hints1)"
  proof (cases "ai_socktype hints = 0")
    case True
    with one obtain r h1' where "ga_aistruct [] (hints\<lparr>ai_socktype := SOCK_STREAM\<rparr>) (V_text path) AF_UNIX h w
        = Ret (0, ais1, h1) w1" and "hints1 = hints\<lparr>ai_socktype := SOCK_DGRAM\<rparr>"
      by (auto simp: then_run_Ret_iff)
    with ga_aistruct_unix [OF this(1) _ fam] st True show ?thesis by auto
  qed (use one in auto)
  with ga_aistruct_unix [OF two _ fam] obtain ai where ai: "ais2 = ais1 @ [ai]" "entry_ok hints ai"
    "ai_socktype ai \<noteq> 0" "ai_canonname ai = None" "live h2 = live h1 + ai_blocks ai" by blast
  obtain a as where as: "ais2 = a # as" using ai(1) by (cases ais1) auto
  have all: "\<forall>x \<in> set ais2. entry_ok hints x \<and> ai_socktype x \<noteq> 0 \<and> ai_canonname x = None"
    using ai first by auto
  have "live h2 = live h + blocks ais2" using ai first by simp
  with all as rest show ?thesis
    by (auto simp: blocks_canonname split: if_splits sum.splits option.splits dest!: alloc_Some)
qed

text \<open>A lookup that is not local: the search, then the end.\<close>

lemma getaddrinfo_inet:
  assumes "resolver_ok R" and "getaddrinfo R hostname servname (Some hints) h w = Ret (rc, res, h') w'"
    and "\<not> is_local hostname servname"
  shows "w' = w \<and> (rc = 0 \<or> ai_flags hints AND AI_CANONNAME = 0 \<longrightarrow> live h' = live h + blocks res) \<and>
    (rc = 0 \<longrightarrow> res \<noteq> [] \<and>
      (\<forall>ai \<in> set res. entry_ok hints ai \<and> (\<not> no_text servname \<longrightarrow> ai_socktype ai \<noteq> 0)))"
proof (cases "ga_echeck hostname servname (ai_flags hints) (ai_family hints) (ai_socktype hints) (ai_protocol hints) = 0")
  case False
  with assms(2) show ?thesis by (auto simp: getaddrinfo_def Let_def)
next
  case True
  obtain search w1 rc1 ais1 canon1 h1 where
    search: "ga_nsearch hostname hints w = Ret search w1"
    and hosts: "ga_hosts R hostname hints (length search) search [] None h w1 = Ret (rc1, ais1, canon1, h1) w'"
    and fin: "ga_result (if rc1 \<noteq> 0 then (rc1, ais1, h1)
      else ga_finish R hostname servname hints (fst (hd search)) ais1 canon1 h1) = (rc, res, h')"
    using assms(2,3) True by (auto simp: getaddrinfo_def Let_def then_run_Ret_iff)
  have w1: "w1 = w" using search by (auto simp: ga_nsearch_def err_quit_def Let_def split: if_splits)
  note grows = ga_hosts_grows [OF assms(1) hosts, unfolded gai_grows_def]
  have canon: "canon1 \<noteq> None \<longrightarrow> \<not> no_text hostname \<and> ai_flags hints AND AI_CANONNAME \<noteq> 0"
    using ga_hosts_canon [OF hosts] by blast
  have used: "used h1 canon1 = int (live h) + int (blocks ais1)"
    using grows by (simp add: used_def)
  show ?thesis
  proof (cases "rc1 = 0")
    case False
    with fin used canon grows w1 show ?thesis
      by (auto simp: ga_result_def freeaddrinfo_live used_def split: if_splits)
  next
    case True
    obtain rc2 ais2 h2 where fin2: "ga_finish R hostname servname hints (fst (hd search)) ais1 canon1 h1 = (rc2, ais2, h2)"
      by (metis prod_cases3)
    have "\<forall>ai \<in> set ais1. fresh_ok hints ai" using grows True by simp
    from ga_finish_ok [OF this canon fin2] fin fin2 True used grows w1 show ?thesis
      by (auto simp: ga_result_def freeaddrinfo_live split: if_splits)
  qed
qed

section \<open>Properties\<close>

text \<open>
  What a caller gets from a successful \<^verbatim>\<open>getaddrinfo\<close>: at least one entry; every entry has an
  address structure of its family and length, of the family asked for; it has the socket type
  asked for, and some socket type when a service was given.
\<close>

theorem getaddrinfo_usable:
  assumes "resolver_ok R" and "getaddrinfo R hostname servname (Some hints) h w = Ret (0, res, h') w'"
  shows "res \<noteq> [] \<and> (\<forall>ai \<in> set res. addr_ok ai \<and>
    (ai_family hints = AF_UNSPEC \<or> ai_family hints = ai_family ai) \<and>
    (ai_socktype hints = 0 \<or> ai_socktype ai = ai_socktype hints) \<and>
    (no_text servname \<or> ai_socktype ai \<noteq> 0))"
proof (cases "is_local hostname servname")
  case True
  with assms(2) have "ga_unix R (the servname) hints h w = Ret (0, res, h') w'"
    by (auto simp: getaddrinfo_def Let_def split: if_splits)
  from ga_unix_ok [OF this] show ?thesis using entry_ok_parts by blast
next
  case False
  from getaddrinfo_inet [OF assms False] show ?thesis using entry_ok_parts by blast
qed

text \<open>A name service with one multihomed host, used in the instances.\<close>

definition demo :: resolver where
  "demo = \<lparr>gethostbyname2 = (\<lambda>host family. if host = ''bsdi'' \<and> family = AF_INET
       then Inr \<lparr>h_name = ''bsdi.kohala.com'', h_addrtype = AF_INET,
         h_addr_list = [[206, 62, 226, 35], [206, 62, 226, 66]]\<rparr> else Inl NO_DATA),
     gethostbyname = (\<lambda>inet6 host. Inl HOST_NOT_FOUND), gethostbyaddr = (\<lambda>a f. None),
     getservbyname = (\<lambda>serv proto. if serv = ''daytime'' then Some 13 else None),
     getservbyport = (\<lambda>p proto. None), uname_nodename = Inr ''bsdi''\<rparr>"

lemma demo_ok: "resolver_ok demo"
  by (auto simp: resolver_ok_def demo_def hostent_ok_def split: if_splits)

lemma gai_consts: "SOCK_STREAM = 1" "SOCK_DGRAM = 2" "AI_PASSIVE = 1" "AI_CANONNAME = 2" "AI_CLONE = 4"
  "AF_UNSPEC = 0"
  by (simp_all add: unp_consts)

lemma demo_run:
  "\<exists>res. getaddrinfo demo (Some ''bsdi'') (Some ''daytime'') (Some no_hints) \<lparr>room = 20, live = 0\<rparr> w
     = Ret (0, res, \<lparr>room = 12, live = 8\<rparr>) w \<and> length res = 4"
proof -
  have n: "numeric4 ''bsdi'' = None" "numeric6 ''bsdi'' = None"
    by (simp_all add: numeric4_def numeric6_def digit_def xdigit_def)
  have f: "AF_UNSPEC = 0" "AF_INET6 = 10" "AF_INET = 2" by (simp_all add: unp_consts)
  have d: "digit (CHR ''d'') = None" by (simp add: digit_def)
  have t: "SOCK_STREAM \<noteq> 0" by (simp add: unp_consts)
  show ?thesis
    by (simp add: getaddrinfo_def ga_echeck_def no_text_def is_local_def ga_nsearch_def ga_searches_def
      ga_host_def n ga_resolve_def demo_def ga_aistruct_ok inet_ok_def inet_entry_def ga_finish_def ga_serv_def
      ga_ports_def serv_port_def put_port_eq takes_port_def ga_clone_ok ga_result_def Let_def f d t)
qed

theorem getaddrinfo_usable_witness:
  "\<exists>res h' w'. getaddrinfo demo (Some ''bsdi'') (Some ''daytime'') (Some no_hints) \<lparr>room = 20, live = 0\<rparr>
       (boot []) = Ret (0, res, h') w' \<and> res \<noteq> [] \<and> list_all (\<lambda>ai. addr_ok ai \<and> ai_socktype ai \<noteq> 0) res"
proof -
  obtain res where run: "getaddrinfo demo (Some ''bsdi'') (Some ''daytime'') (Some no_hints)
      \<lparr>room = 20, live = 0\<rparr> (boot []) = Ret (0, res, \<lparr>room = 12, live = 8\<rparr>) (boot [])"
    using demo_run by blast
  from getaddrinfo_usable [OF demo_ok run] run show ?thesis
    by (auto simp: list_all_iff no_text_def)
qed

text \<open>
  (C3) Memory: when \<^verbatim>\<open>getaddrinfo\<close> succeeds, the blocks it leaves allocated are exactly those of the
  list it returns; when it fails (and is not asked for a canonical name, and the lookup is not
  the local one), it leaves none, wherever the failure came from, an allocation included.
\<close>

theorem getaddrinfo_memory:
  assumes "resolver_ok R" and "getaddrinfo R hostname servname (Some hints) h w = Ret (rc, res, h') w'"
    and "rc = 0 \<or> ai_flags hints AND AI_CANONNAME = 0 \<and> \<not> is_local hostname servname"
  shows "live h' = live h + blocks res \<and> (rc \<noteq> 0 \<longrightarrow> res = [])"
proof (cases "is_local hostname servname")
  case True
  with assms(2,3) have "rc = 0" "rc = 0 \<Longrightarrow> ga_unix R (the servname) hints h w = Ret (0, res, h') w'"
    by (auto simp: getaddrinfo_def Let_def split: if_splits)
  with ga_unix_ok [of R "the servname" hints h w res h' w'] show ?thesis by blast
next
  case False
  moreover from False assms(2) have "rc \<noteq> 0 \<longrightarrow> res = []"
    by (auto simp: getaddrinfo_def ga_result_def Let_def then_run_Ret_iff split: if_splits prod.splits)
  ultimately show ?thesis using getaddrinfo_inet [OF assms(1,2) False] assms(3) by blast
qed

theorem getaddrinfo_memory_witness:
  "\<exists>res h' w'. getaddrinfo demo (Some ''bsdi'') (Some ''daytime'') (Some no_hints) \<lparr>room = 20, live = 0\<rparr>
       (boot []) = Ret (0, res, h') w' \<and> live h' = blocks res \<and> live h' = 8"
proof -
  obtain res where run: "getaddrinfo demo (Some ''bsdi'') (Some ''daytime'') (Some no_hints)
      \<lparr>room = 20, live = 0\<rparr> (boot []) = Ret (0, res, \<lparr>room = 12, live = 8\<rparr>) (boot [])"
    using demo_run by blast
  from getaddrinfo_memory [OF demo_ok run] run show ?thesis by auto
qed

text \<open>
  Both exceptions are leaks of the code: the duplicated canonical name is not released when a later
  step fails, and \<^verbatim>\<open>ga_unix\<close> never releases its entries.
\<close>

lemma canonname_leaks:
  "\<exists>w'. getaddrinfo demo (Some ''bsdi'') (Some ''rje'') (Some (no_hints\<lparr>ai_flags := AI_CANONNAME\<rparr>))
     \<lparr>room = 1, live = 0\<rparr> (boot []) = Ret (EAI_MEMORY, [], \<lparr>room = 0, live = 1\<rparr>) w'"
proof -
  have n: "numeric4 ''bsdi'' = None" "numeric6 ''bsdi'' = None"
    by (simp_all add: numeric4_def numeric6_def digit_def xdigit_def)
  have f: "AF_UNSPEC = 0" "AF_INET6 = 10" "AF_INET = 2" by (simp_all add: unp_consts)
  show ?thesis
    by (simp add: getaddrinfo_def ga_echeck_def no_text_def is_local_def ga_nsearch_def ga_searches_def
      ga_host_def n ga_resolve_def demo_def ga_aistruct_def alloc_def ga_result_def Let_def f gai_consts)
qed

lemma ga_unix_leaks:
  "getaddrinfo demo (Some ''/unix'') (Some ''/tmp/s'') (Some no_hints) \<lparr>room = 3, live = 0\<rparr> w
     = Ret (EAI_MEMORY, [], \<lparr>room = 0, live = 3\<rparr>) w"
proof -
  have f: "AF_UNSPEC = 0" "AF_UNIX = 1" "AF_INET6 = 10" "AF_INET = 2" by (simp_all add: unp_consts)
  show ?thesis
    by (simp add: getaddrinfo_def ga_echeck_def no_text_def is_local_def ga_unix_def ga_aistruct_def
      alloc_def Let_def f gai_consts)
qed

text \<open>Asking for the Unix domain family with any other host ends the process.\<close>

lemma ga_nsearch_quits:
  "getaddrinfo demo (Some ''bsdi'') (Some ''7'') (Some (no_hints\<lparr>ai_family := AF_UNIX\<rparr>)) h w
     = Exit 1 (err_doit False LOG_ERR ''nsearch = 0'' w)"
proof -
  have f: "AF_UNSPEC = 0" "AF_UNIX = 1" "AF_INET6 = 10" "AF_INET = 2" by (simp_all add: unp_consts)
  have "dec 0 = ''0''" by (simp add: dec_def utoa.simps digit_char_def)
  then show ?thesis
    by (simp add: getaddrinfo_def ga_echeck_def no_text_def is_local_def ga_nsearch_def ga_searches_def
      err_quit_def Let_def f)
qed

text \<open>
  The comment of \<^verbatim>\<open>ga_port\<close>: when the caller specifies no socket type and the service is known
  to TCP (port \<open>p\<close>) and to UDP (port \<open>q\<close>), every address found is returned twice, in order: once
  as a stream entry with the TCP port and once, cloned, as a datagram entry with the UDP port.
\<close>

theorem ga_serv_each_type:
  assumes "ai_socktype hints = 0" and "ga_ports R 0 serv = [(p, SOCK_STREAM), (q, SOCK_DGRAM)]"
    and "\<forall>ai \<in> set ais. ai_flags ai = AI_CLONE \<and> ai_socktype ai = 0 \<and> takes_port ai = 1"
    and "ais \<noteq> []" and "2 * length ais \<le> room h"
  shows "ga_serv R ais hints serv h =
    (0, concat (map (\<lambda>ai. [with_port p SOCK_STREAM ai, with_port q SOCK_DGRAM (cloned ai)]) ais),
     h\<lparr>room := room h - 2 * length ais, live := live h + 2 * length ais\<rparr>)"
proof -
  let ?once = "map (with_port p SOCK_STREAM) ais"
  have st: "SOCK_STREAM \<noteq> 0" by (simp add: unp_consts)
  have "with_port q s (cloned (with_port p t ai)) = with_port q s (cloned ai)" for s t ai
    by (cases "ai_addr ai") (auto simp: with_port_def put_port_def cloned_def Let_def)
  then have c: "(\<lambda>ai. [with_port p SOCK_STREAM ai, with_port q SOCK_DGRAM (cloned (with_port p SOCK_STREAM ai))]) =
      (\<lambda>ai. [with_port p SOCK_STREAM ai, with_port q SOCK_DGRAM (cloned ai)])" by simp
  have "ga_port ?once q SOCK_DGRAM h = (Some (length ais),
      concat (map (\<lambda>ai. [ai, with_port q SOCK_DGRAM (cloned ai)]) ?once),
      h\<lparr>room := room h - 2 * length ais, live := live h + 2 * length ais\<rparr>)"
    using ga_port_again [of ?once h q SOCK_DGRAM] assms(3,5) st by (simp add: takes_port_def)
  with assms ga_port_first [OF assms(3)] show ?thesis
    by (simp add: ga_serv_def comp_def c)
qed

theorem ga_serv_each_type_witness:
  "map (\<lambda>ai. (ai_addr ai, ai_socktype ai)) (fst (snd (ga_serv demo
       [inet_entry no_hints AF_INET [206, 62, 226, 35], inet_entry no_hints AF_INET [206, 62, 226, 66]]
       no_hints ''daytime'' \<lparr>room = 9, live = 4\<rparr>))) =
   [(SA_in 13 [206, 62, 226, 35], SOCK_STREAM), (SA_in 13 [206, 62, 226, 35], SOCK_DGRAM),
    (SA_in 13 [206, 62, 226, 66], SOCK_STREAM), (SA_in 13 [206, 62, 226, 66], SOCK_DGRAM)]"
proof -
  let ?ais = "[inet_entry no_hints AF_INET [206, 62, 226, 35], inet_entry no_hints AF_INET [206, 62, 226, 66]]"
  have "digit CHR ''d'' = None" by (simp add: digit_def)
  then have ports: "ga_ports demo 0 ''daytime'' = [(13, SOCK_STREAM), (13, SOCK_DGRAM)]"
    by (simp add: ga_ports_def serv_port_def demo_def)
  have "\<forall>ai \<in> set ?ais. ai_flags ai = AI_CLONE \<and> ai_socktype ai = 0 \<and> takes_port ai = 1"
    by (simp add: inet_entry_def takes_port_def)
  from ga_serv_each_type [OF _ ports this] show ?thesis
    by (simp add: with_port_def put_port_def cloned_def inet_entry_def inet_addr_def)
qed

subsection \<open>Numeric hosts and ports\<close>

lemma pton4_loop_colon: "CHR '':'' \<in> set s \<Longrightarrow> pton4_loop s tmp cur saw n = None"
proof (induction s tmp cur saw n rule: pton4_loop.induct)
  case (2 ch src tmp cur saw n)
  have "digit CHR '':'' = None" by (simp add: digit_def)
  with 2 show ?case by (auto simp: Let_def split: option.splits)
qed simp

lemma pton6_loop_no_colon:
  "CHR '':'' \<notin> set s \<Longrightarrow> pton6_loop s tmp c curtok saw val = Some (tmp', c') \<Longrightarrow>
     c' = c \<and> length tmp' \<le> length tmp + 4"
  by (induction s tmp c curtok saw val rule: pton6_loop.induct)
     (auto simp: Let_def put16_def inet_pton4_length split: if_splits option.splits)

lemma inet_pton6_colon: "inet_pton6 s = Some a \<Longrightarrow> CHR '':'' \<in> set s"
proof (rule ccontr)
  assume s: "inet_pton6 s = Some a" and no: "CHR '':'' \<notin> set s"
  then have "leading_colon s = Some s" by (cases s) (auto simp: leading_colon_def)
  with s pton6_loop_no_colon [OF no] show False
    by (fastforce simp: inet_pton6_def Let_def split: option.splits if_splits)
qed

lemma inet_pton6_hd: "inet_pton6 s = Some a \<Longrightarrow> s \<noteq> [] \<and> (xdigit (hd s) \<noteq> None \<or> hd s = CHR '':'')"
proof (cases s)
  case (Cons c cs)
  assume s: "inet_pton6 s = Some a"
  show ?thesis
  proof (rule ccontr)
    assume "\<not> ?thesis"
    with Cons have c: "xdigit c = None" "c \<noteq> CHR '':''" by auto
    have "digit CHR ''.'' = None" by simp
    with c have "pton6_loop (c # cs) [] None (c # cs) False 0 = None"
      by (auto simp: inet_pton4_def split: option.splits)
    with s Cons c show False by (simp add: inet_pton6_def leading_colon_def)
  qed
qed (use inet_pton6_colon in fastforce)

lemma strchr_in: "c \<in> set s \<Longrightarrow> strchr s c \<noteq> None"
  by (induction s) auto

lemma numeric6_of: "inet_pton6 s = Some a \<Longrightarrow> numeric4 s = None \<and> numeric6 s = Some a"
  using inet_pton6_hd [of s a] inet_pton6_colon [of s a] strchr_in [of "CHR '':''" s]
    pton4_loop_colon [of s "[]" 0 False 0]
  by (auto simp: numeric4_def numeric6_def inet_pton_def inet_pton4_def)

lemma numeric4_of: "inet_pton4 s = Some a \<Longrightarrow> numeric4 s = Some a"
  by (cases s) (auto simp: numeric4_def inet_pton_def inet_pton4_def split: option.splits if_splits)

text \<open>The port as text.\<close>

lemma utoa_first: "1 < b \<Longrightarrow> \<exists>d < b. hd (utoa b n) = digit_char d"
proof (induction n rule: less_induct)
  case (less n)
  show ?case
  proof (cases "n < b")
    case True
    then show ?thesis by (subst utoa.simps) auto
  next
    case False
    with less have "n div b < n" by (simp add: div_less_dividend)
    from less.IH [OF this less.prems] False less.prems show ?thesis by (subst utoa.simps) auto
  qed
qed

lemma hd_dec: "\<exists>d < 10. hd (dec n) = digit_char d"
  unfolding dec_def by (rule utoa_first) simp

lemma not_space_digit: "d < 10 \<Longrightarrow> \<not> is_space (digit_char d) \<and> digit_char d \<noteq> CHR ''-'' \<and> digit_char d \<noteq> CHR ''+''"
proof -
  have "\<forall>d \<in> set [0..<10]. \<not> is_space (digit_char d) \<and> digit_char d \<noteq> CHR ''-'' \<and> digit_char d \<noteq> CHR ''+''"
    by code_simp
  then show "d < 10 \<Longrightarrow> ?thesis" by simp
qed

lemma atoi_dec [simp]: "atoi (dec n) = int n"
proof -
  have ne: "dec n \<noteq> []" by (simp add: dec_def)
  obtain d where d: "d < 10" "hd (dec n) = digit_char d" using hd_dec by blast
  with ne not_space_digit [OF d(1)] have "dropWhile is_space (dec n) = dec n"
    by (cases "dec n") auto
  with d ne not_space_digit [OF d(1)] show ?thesis
    using atoi_digits_utoa [of n "[]"] by (simp add: atoi_def Let_def dec_def)
qed

lemma ga_ports_numeric:
  "ga_ports R st (dec (unat (ntohs port))) =
     (if st \<noteq> 0 then [(port, st)] else [(port, SOCK_STREAM), (port, SOCK_DGRAM)])"
proof -
  obtain d where d: "d < 10" "hd (dec (unat (ntohs port))) = digit_char d" using hd_dec by blast
  then show ?thesis by (simp add: ga_ports_def Let_def htons_def)
qed

definition numeric_host :: "string \<Rightarrow> int \<Rightarrow> bytes \<Rightarrow> bool" where
  "numeric_host host af a \<longleftrightarrow> host \<noteq> [] \<and> inet_ok af a \<and>
     (if af = AF_INET then numeric4 host = Some a else numeric4 host = None \<and> numeric6 host = Some a)"

lemma ga_host_numeric:
  assumes "numeric_host host af a" and "ai_family hints = AF_UNSPEC \<or> ai_family hints = af"
  shows "ga_host R hostname hints n host family ais canon h w =
    (if family \<noteq> af then Ret (0, ais, canon, h) w
     else then_run (ga_aistruct ais hints (V_bytes a) af h w) (\<lambda>r w.
       case r of (rc, ais, h) \<Rightarrow> Ret (rc, ais, canon, h) w))"
  using assms by (auto simp: ga_host_def numeric_host_def inet_ok_def Let_def)

lemma ga_hosts_numeric:
  assumes "numeric_host host af a" and "ai_family hints = AF_UNSPEC \<or> ai_family hints = af" and "2 \<le> room h"
  shows "ga_hosts R hostname hints n (ga_searches (Some host) hints) [] None h w =
    Ret (0, [inet_entry hints af a], None, h\<lparr>room := room h - 2, live := live h + 2\<rparr>) w \<and>
    length (ga_searches (Some host) hints) \<in> {1, 2}"
proof -
  have ok: "inet_ok af a" "host \<noteq> []" using assms(1) by (auto simp: numeric_host_def)
  then have af: "af = AF_INET \<or> af = AF_INET6" by (auto simp: inet_ok_def)
  show ?thesis
  proof (cases "ai_family hints = AF_UNSPEC")
    case True
    then have "ga_searches (Some host) hints = [(host, AF_INET6), (host, AF_INET)]"
      using ok by (simp add: ga_searches_def no_text_def)
    with af assms ok show ?thesis by (auto simp: ga_host_numeric [OF assms(1,2)] ga_aistruct_ok)
  next
    case False
    then have "ga_searches (Some host) hints = [(host, af)]"
      using ok assms(2) af by (auto simp: ga_searches_def no_text_def)
    with assms ok show ?thesis by (simp add: ga_host_numeric [OF assms(1,2)] ga_aistruct_ok)
  qed
qed

lemma digit_not_slash: "d < 10 \<Longrightarrow> digit_char d \<noteq> CHR ''/''"
proof -
  have "\<forall>d \<in> set [0..<10]. digit_char d \<noteq> CHR ''/''" by code_simp
  then show "d < 10 \<Longrightarrow> ?thesis" by simp
qed

text \<open>
  (C26) Numeric names are inverse to each other: the host and port strings \<^verbatim>\<open>getnameinfo\<close> makes for
  an IPv4 or IPv6 address under the two numeric flags fit their buffers, and \<^verbatim>\<open>getaddrinfo\<close> on them,
  for either family or both and a stream or datagram socket, returns exactly one entry, with
  that address and port, without asking the name service.
\<close>

theorem getnameinfo_getaddrinfo:
  assumes sa: "sa = SA_in port a \<and> af = AF_INET \<or> sa = SA_in6 port 0 a 0 \<and> af = AF_INET6"
    and ok: "inet_ok af a" and sizes: "INET6_ADDRSTRLEN \<le> hostlen" "6 \<le> servlen" and room: "2 \<le> room h"
    and fam: "ai_family hints = AF_UNSPEC \<or> ai_family hints = af"
    and st: "ai_socktype hints = SOCK_STREAM \<or> ai_socktype hints = SOCK_DGRAM" and fl: "ai_flags hints = 0"
  shows "\<exists>host serv ai h'. getnameinfo R sa hostlen servlen (NI_NUMERICHOST OR NI_NUMERICSERV) =
      Inr (Some host, Some serv) \<and>
    getaddrinfo R (Some host) (Some serv) (Some hints) h w = Ret (0, [ai], h') w \<and>
    ai_addr ai = sa \<and> ai_family ai = af \<and> ai_socktype ai = ai_socktype hints"
proof -
  have sizes4: "INET_ADDRSTRLEN \<le> hostlen" using sizes by (simp add: unp_consts)
  obtain host where host: "inet_ntop af a hostlen = Inr host" and num: "numeric_host host af a"
  proof (cases "af = AF_INET")
    case True
    with ok obtain s where "inet_ntop4 a hostlen = Inr s" "inet_pton4 s = Some a" "s \<noteq> []"
      using ip4.print_parse_ok [of a hostlen] sizes4 by (fastforce simp: inet_ok_def inet_pton4_def)
    with True ok that [of s] show ?thesis by (simp add: inet_ntop_def numeric_host_def numeric4_of)
  next
    case False
    with ok obtain s where "inet_ntop6 a hostlen = Inr s" "inet_pton6 s = Some a"
      using ip6.print_parse_ok [of a hostlen] sizes(1) by (fastforce simp: inet_ok_def)
    with False ok that [of s] inet_pton6_hd [of s a] show ?thesis
      by (auto simp: inet_ntop_def numeric_host_def numeric6_of inet_ok_def)
  qed
  define serv where "serv = dec (unat (ntohs port))"
  have "length serv < servlen" using length_port [of "ntohs port"] sizes(2) by (simp add: serv_def)
  then have names: "getnameinfo R sa hostlen servlen (NI_NUMERICHOST OR NI_NUMERICSERV) = Inr (Some host, Some serv)"
    using sa host sizes by (auto simp: getnameinfo_def gn_ipv46_def gn_host_def gn_serv_def serv_def unp_consts)
  obtain d where "d < 10" "hd serv = digit_char d" using hd_dec serv_def by blast
  then have local: "\<not> is_local (Some host) (Some serv)"
    using digit_not_slash by (auto simp: is_local_def)
  have ne: "serv \<noteq> []" "host \<noteq> []" using num by (simp_all add: serv_def dec_def numeric_host_def)
  define ai where "ai = inet_entry hints af a"
  have st0: "ai_socktype hints \<noteq> 0" using st by (auto simp: unp_consts)
  have ai: "ai_flags ai = 0" "ai_socktype ai = ai_socktype hints" "takes_port ai = 1" "ai_family ai = af"
    "ai_addr (with_port port (ai_socktype hints) ai) = sa"
    using sa ok st0 by (auto simp: ai_def inet_entry_def takes_port_def inet_ok_def inet_addr_def
        with_port_def put_port_def)
  have check: "ga_echeck (Some host) (Some serv) 0 (ai_family hints) (ai_socktype hints) (ai_protocol hints) = 0"
    using fam ok st ne by (auto simp: ga_echeck_def no_text_def inet_ok_def)
  note hosts = ga_hosts_numeric [OF num fam room, of R "Some host" "length (ga_searches (Some host) hints)" w]
  let ?h = "h\<lparr>room := room h - 2, live := live h + 2\<rparr>"
  have "ga_serv R [ai] hints serv ?h = (0, [with_port port (ai_socktype hints) ai], ?h)"
    using ga_port_typed [of "[ai]" "ai_socktype hints" port ?h] ai st0
    by (simp add: ga_serv_def serv_def ga_ports_numeric)
  with hosts local ne check fl have "getaddrinfo R (Some host) (Some serv) (Some hints) h w =
      Ret (0, [with_port port (ai_socktype hints) ai], ?h) w"
    by (auto simp: getaddrinfo_def Let_def ga_nsearch_def ga_finish_def no_text_def ga_result_def ai_def)
  with names ai show ?thesis by auto
qed

theorem getnameinfo_getaddrinfo_witness:
  "\<exists>host serv ai h'. getnameinfo demo (SA_in6 8080 0 [32, 1, 13, 184, 0, 0, 0, 0, 0, 0, 0, 0, 0, 0, 0, 1] 0)
       1025 32 (NI_NUMERICHOST OR NI_NUMERICSERV) = Inr (Some host, Some serv) \<and>
     getaddrinfo demo (Some host) (Some serv) (Some (no_hints\<lparr>ai_socktype := SOCK_STREAM\<rparr>))
       \<lparr>room = 2, live = 0\<rparr> (boot []) = Ret (0, [ai], h') (boot []) \<and>
     ai_addr ai = SA_in6 8080 0 [32, 1, 13, 184, 0, 0, 0, 0, 0, 0, 0, 0, 0, 0, 0, 1] 0"
proof -
  have ok: "inet_ok AF_INET6 [32, 1, 13, 184, 0, 0, 0, 0, 0, 0, 0, 0, 0, 0, 0, 1]"
    by (simp add: inet_ok_def)
  have "\<exists>host serv ai h'. getnameinfo demo (SA_in6 8080 0 [32, 1, 13, 184, 0, 0, 0, 0, 0, 0, 0, 0, 0, 0, 0, 1] 0)
       1025 32 (NI_NUMERICHOST OR NI_NUMERICSERV) = Inr (Some host, Some serv) \<and>
     getaddrinfo demo (Some host) (Some serv) (Some (no_hints\<lparr>ai_socktype := SOCK_STREAM\<rparr>))
       \<lparr>room = 2, live = 0\<rparr> (boot []) = Ret (0, [ai], h') (boot []) \<and>
     ai_addr ai = SA_in6 8080 0 [32, 1, 13, 184, 0, 0, 0, 0, 0, 0, 0, 0, 0, 0, 0, 1] 0 \<and>
     ai_family ai = AF_INET6 \<and> ai_socktype ai = ai_socktype (no_hints\<lparr>ai_socktype := SOCK_STREAM\<rparr>)"
    using ok by (intro getnameinfo_getaddrinfo) (simp_all add: INET6_ADDRSTRLEN_def gai_consts)
  then show ?thesis by blast
qed

section \<open>The lookup as the clients see it\<close>

text \<open>
  Off the local branch no step calls the kernel: its result does not depend on the world. So the
  lookup is the pure function the clients of \<^verbatim>\<open>Net_Helpers\<close> take as a parameter.
\<close>

definition quiet :: "(world \<Rightarrow> 'a run) \<Rightarrow> bool" where
  "quiet m \<longleftrightarrow> (\<exists>r. \<forall>w. m w = Ret r w)"

lemma quiet_Ret [simp]: "quiet (\<lambda>w. Ret r w)"
  by (simp add: quiet_def)

lemma quiet_then: "quiet m \<Longrightarrow> (\<And>r. quiet (f r)) \<Longrightarrow> quiet (\<lambda>w. then_run (m w) f)"
  unfolding quiet_def by (metis then_run.simps(1))

lemma quiet_if: "(c \<Longrightarrow> quiet m) \<Longrightarrow> (\<not> c \<Longrightarrow> quiet n) \<Longrightarrow> quiet (\<lambda>w. if c then m w else n w)"
  by (cases c) simp_all

lemma quiet_option: "quiet m \<Longrightarrow> (\<And>y. quiet (f y)) \<Longrightarrow> quiet (\<lambda>w. case x of None \<Rightarrow> m w | Some y \<Rightarrow> f y w)"
  by (cases x) simp_all

lemma quiet_triple:
  "(\<And>x y z. quiet (f x y z)) \<Longrightarrow> quiet (\<lambda>w. case r of (x, y, z) \<Rightarrow> f x y z w)"
  by (cases r) simp

lemmas quiet_intros = quiet_then quiet_if quiet_option quiet_triple quiet_Ret

lemma quiet_aistruct: "family \<noteq> AF_UNIX \<Longrightarrow> quiet (ga_aistruct ais hints addr family h)"
proof (cases "alloc h")
  case (Some h1)
  assume "family \<noteq> AF_UNIX"
  with Some show ?thesis
    by (cases "alloc h1"; cases "family = AF_INET"; cases "family = AF_INET6")
       (simp_all add: ga_aistruct_def Let_def quiet_def)
qed (simp add: ga_aistruct_def quiet_def)

lemma quiet_addrs: "family \<noteq> AF_UNIX \<Longrightarrow> quiet (ga_addrs ais hints aps family h)"
proof (induction aps arbitrary: ais h)
  case (Cons ap aps)
  show ?case
    unfolding ga_addrs.simps by (intro quiet_intros quiet_aistruct Cons.IH Cons.prems)
qed (simp add: quiet_def)

lemma quiet_host:
  assumes "resolver_ok R"
  shows "quiet (ga_host R hostname hints nsearch host family ais canon h)"
proof -
  have fam: "h_addrtype hptr \<noteq> AF_UNIX" if "ga_resolve R nsearch host family = Inr hptr" for hptr
    using assms that by (fastforce simp: resolver_ok_def hostent_ok_def ga_resolve_def split: if_splits)
  show ?thesis
    unfolding ga_host_def Let_def
    by (cases "numeric4 host"; cases "numeric6 host"; cases "ga_resolve R nsearch host family")
       (auto intro!: quiet_intros quiet_aistruct quiet_addrs fam split: prod.split)
qed

lemma quiet_hosts: "resolver_ok R \<Longrightarrow> quiet (ga_hosts R hostname hints nsearch search ais canon h)"
proof (induction search arbitrary: ais canon h)
  case (Cons p search)
  obtain host family where p: "p = (host, family)" by force
  show ?case
    unfolding p ga_hosts.simps
    by (intro quiet_then quiet_host Cons.prems) (auto intro!: quiet_if Cons split: prod.split)
qed (simp add: quiet_def)

lemma quiet_getaddrinfo:
  assumes "resolver_ok R" and "\<not> is_local hostname servname" and "ai_family hints \<noteq> AF_UNIX"
  shows "quiet (getaddrinfo R hostname servname (Some hints) h)"
proof (cases "ga_echeck hostname servname (ai_flags hints) (ai_family hints) (ai_socktype hints) (ai_protocol hints) = 0")
  case True
  then have "ai_family hints = AF_UNSPEC \<or> ai_family hints = AF_INET \<or> ai_family hints = AF_INET6"
    using assms(3) by (auto simp: ga_echeck_def split: if_splits)
  then have "quiet (ga_nsearch hostname hints)"
    by (auto simp: ga_nsearch_def ga_searches_def Let_def quiet_def)
  with True assms show ?thesis
    unfolding getaddrinfo_def Let_def option.case
    by (auto intro!: quiet_then quiet_hosts split: prod.splits)
qed (simp add: getaddrinfo_def quiet_def)

definition gai_of :: "resolver \<Rightarrow> heap \<Rightarrow> gai" where
  "gai_of R h host serv hints =
     (case getaddrinfo R host serv (Some hints) h (boot []) of
        Ret r w \<Rightarrow> (if fst r = 0 then Inr (fst (snd r)) else Inl (fst r))
      | _ \<Rightarrow> Inl EAI_SYSTEM)"

lemma gai_of_iff:
  assumes "resolver_ok R" and "\<not> is_local host serv" and "ai_family hints \<noteq> AF_UNIX"
  shows "gai_of R h host serv hints = Inr res \<longleftrightarrow>
    (\<exists>h'. getaddrinfo R host serv (Some hints) h w = Ret (0, res, h') w)"
proof -
  obtain r where "\<And>w. getaddrinfo R host serv (Some hints) h w = Ret r w"
    using quiet_getaddrinfo [OF assms] unfolding quiet_def by blast
  then show ?thesis by (cases r) (auto simp: gai_of_def)
qed

text \<open>
  What the clients rely on, for a provider that keeps its promise under the condition \<open>given\<close>: a
  successful lookup finds something, and all it finds can be used.
\<close>

locale address_lookup =
  fixes gai :: gai and given :: bool
  assumes found: "given \<Longrightarrow> gai host serv hints = Inr res \<Longrightarrow> res \<noteq> []"
    and usable: "given \<Longrightarrow> gai host serv hints = Inr res \<Longrightarrow> ai \<in> set res \<Longrightarrow> addr_ok ai \<and>
      (ai_family hints = AF_UNSPEC \<or> ai_family hints = ai_family ai) \<and>
      (ai_socktype hints = 0 \<or> ai_socktype ai = ai_socktype hints)"
begin

lemma lookup_ok: "given \<Longrightarrow> gai_ok gai"
  using found by (auto simp: gai_ok_def)

lemma connect_target:
  assumes given and "tcp_connect gai ge host serv w = Ret fd w'"
  shows "\<exists>ai es a. addr_ok ai \<and> ai_socktype ai = SOCK_STREAM \<and>
    trace w' = trace w @ es @ [Sys (C_connect fd (ai_addr ai)) a] \<and> a_err a = 0 \<and> opened es = closed es @ [fd]"
proof -
  let ?hints = "no_hints\<lparr>ai_family := AF_UNSPEC, ai_socktype := SOCK_STREAM\<rparr>"
  from assms(2) obtain ai where "open_first gai ge ''tcp_connect'' connect_setup ?hints host serv w = Ret (fd, ai) w'"
    by (auto simp: tcp_connect_def then_run_Ret_iff)
  from connecting.open_first_fds [OF this] obtain res es a where
    res: "gai (Some host) (Some serv) ?hints = Inr res" "ai \<in> set res"
    and tr: "trace w' = trace w @ es @ [Sys (C_connect fd (ai_addr ai)) a]" "a_err a = 0"
      "opened es = closed es @ [fd]" by blast
  from usable [OF assms(1) res] tr show ?thesis by (auto simp: gai_consts)
qed

lemma listen_target:
  assumes given and "open_first gai ge name listen_setup
    (no_hints\<lparr>ai_flags := AI_PASSIVE, ai_family := AF_UNSPEC, ai_socktype := SOCK_STREAM\<rparr>) host serv w = Ret (fd, ai) w'"
  shows "addr_ok ai \<and> ai_socktype ai = SOCK_STREAM"
proof -
  from listening.open_first_fds [OF assms(2)] obtain res where
    "gai (Some host) (Some serv) (no_hints\<lparr>ai_flags := AI_PASSIVE, ai_family := AF_UNSPEC,
       ai_socktype := SOCK_STREAM\<rparr>) = Inr res" "ai \<in> set res" by blast
  from usable [OF assms(1) this] show ?thesis by (auto simp: gai_consts)
qed

end

lemma gai_of_Inr:
  "gai_of R h host serv hints = Inr res \<Longrightarrow>
     \<exists>h' w'. getaddrinfo R host serv (Some hints) h (boot []) = Ret (0, res, h') w'"
  by (auto simp: gai_of_def split: run.splits if_splits)

lemma getaddrinfo_Ret:
  assumes "resolver_ok R" and "getaddrinfo R hostname servname (Some hints) h w = Ret (0, res, h') w'"
  shows "res \<noteq> [] \<and> (\<forall>ai \<in> set res. entry_ok hints ai)"
proof (cases "is_local hostname servname")
  case True
  with assms(2) have "ga_unix R (the servname) hints h w = Ret (0, res, h') w'"
    by (auto simp: getaddrinfo_def Let_def split: if_splits)
  from ga_unix_ok [OF this] show ?thesis by blast
next
  case False
  from getaddrinfo_inet [OF assms False] show ?thesis by blast
qed

interpretation libgai: address_lookup "gai_of R h" "resolver_ok R" for R h
proof
  fix host serv hints res ai
  assume R: "resolver_ok R" and gai: "gai_of R h host serv hints = Inr res"
  from gai_of_Inr [OF gai] getaddrinfo_Ret [OF R] have res: "res \<noteq> []" "\<forall>ai \<in> set res. entry_ok hints ai"
    by blast+
  from res(1) show "res \<noteq> []" .
  assume "ai \<in> set res"
  with res(2) entry_ok_parts show "addr_ok ai \<and> (ai_family hints = AF_UNSPEC \<or> ai_family hints = ai_family ai) \<and>
      (ai_socktype hints = 0 \<or> ai_socktype ai = ai_socktype hints)" by blast
qed

end
