(* ===== verification/Run_Logic.thy ===== *)
theory Run_Logic
  imports Echo
begin

text \<open>
  A logic for runs that may never return: \<^verbatim>\<open>keeps P m Q\<close> says that the run \<open>m\<close> leaves a trace
  satisfying \<open>P\<close> wherever it stops (returned, exited, or waiting in a system call), and that \<open>Q\<close>
  holds when it returns. Servers and clients with endless loops are verified with it: the
  property of interest is \<open>P\<close>, the loop invariant is \<open>Q\<close>.
\<close>

named_theorems keeps_intros
  \<open>rules that take a run apart at its sequencing operator\<close>

definition keeps :: "(event list \<Rightarrow> bool) \<Rightarrow> 'a run \<Rightarrow> ('a \<Rightarrow> world \<Rightarrow> bool) \<Rightarrow> bool" where
  "keeps P m Q \<longleftrightarrow> P (trace (world_of m)) \<and> (\<forall>x w'. m = Ret x w' \<longrightarrow> Q x w')"

lemma keeps_then:
  "keeps P m R \<Longrightarrow> (\<And>x w'. m = Ret x w' \<Longrightarrow> R x w' \<Longrightarrow> keeps P (f x w') Q) \<Longrightarrow> keeps P (then_run m f) Q"
  by (cases m) (auto simp: keeps_def)

lemma keeps_Ret: "P (trace w) \<Longrightarrow> Q x w \<Longrightarrow> keeps P (Ret x w) Q"
  by (simp add: keeps_def)

lemma keeps_Exit: "P (trace w) \<Longrightarrow> keeps P (Exit s w) Q"
  by (simp add: keeps_def)

lemma keeps_weaken: "keeps P m R \<Longrightarrow> (\<And>x w'. m = Ret x w' \<Longrightarrow> R x w' \<Longrightarrow> Q x w') \<Longrightarrow> keeps P m Q"
  by (auto simp: keeps_def)

lemma keeps_trace: "keeps P m Q \<Longrightarrow> P (trace (world_of m))"
  by (simp add: keeps_def)

lemma keeps_result: "keeps P m Q \<Longrightarrow> m = Ret x w' \<Longrightarrow> Q x w'"
  by (simp add: keeps_def)

text \<open>
  A system call: the trace grows by the call and the kernel's answer. The calls with a decoded
  result are the call followed by a pure function of the answer.
\<close>

lemma keeps_sys:
  assumes "P (trace w)" and "\<And>a. P (trace w @ [Sys c a])"
    and "\<And>a s. script w = a # s \<Longrightarrow> Q a (called c a s w)"
  shows "keeps P (sys c w) Q"
  using assms by (cases "script w") (auto simp: keeps_def sys_def)

lemma keeps_checked:
  assumes "keeps P m R" and "\<And>x w'. m = Ret x w' \<Longrightarrow> R x w' \<Longrightarrow> bad x \<Longrightarrow> P (trace (err_doit True LOG_ERR msg w'))"
    and "\<And>x w'. m = Ret x w' \<Longrightarrow> R x w' \<Longrightarrow> \<not> bad x \<Longrightarrow> Q x w'"
  shows "keeps P (checked bad msg m) Q"
  using assms by (cases m) (auto simp: keeps_def checked_def err_sys_def)

section \<open>Bytes received and sent\<close>

text \<open>Diagnostics and calls that move no data leave the accounts of every descriptor as they are.\<close>

definition silent :: "event \<Rightarrow> bool" where
  "silent e \<longleftrightarrow> (\<forall>fd. accepted_ev fd e = [] \<and> delivered_ev fd e = [])"

lemma accepted_silent [simp]: "silent e \<Longrightarrow> accepted fd (es @ [e]) = accepted fd es"
  by (simp add: silent_def)

lemma delivered_silent [simp]: "silent e \<Longrightarrow> delivered fd (es @ [e]) = delivered fd es"
  by (simp add: silent_def)

lemma silent_output [simp]: "silent (Stdout s)" "silent (Stderr s)" "silent (Syslog l s)"
  by (simp_all add: silent_def)

lemma silent_call [simp]:
  "silent (Sys (C_close fd) a)" "silent (Sys (C_accept fd) a)" "silent (Sys (C_bind fd sa) a)"
  "silent (Sys (C_connect fd sa) a)" "silent (Sys (C_listen fd n) a)" "silent (Sys (C_socket f t p) a)"
  "silent (Sys (C_shutdown fd n) a)" "silent (Sys (C_select n R W tm) a)" "silent (Sys (C_poll fds n) a)"
  "silent (Sys (C_fcntl fd c n) a)" "silent (Sys C_fork a)" "silent (Sys (C_setsockopt fd l n v) a)"
  "silent (Sys (C_getsockopt fd l n) a)" "silent (Sys (C_sigaction n h f) a)"
  by (simp_all add: silent_def)

lemma accepted_one [simp]:
  "accepted_ev fd (Sys (C_read fd' n) a) = []" "delivered_ev fd (Sys (C_write fd' b) a) = []"
  by simp_all

text \<open>An echo server owes nothing it was not sent.\<close>

definition echoing :: "event list \<Rightarrow> bool" where
  "echoing es \<longleftrightarrow> (\<forall>fd. prefix (accepted fd es) (delivered fd es))"

definition settled :: "event list \<Rightarrow> bool" where
  "settled es \<longleftrightarrow> (\<forall>fd. accepted fd es = delivered fd es)"

lemma settled_echoing: "settled es \<Longrightarrow> echoing es"
  by (simp add: settled_def echoing_def)

lemma settled_Nil [simp]: "settled []"
  by (simp add: settled_def)

lemma settled_silent [simp]: "silent e \<Longrightarrow> settled (es @ [e]) = settled es"
  by (simp add: settled_def silent_def)

lemma echoing_silent [simp]: "silent e \<Longrightarrow> echoing (es @ [e]) = echoing es"
  by (simp add: echoing_def silent_def)

lemma echoing_err_doit [simp]: "echoing (trace (err_doit f l m w)) = echoing (trace w)"
  by (simp add: echoing_def)

lemma settled_err_doit [simp]: "settled (trace (err_doit f l m w)) = settled (trace w)"
  by (simp add: settled_def)

text \<open>
  Reading a buffer and writing it back: what is read may be written to the same descriptor, and
  when \<^verbatim>\<open>Writen\<close> returns everything is.
\<close>

lemma settled_read: "settled es \<Longrightarrow> echoing (es @ [Sys (C_read fd n) a])"
  by (simp add: settled_def echoing_def)

lemma settled_read_nothing:
  "settled es \<Longrightarrow> a_err a \<noteq> 0 \<or> take n (a_data a) = [] \<Longrightarrow> settled (es @ [Sys (C_read fd n) a])"
  by (auto simp: settled_def)

lemma writen_loop_other:
  "\<exists>es. trace (world_of (writen_loop fd n rest w)) = trace w @ es \<and> writes_only fd es"
  using writen_loop_world by blast

lemma writes_only_accepted: "writes_only fd es \<Longrightarrow> fd' \<noteq> fd \<Longrightarrow> accepted fd' es = []"
  by (induction es) (auto simp: writes_only_def)

lemma Writen_writes:
  "\<exists>es k. trace (world_of (Writen fd buf w)) = trace w @ es \<and> accepted fd es = take k buf \<and>
     (\<forall>fd'. fd' \<noteq> fd \<longrightarrow> accepted fd' es = []) \<and> (\<forall>fd'. delivered fd' es = []) \<and>
     (\<forall>e \<in> set es. (\<exists>b a. e = Sys (C_write fd b) a) \<or> (\<exists>s. e = Stderr s) \<or> (\<exists>l s. e = Syslog l s)) \<and>
     (\<forall>x w'. Writen fd buf w = Ret x w' \<longrightarrow> accepted fd es = buf)"
proof -
  obtain es k where es: "trace (world_of (writen fd buf w)) = trace w @ es" "writes_only fd es"
    "accepted fd es = take k buf" using writen_loop_world unfolding writen_def by blast
  note one = es writes_only_delivered [OF es(2)] writes_only_accepted [OF es(2)]
  show ?thesis
  proof (cases "writen fd buf w")
    case (Ret r w1)
    show ?thesis
    proof (cases "r = int (length buf)")
      case True
      with writen_loop_spec [of fd "length buf" buf w r w1] Ret es(1) have "accepted fd es = buf"
        by (auto simp: writen_def)
      with True Ret one show ?thesis
        by (intro exI [of _ es] exI [of _ k]) (auto simp: Writen_def writes_only_def)
    next
      case False
      then obtain e where "trace (world_of (Writen fd buf w)) = trace w @ es @ [e]"
        "(\<exists>s. e = Stderr s) \<or> (\<exists>l s. e = Syslog l s)"
        using Ret es(1) err_doit_trace [of True LOG_ERR "''writen error''" w1]
        by (auto simp: Writen_def err_sys_def)
      with False Ret one show ?thesis
        by (intro exI [of _ "es @ [e]"] exI [of _ k]) (auto simp: Writen_def err_sys_def writes_only_def)
    qed
  qed (use one in \<open>intro exI [of _ es] exI [of _ k], auto simp: Writen_def writes_only_def\<close>)
qed

lemma keeps_echo:
  assumes "settled es" and "trace w = es @ [Sys (C_read fd n) a]" and "a_err a = 0"
    and "buf = take n (a_data a)"
  shows "keeps echoing (Writen fd buf w) (\<lambda>_ w'. settled (trace w'))"
proof -
  obtain es' k where es': "trace (world_of (Writen fd buf w)) = trace w @ es'" "accepted fd es' = take k buf"
    "\<forall>fd'. fd' \<noteq> fd \<longrightarrow> accepted fd' es' = []" "\<forall>fd'. delivered fd' es' = []"
    "\<forall>x w'. Writen fd buf w = Ret x w' \<longrightarrow> accepted fd es' = buf"
    using Writen_writes by blast
  have acc: "accepted fd' (trace w @ es') = accepted fd' es @ (if fd' = fd then take k buf else [])"
    and del: "delivered fd' (trace w @ es') = delivered fd' es @ (if fd' = fd then buf else [])" for fd'
    using assms es' by auto
  have "echoing (trace w @ es')"
    unfolding echoing_def acc del using assms(1) by (simp add: settled_def take_is_prefix)
  moreover have "settled (trace w')" if "Writen fd buf w = Ret x w'" for x w'
  proof -
    have "take k buf = buf" using es'(2,5) that by auto
    then have "settled (trace w @ es')" unfolding settled_def acc del using assms(1) by (simp add: settled_def)
    with es'(1) that show ?thesis by simp
  qed
  ultimately show ?thesis using es'(1) by (simp add: keeps_def)
qed

section \<open>The wrappers\<close>

context wrapper begin

lemma wrap_keeps_any:
  assumes "P (trace w)" and "\<And>a s. a_err a = 0 \<Longrightarrow> P (trace (called c a s w))"
    and "\<And>a s. P (trace (err_doit True LOG_ERR msg (called c a s w)))"
  shows "keeps P (wrap w) (\<lambda>x w'. \<exists>a s. script w = a # s \<and> a_err a = 0 \<and> x = val a \<and> w' = called c a s w)"
  using assms by (cases "script w") (auto simp: keeps_def wrap_answer wrap_block)

lemma wrap_keeps:
  assumes "echoing (trace w)" and "\<And>a. silent (Sys c a)"
  shows "keeps echoing (wrap w) (\<lambda>x w'. \<exists>a s. script w = a # s \<and> a_err a = 0 \<and> x = val a \<and> w' = called c a s w)"
  using assms by (intro wrap_keeps_any) auto

end

section \<open>What a run adds to the trace\<close>

text \<open>\<open>only Q m w\<close>: however the run \<open>m\<close> from \<open>w\<close> ends, all it added to the trace satisfies \<open>Q\<close>.\<close>

definition only :: "(event \<Rightarrow> bool) \<Rightarrow> 'a run \<Rightarrow> world \<Rightarrow> bool" where
  "only Q m w \<longleftrightarrow> (\<exists>es. trace (world_of m) = trace w @ es \<and> (\<forall>e \<in> set es. Q e))"

lemma only_then [intro]:
  "only Q m w \<Longrightarrow> (\<And>x w'. m = Ret x w' \<Longrightarrow> only Q (f x w') w') \<Longrightarrow> only Q (then_run m f) w"
proof (cases m)
  case (Ret x w')
  assume "only Q m w" and "\<And>x w'. m = Ret x w' \<Longrightarrow> only Q (f x w') w'"
  then have one: "only Q (Ret x w') w" and two: "only Q (f x w') w'" using Ret by auto
  from one obtain es where es: "trace w' = trace w @ es" "\<forall>e \<in> set es. Q e" by (auto simp: only_def)
  from two obtain es' where es': "trace (world_of (f x w')) = trace w' @ es'" "\<forall>e \<in> set es'. Q e"
    by (auto simp: only_def)
  show ?thesis unfolding only_def
    by (rule exI [of _ "es @ es'"]) (use es es' Ret in auto)
qed (auto simp: only_def)

lemma only_Ret [simp]: "only Q (Ret x w) w" "only Q (Exit s w) w"
  by (simp_all add: only_def)

lemma only_emit: "only Q m (emit e w) \<Longrightarrow> Q e \<Longrightarrow> only Q m w"
  by (force simp: only_def emit_def)

lemma only_err:
  assumes "\<And>s. Q (Stderr s)" and "\<And>l s. Q (Syslog l s)"
  shows "only Q (err_quit m w) w" "only Q (err_sys m w) w" "only Q (err_ret m w) w" "only Q (err_msg m w) w"
  using assms by (auto simp: only_def err_quit_def err_sys_def err_ret_def err_msg_def err_doit_def Let_def emit_def)

lemma only_sys: "(\<And>a. Q (Sys c a)) \<Longrightarrow> only Q (sys c w) w"
  by (cases "script w") (auto simp: only_def sys_def)

lemma only_Writen:
  assumes "\<And>b a. Q (Sys (C_write fd b) a)" and "\<And>s. Q (Stderr s)" and "\<And>l s. Q (Syslog l s)"
  shows "only Q (Writen fd b w) w"
  using Writen_writes [of fd b w] assms by (fastforce simp: only_def)

context wrapper begin

lemma wrap_only:
  assumes "\<And>a. Q (Sys c a)" and "\<And>s. Q (Stderr s)" and "\<And>l s. Q (Syslog l s)"
  shows "only Q (wrap w) w"
  using assms by (cases "script w") (auto simp: only_def wrap_answer wrap_block err_doit_def Let_def emit_def)

end

text \<open>The undecorated calls.\<close>

lemma keeps_sys_read:
  assumes "P (trace w)" and "\<And>a. P (trace w @ [Sys (C_read fd n) a])"
  shows "keeps P (sys_read fd n w) (\<lambda>r w'. \<exists>a s. script w = a # s \<and> w' = called (C_read fd n) a s w \<and>
     r = (if a_err a = 0 then (int (length (take n (a_data a))), take n (a_data a)) else (- 1, [])))"
  using assms by (cases "script w") (auto simp: keeps_def sys_read_def sys_data_def sys_def)

lemma keeps_sys_write:
  assumes "P (trace w)" and "\<And>a. P (trace w @ [Sys (C_write fd b) a])"
  shows "keeps P (sys_write fd b w) (\<lambda>r w'. \<exists>a s. script w = a # s \<and> w' = called (C_write fd b) a s w \<and>
     r = (if a_err a = 0 then int (min (length b) (a_val a)) else - 1))"
  using assms by (cases "script w") (auto simp: keeps_def sys_write_def sys_accepts_def sys_def)

lemma keeps_Select:
  assumes "P (trace w)" and "\<And>a. P (trace w @ [Sys (C_select m R W tm) a])"
    and "\<And>a s. P (trace (err_doit True LOG_ERR ''select error'' (called (C_select m R W tm) a s w)))"
  shows "keeps P (Select m R W tm w) (\<lambda>r w'. \<exists>a. trace w' = trace w @ [Sys (C_select m R W tm) a] \<and>
     fst (snd r) \<subseteq> R \<and> snd (snd r) \<subseteq> W)"
  using assms by (cases "script w")
    (auto simp: Select_def keeps_def checked_def sys_select_def sys_def err_sys_def ready_def)

lemma Read_consumes: "Read fd n w = Ret r w' \<Longrightarrow> length (script w') < length (script w)"
  by (auto simp: Read_def checked_Ret_iff dest: sys_read_consumes)

lemma Select_consumes: "Select m R W tm w = Ret r w' \<Longrightarrow> length (script w') < length (script w)"
  by (auto simp: Select_def checked_Ret_iff dest: sys_select_consumes)

lemma Write_consumes: "Write fd b w = Ret r w' \<Longrightarrow> length (script w') < length (script w)"
  by (auto simp: Write_def void_def then_run_Ret_iff checked_Ret_iff dest: sys_write_consumes)

end
