(* ===== verification/Fd_Table.thy ===== *)
theory Fd_Table
  imports Run_Logic
begin

text \<open>
  Tables of descriptors, as the single-process concurrent servers of \<^verbatim>\<open>tcpcliserv\<close> keep them: a
  slot of the table is free when it holds a negative number. The table is related to the
  descriptors the kernel has handed out and not taken back, as the trace records them; the
  interface \<^verbatim>\<open>fd_table\<close> carries the steps that accept, serve and close a connection through that
  relation, once for all servers. The start of a TCP server is here too.
\<close>

section \<open>Open descriptors\<close>

text \<open>
  A trace determines the open descriptors: those \<^verbatim>\<open>socket\<close> and \<^verbatim>\<open>accept\<close> returned and \<^verbatim>\<open>close\<close>
  has not closed, besides the three standard ones. The kernel keeps its contract, \<open>fd_fresh\<close>,
  when no new descriptor was open already.
\<close>

fun fd_step :: "event \<Rightarrow> fd set \<times> bool \<Rightarrow> fd set \<times> bool" where
  "fd_step (Sys (C_socket f t p) a) (S, ok) =
     (if a_err a = 0 then (insert (int (a_val a)) S, ok \<and> int (a_val a) \<notin> S) else (S, ok))"
| "fd_step (Sys (C_accept l) a) (S, ok) =
     (if a_err a = 0 then (insert (int (a_val a)) S, ok \<and> int (a_val a) \<notin> S) else (S, ok))"
| "fd_step (Sys (C_close fd) a) (S, ok) = (if a_err a = 0 then (S - {fd}, ok) else (S, ok))"
| "fd_step e s = s"

definition fd_run :: "event list \<Rightarrow> fd set \<times> bool" where
  "fd_run es = foldl (\<lambda>s e. fd_step e s) ({0, 1, 2}, True) es"

definition open_fds :: "event list \<Rightarrow> fd set" where "open_fds es = fst (fd_run es)"

definition fd_fresh :: "event list \<Rightarrow> bool" where "fd_fresh es = snd (fd_run es)"

lemma fd_run_snoc [simp]: "fd_run (es @ [e]) = fd_step e (fd_run es)"
  by (simp add: fd_run_def)

lemma fd_run_pair: "fd_run es = (open_fds es, fd_fresh es)"
  by (simp add: open_fds_def fd_fresh_def)

text \<open>Events that neither open nor close.\<close>

definition inert :: "event \<Rightarrow> bool" where "inert e \<longleftrightarrow> (\<forall>s. fd_step e s = s)"

lemma inert_run: "\<forall>e \<in> set es'. inert e \<Longrightarrow> fd_run (es @ es') = fd_run es"
proof (induction es' rule: rev_induct)
  case (snoc e es')
  then show ?case
    by (cases "fd_run es") (simp add: inert_def flip: append_assoc)
qed simp

lemma inert_simps [simp]:
  "inert (Stdout s)" "inert (Stderr s)" "inert (Syslog l s)" "inert (Sys (C_read fd n) a)"
  "inert (Sys (C_write fd b) a)" "inert (Sys (C_select m R W tm) a)" "inert (Sys (C_poll fds m) a)"
  "a_err a \<noteq> 0 \<Longrightarrow> inert (Sys (C_accept fd) a)"
  "inert (Sys (C_bind fd sa) a)" "inert (Sys (C_listen fd m) a)"
  by (auto simp: inert_def)

section \<open>Tables of descriptors\<close>

text \<open>A slot is free when it holds a negative number.\<close>

fun first_free :: "nat \<Rightarrow> fd list \<Rightarrow> nat option" where
  "first_free i [] = None"
| "first_free i (c # cs) = (if c < 0 then Some i else first_free (Suc i) cs)"

definition conns :: "fd list \<Rightarrow> fd set" where
  "conns cs = {c \<in> set cs. 0 \<le> c}"

definition slots_ok :: "fd list \<Rightarrow> bool" where
  "slots_ok cs \<longleftrightarrow> (\<forall>i < length cs. \<forall>j < length cs. 0 \<le> cs ! i \<longrightarrow> cs ! i = cs ! j \<longrightarrow> i = j)"

lemma first_free_Some: "first_free k cs = Some i \<Longrightarrow> k \<le> i \<and> i < k + length cs \<and> cs ! (i - k) < 0"
proof (induction k cs rule: first_free.induct)
  case (2 k c cs)
  show ?case
  proof (cases "c < 0")
    case False
    with 2 have i: "Suc k \<le> i" "i < Suc k + length cs" "cs ! (i - Suc k) < 0" by auto
    then have "i - k = Suc (i - Suc k)" by simp
    with i show ?thesis by simp
  qed (use 2 in simp)
qed simp

lemma conns_put: "i < length cs \<Longrightarrow> cs ! i < 0 \<Longrightarrow> 0 \<le> c \<Longrightarrow> conns (cs[i := c]) = insert c (conns cs)"
proof (rule set_eqI)
  fix x
  assume i: "i < length cs" "cs ! i < 0" "0 \<le> c"
  have "x \<in> set (cs[i := c])" if "x \<in> set cs" "0 \<le> x"
    using that i by (metis in_set_conv_nth length_list_update not_less nth_list_update_neq)
  with i show "x \<in> conns (cs[i := c]) \<longleftrightarrow> x \<in> insert c (conns cs)"
    using set_update_subset_insert [of cs i c] by (auto simp: conns_def set_update_memI)
qed

lemma slots_ok_put: "slots_ok cs \<Longrightarrow> i < length cs \<Longrightarrow> c \<notin> conns cs \<Longrightarrow> slots_ok (cs[i := c])"
  by (auto simp: slots_ok_def conns_def nth_list_update)

lemma conns_clear:
  "slots_ok cs \<Longrightarrow> i < length cs \<Longrightarrow> 0 \<le> cs ! i \<Longrightarrow> conns (cs[i := - 1]) = conns cs - {cs ! i}"
  by (auto simp: conns_def slots_ok_def in_set_conv_nth nth_list_update split: if_splits)

lemma slots_ok_clear: "slots_ok cs \<Longrightarrow> slots_ok (cs[i := - 1])"
  by (cases "i < length cs") (auto simp: slots_ok_def nth_list_update)

lemma conns_nth: "i < length cs \<Longrightarrow> 0 \<le> cs ! i \<Longrightarrow> cs ! i \<in> conns cs"
  by (simp add: conns_def)

lemma conns_replicate [simp]: "conns (replicate n (- 1)) = {}"
  by (auto simp: conns_def)

lemma slots_ok_replicate [simp]: "slots_ok (replicate n (- 1))"
  by (auto simp: slots_ok_def)

text \<open>
  The interface of such a table, with \<open>base\<close> the descriptors that are open and not in it: adding
  a fresh descriptor and deleting the one of a slot keep it consistent. Then the table follows
  the kernel.
\<close>

locale fd_table =
  fixes ok :: "'s \<Rightarrow> bool" and fds :: "'s \<Rightarrow> fd set" and base :: "fd set"
    and add :: "fd \<Rightarrow> 's \<Rightarrow> 's option" and del :: "nat \<Rightarrow> 's \<Rightarrow> 's" and slot :: "'s \<Rightarrow> nat \<Rightarrow> fd"
    and used :: "'s \<Rightarrow> nat \<Rightarrow> bool"
  assumes add_ok: "ok s \<Longrightarrow> 0 \<le> c \<Longrightarrow> c \<notin> base \<Longrightarrow> c \<notin> fds s \<Longrightarrow> add c s = Some s' \<Longrightarrow>
      ok s' \<and> fds s' = insert c (fds s)"
    and del_ok: "ok s \<Longrightarrow> used s i \<Longrightarrow> ok (del i s) \<and> fds (del i s) = fds s - {slot s i}"
    and used_fd: "ok s \<Longrightarrow> used s i \<Longrightarrow> slot s i \<in> fds s"
begin

definition tracks :: "'s \<Rightarrow> event list \<Rightarrow> bool" where
  "tracks s es \<longleftrightarrow> (fd_fresh es \<longrightarrow> ok s \<and> open_fds es = base \<union> fds s \<and> base \<inter> fds s = {})"

lemma tracks_inert: "tracks s es \<Longrightarrow> \<forall>e \<in> set es'. inert e \<Longrightarrow> tracks s (es @ es')"
  using inert_run [of es' es] by (simp add: tracks_def open_fds_def fd_fresh_def)

lemma tracks_accept:
  assumes "tracks s es" and "a_err a = 0" and "add (int (a_val a)) s = Some s'"
  shows "tracks s' (es @ [Sys (C_accept l) a])"
proof -
  have "fd_run (es @ [Sys (C_accept l) a]) =
      (insert (int (a_val a)) (open_fds es), fd_fresh es \<and> int (a_val a) \<notin> open_fds es)"
    using assms(2) by (simp add: fd_run_pair [of es])
  with assms add_ok [of s "int (a_val a)" s'] show ?thesis
    by (auto simp: tracks_def open_fds_def [of "es @ _"] fd_fresh_def [of "es @ _"])
qed

lemma tracks_close:
  assumes "tracks s es" and "a_err a = 0" and "fd_fresh es \<Longrightarrow> used s i" and "slot s i = fd"
  shows "tracks (del i s) (es @ [Sys (C_close fd) a])"
proof -
  have run: "fd_run (es @ [Sys (C_close fd) a]) = (open_fds es - {fd}, fd_fresh es)"
    using assms(2) by (simp add: fd_run_pair [of es])
  have "ok (del i s) \<and> fds (del i s) = fds s - {fd} \<and> fd \<in> fds s" if "fd_fresh es"
    using that assms del_ok [of s i] used_fd [of s i] by (auto simp: tracks_def)
  with assms(1) run show ?thesis
    by (auto simp: tracks_def open_fds_def [of "es @ _"] fd_fresh_def [of "es @ _"])
qed

end

section \<open>Calls\<close>

lemma Accept_consumes: "Accept fd w = Ret r w' \<Longrightarrow> length (script w') < length (script w)"
proof (induction "script w" arbitrary: w)
  case Nil
  then show ?case by (simp add: Accept_Nil)
next
  case (Cons a s)
  have IH: "length (script w') < length s" if "Accept fd (called c a s w) = Ret r w'" for c
    using Cons.hyps(1) [OF _ that] by simp
  show ?case
    using Cons.prems IH Accept_Cons [OF Cons.hyps(2) [symmetric], of fd] Cons.hyps(2) [symmetric]
    by (fastforce simp: Let_def err_sys_def split: if_splits)
qed

lemma Read_Ret:
  "Read fd n w = Ret r w' \<longleftrightarrow> (\<exists>a s. script w = a # s \<and> a_err a = 0 \<and> w' = called (C_read fd n) a s w \<and>
     r = (int (length (take n (a_data a))), take n (a_data a)))"
  by (auto simp: Read.wrap_Ret)

lemma keeps_Read:
  assumes "settled (trace w)"
  shows "keeps echoing (Read fd n w) (\<lambda>r w'. \<exists>a. trace w' = trace w @ [Sys (C_read fd n) a] \<and> a_err a = 0 \<and>
     r = (int (length (take n (a_data a))), take n (a_data a)))"
  using assms settled_read [OF assms] settled_echoing [OF assms]
  by (cases "script w") (auto simp: Read_def keeps_def checked_def sys_read_def sys_data_def sys_def err_sys_def)

lemma keeps_Accept:
  assumes "settled (trace w)"
  shows "keeps echoing (Accept fd w) (\<lambda>r w'. \<exists>es a. trace w' = trace w @ es @ [Sys (C_accept fd) a] \<and>
     a_err a = 0 \<and> fst r = int (a_val a) \<and> (\<forall>e \<in> set es. inert e \<and> silent e))"
  using assms
proof (induction "script w" arbitrary: w)
  case Nil
  then show ?case by (simp add: Accept_Nil keeps_def settled_echoing)
next
  case (Cons a s)
  let ?w = "called (C_accept fd) a s w"
  note step = Accept_Cons [OF Cons.hyps(2) [symmetric], of fd]
  have set: "settled (trace ?w)" using Cons.prems by simp
  show ?case
  proof (cases "a_err a = EPROTO \<or> a_err a = ECONNABORTED")
    case True
    then have err: "a_err a \<noteq> 0" by (auto simp: unp_consts)
    have "keeps echoing (Accept fd ?w) (\<lambda>r w'. \<exists>es b. trace w' = trace ?w @ es @ [Sys (C_accept fd) b] \<and>
       a_err b = 0 \<and> fst r = int (a_val b) \<and> (\<forall>e \<in> set es. inert e \<and> silent e))"
      using Cons.hyps(1) [OF _ set] by simp
    moreover have "Accept fd w = Accept fd ?w" using step True err by (auto simp: Let_def)
    moreover have "\<exists>es' b'. trace ?w @ es @ [Sys (C_accept fd) b] = trace w @ es' @ [Sys (C_accept fd) b'] \<and>
        a_err b' = 0 \<and> a_val b = a_val b' \<and> (\<forall>e \<in> set es'. inert e \<and> silent e)"
      if "a_err b = 0" "\<forall>e \<in> set es. inert e \<and> silent e" for es b
      using that err by (intro exI [of _ "Sys (C_accept fd) a # es"] exI [of _ b]) simp
    ultimately show ?thesis by (auto elim!: keeps_weaken)
  next
    case False
    with step set Cons.prems show ?thesis
      by (auto simp: Let_def keeps_def err_sys_def settled_echoing)
  qed
qed

lemma settled_silents: "settled es \<Longrightarrow> \<forall>e \<in> set es'. silent e \<Longrightarrow> settled (es @ es')"
proof (induction es' rule: rev_induct)
  case (snoc e es')
  then show ?case by (simp flip: append_assoc)
qed simp

text \<open>
  The steps of a server over its table: accepting, echoing, closing. The invariant is that nothing
  is owed to a client and the table follows the kernel.
\<close>

context fd_table begin

definition good :: "'s \<Rightarrow> world \<Rightarrow> bool" where
  "good s w \<longleftrightarrow> settled (trace w) \<and> tracks s (trace w)"

lemma good_echoing: "good s w \<Longrightarrow> echoing (trace w)"
  by (simp add: good_def settled_echoing)

lemma good_inert: "good s w \<Longrightarrow> trace w' = trace w @ [e] \<Longrightarrow> inert e \<Longrightarrow> silent e \<Longrightarrow> good s w'"
  using tracks_inert [of s "trace w" "[e]"] by (simp add: good_def)

lemma good_Accept:
  assumes "good s w"
  shows "keeps echoing (Accept l w) (\<lambda>r w'. settled (trace w') \<and> (\<forall>s'. add (fst r) s = Some s' \<longrightarrow> good s' w'))"
proof (rule keeps_weaken [OF keeps_Accept])
  show "settled (trace w)" using assms by (simp add: good_def)
  fix r and w' :: world
  assume "\<exists>es a. trace w' = trace w @ es @ [Sys (C_accept l) a] \<and> a_err a = 0 \<and> fst r = int (a_val a) \<and>
    (\<forall>e \<in> set es. inert e \<and> silent e)"
  then obtain es a where tr: "trace w' = (trace w @ es) @ [Sys (C_accept l) a]" "a_err a = 0" "fst r = int (a_val a)"
    "\<forall>e \<in> set es. inert e \<and> silent e" by auto
  have "settled (trace w')"
    using assms settled_silents [of "trace w" es] tr by (simp add: good_def del: append_assoc)
  moreover have "tracks s (trace w @ es)" using assms tr(4) tracks_inert by (auto simp: good_def)
  ultimately show "settled (trace w') \<and> (\<forall>s'. add (fst r) s = Some s' \<longrightarrow> good s' w')"
    using tracks_accept [OF _ tr(2)] tr(1,3) by (auto simp: good_def simp del: append_assoc)
qed

lemma good_Writen:
  assumes "good s w" and "trace w1 = trace w @ [Sys (C_read fd n) a]" and "a_err a = 0"
  shows "keeps echoing (Writen fd (take n (a_data a)) w1) (\<lambda>_ w'. good s w')"
proof (rule keeps_weaken)
  show "keeps echoing (Writen fd (take n (a_data a)) w1) (\<lambda>_ w'. settled (trace w'))"
    using assms by (intro keeps_echo [of "trace w"]) (auto simp: good_def)
  fix x and w' :: world
  assume wr: "Writen fd (take n (a_data a)) w1 = Ret x w'" and set: "settled (trace w')"
  have "tracks s (trace w1)" using tracks_inert [of s "trace w" "[Sys (C_read fd n) a]"] assms by (simp add: good_def)
  moreover obtain es where "trace w' = trace w1 @ es" "\<forall>e \<in> set es. inert e"
    using Writen_writes [of fd "take n (a_data a)" w1] wr by fastforce
  ultimately show "good s w'" using set tracks_inert by (simp add: good_def)
qed

lemma good_Close:
  assumes "good s w" and "used s i" and "slot s i = fd"
  shows "keeps echoing (Close fd w) (\<lambda>_ w'. good (del i s) w')"
proof (rule keeps_weaken [OF Close.wrap_keeps [OF good_echoing [OF assms(1)]]])
  fix x and w' :: world
  assume "\<exists>a t. script w = a # t \<and> a_err a = 0 \<and> x = () \<and> w' = called (C_close fd) a t w"
  then obtain a t where "a_err a = 0" "w' = called (C_close fd) a t w" by blast
  with assms tracks_close [of s "trace w" a i fd] show "good (del i s) w'" by (simp add: good_def)
qed simp

text \<open>Reading nothing, or an error, changes nothing.\<close>

lemma good_read_nothing:
  assumes "good s w" and "trace w1 = trace w @ [Sys (C_read fd n) a]" and "a_err a \<noteq> 0 \<or> take n (a_data a) = []"
  shows "good s w1"
  using assms tracks_inert [of s "trace w" "[Sys (C_read fd n) a]"] settled_read_nothing [OF _ assms(3)]
  by (simp add: good_def)

end

section \<open>The start of a TCP server\<close>

text \<open>The wildcard address with the servers' port.\<close>

definition any_sockaddr :: sockaddr where
  "any_sockaddr = SA_in (htons (word_of_nat SERV_PORT)) [0, 0, 0, 0]"

definition tcp_socket_bound :: "world \<Rightarrow> fd run" where
  "tcp_socket_bound w =
     then_run (Socket AF_INET SOCK_STREAM 0 w) (\<lambda>listenfd w.
     then_run (Bind listenfd any_sockaddr w) (\<lambda>_ w.
     then_run (Listen listenfd LISTENQ w) (\<lambda>_ w. Ret listenfd w)))"

lemma keeps_Listen:
  assumes "echoing (trace w)"
  shows "keeps echoing (Listen fd n w) (\<lambda>_ w'. \<exists>m a. trace w' = trace w @ [Sys (C_listen fd m) a])"
  using assms by (cases "script w")
    (auto simp: Listen_def Let_def keeps_def checked_def void_def sys_unit_def sys_def err_sys_def)

lemma keeps_bound:
  "keeps echoing (tcp_socket_bound (boot s)) (\<lambda>l w. settled (trace w) \<and>
     (\<exists>ok. fd_run (trace w) = ({0, 1, 2, l}, ok) \<and> (ok \<longrightarrow> l \<notin> {0, 1, 2})))"
  unfolding tcp_socket_bound_def
proof (rule keeps_then [OF Socket.wrap_keeps])
  fix l and w1 :: world
  assume "\<exists>a t. script (boot s) = a # t \<and> a_err a = 0 \<and> l = int (a_val a) \<and>
    w1 = called (C_socket AF_INET SOCK_STREAM 0) a t (boot s)"
  then obtain a where a: "trace w1 = [Sys (C_socket AF_INET SOCK_STREAM 0) a]" "a_err a = 0" "l = int (a_val a)"
    by auto
  then have set: "settled (trace w1)" using settled_silent [of _ "[]"] by simp
  show "keeps echoing (then_run (Bind l any_sockaddr w1) (\<lambda>_ w.
      then_run (Listen l LISTENQ w) (\<lambda>_ w. Ret l w))) (\<lambda>l w. settled (trace w) \<and>
     (\<exists>ok. fd_run (trace w) = ({0, 1, 2, l}, ok) \<and> (ok \<longrightarrow> l \<notin> {0, 1, 2})))"
  proof (rule keeps_then [OF Bind.wrap_keeps])
    fix x and w2 :: world
    assume "\<exists>b t. script w1 = b # t \<and> a_err b = 0 \<and> x = () \<and> w2 = called (C_bind l any_sockaddr) b t w1"
    then obtain b where b: "trace w2 = trace w1 @ [Sys (C_bind l any_sockaddr) b]" by auto
    with set have set2: "settled (trace w2)" by simp
    show "keeps echoing (then_run (Listen l LISTENQ w2) (\<lambda>_ w. Ret l w)) (\<lambda>l w. settled (trace w) \<and>
        (\<exists>ok. fd_run (trace w) = ({0, 1, 2, l}, ok) \<and> (ok \<longrightarrow> l \<notin> {0, 1, 2})))"
    proof (rule keeps_then [OF keeps_Listen])
      fix y and w3 :: world
      assume "\<exists>m c. trace w3 = trace w2 @ [Sys (C_listen l m) c]"
      then obtain m c where c: "trace w3 = trace w2 @ [Sys (C_listen l m) c]" by blast
      then have "trace w3 = [] @ [Sys (C_socket AF_INET SOCK_STREAM 0) a, Sys (C_bind l any_sockaddr) b, Sys (C_listen l m) c]"
        using a b by simp
      then have "fd_run (trace w3) = ({0, 1, 2, l}, l \<notin> {0, 1, 2})" using a by (auto simp: fd_run_def)
      with set2 c show "keeps echoing (Ret l w3) (\<lambda>l w. settled (trace w) \<and>
          (\<exists>ok. fd_run (trace w) = ({0, 1, 2, l}, ok) \<and> (ok \<longrightarrow> l \<notin> {0, 1, 2})))"
        by (intro keeps_Ret) (auto simp: settled_echoing)
    qed (use set2 settled_echoing in blast)
  qed (use set settled_echoing in auto)
qed (simp_all add: settled_echoing)

end
