(* ===== verification/Select_Server.thy ===== *)
theory Select_Server
  imports Fd_Table
begin

text \<open>
  The single-process concurrent echo server built on \<^verbatim>\<open>select\<close>,
  \<^verbatim>\<open>tcpcliserv/tcpservselect01.c\<close>.
\<close>

section \<open>tcpcliserv/tcpservselect01.c\<close>

record sel_state =
  client :: "fd list"
  maxi :: int
  maxfd :: int
  allset :: "fd set"

definition sel_init :: "fd \<Rightarrow> sel_state" where
  "sel_init listenfd = \<lparr>client = replicate FD_SETSIZE (- 1), maxi = - 1, maxfd = listenfd,
     allset = {listenfd}\<rparr>"

text \<open>A new connection goes into the first free slot; \<^verbatim>\<open>None\<close> when there is none.\<close>

definition sel_add :: "fd \<Rightarrow> sel_state \<Rightarrow> sel_state option" where
  "sel_add connfd st =
     (case first_free 0 (client st) of
        None \<Rightarrow> None
      | Some i \<Rightarrow> Some (st\<lparr>client := (client st)[i := connfd], allset := insert connfd (allset st),
          maxfd := (if connfd > maxfd st then connfd else maxfd st),
          maxi := (if int i > maxi st then int i else maxi st)\<rparr>))"

definition sel_del :: "nat \<Rightarrow> sel_state \<Rightarrow> sel_state" where
  "sel_del i st = st\<lparr>client := (client st)[i := - 1], allset := allset st - {client st ! i}\<rparr>"

definition sel_accept :: "fd \<Rightarrow> sel_state \<Rightarrow> world \<Rightarrow> sel_state run" where
  "sel_accept listenfd st w = then_run (Accept listenfd w) (\<lambda>r w.
     case sel_add (fst r) st of None \<Rightarrow> err_quit ''too many clients'' w | Some st \<Rightarrow> Ret st w)"

definition sel_serve :: "nat \<Rightarrow> sel_state \<Rightarrow> world \<Rightarrow> sel_state run" where
  "sel_serve i st w =
     (let sockfd = client st ! i in
      then_run (Read sockfd MAXLINE w) (\<lambda>r w. case r of (n, buf) \<Rightarrow>
        if n = 0 then then_run (Close sockfd w) (\<lambda>_ w. Ret (sel_del i st) w)
        else then_run (Writen sockfd buf w) (\<lambda>_ w. Ret st w)))"

text \<open>
  The loop over the clients, from slot \<open>i\<close>, \<open>k\<close> slots to go up to \<^verbatim>\<open>maxi\<close>, which it does not change.
\<close>

fun sel_clients :: "nat \<Rightarrow> nat \<Rightarrow> fd set \<Rightarrow> int \<Rightarrow> sel_state \<Rightarrow> world \<Rightarrow> sel_state run" where
  "sel_clients i 0 rset nready st w = Ret st w"
| "sel_clients i (Suc k) rset nready st w =
     (let sockfd = client st ! i in
      if sockfd < 0 then sel_clients (Suc i) k rset nready st w
      else if sockfd \<in> rset then
        then_run (sel_serve i st w) (\<lambda>st w.
          if nready - 1 \<le> 0 then Ret st w else sel_clients (Suc i) k rset (nready - 1) st w)
      else sel_clients (Suc i) k rset nready st w)"

definition sel_all_clients :: "fd set \<Rightarrow> int \<Rightarrow> sel_state \<Rightarrow> world \<Rightarrow> sel_state run" where
  "sel_all_clients rset nready st w = sel_clients 0 (nat (maxi st + 1)) rset nready st w"

text \<open>One turn of the endless loop.\<close>

definition sel_round :: "fd \<Rightarrow> sel_state \<Rightarrow> world \<Rightarrow> sel_state run" where
  "sel_round listenfd st w =
     then_run (Select (maxfd st + 1) (allset st) {} None w) (\<lambda>r w. case r of (nready, rset, _) \<Rightarrow>
       if listenfd \<in> rset then
         then_run (sel_accept listenfd st w) (\<lambda>st w.
           if nready - 1 \<le> 0 then Ret st w else sel_all_clients rset (nready - 1) st w)
       else sel_all_clients rset nready st w)"

lemma sel_serve_consumes: "sel_serve i st w = Ret st' w' \<Longrightarrow> length (script w') < length (script w)"
  by (auto simp: sel_serve_def Let_def then_run_Ret_iff split: if_splits
      dest!: Read_consumes Writen_consumes Close.wrap_consumes)

lemma sel_clients_consumes:
  "sel_clients i k rset nready st w = Ret st' w' \<Longrightarrow> length (script w') \<le> length (script w)"
proof (induction k arbitrary: i nready st w)
  case (Suc k)
  consider (here) st1 w1 where "sel_serve i st w = Ret st1 w1"
      "(if nready - 1 \<le> 0 then Ret st1 w1 else sel_clients (Suc i) k rset (nready - 1) st1 w1) = Ret st' w'"
    | (skip) "sel_clients (Suc i) k rset nready st w = Ret st' w'"
    using Suc.prems by (auto simp: Let_def then_run_Ret_iff split: if_splits)
  then show ?case
  proof cases
    case here
    from sel_serve_consumes [OF here(1)] here(2) Suc.IH [of "Suc i" "nready - 1" st1 w1] show ?thesis
      by (auto split: if_splits)
  qed (use Suc.IH in blast)
qed simp

lemma sel_accept_consumes: "sel_accept l st w = Ret st' w' \<Longrightarrow> length (script w') < length (script w)"
  by (auto simp: sel_accept_def then_run_Ret_iff err_quit_def split: option.splits dest: Accept_consumes)

lemma sel_round_cases:
  assumes "sel_round l st w = Ret st' w'"
  obtains nready rset ws w1 where "Select (maxfd st + 1) (allset st) {} None w = Ret (nready, rset, ws) w1"
    and "l \<in> rset \<and> (\<exists>st1 w2. sel_accept l st w1 = Ret st1 w2 \<and>
           (if nready - 1 \<le> 0 then Ret st1 w2 else sel_all_clients rset (nready - 1) st1 w2) = Ret st' w') \<or>
         l \<notin> rset \<and> sel_all_clients rset nready st w1 = Ret st' w'"
  using assms by (fastforce simp: sel_round_def then_run_Ret_iff split: if_splits)

lemma sel_round_consumes: "sel_round l st w = Ret st' w' \<Longrightarrow> length (script w') < length (script w)"
  by (erule sel_round_cases)
     (fastforce simp: sel_all_clients_def split: if_splits
       dest!: Select_consumes sel_accept_consumes sel_clients_consumes)

function sel_loop :: "fd \<Rightarrow> sel_state \<Rightarrow> world \<Rightarrow> unit run" where
  "sel_loop listenfd st w = then_run (sel_round listenfd st w) (\<lambda>st w. sel_loop listenfd st w)"
  by pat_completeness auto
termination
  by (relation "measure (\<lambda>(l, st, w). length (script w))") (auto dest: sel_round_consumes)

declare sel_loop.simps [simp del]

definition tcpservselect01 :: "world \<Rightarrow> unit run" where
  "tcpservselect01 w = then_run (tcp_socket_bound w) (\<lambda>listenfd w. sel_loop listenfd (sel_init listenfd) w)"

section \<open>The table of the select server\<close>

definition sel_ok :: "fd \<Rightarrow> sel_state \<Rightarrow> bool" where
  "sel_ok l st \<longleftrightarrow>
     length (client st) = FD_SETSIZE \<and> slots_ok (client st) \<and> l \<notin> conns (client st) \<and>
     allset st = insert l (conns (client st)) \<and> (\<forall>c \<in> allset st. c \<le> maxfd st) \<and>
     (\<forall>i < FD_SETSIZE. 0 \<le> client st ! i \<longrightarrow> int i \<le> maxi st) \<and> maxi st < int FD_SETSIZE"

definition sel_fds :: "sel_state \<Rightarrow> fd set" where "sel_fds st = conns (client st)"

definition sel_used :: "sel_state \<Rightarrow> nat \<Rightarrow> bool" where
  "sel_used st i \<longleftrightarrow> i < length (client st) \<and> 0 \<le> client st ! i"

definition sel_slot :: "sel_state \<Rightarrow> nat \<Rightarrow> fd" where "sel_slot st i = client st ! i"

interpretation seltab: fd_table "sel_ok l" sel_fds "{0, 1, 2, l}" sel_add sel_del sel_slot sel_used for l
proof
  fix s s' c
  assume ok: "sel_ok l s" and c: "0 \<le> c" "c \<notin> {0, 1, 2, l}" "c \<notin> sel_fds s" and add: "sel_add c s = Some s'"
  from add obtain i where i: "first_free 0 (client s) = Some i"
    and s': "s' = s\<lparr>client := (client s)[i := c], allset := insert c (allset s),
          maxfd := (if c > maxfd s then c else maxfd s), maxi := (if int i > maxi s then int i else maxi s)\<rparr>"
    by (auto simp: sel_add_def split: option.splits)
  from first_free_Some [OF i] have free: "i < length (client s)" "client s ! i < 0" by auto
  with ok c s' show "sel_ok l s' \<and> sel_fds s' = insert c (sel_fds s)"
    by (auto simp: sel_ok_def sel_fds_def conns_put slots_ok_put nth_list_update split: if_splits)
next
  fix s i
  assume ok: "sel_ok l s" "sel_used s i"
  then have "client s ! i \<in> conns (client s)" by (simp add: sel_used_def conns_nth)
  with ok show "sel_ok l (sel_del i s) \<and> sel_fds (sel_del i s) = sel_fds s - {sel_slot s i}"
    by (auto simp: sel_ok_def sel_fds_def sel_del_def sel_used_def sel_slot_def conns_clear slots_ok_clear
        nth_list_update)
next
  fix s i
  assume "sel_ok l s" "sel_used s i"
  then show "sel_slot s i \<in> sel_fds s"
    by (auto simp: sel_used_def sel_slot_def sel_fds_def conns_nth)
qed

text \<open>
  The loop invariant: nothing is owed to a client, the table follows the kernel, and the array has
  its size.
\<close>

definition sel_good :: "fd \<Rightarrow> sel_state \<Rightarrow> world \<Rightarrow> bool" where
  "sel_good l = fd_table.good (sel_ok l) sel_fds {0, 1, 2, l}"

lemmas sel_good_rules = seltab.good_echoing [folded sel_good_def] seltab.good_inert [folded sel_good_def]
  seltab.good_Accept [folded sel_good_def] seltab.good_Writen [folded sel_good_def]
  seltab.good_Close [folded sel_good_def] seltab.good_read_nothing [folded sel_good_def]

lemma sel_good_settled: "sel_good l st w \<Longrightarrow> settled (trace w)"
  by (simp add: sel_good_def seltab.good_def)

definition sel_inv :: "fd \<Rightarrow> sel_state \<Rightarrow> world \<Rightarrow> bool" where
  "sel_inv l st w \<longleftrightarrow> sel_good l st w \<and> length (client st) = FD_SETSIZE \<and> maxi st < int FD_SETSIZE"

lemma sel_add_shape: "sel_add c st = Some st' \<Longrightarrow> length (client st) = FD_SETSIZE \<Longrightarrow> maxi st < int FD_SETSIZE \<Longrightarrow>
    length (client st') = FD_SETSIZE \<and> maxi st' < int FD_SETSIZE"
  by (auto simp: sel_add_def split: option.splits dest!: first_free_Some)

lemma sel_inv_echoing: "sel_inv l st w \<Longrightarrow> echoing (trace w)"
  unfolding sel_inv_def using sel_good_rules(1) by blast

lemma keeps_sel_accept:
  assumes "sel_inv l st w"
  shows "keeps echoing (sel_accept l st w) (\<lambda>st' w'. sel_inv l st' w')"
  unfolding sel_accept_def
proof (rule keeps_then [OF sel_good_rules(3)])
  show "sel_good l st w" using assms by (simp add: sel_inv_def)
  fix r and w' :: world
  assume "settled (trace w') \<and> (\<forall>st'. sel_add (fst r) st = Some st' \<longrightarrow> sel_good l st' w')"
  with assms sel_add_shape [of "fst r" st] show "keeps echoing (case sel_add (fst r) st of
      None \<Rightarrow> err_quit ''too many clients'' w' | Some st \<Rightarrow> Ret st w') (\<lambda>st' w'. sel_inv l st' w')"
    by (auto simp: err_quit_def settled_echoing sel_inv_def intro!: keeps_Exit keeps_Ret split: option.split)
qed

lemma keeps_sel_serve:
  assumes inv: "sel_inv l st w" and i: "i < FD_SETSIZE" "0 \<le> client st ! i"
  shows "keeps echoing (sel_serve i st w) (\<lambda>st' w'. sel_inv l st' w' \<and> maxi st' = maxi st)"
  unfolding sel_serve_def Let_def
proof (rule keeps_then [OF keeps_Read])
  let ?fd = "client st ! i"
  have good: "sel_good l st w" using inv by (simp add: sel_inv_def)
  then show "settled (trace w)" by (rule sel_good_settled)
  fix r and w1 :: world
  assume "\<exists>a. trace w1 = trace w @ [Sys (C_read ?fd MAXLINE) a] \<and> a_err a = 0 \<and>
     r = (int (length (take MAXLINE (a_data a))), take MAXLINE (a_data a))"
  then obtain a where a: "trace w1 = trace w @ [Sys (C_read ?fd MAXLINE) a]" "a_err a = 0"
    "r = (int (length (take MAXLINE (a_data a))), take MAXLINE (a_data a))" by blast
  have used: "sel_used st i" "sel_slot st i = ?fd" using i inv by (auto simp: sel_used_def sel_slot_def sel_inv_def)
  have "keeps echoing (then_run (Close ?fd w1) (\<lambda>_ w. Ret (sel_del i st) w))
      (\<lambda>st' w'. sel_inv l st' w' \<and> maxi st' = maxi st)" if "a_data a = []"
    using sel_good_rules(6) [OF good a(1)] that inv
    by (auto intro!: keeps_then [OF sel_good_rules(5) [OF _ used]] keeps_Ret sel_good_rules(1)
        simp: sel_inv_def sel_del_def)
  moreover have "keeps echoing (then_run (Writen ?fd (take MAXLINE (a_data a)) w1) (\<lambda>_ w. Ret st w))
      (\<lambda>st' w'. sel_inv l st' w' \<and> maxi st' = maxi st)"
    using inv by (auto intro!: keeps_then [OF sel_good_rules(4) [OF good a(1,2)]] keeps_Ret sel_good_rules(1)
        simp: sel_inv_def)
  ultimately show "keeps echoing (case r of (n, buf) \<Rightarrow>
      if n = 0 then then_run (Close ?fd w1) (\<lambda>_ w. Ret (sel_del i st) w)
      else then_run (Writen ?fd buf w1) (\<lambda>_ w. Ret st w))
    (\<lambda>st' w'. sel_inv l st' w' \<and> maxi st' = maxi st)"
    by (auto simp: a(3) min_def split: if_splits)
qed

lemma keeps_sel_clients:
  "sel_inv l st w \<Longrightarrow> i + k \<le> FD_SETSIZE \<Longrightarrow>
     keeps echoing (sel_clients i k rset nready st w) (\<lambda>st' w'. sel_inv l st' w')"
proof (induction k arbitrary: i nready st w)
  case 0
  then show ?case by (auto intro!: keeps_Ret sel_inv_echoing)
next
  case (Suc k)
  show ?case
  proof (cases "0 \<le> client st ! i \<and> client st ! i \<in> rset")
    case True
    have "keeps echoing (sel_serve i st w) (\<lambda>st' w'. sel_inv l st' w' \<and> maxi st' = maxi st)"
      using Suc.prems True by (intro keeps_sel_serve) auto
    then have "keeps echoing (then_run (sel_serve i st w) (\<lambda>st w.
        if nready - 1 \<le> 0 then Ret st w else sel_clients (Suc i) k rset (nready - 1) st w)) (\<lambda>st' w'. sel_inv l st' w')"
      by (rule keeps_then) (use Suc in \<open>auto intro!: keeps_Ret sel_inv_echoing\<close>)
    with True show ?thesis by (simp add: Let_def)
  qed (use Suc in \<open>auto simp: Let_def\<close>)
qed

lemma keeps_sel_all_clients:
  "sel_inv l st w \<Longrightarrow> keeps echoing (sel_all_clients rset nready st w) (\<lambda>st' w'. sel_inv l st' w')"
  unfolding sel_all_clients_def by (rule keeps_sel_clients) (auto simp: sel_inv_def nat_le_iff)

lemma sel_inv_inert:
  "sel_inv l st w \<Longrightarrow> trace w' = trace w @ [e] \<Longrightarrow> inert e \<Longrightarrow> silent e \<Longrightarrow> sel_inv l st w'"
  using sel_good_rules(2) by (auto simp: sel_inv_def)

lemma keeps_sel_round:
  assumes "sel_inv l st w"
  shows "keeps echoing (sel_round l st w) (\<lambda>st' w'. sel_inv l st' w')"
  unfolding sel_round_def
proof (rule keeps_then [OF keeps_Select])
  show "echoing (trace w)" using assms by (rule sel_inv_echoing)
  fix r :: "int \<times> fd set \<times> fd set" and w1 :: world
  assume "\<exists>a. trace w1 = trace w @ [Sys (C_select (maxfd st + 1) (allset st) {} None) a] \<and>
     fst (snd r) \<subseteq> allset st \<and> snd (snd r) \<subseteq> {}"
  then have inv: "sel_inv l st w1" using sel_inv_inert [OF assms] by auto
  have "keeps echoing (then_run (sel_accept l st w1) (\<lambda>st w.
      if n - 1 \<le> 0 then Ret st w else sel_all_clients rset (n - 1) st w)) (\<lambda>st' w'. sel_inv l st' w')" for n rset
    by (rule keeps_then [OF keeps_sel_accept [OF inv]])
       (auto intro!: keeps_Ret sel_inv_echoing keeps_sel_all_clients)
  with keeps_sel_all_clients [OF inv] show "keeps echoing (case r of (nready, rset, _) \<Rightarrow>
       if l \<in> rset then
         then_run (sel_accept l st w1) (\<lambda>st w.
           if nready - 1 \<le> 0 then Ret st w else sel_all_clients rset (nready - 1) st w)
       else sel_all_clients rset nready st w1) (\<lambda>st' w'. sel_inv l st' w')"
    by (auto split: prod.split)
qed (use sel_inv_echoing [OF assms] in simp_all)

lemma keeps_sel_loop: "sel_inv l st w \<Longrightarrow> keeps echoing (sel_loop l st w) (\<lambda>_ _. False)"
proof (induction "length (script w)" arbitrary: st w rule: less_induct)
  case less
  show ?case
    unfolding sel_loop.simps [of l st w]
    by (rule keeps_then [OF keeps_sel_round [OF less.prems]]) (use less sel_round_consumes in blast)
qed

section \<open>Starting up\<close>

text \<open>
  The states the server is in at the top of its loop, after it was started with the kernel about to
  answer as in \<open>s\<close>.
\<close>

inductive sel_reach :: "answer list \<Rightarrow> fd \<Rightarrow> sel_state \<Rightarrow> world \<Rightarrow> bool" for s where
  start: "tcp_socket_bound (boot s) = Ret l w \<Longrightarrow> sel_reach s l (sel_init l) w"
| turn: "sel_reach s l st w \<Longrightarrow> sel_round l st w = Ret st' w' \<Longrightarrow> sel_reach s l st' w'"

lemma sel_inv_start:
  assumes "settled (trace w)" and "fd_run (trace w) = ({0, 1, 2, l}, ok)"
  shows "sel_inv l (sel_init l) w"
proof -
  have "conns (replicate FD_SETSIZE (- 1)) = {}" "0 < FD_SETSIZE" by (simp_all add: FD_SETSIZE_def)
  with assms show ?thesis
    by (auto simp: sel_inv_def sel_good_def seltab.good_def seltab.tracks_def open_fds_def fd_fresh_def sel_ok_def sel_fds_def
        sel_init_def)
qed

lemma sel_reach_inv: "sel_reach s l st w \<Longrightarrow> sel_inv l st w"
proof (induction rule: sel_reach.induct)
  case (start l w)
  with keeps_result [OF keeps_bound start] sel_inv_start show ?case by blast
next
  case (turn l st w st' w')
  with keeps_result [OF keeps_sel_round] show ?case by blast
qed

section \<open>Properties of the select server\<close>




end
