(* ===== verification/Poll_Server.thy ===== *)
theory Poll_Server
  imports Fd_Table
begin

text \<open>
  The single-process concurrent echo server built on \<^verbatim>\<open>poll\<close>, \<^verbatim>\<open>tcpcliserv/tcpservpoll01.c\<close>.
\<close>

section \<open>tcpcliserv/tcpservpoll01.c\<close>

text \<open>
  \<^verbatim>\<open>OPEN_MAX\<close> comes from \<^verbatim>\<open><limits.h>\<close> and is a parameter, as is the initial contents of the
  \<^verbatim>\<open>revents\<close> fields, which the program does not set: \<^verbatim>\<open>poll\<close> stores those of the entries it is
  given, the entry of a new connection keeps the old one until the next \<^verbatim>\<open>poll\<close>. The events asked
  for are \<^verbatim>\<open>POLLRDNORM\<close> in every used entry; the kernel ignores the others.
\<close>

definition POLLRDNORM :: int where [unp_consts]: "POLLRDNORM = 64"
definition POLLERR :: int where [unp_consts]: "POLLERR = 8"
definition INFTIM :: int where [unp_consts]: "INFTIM = - 1"

record poll_state =
  pclient :: "fd list"
  prevents :: "int list"
  pmaxi :: nat

definition poll_init :: "nat \<Rightarrow> fd \<Rightarrow> int list \<Rightarrow> poll_state" where
  "poll_init open_max listenfd junk =
     \<lparr>pclient = listenfd # replicate (open_max - 1) (- 1), prevents = junk, pmaxi = 0\<rparr>"

definition poll_add :: "fd \<Rightarrow> poll_state \<Rightarrow> poll_state option" where
  "poll_add connfd st =
     (case first_free 1 (tl (pclient st)) of
        None \<Rightarrow> None
      | Some i \<Rightarrow> Some (st\<lparr>pclient := (pclient st)[i := connfd], pmaxi := (if i > pmaxi st then i else pmaxi st)\<rparr>))"

definition poll_del :: "nat \<Rightarrow> poll_state \<Rightarrow> poll_state" where
  "poll_del i st = st\<lparr>pclient := (pclient st)[i := - 1]\<rparr>"

definition poll_accept :: "fd \<Rightarrow> poll_state \<Rightarrow> world \<Rightarrow> poll_state run" where
  "poll_accept listenfd st w = then_run (Accept listenfd w) (\<lambda>r w.
     case poll_add (fst r) st of None \<Rightarrow> err_quit ''too many clients'' w | Some st \<Rightarrow> Ret st w)"

definition poll_serve :: "nat \<Rightarrow> poll_state \<Rightarrow> world \<Rightarrow> poll_state run" where
  "poll_serve i st w =
     (let sockfd = pclient st ! i in
      then_run (sys_read sockfd MAXLINE w) (\<lambda>r w. case r of (n, buf) \<Rightarrow>
        if n < 0 then
          (if errno w = ECONNRESET then then_run (Close sockfd w) (\<lambda>_ w. Ret (poll_del i st) w)
           else err_sys ''read error'' w)
        else if n = 0 then then_run (Close sockfd w) (\<lambda>_ w. Ret (poll_del i st) w)
        else then_run (Writen sockfd buf w) (\<lambda>_ w. Ret st w)))"

fun poll_clients :: "nat \<Rightarrow> nat \<Rightarrow> int \<Rightarrow> poll_state \<Rightarrow> world \<Rightarrow> poll_state run" where
  "poll_clients i 0 nready st w = Ret st w"
| "poll_clients i (Suc k) nready st w =
     (if pclient st ! i < 0 then poll_clients (Suc i) k nready st w
      else if prevents st ! i AND (POLLRDNORM OR POLLERR) \<noteq> 0 then
        then_run (poll_serve i st w) (\<lambda>st w.
          if nready - 1 \<le> 0 then Ret st w else poll_clients (Suc i) k (nready - 1) st w)
      else poll_clients (Suc i) k nready st w)"

definition poll_all_clients :: "int \<Rightarrow> poll_state \<Rightarrow> world \<Rightarrow> poll_state run" where
  "poll_all_clients nready st w = poll_clients 1 (pmaxi st) nready st w"

definition poll_fds :: "poll_state \<Rightarrow> (fd \<times> int) list" where
  "poll_fds st = map (\<lambda>fd. (fd, POLLRDNORM)) (take (pmaxi st + 1) (pclient st))"

definition poll_round :: "fd \<Rightarrow> poll_state \<Rightarrow> world \<Rightarrow> poll_state run" where
  "poll_round listenfd st w =
     then_run (Poll (poll_fds st) INFTIM w) (\<lambda>r w. case r of (nready, revs) \<Rightarrow>
       let st = st\<lparr>prevents := revs @ drop (length revs) (prevents st)\<rparr> in
       if prevents st ! 0 AND POLLRDNORM \<noteq> 0 then
         then_run (poll_accept listenfd st w) (\<lambda>st w.
           if nready - 1 \<le> 0 then Ret st w else poll_all_clients (nready - 1) st w)
       else poll_all_clients nready st w)"

lemma poll_serve_consumes: "poll_serve i st w = Ret st' w' \<Longrightarrow> length (script w') < length (script w)"
  by (auto simp: poll_serve_def Let_def then_run_Ret_iff err_sys_def split: if_splits
      dest!: sys_read_consumes Writen_consumes Close.wrap_consumes)

lemma poll_clients_consumes:
  "poll_clients i k nready st w = Ret st' w' \<Longrightarrow> length (script w') \<le> length (script w)"
proof (induction k arbitrary: i nready st w)
  case (Suc k)
  consider (here) st1 w1 where "poll_serve i st w = Ret st1 w1"
      "(if nready - 1 \<le> 0 then Ret st1 w1 else poll_clients (Suc i) k (nready - 1) st1 w1) = Ret st' w'"
    | (skip) "poll_clients (Suc i) k nready st w = Ret st' w'"
    using Suc.prems by (auto simp: then_run_Ret_iff split: if_splits)
  then show ?case
  proof cases
    case here
    from poll_serve_consumes [OF here(1)] here(2) Suc.IH [of "Suc i" "nready - 1" st1 w1] show ?thesis
      by (auto split: if_splits)
  qed (use Suc.IH in blast)
qed simp

lemma poll_accept_consumes: "poll_accept l st w = Ret st' w' \<Longrightarrow> length (script w') < length (script w)"
  by (auto simp: poll_accept_def then_run_Ret_iff err_quit_def split: option.splits dest: Accept_consumes)

lemma Poll_consumes: "Poll fds tmo w = Ret r w' \<Longrightarrow> length (script w') < length (script w)"
  by (auto simp: Poll_def checked_Ret_iff dest: sys_poll_consumes)

lemma poll_round_consumes: "poll_round l st w = Ret st' w' \<Longrightarrow> length (script w') < length (script w)"
  by (fastforce simp: poll_round_def poll_all_clients_def Let_def then_run_Ret_iff split: if_splits
      dest!: Poll_consumes poll_accept_consumes poll_clients_consumes)

function poll_loop :: "fd \<Rightarrow> poll_state \<Rightarrow> world \<Rightarrow> unit run" where
  "poll_loop listenfd st w = then_run (poll_round listenfd st w) (\<lambda>st w. poll_loop listenfd st w)"
  by pat_completeness auto
termination
  by (relation "measure (\<lambda>(l, st, w). length (script w))") (auto dest: poll_round_consumes)

declare poll_loop.simps [simp del]

definition tcpservpoll01 :: "nat \<Rightarrow> int list \<Rightarrow> world \<Rightarrow> unit run" where
  "tcpservpoll01 open_max junk w =
     then_run (tcp_socket_bound w) (\<lambda>listenfd w. poll_loop listenfd (poll_init open_max listenfd junk) w)"

section \<open>The table of the poll server\<close>

definition poll_ok :: "nat \<Rightarrow> fd \<Rightarrow> poll_state \<Rightarrow> bool" where
  "poll_ok open_max l st \<longleftrightarrow>
     length (pclient st) = open_max \<and> slots_ok (pclient st) \<and> 0 \<le> l \<and> pclient st ! 0 = l \<and>
     (\<forall>i < open_max. 0 \<le> pclient st ! i \<longrightarrow> i \<le> pmaxi st) \<and> pmaxi st < open_max"

definition poll_conns :: "poll_state \<Rightarrow> fd set" where "poll_conns st = conns (pclient st)"

definition poll_used :: "poll_state \<Rightarrow> nat \<Rightarrow> bool" where
  "poll_used st i \<longleftrightarrow> 0 < i \<and> i < length (pclient st) \<and> 0 \<le> pclient st ! i"

definition poll_slot :: "poll_state \<Rightarrow> nat \<Rightarrow> fd" where "poll_slot st i = pclient st ! i"

lemma poll_add_Some:
  assumes "poll_add c st = Some st'"
  obtains i where "0 < i" and "i < length (pclient st)" and "pclient st ! i < 0"
    and "st' = st\<lparr>pclient := (pclient st)[i := c], pmaxi := (if i > pmaxi st then i else pmaxi st)\<rparr>"
proof -
  from assms obtain i where i: "first_free 1 (tl (pclient st)) = Some i"
    and st': "st' = st\<lparr>pclient := (pclient st)[i := c], pmaxi := (if i > pmaxi st then i else pmaxi st)\<rparr>"
    by (auto simp: poll_add_def split: option.splits)
  from first_free_Some [OF i] have "0 < i" "i < length (pclient st)" "pclient st ! i < 0"
    by (auto simp: nth_tl)
  with st' that show thesis by blast
qed

interpretation polltab: fd_table "poll_ok open_max l" poll_conns "{0, 1, 2}" poll_add poll_del poll_slot poll_used
  for open_max l
proof
  fix s s' c
  assume ok: "poll_ok open_max l s" and c: "0 \<le> c" "c \<notin> {0, 1, 2}" "c \<notin> poll_conns s" and add: "poll_add c s = Some s'"
  from poll_add_Some [OF add] obtain i where i: "0 < i" "i < length (pclient s)" "pclient s ! i < 0"
    and s': "s' = s\<lparr>pclient := (pclient s)[i := c], pmaxi := (if i > pmaxi s then i else pmaxi s)\<rparr>" .
  with ok c show "poll_ok open_max l s' \<and> poll_conns s' = insert c (poll_conns s)"
    by (auto simp: poll_ok_def poll_conns_def conns_put slots_ok_put nth_list_update)
next
  fix s i
  assume ok: "poll_ok open_max l s" "poll_used s i"
  then show "poll_ok open_max l (poll_del i s) \<and> poll_conns (poll_del i s) = poll_conns s - {poll_slot s i}"
    by (auto simp: poll_ok_def poll_conns_def poll_del_def poll_used_def poll_slot_def conns_clear slots_ok_clear
        nth_list_update)
next
  fix s i
  assume "poll_ok open_max l s" "poll_used s i"
  then show "poll_slot s i \<in> poll_conns s"
    by (auto simp: poll_used_def poll_slot_def poll_conns_def conns_nth)
qed

definition poll_good :: "nat \<Rightarrow> fd \<Rightarrow> poll_state \<Rightarrow> world \<Rightarrow> bool" where
  "poll_good open_max l = fd_table.good (poll_ok open_max l) poll_conns {0, 1, 2}"

lemmas poll_good_rules = polltab.good_echoing [folded poll_good_def] polltab.good_inert [folded poll_good_def]
  polltab.good_Accept [folded poll_good_def] polltab.good_Writen [folded poll_good_def]
  polltab.good_Close [folded poll_good_def] polltab.good_read_nothing [folded poll_good_def]

text \<open>What the kernel reports does not touch the table.\<close>

lemma poll_good_prevents [simp]: "poll_good m l (st\<lparr>prevents := r\<rparr>) w = poll_good m l st w"
  by (simp add: poll_good_def polltab.good_def polltab.tracks_def poll_ok_def poll_conns_def)

definition poll_inv :: "nat \<Rightarrow> fd \<Rightarrow> poll_state \<Rightarrow> world \<Rightarrow> bool" where
  "poll_inv open_max l st w \<longleftrightarrow> poll_good open_max l st w \<and> length (pclient st) = open_max \<and> pmaxi st < open_max"

lemma poll_inv_echoing: "poll_inv m l st w \<Longrightarrow> echoing (trace w)"
  unfolding poll_inv_def using poll_good_rules(1) by blast

lemma poll_inv_prevents: "poll_inv m l st w \<Longrightarrow> poll_inv m l (st\<lparr>prevents := r\<rparr>) w"
  by (simp add: poll_inv_def)

lemma keeps_poll_accept:
  assumes "poll_inv m l st w"
  shows "keeps echoing (poll_accept l st w) (\<lambda>st' w'. poll_inv m l st' w')"
  unfolding poll_accept_def
proof (rule keeps_then [OF poll_good_rules(3)])
  show "poll_good m l st w" using assms by (simp add: poll_inv_def)
  fix r and w' :: world
  assume good: "settled (trace w') \<and> (\<forall>st'. poll_add (fst r) st = Some st' \<longrightarrow> poll_good m l st' w')"
  show "keeps echoing (case poll_add (fst r) st of
      None \<Rightarrow> err_quit ''too many clients'' w' | Some st \<Rightarrow> Ret st w') (\<lambda>st' w'. poll_inv m l st' w')"
  proof (cases "poll_add (fst r) st")
    case None
    with good show ?thesis by (simp add: err_quit_def keeps_Exit settled_echoing)
  next
    case (Some st')
    then have "length (pclient st') = m \<and> pmaxi st' < m"
      using assms by (auto simp: poll_inv_def elim!: poll_add_Some)
    with Some good show ?thesis by (auto simp: poll_inv_def settled_echoing intro!: keeps_Ret)
  qed
qed

lemma keeps_poll_serve:
  assumes inv: "poll_inv m l st w" and i: "0 < i" "i < m" "0 \<le> pclient st ! i"
  shows "keeps echoing (poll_serve i st w) (\<lambda>st' w'. poll_inv m l st' w' \<and> pmaxi st' = pmaxi st)"
  unfolding poll_serve_def Let_def
proof (rule keeps_then [OF keeps_sys_read])
  let ?fd = "pclient st ! i" and ?Q = "\<lambda>st' w'. poll_inv m l st' w' \<and> pmaxi st' = pmaxi st"
  have good: "poll_good m l st w" using inv by (simp add: poll_inv_def)
  then have set: "settled (trace w)" by (simp add: poll_good_def polltab.good_def)
  then show "echoing (trace w)" by (rule settled_echoing)
  show "echoing (trace w @ [Sys (C_read ?fd MAXLINE) a])" for a using set by (rule settled_read)
  fix r and w1 :: world
  assume "\<exists>a s. script w = a # s \<and> w1 = called (C_read ?fd MAXLINE) a s w \<and>
     r = (if a_err a = 0 then (int (length (take MAXLINE (a_data a))), take MAXLINE (a_data a)) else (- 1, []))"
  then obtain a where a: "trace w1 = trace w @ [Sys (C_read ?fd MAXLINE) a]"
    "r = (if a_err a = 0 then (int (length (take MAXLINE (a_data a))), take MAXLINE (a_data a)) else (- 1, []))"
    by auto
  have used: "poll_used st i" "poll_slot st i = ?fd" using i inv by (auto simp: poll_used_def poll_slot_def poll_inv_def)
  have same: "poll_good m l st w1" if "a_err a \<noteq> 0 \<or> take MAXLINE (a_data a) = []"
    using poll_good_rules(6) [OF good a(1) that] .
  have close: "keeps echoing (then_run (Close ?fd w1) (\<lambda>_ w. Ret (poll_del i st) w)) ?Q"
    if "a_err a \<noteq> 0 \<or> take MAXLINE (a_data a) = []"
  proof (rule keeps_then [OF poll_good_rules(5) [OF same [OF that] used]])
    fix x and w' :: world
    assume "poll_good m l (poll_del i st) w'"
    with inv show "keeps echoing (Ret (poll_del i st) w') ?Q"
      using poll_inv_echoing [of m l "poll_del i st" w'] by (auto simp: poll_inv_def poll_del_def intro!: keeps_Ret)
  qed
  have echo: "keeps echoing (then_run (Writen ?fd (take MAXLINE (a_data a)) w1) (\<lambda>_ w. Ret st w)) ?Q" if "a_err a = 0"
  proof (rule keeps_then [OF poll_good_rules(4) [OF good a(1) that]])
    fix x and w' :: world
    assume "poll_good m l st w'"
    with inv show "keeps echoing (Ret st w') ?Q"
      using poll_inv_echoing [of m l st w'] by (auto simp: poll_inv_def intro!: keeps_Ret)
  qed
  have fail: "keeps echoing (err_sys msg w1) ?Q" if "a_err a \<noteq> 0" for msg
    using poll_good_rules(1) [OF same] that by (simp add: err_sys_def keeps_Exit)
  show "keeps echoing (case r of (n, buf) \<Rightarrow>
        if n < 0 then
          (if errno w1 = ECONNRESET then then_run (Close ?fd w1) (\<lambda>_ w. Ret (poll_del i st) w)
           else err_sys ''read error'' w1)
        else if n = 0 then then_run (Close ?fd w1) (\<lambda>_ w. Ret (poll_del i st) w)
        else then_run (Writen ?fd buf w1) (\<lambda>_ w. Ret st w)) ?Q"
    using close echo fail by (cases "a_err a = 0") (auto simp: a(2) min_def split: if_splits)
qed

lemma keeps_poll_clients:
  "poll_inv m l st w \<Longrightarrow> 0 < i \<Longrightarrow> i + k \<le> m \<Longrightarrow>
     keeps echoing (poll_clients i k nready st w) (\<lambda>st' w'. poll_inv m l st' w')"
proof (induction k arbitrary: i nready st w)
  case 0
  then show ?case by (auto intro!: keeps_Ret poll_inv_echoing)
next
  case (Suc k)
  show ?case
  proof (cases "0 \<le> pclient st ! i \<and> prevents st ! i AND (POLLRDNORM OR POLLERR) \<noteq> 0")
    case True
    have "keeps echoing (poll_serve i st w) (\<lambda>st' w'. poll_inv m l st' w' \<and> pmaxi st' = pmaxi st)"
      using Suc.prems True by (intro keeps_poll_serve) auto
    then have "keeps echoing (then_run (poll_serve i st w) (\<lambda>st w.
        if nready - 1 \<le> 0 then Ret st w else poll_clients (Suc i) k (nready - 1) st w)) (\<lambda>st' w'. poll_inv m l st' w')"
      by (rule keeps_then) (use Suc in \<open>auto intro!: keeps_Ret poll_inv_echoing\<close>)
    with True show ?thesis by simp
  qed (use Suc in auto)
qed

lemma keeps_poll_all_clients:
  "poll_inv m l st w \<Longrightarrow> keeps echoing (poll_all_clients nready st w) (\<lambda>st' w'. poll_inv m l st' w')"
  unfolding poll_all_clients_def by (rule keeps_poll_clients) (auto simp: poll_inv_def)

lemma keeps_Poll:
  assumes "echoing (trace w)"
  shows "keeps echoing (Poll fds tmo w) (\<lambda>r w'. \<exists>a. trace w' = trace w @ [Sys (C_poll fds tmo) a])"
  using assms by (cases "script w")
    (auto simp: Poll_def keeps_def checked_def sys_poll_def sys_def err_sys_def Let_def)

lemma keeps_poll_round:
  assumes "poll_inv m l st w"
  shows "keeps echoing (poll_round l st w) (\<lambda>st' w'. poll_inv m l st' w')"
  unfolding poll_round_def
proof (rule keeps_then [OF keeps_Poll [OF poll_inv_echoing [OF assms]]])
  fix r and w1 :: world
  assume "\<exists>a. trace w1 = trace w @ [Sys (C_poll (poll_fds st) INFTIM) a]"
  then obtain a where t: "trace w1 = trace w @ [Sys (C_poll (poll_fds st) INFTIM) a]" by blast
  have "poll_good m l st w" using assms by (simp add: poll_inv_def)
  from poll_good_rules(2) [OF this t] have "poll_good m l st w1" by simp
  with assms have "poll_inv m l st w1" by (simp add: poll_inv_def)
  then have inv: "poll_inv m l (st\<lparr>prevents := rs\<rparr>) w1" for rs by (rule poll_inv_prevents)
  have "keeps echoing (then_run (poll_accept l (st\<lparr>prevents := rs\<rparr>) w1) (\<lambda>st w.
      if n - 1 \<le> 0 then Ret st w else poll_all_clients (n - 1) st w)) (\<lambda>st' w'. poll_inv m l st' w')" for n rs
    by (rule keeps_then [OF keeps_poll_accept [OF inv]])
       (auto intro!: keeps_Ret poll_inv_echoing keeps_poll_all_clients)
  with keeps_poll_all_clients [OF inv] show "keeps echoing (case r of (nready, revs) \<Rightarrow>
       let st = st\<lparr>prevents := revs @ drop (length revs) (prevents st)\<rparr> in
       if prevents st ! 0 AND POLLRDNORM \<noteq> 0 then
         then_run (poll_accept l st w1) (\<lambda>st w.
           if nready - 1 \<le> 0 then Ret st w else poll_all_clients (nready - 1) st w)
       else poll_all_clients nready st w1) (\<lambda>st' w'. poll_inv m l st' w')"
    by (auto simp: Let_def split: prod.split)
qed

lemma keeps_poll_loop: "poll_inv m l st w \<Longrightarrow> keeps echoing (poll_loop l st w) (\<lambda>_ _. False)"
proof (induction "length (script w)" arbitrary: st w rule: less_induct)
  case less
  show ?case
    unfolding poll_loop.simps [of l st w]
    by (rule keeps_then [OF keeps_poll_round [OF less.prems]]) (use less poll_round_consumes in blast)
qed

inductive poll_reach :: "nat \<Rightarrow> int list \<Rightarrow> answer list \<Rightarrow> fd \<Rightarrow> poll_state \<Rightarrow> world \<Rightarrow> bool"
  for open_max junk s where
  start: "tcp_socket_bound (boot s) = Ret l w \<Longrightarrow> poll_reach open_max junk s l (poll_init open_max l junk) w"
| turn: "poll_reach open_max junk s l st w \<Longrightarrow> poll_round l st w = Ret st' w' \<Longrightarrow>
    poll_reach open_max junk s l st' w'"

lemma tcp_socket_bound_nonneg: "tcp_socket_bound w = Ret l w' \<Longrightarrow> 0 \<le> l"
  by (auto simp: tcp_socket_bound_def then_run_Ret_iff Socket.wrap_Ret)

lemma conns_Cons: "0 \<le> l \<Longrightarrow> conns (l # replicate n (- 1)) = {l}"
  by (auto simp: conns_def)

lemma poll_inv_start:
  assumes "settled (trace w)" and "fd_run (trace w) = ({0, 1, 2, l}, ok)" and "ok \<longrightarrow> l \<notin> {0, 1, 2}"
    and "0 \<le> l" and "0 < open_max"
  shows "poll_inv open_max l (poll_init open_max l junk) w"
proof -
  have "slots_ok (l # replicate (open_max - 1) (- 1))"
    using assms(4) by (auto simp: slots_ok_def less_Suc_eq_0_disj)
  moreover have "\<forall>i < open_max. 0 \<le> (l # replicate (open_max - 1) (- 1)) ! i \<longrightarrow> i = 0"
    using assms(5) by (auto simp: nth_Cons')
  ultimately show ?thesis
    using assms by (auto simp: poll_inv_def poll_good_def polltab.good_def polltab.tracks_def open_fds_def
        fd_fresh_def poll_ok_def poll_conns_def poll_init_def conns_Cons)
qed

lemma poll_reach_inv: "poll_reach open_max junk s l st w \<Longrightarrow> 0 < open_max \<Longrightarrow> poll_inv open_max l st w"
proof (induction rule: poll_reach.induct)
  case (start l w)
  with keeps_result [OF keeps_bound start(1)] poll_inv_start tcp_socket_bound_nonneg [OF start(1)]
  show ?case by blast
next
  case (turn l st w st' w')
  with keeps_result [OF keeps_poll_round] show ?case by blast
qed

section \<open>Properties of the poll server\<close>

lemma poll_server_keeps:
  "0 < open_max \<Longrightarrow> keeps echoing (tcpservpoll01 open_max junk (boot s)) (\<lambda>_ _. False)"
  unfolding tcpservpoll01_def
  by (rule keeps_then [OF keeps_bound])
     (use poll_inv_start keeps_poll_loop tcp_socket_bound_nonneg in blast)

text \<open>The entries handed to \<^verbatim>\<open>poll\<close> ask for exactly the descriptors of the table.\<close>

lemma poll_fds_exact:
  assumes "poll_ok open_max l st"
  shows "{fd. (fd, POLLRDNORM) \<in> set (poll_fds st) \<and> 0 \<le> fd} = conns (pclient st)"
proof -
  have "c \<in> set (take (pmaxi st + 1) (pclient st))" if c: "c \<in> set (pclient st)" "0 \<le> c" for c
  proof -
    obtain i where "i < length (pclient st)" "pclient st ! i = c" using c(1) by (auto simp: in_set_conv_nth)
    with assms c(2) have "i < length (take (pmaxi st + 1) (pclient st))" "take (pmaxi st + 1) (pclient st) ! i = c"
      by (auto simp: poll_ok_def)
    then show ?thesis by (metis nth_mem)
  qed
  then show ?thesis by (auto simp: poll_fds_def conns_def dest: in_set_takeD)
qed

text \<open>
  (C8) The same for the \<^verbatim>\<open>poll\<close> server, whatever the uninitialised \<^verbatim>\<open>revents\<close> fields hold: at every
  moment it has sent back prefixes of what it received; at the top of every turn of its loop the
  entries handed to \<^verbatim>\<open>poll\<close> are exactly the listening descriptor and the open connections, each
  once, and everything received has been sent back.
\<close>

theorem poll_server_exact:
  assumes "0 < open_max"
  shows "prefix (accepted fd (trace (world_of (tcpservpoll01 open_max junk (boot s)))))
      (delivered fd (trace (world_of (tcpservpoll01 open_max junk (boot s))))) \<and>
    (\<forall>l st w. poll_reach open_max junk s l st w \<and> fd_fresh (trace w) \<longrightarrow>
      open_fds (trace w) = {0, 1, 2} \<union> {fd. (fd, POLLRDNORM) \<in> set (poll_fds st) \<and> 0 \<le> fd} \<and>
      slots_ok (pclient st) \<and> (\<forall>fd. accepted fd (trace w) = delivered fd (trace w)))"
proof -
  have "open_fds (trace w) = {0, 1, 2} \<union> {fd. (fd, POLLRDNORM) \<in> set (poll_fds st) \<and> 0 \<le> fd} \<and>
      slots_ok (pclient st) \<and> (\<forall>fd. accepted fd (trace w) = delivered fd (trace w))"
    if "poll_reach open_max junk s l st w" "fd_fresh (trace w)" for l st w
    using poll_reach_inv [OF that(1) assms] that(2) poll_fds_exact [of open_max l st]
    by (auto simp: poll_inv_def poll_good_def polltab.good_def polltab.tracks_def poll_conns_def settled_def
        poll_ok_def)
  with keeps_trace [OF poll_server_keeps [OF assms, of junk s]] show ?thesis by (auto simp: echoing_def)
qed

theorem poll_server_exact_witness:
  "\<exists>st w. poll_reach 4 [0, 0, 0, 0]
       [gave 3, ans0, ans0, ans0\<lparr>a_ints := [64]\<rparr>, gave 4, ans0\<lparr>a_ints := [0, 64]\<rparr>, got [7, 8], gave 2] 3 st w \<and>
     open_fds (trace w) = {0, 1, 2, 3, 4} \<and> poll_fds st = [(3, POLLRDNORM), (4, POLLRDNORM)] \<and>
     accepted 4 (trace w) = [7, 8]"
proof -
  let ?s = "[gave 3, ans0, ans0, ans0\<lparr>a_ints := [64]\<rparr>, gave 4, ans0\<lparr>a_ints := [0, 64]\<rparr>, got [7, 8], gave 2]"
  let ?st = "\<lparr>pclient = [3, 4, - 1, - 1], prevents = [64, 0, 0, 0], pmaxi = 1\<rparr>"
  let ?st' = "?st\<lparr>prevents := [0, 64, 0, 0]\<rparr>"
  obtain w0 where w0: "tcp_socket_bound (boot ?s) = Ret 3 w0" "script w0 = drop 3 ?s"
    "trace w0 = [Sys (C_socket AF_INET SOCK_STREAM 0) (gave 3), Sys (C_bind 3 any_sockaddr) ans0, Sys (C_listen 3 LISTENQ) ans0]"
    by (simp add: tcp_socket_bound_def Socket.wrap_answer Bind.wrap_answer Listen_def checked_def void_def
        sys_unit_def sys_def boot_def)
  obtain w1 where w1: "poll_round 3 (poll_init 4 3 [0, 0, 0, 0]) w0 = Ret ?st w1" "script w1 = drop 5 ?s"
    "trace w1 = trace w0 @ [Sys (C_poll [(3, POLLRDNORM)] INFTIM) (ans0\<lparr>a_ints := [64]\<rparr>), Sys (C_accept 3) (gave 4)]"
    using w0(2) by (simp add: poll_round_def poll_init_def poll_fds_def Poll_def checked_def sys_poll_def sys_def
        poll_revents_def poll_accept_def Accept_Cons poll_add_def Let_def ans0_def POLLRDNORM_def numeral_eq_Suc)
  obtain w2 where w2: "poll_round 3 ?st w1 = Ret ?st' w2"
    "trace w2 = trace w1 @ [Sys (C_poll [(3, POLLRDNORM), (4, POLLRDNORM)] INFTIM) (ans0\<lparr>a_ints := [0, 64]\<rparr>),
       Sys (C_read 4 MAXLINE) (got [7, 8]), Sys (C_write 4 [7, 8]) (gave 2)]"
    using w1(2) by (simp add: poll_round_def poll_all_clients_def poll_serve_def Poll_def checked_def poll_fds_def
        sys_poll_def sys_def poll_revents_def sys_read_def sys_data_def Writen_def writen_def writen_loop_Cons
        Let_def ans0_def MAXLINE_def POLLRDNORM_def POLLERR_def)
  have reach: "poll_reach 4 [0, 0, 0, 0] ?s 3 ?st' w2"
    using poll_reach.start [OF w0(1)] w1(1) w2(1) poll_reach.turn by blast
  have tr: "trace w2 = [Sys (C_socket AF_INET SOCK_STREAM 0) (gave 3), Sys (C_bind 3 any_sockaddr) ans0,
     Sys (C_listen 3 LISTENQ) ans0, Sys (C_poll [(3, POLLRDNORM)] INFTIM) (ans0\<lparr>a_ints := [64]\<rparr>),
     Sys (C_accept 3) (gave 4), Sys (C_poll [(3, POLLRDNORM), (4, POLLRDNORM)] INFTIM) (ans0\<lparr>a_ints := [0, 64]\<rparr>),
     Sys (C_read 4 MAXLINE) (got [7, 8]), Sys (C_write 4 [7, 8]) (gave 2)]"
    using w0(3) w1(3) w2(2) by simp
  have fresh: "fd_fresh (trace w2)" "delivered 4 (trace w2) = [7, 8]"
    unfolding tr by (simp_all add: fd_fresh_def fd_run_def MAXLINE_def)
  have fds: "poll_fds ?st' = [(3, POLLRDNORM), (4, POLLRDNORM)]" by (simp add: poll_fds_def)
  have "open_fds (trace w2) = {0, 1, 2} \<union> {fd. (fd, POLLRDNORM) \<in> set (poll_fds ?st') \<and> 0 \<le> fd} \<and>
      (\<forall>fd. accepted fd (trace w2) = delivered fd (trace w2))"
    using conjunct2 [OF poll_server_exact [where open_max = 4 and junk = "[0, 0, 0, 0]" and s = ?s], rule_format,
        OF _ conjI [OF reach fresh(1)]] by simp
  with fds fresh(2) reach show ?thesis by (intro exI [of _ ?st'] exI [of _ w2]) auto
qed

end
