(* ===== verification/Stream_Clients.thy ===== *)
theory Stream_Clients
  imports Run_Logic
begin

text \<open>
  The stream clients that wait for the standard input and the socket at the same time:
  \<^verbatim>\<open>nonblock/strclinonb.c\<close>, with its own buffers and nonblocking descriptors, and
  \<^verbatim>\<open>select/strcliselect02.c\<close>, built on \<^verbatim>\<open>select\<close> and blocking calls. Both define \<^verbatim>\<open>str_cli\<close>; here each
  has the name of its file.
\<close>

section \<open>nonblock/strclinonb.c\<close>

definition STDIN :: fd where [unp_consts]: "STDIN = 0"

text \<open>
  The buffer \<^verbatim>\<open>to\<close> (standard input to socket) and its two pointers are the bytes up to \<^verbatim>\<open>toiptr\<close> and
  the offset \<^verbatim>\<open>tooptr\<close>; the same for \<^verbatim>\<open>fr\<close>.
\<close>

record nb_state =
  nb_to :: bytes
  tooptr :: nat
  nb_fr :: bytes
  froptr :: nat
  stdineof :: bool

definition nb_init :: nb_state where
  "nb_init = \<lparr>nb_to = [], tooptr = 0, nb_fr = [], froptr = 0, stdineof = False\<rparr>"

definition nb_rset :: "fd \<Rightarrow> nb_state \<Rightarrow> fd set" where
  "nb_rset sockfd st = (if \<not> stdineof st \<and> length (nb_to st) < MAXLINE then {STDIN} else {}) \<union>
     (if length (nb_fr st) < MAXLINE then {sockfd} else {})"

definition nb_wset :: "fd \<Rightarrow> nb_state \<Rightarrow> fd set" where
  "nb_wset sockfd st = (if tooptr st \<noteq> length (nb_to st) then {sockfd} else {}) \<union>
     (if froptr st \<noteq> length (nb_fr st) then {STDOUT} else {})"

text \<open>
  The four parts of the loop body. Those that read yield the write set, to which they add the
  descriptor the new data goes to.
\<close>

definition nb_read_stdin :: "fd \<Rightarrow> fd set \<Rightarrow> nb_state \<Rightarrow> world \<Rightarrow> (nb_state \<times> fd set) run" where
  "nb_read_stdin sockfd wset st w =
     then_run (sys_read STDIN (MAXLINE - length (nb_to st)) w) (\<lambda>r w. case r of (n, data) \<Rightarrow>
       if n < 0 then (if errno w \<noteq> EWOULDBLOCK then err_sys ''read error on stdin'' w else Ret (st, wset) w)
       else if n = 0 then
         (let st = st\<lparr>stdineof := True\<rparr> in
          if tooptr st = length (nb_to st)
          then then_run (Shutdown sockfd SHUT_WR w) (\<lambda>_ w. Ret (st, wset) w)
          else Ret (st, wset) w)
       else Ret (st\<lparr>nb_to := nb_to st @ data\<rparr>, insert sockfd wset) w)"

text \<open>\<^verbatim>\<open>None\<close> is the return from the loop.\<close>

definition nb_read_socket :: "fd \<Rightarrow> fd set \<Rightarrow> nb_state \<Rightarrow> world \<Rightarrow> (nb_state \<times> fd set) option run" where
  "nb_read_socket sockfd wset st w =
     then_run (sys_read sockfd (MAXLINE - length (nb_fr st)) w) (\<lambda>r w. case r of (n, data) \<Rightarrow>
       if n < 0 then (if errno w \<noteq> EWOULDBLOCK then err_sys ''read error on socket'' w
                      else Ret (Some (st, wset)) w)
       else if n = 0 then
         (if stdineof st then Ret None w
          else err_quit ''str_cli: server terminated prematurely'' w)
       else Ret (Some (st\<lparr>nb_fr := nb_fr st @ data\<rparr>, insert STDOUT wset)) w)"

definition nb_write_stdout :: "nb_state \<Rightarrow> world \<Rightarrow> nb_state run" where
  "nb_write_stdout st w =
     then_run (sys_write STDOUT (drop (froptr st) (nb_fr st)) w) (\<lambda>nwritten w.
       if nwritten < 0 then (if errno w \<noteq> EWOULDBLOCK then err_sys ''write error to stdout'' w else Ret st w)
       else let st = st\<lparr>froptr := froptr st + nat nwritten\<rparr> in
         Ret (if froptr st = length (nb_fr st) then st\<lparr>nb_fr := [], froptr := 0\<rparr> else st) w)"

definition nb_write_socket :: "fd \<Rightarrow> nb_state \<Rightarrow> world \<Rightarrow> nb_state run" where
  "nb_write_socket sockfd st w =
     then_run (sys_write sockfd (drop (tooptr st) (nb_to st)) w) (\<lambda>nwritten w.
       if nwritten < 0 then (if errno w \<noteq> EWOULDBLOCK then err_sys ''write error to socket'' w else Ret st w)
       else let st = st\<lparr>tooptr := tooptr st + nat nwritten\<rparr> in
         if tooptr st = length (nb_to st) then
           (let st = st\<lparr>nb_to := [], tooptr := 0\<rparr> in
            if stdineof st then then_run (Shutdown sockfd SHUT_WR w) (\<lambda>_ w. Ret st w) else Ret st w)
         else Ret st w)"

definition nb_writes :: "fd \<Rightarrow> fd set \<Rightarrow> nb_state \<Rightarrow> world \<Rightarrow> nb_state run" where
  "nb_writes sockfd wset st w =
     then_run (if STDOUT \<in> wset \<and> froptr st < length (nb_fr st) then nb_write_stdout st w else Ret st w)
       (\<lambda>st w. if sockfd \<in> wset \<and> tooptr st < length (nb_to st) then nb_write_socket sockfd st w else Ret st w)"

definition nb_round :: "fd \<Rightarrow> nb_state \<Rightarrow> world \<Rightarrow> nb_state option run" where
  "nb_round sockfd st w =
     then_run (Select (max (max STDIN STDOUT) sockfd + 1) (nb_rset sockfd st) (nb_wset sockfd st) None w)
       (\<lambda>r w. case r of (_, rset, wset) \<Rightarrow>
     then_run (if STDIN \<in> rset then nb_read_stdin sockfd wset st w else Ret (st, wset) w) (\<lambda>r w. case r of (st, wset) \<Rightarrow>
     then_run (if sockfd \<in> rset then nb_read_socket sockfd wset st w else Ret (Some (st, wset)) w) (\<lambda>r w. case r of
         None \<Rightarrow> Ret None w
       | Some (st, wset) \<Rightarrow> then_run (nb_writes sockfd wset st w) (\<lambda>st w. Ret (Some st) w))))"

lemma nb_read_stdin_consumes: "nb_read_stdin s ws st w = Ret r w' \<Longrightarrow> length (script w') < length (script w)"
  by (auto simp: nb_read_stdin_def then_run_Ret_iff Let_def err_sys_def split: if_splits
      dest!: sys_read_consumes Shutdown.wrap_consumes)

lemma nb_read_socket_consumes: "nb_read_socket s ws st w = Ret r w' \<Longrightarrow> length (script w') < length (script w)"
  by (auto simp: nb_read_socket_def then_run_Ret_iff err_sys_def err_quit_def split: if_splits dest!: sys_read_consumes)

lemma nb_write_stdout_consumes: "nb_write_stdout st w = Ret r w' \<Longrightarrow> length (script w') < length (script w)"
  by (auto simp: nb_write_stdout_def then_run_Ret_iff Let_def err_sys_def split: if_splits dest: sys_write_consumes)

lemma nb_write_socket_consumes: "nb_write_socket s st w = Ret r w' \<Longrightarrow> length (script w') < length (script w)"
  unfolding nb_write_socket_def then_run_Ret_iff Let_def err_sys_def
  by (auto simp: then_run_Ret_iff split: if_splits dest!: sys_write_consumes Shutdown.wrap_consumes)

lemma nb_writes_consumes: "nb_writes s ws st w = Ret r w' \<Longrightarrow> length (script w') \<le> length (script w)"
  unfolding nb_writes_def then_run_Ret_iff
  by (fastforce split: if_splits dest!: nb_write_stdout_consumes nb_write_socket_consumes)

lemma nb_round_cases:
  assumes "nb_round s st w = Ret r w'"
  obtains rset wset x w1 st1 wset1 w2 r2 w3 where
    "Select (max (max STDIN STDOUT) s + 1) (nb_rset s st) (nb_wset s st) None w = Ret (x, rset, wset) w1"
    "(if STDIN \<in> rset then nb_read_stdin s wset st w1 else Ret (st, wset) w1) = Ret (st1, wset1) w2"
    "(if s \<in> rset then nb_read_socket s wset1 st1 w2 else Ret (Some (st1, wset1)) w2) = Ret r2 w3"
    "r2 = None \<and> r = None \<and> w' = w3 \<or>
     (\<exists>st2 wset2 st3. r2 = Some (st2, wset2) \<and> nb_writes s wset2 st2 w3 = Ret st3 w' \<and> r = Some st3)"
proof -
  from assms obtain r0 w1 where sel: "Select (max (max STDIN STDOUT) s + 1) (nb_rset s st) (nb_wset s st) None w = Ret r0 w1"
    and rest: "(case r0 of (_, rset, wset) \<Rightarrow>
     then_run (if STDIN \<in> rset then nb_read_stdin s wset st w1 else Ret (st, wset) w1) (\<lambda>r w. case r of (st, wset) \<Rightarrow>
     then_run (if s \<in> rset then nb_read_socket s wset st w else Ret (Some (st, wset)) w) (\<lambda>r w. case r of
         None \<Rightarrow> Ret None w
       | Some (st, wset) \<Rightarrow> then_run (nb_writes s wset st w) (\<lambda>st w. Ret (Some st) w)))) = Ret r w'"
    unfolding nb_round_def then_run_Ret_iff by blast
  obtain x rset wset where r0: "r0 = (x, rset, wset)" by (metis prod_cases3)
  from rest [unfolded r0 prod.case then_run_Ret_iff] obtain r1 w2 where
    one: "(if STDIN \<in> rset then nb_read_stdin s wset st w1 else Ret (st, wset) w1) = Ret r1 w2"
    and rest: "(case r1 of (st, wset) \<Rightarrow>
     then_run (if s \<in> rset then nb_read_socket s wset st w2 else Ret (Some (st, wset)) w2) (\<lambda>r w. case r of
         None \<Rightarrow> Ret None w
       | Some (st, wset) \<Rightarrow> then_run (nb_writes s wset st w) (\<lambda>st w. Ret (Some st) w))) = Ret r w'" by blast
  obtain st1 wset1 where r1: "r1 = (st1, wset1)" by force
  from rest [unfolded r1 prod.case then_run_Ret_iff] obtain r2 w3 where
    two: "(if s \<in> rset then nb_read_socket s wset1 st1 w2 else Ret (Some (st1, wset1)) w2) = Ret r2 w3"
    and b: "(case r2 of None \<Rightarrow> Ret None w3
       | Some (st, wset) \<Rightarrow> then_run (nb_writes s wset st w3) (\<lambda>st w. Ret (Some st) w)) = Ret r w'"
    by blast
  note a = sel [unfolded r0] one [unfolded r1] two
  from b have "r2 = None \<and> r = None \<and> w' = w3 \<or>
     (\<exists>st2 wset2 st3. r2 = Some (st2, wset2) \<and> nb_writes s wset2 st2 w3 = Ret st3 w' \<and> r = Some st3)"
    by (cases r2) (auto simp: then_run_Ret_iff)
  with a that show thesis by blast
qed

lemma nb_round_consumes: "nb_round s st w = Ret r w' \<Longrightarrow> length (script w') < length (script w)"
proof (erule nb_round_cases)
  fix rset wset x w1 st1 wset1 w2 r2 w3
  assume "Select (max (max STDIN STDOUT) s + 1) (nb_rset s st) (nb_wset s st) None w = Ret (x, rset, wset) w1"
    and "(if STDIN \<in> rset then nb_read_stdin s wset st w1 else Ret (st, wset) w1) = Ret (st1, wset1) w2"
    and "(if s \<in> rset then nb_read_socket s wset1 st1 w2 else Ret (Some (st1, wset1)) w2) = Ret r2 w3"
    and fin: "r2 = None \<and> r = None \<and> w' = w3 \<or>
     (\<exists>st2 wset2 st3. r2 = Some (st2, wset2) \<and> nb_writes s wset2 st2 w3 = Ret st3 w' \<and> r = Some st3)"
  then have "length (script w1) < length (script w)" "length (script w2) \<le> length (script w1)"
    "length (script w3) \<le> length (script w2)"
    by (auto split: if_splits dest!: Select_consumes nb_read_stdin_consumes nb_read_socket_consumes)
  with fin show "length (script w') < length (script w)" by (fastforce dest: nb_writes_consumes)
qed

function nb_loop :: "fd \<Rightarrow> nb_state \<Rightarrow> world \<Rightarrow> unit run" where
  "nb_loop sockfd st w = then_run (nb_round sockfd st w) (\<lambda>r w. case r of
       None \<Rightarrow> Ret () w
     | Some st \<Rightarrow> nb_loop sockfd st w)"
  by pat_completeness auto
termination
  by (relation "measure (\<lambda>(fd, st, w). length (script w))") (auto dest: nb_round_consumes)

declare nb_loop.simps [simp del]

text \<open>The file status flags of a descriptor, with \<^verbatim>\<open>O_NONBLOCK\<close> added.\<close>

definition set_nonblock :: "fd \<Rightarrow> world \<Rightarrow> unit run" where
  "set_nonblock fd w =
     then_run (Fcntl fd F_GETFL 0 w) (\<lambda>val w.
     then_run (Fcntl fd F_SETFL (val OR O_NONBLOCK) w) (\<lambda>_ w. Ret () w))"

definition strclinonb :: "fd \<Rightarrow> world \<Rightarrow> unit run" where
  "strclinonb sockfd w =
     then_run (set_nonblock sockfd w) (\<lambda>_ w.
     then_run (set_nonblock STDIN w) (\<lambda>_ w.
     then_run (set_nonblock STDOUT w) (\<lambda>_ w. nb_loop sockfd nb_init w)))"

section \<open>The invariant of the two buffers\<close>

text \<open>
  \<open>shut\<close>: the client has told the server that no more data will come. The accounts that hold at
  every moment, \<open>relaying\<close>, and the invariant of the loop: what was read and not yet written is what
  lies between the two pointers.
\<close>

definition shut :: "fd \<Rightarrow> event list \<Rightarrow> bool" where
  "shut sockfd es \<longleftrightarrow> (\<exists>a. Sys (C_shutdown sockfd SHUT_WR) a \<in> set es)"

definition relaying :: "fd \<Rightarrow> fd \<Rightarrow> event list \<Rightarrow> bool" where
  "relaying fp sockfd es \<longleftrightarrow>
     prefix (accepted sockfd es) (delivered fp es) \<and> prefix (accepted STDOUT es) (delivered sockfd es) \<and>
     (shut sockfd es \<longrightarrow> accepted sockfd es = delivered fp es)"

definition nb_inv :: "fd \<Rightarrow> nb_state \<Rightarrow> world \<Rightarrow> bool" where
  "nb_inv sockfd st w \<longleftrightarrow> sockfd \<noteq> STDIN \<and> sockfd \<noteq> STDOUT \<and>
     delivered STDIN (trace w) = accepted sockfd (trace w) @ drop (tooptr st) (nb_to st) \<and>
     delivered sockfd (trace w) = accepted STDOUT (trace w) @ drop (froptr st) (nb_fr st) \<and>
     tooptr st \<le> length (nb_to st) \<and> length (nb_to st) \<le> MAXLINE \<and>
     froptr st \<le> length (nb_fr st) \<and> length (nb_fr st) \<le> MAXLINE \<and>
     (shut sockfd (trace w) \<longrightarrow> stdineof st \<and> tooptr st = length (nb_to st))"

lemma shut_snoc [simp]:
  "shut s (es @ [e]) \<longleftrightarrow> shut s es \<or> (\<exists>a. e = Sys (C_shutdown s SHUT_WR) a)"
  by (auto simp: shut_def)

lemma shut_err_doit [simp]: "shut s (trace (err_doit f l m w)) = shut s (trace w)"
  by (auto simp: err_doit_def Let_def)

lemma relaying_err_doit [simp]: "relaying fp s (trace (err_doit f l m w)) = relaying fp s (trace w)"
  by (simp add: relaying_def)

lemma nb_inv_relaying: "nb_inv s st w \<Longrightarrow> relaying STDIN s (trace w)"
  by (auto simp: nb_inv_def relaying_def)

lemma nb_inv_silent:
  "nb_inv s st w \<Longrightarrow> trace w' = trace w @ [e] \<Longrightarrow> silent e \<Longrightarrow> (\<And>a. e \<noteq> Sys (C_shutdown s SHUT_WR) a) \<Longrightarrow>
     nb_inv s st w'"
  by (simp add: nb_inv_def del: delivered_append accepted_append)

lemma relaying_silent:
  "relaying fp s es \<Longrightarrow> silent e \<Longrightarrow> (\<And>a. e \<noteq> Sys (C_shutdown s SHUT_WR) a) \<Longrightarrow> relaying fp s (es @ [e])"
  by (simp add: relaying_def del: delivered_append accepted_append)

lemma nb_Shutdown:
  assumes "nb_inv s st w" and "stdineof st" and "tooptr st = length (nb_to st)"
  shows "keeps (relaying STDIN s) (Shutdown s SHUT_WR w) (\<lambda>_ w'. nb_inv s st w')"
proof (rule keeps_weaken)
  have same: "relaying STDIN s (trace w @ [Sys (C_shutdown s SHUT_WR) a])" for a
    using assms nb_inv_relaying [OF assms(1)] by (simp add: relaying_def nb_inv_def)
  show "keeps (relaying STDIN s) (Shutdown s SHUT_WR w) (\<lambda>x w'. \<exists>a t. script w = a # t \<and> a_err a = 0 \<and> x = () \<and>
      w' = called (C_shutdown s SHUT_WR) a t w)"
    by (rule Shutdown.wrap_keeps_any) (use same nb_inv_relaying [OF assms(1)] in simp_all)
  fix x and w' :: world
  assume "\<exists>a t. script w = a # t \<and> a_err a = 0 \<and> x = () \<and> w' = called (C_shutdown s SHUT_WR) a t w"
  with assms show "nb_inv s st w'" by (auto simp: nb_inv_def)
qed

text \<open>Reading: the bytes go to the end of a buffer with room for them.\<close>

lemma keeps_nb_read_stdin:
  assumes inv: "nb_inv s st w" and more: "\<not> stdineof st" "length (nb_to st) < MAXLINE"
  shows "keeps (relaying STDIN s) (nb_read_stdin s ws st w) (\<lambda>r w'. nb_inv s (fst r) w' \<and> nb_fr (fst r) = nb_fr st)"
  unfolding nb_read_stdin_def
proof (rule keeps_then [OF keeps_sys_read])
  let ?n = "MAXLINE - length (nb_to st)"
  have s: "s \<noteq> STDIN" and shut: "\<not> shut s (trace w)" using inv more by (auto simp: nb_inv_def)
  show "relaying STDIN s (trace w)" using inv by (rule nb_inv_relaying)
  show "relaying STDIN s (trace w @ [Sys (C_read STDIN ?n) a])" for a
    using inv s shut by (auto simp: nb_inv_def relaying_def)
  fix r and w1 :: world
  assume "\<exists>a t. script w = a # t \<and> w1 = called (C_read STDIN ?n) a t w \<and>
     r = (if a_err a = 0 then (int (length (take ?n (a_data a))), take ?n (a_data a)) else (- 1, []))"
  then obtain a t where w1: "w1 = called (C_read STDIN ?n) a t w"
    and r: "r = (if a_err a = 0 then (int (length (take ?n (a_data a))), take ?n (a_data a)) else (- 1, []))" by blast
  have none: "nb_inv s (st\<lparr>stdineof := b\<rparr>) w1" if "a_err a \<noteq> 0 \<or> take ?n (a_data a) = []" for b
    using inv that s shut w1 by (auto simp: nb_inv_def)
  have none': "nb_inv s st w1" if "a_err a \<noteq> 0 \<or> take ?n (a_data a) = []"
    using none [OF that, of "stdineof st"] by simp
  have some: "nb_inv s (st\<lparr>nb_to := nb_to st @ take ?n (a_data a)\<rparr>) w1" if "a_err a = 0"
    using inv that s shut w1 more by (auto simp: nb_inv_def)
  show "keeps (relaying STDIN s) (case r of (n, data) \<Rightarrow>
       if n < 0 then (if errno w1 \<noteq> EWOULDBLOCK then err_sys ''read error on stdin'' w1 else Ret (st, ws) w1)
       else if n = 0 then
         (let st = st\<lparr>stdineof := True\<rparr> in
          if tooptr st = length (nb_to st)
          then then_run (Shutdown s SHUT_WR w1) (\<lambda>_ w. Ret (st, ws) w)
          else Ret (st, ws) w1)
       else Ret (st\<lparr>nb_to := nb_to st @ data\<rparr>, insert s ws) w1) (\<lambda>r w'. nb_inv s (fst r) w' \<and> nb_fr (fst r) = nb_fr st)"
  proof -
    consider (err) "a_err a \<noteq> 0" | (eof) "a_err a = 0" "take ?n (a_data a) = []"
      | (data) "a_err a = 0" "take ?n (a_data a) \<noteq> []" by blast
    then show ?thesis
    proof cases
      case err
      with none' r show ?thesis
        by (simp add: err_sys_def keeps_Exit keeps_Ret nb_inv_relaying)
    next
      case eof
      let ?st = "st\<lparr>stdineof := True\<rparr>"
      have inv1: "nb_inv s ?st w1" using none eof by blast
      then have "keeps (relaying STDIN s) (then_run (Shutdown s SHUT_WR w1) (\<lambda>_ w. Ret (?st, ws) w))
          (\<lambda>r w'. nb_inv s (fst r) w' \<and> nb_fr (fst r) = nb_fr st)" if "tooptr st = length (nb_to st)"
        using that by (intro keeps_then [OF nb_Shutdown [OF inv1]]) (auto intro: keeps_Ret nb_inv_relaying)
      moreover have "r = (0, [])" unfolding r eof(2) using eof(1) by simp
      ultimately show ?thesis using inv1 by (simp add: Let_def keeps_Ret nb_inv_relaying)
    next
      case data
      obtain d where d: "take ?n (a_data a) = d" by blast
      then have "r = (int (length d), d)" "d \<noteq> []" "nb_inv s (st\<lparr>nb_to := nb_to st @ d\<rparr>) w1"
        using data r some by simp_all
      then show ?thesis by (simp add: keeps_Ret nb_inv_relaying)
    qed
  qed
qed

lemma keeps_nb_read_socket:
  assumes inv: "nb_inv s st w" and room: "length (nb_fr st) < MAXLINE"
  shows "keeps (relaying STDIN s) (nb_read_socket s ws st w)
    (\<lambda>r w'. case r of None \<Rightarrow> stdineof st \<and> nb_inv s st w' | Some (st', ws') \<Rightarrow> nb_inv s st' w')"
  unfolding nb_read_socket_def
proof (rule keeps_then [OF keeps_sys_read])
  let ?n = "MAXLINE - length (nb_fr st)"
    and ?Q = "\<lambda>r w'. case r of None \<Rightarrow> stdineof st \<and> nb_inv s st w' | Some (st', ws') \<Rightarrow> nb_inv s st' w'"
  have s: "s \<noteq> STDIN" "s \<noteq> STDOUT" using inv by (auto simp: nb_inv_def)
  show "relaying STDIN s (trace w)" using inv by (rule nb_inv_relaying)
  show "relaying STDIN s (trace w @ [Sys (C_read s ?n) a])" for a
    using inv s by (auto simp: nb_inv_def relaying_def)
  fix r and w1 :: world
  assume "\<exists>a t. script w = a # t \<and> w1 = called (C_read s ?n) a t w \<and>
     r = (if a_err a = 0 then (int (length (take ?n (a_data a))), take ?n (a_data a)) else (- 1, []))"
  then obtain a t where w1: "w1 = called (C_read s ?n) a t w"
    and r: "r = (if a_err a = 0 then (int (length (take ?n (a_data a))), take ?n (a_data a)) else (- 1, []))" by blast
  have none: "nb_inv s st w1" if "a_err a \<noteq> 0 \<or> take ?n (a_data a) = []"
    using inv that s w1 by (auto simp: nb_inv_def)
  have some: "nb_inv s (st\<lparr>nb_fr := nb_fr st @ take ?n (a_data a)\<rparr>) w1" if "a_err a = 0"
    using inv that s w1 room by (auto simp: nb_inv_def)
  consider (err) "a_err a \<noteq> 0" | (eof) "a_err a = 0" "take ?n (a_data a) = []"
    | (data) "a_err a = 0" "take ?n (a_data a) \<noteq> []" by blast
  then show "keeps (relaying STDIN s) (case r of (n, data) \<Rightarrow>
       if n < 0 then (if errno w1 \<noteq> EWOULDBLOCK then err_sys ''read error on socket'' w1
                      else Ret (Some (st, ws)) w1)
       else if n = 0 then
         (if stdineof st then Ret None w1
          else err_quit ''str_cli: server terminated prematurely'' w1)
       else Ret (Some (st\<lparr>nb_fr := nb_fr st @ data\<rparr>, insert STDOUT ws)) w1) ?Q"
  proof cases
    case err
    with none r show ?thesis by (simp add: err_sys_def keeps_Exit keeps_Ret nb_inv_relaying)
  next
    case eof
    moreover have "r = (0, [])" unfolding r eof(2) using eof(1) by simp
    ultimately show ?thesis
      using none by (simp add: err_quit_def keeps_Exit keeps_Ret nb_inv_relaying)
  next
    case data
    obtain d where d: "take ?n (a_data a) = d" by blast
    then have "r = (int (length d), d)" "d \<noteq> []" "nb_inv s (st\<lparr>nb_fr := nb_fr st @ d\<rparr>) w1"
      using data r some by simp_all
    then show ?thesis by (simp add: keeps_Ret nb_inv_relaying)
  qed
qed

text \<open>Writing: the kernel takes a prefix of the bytes between the pointers.\<close>

lemma keeps_nb_write_stdout:
  assumes inv: "nb_inv s st w"
  shows "keeps (relaying STDIN s) (nb_write_stdout st w) (\<lambda>st' w'. nb_inv s st' w')"
  unfolding nb_write_stdout_def
proof (rule keeps_then [OF keeps_sys_write])
  let ?b = "drop (froptr st) (nb_fr st)"
  have s: "s \<noteq> STDIN" "s \<noteq> STDOUT" using inv by (auto simp: nb_inv_def)
  show "relaying STDIN s (trace w)" using inv by (rule nb_inv_relaying)
  show "relaying STDIN s (trace w @ [Sys (C_write STDOUT ?b) a])" for a
    using inv s by (auto simp: nb_inv_def relaying_def take_is_prefix)
  fix r :: int and w1 :: world
  assume "\<exists>a t. script w = a # t \<and> w1 = called (C_write STDOUT ?b) a t w \<and>
     r = (if a_err a = 0 then int (min (length ?b) (a_val a)) else - 1)"
  then obtain a t where w1: "w1 = called (C_write STDOUT ?b) a t w"
    and r: "r = (if a_err a = 0 then int (min (length ?b) (a_val a)) else - 1)" by blast
  have none: "nb_inv s st w1" if "a_err a \<noteq> 0" using inv that s w1 by (auto simp: nb_inv_def)
  define m where "m = min (length ?b) (a_val a)"
  have "take (a_val a) ?b = take m ?b" by (simp add: m_def min_def)
  moreover have "?b = take m ?b @ drop (froptr st + m) (nb_fr st)"
    by (metis append_take_drop_id drop_drop add.commute)
  moreover have "froptr st + m \<le> length (nb_fr st)" using inv by (auto simp: nb_inv_def m_def)
  ultimately have some: "nb_inv s (st\<lparr>froptr := froptr st + m\<rparr>) w1" if "a_err a = 0"
    using inv that s w1 by (auto simp: nb_inv_def)
  have empty: "nb_inv s (st\<lparr>nb_fr := [], froptr := 0\<rparr>) w1" if "a_err a = 0" "froptr st + m = length (nb_fr st)"
    using some [OF that(1)] that(2) by (auto simp: nb_inv_def)
  show "keeps (relaying STDIN s) (if r < 0 then
       (if errno w1 \<noteq> EWOULDBLOCK then err_sys ''write error to stdout'' w1 else Ret st w1)
       else let st = st\<lparr>froptr := froptr st + nat r\<rparr> in
         Ret (if froptr st = length (nb_fr st) then st\<lparr>nb_fr := [], froptr := 0\<rparr> else st) w1)
     (\<lambda>st' w'. nb_inv s st' w')"
  proof (cases "a_err a = 0")
    case True
    have "r = int m" using True r by (simp add: m_def)
    with True some empty show ?thesis by (simp add: Let_def keeps_Ret nb_inv_relaying)
  next
    case False
    with none r show ?thesis by (simp add: err_sys_def keeps_Exit keeps_Ret nb_inv_relaying)
  qed
qed

lemma keeps_nb_write_socket:
  assumes inv: "nb_inv s st w"
  shows "keeps (relaying STDIN s) (nb_write_socket s st w) (\<lambda>st' w'. nb_inv s st' w')"
  unfolding nb_write_socket_def
proof (rule keeps_then [OF keeps_sys_write])
  let ?b = "drop (tooptr st) (nb_to st)"
  have s: "s \<noteq> STDIN" "s \<noteq> STDOUT" using inv by (auto simp: nb_inv_def)
  show "relaying STDIN s (trace w)" using inv by (rule nb_inv_relaying)
  show "relaying STDIN s (trace w @ [Sys (C_write s ?b) a])" for a
    using inv s by (auto simp: nb_inv_def relaying_def take_is_prefix)
  fix r :: int and w1 :: world
  assume "\<exists>a t. script w = a # t \<and> w1 = called (C_write s ?b) a t w \<and>
     r = (if a_err a = 0 then int (min (length ?b) (a_val a)) else - 1)"
  then obtain a t where w1: "w1 = called (C_write s ?b) a t w"
    and r: "r = (if a_err a = 0 then int (min (length ?b) (a_val a)) else - 1)" by blast
  have none: "nb_inv s st w1" if "a_err a \<noteq> 0" using inv that s w1 by (auto simp: nb_inv_def)
  define m where "m = min (length ?b) (a_val a)"
  have "take (a_val a) ?b = take m ?b" by (simp add: m_def min_def)
  moreover have "?b = take m ?b @ drop (tooptr st + m) (nb_to st)"
    by (metis append_take_drop_id drop_drop add.commute)
  moreover have "tooptr st + m \<le> length (nb_to st)" using inv by (auto simp: nb_inv_def m_def)
  ultimately have some: "nb_inv s (st\<lparr>tooptr := tooptr st + m\<rparr>) w1" if "a_err a = 0"
    using inv that s w1 by (auto simp: nb_inv_def)
  let ?st = "st\<lparr>nb_to := [], tooptr := 0\<rparr>"
  have empty: "nb_inv s ?st w1" if "a_err a = 0" "tooptr st + m = length (nb_to st)"
    using some [OF that(1)] that(2) by (auto simp: nb_inv_def)
  have last: "keeps (relaying STDIN s) (then_run (Shutdown s SHUT_WR w1) (\<lambda>_ w. Ret ?st w)) (\<lambda>st' w'. nb_inv s st' w')"
    if "a_err a = 0" "tooptr st + m = length (nb_to st)" "stdineof st"
    using that by (intro keeps_then [OF nb_Shutdown [OF empty]]) (auto intro: keeps_Ret nb_inv_relaying)
  show "keeps (relaying STDIN s) (if r < 0 then
       (if errno w1 \<noteq> EWOULDBLOCK then err_sys ''write error to socket'' w1 else Ret st w1)
       else let st = st\<lparr>tooptr := tooptr st + nat r\<rparr> in
         if tooptr st = length (nb_to st) then
           (let st = st\<lparr>nb_to := [], tooptr := 0\<rparr> in
            if stdineof st then then_run (Shutdown s SHUT_WR w1) (\<lambda>_ w. Ret st w) else Ret st w1)
         else Ret st w1)
     (\<lambda>st' w'. nb_inv s st' w')"
  proof (cases "a_err a = 0")
    case True
    have "r = int m" using True r by (simp add: m_def)
    with True some empty last show ?thesis by (simp add: Let_def keeps_Ret nb_inv_relaying)
  next
    case False
    with none r show ?thesis by (simp add: err_sys_def keeps_Exit keeps_Ret nb_inv_relaying)
  qed
qed

lemma keeps_if: "(b \<Longrightarrow> keeps P m Q) \<Longrightarrow> (\<not> b \<Longrightarrow> keeps P m' Q) \<Longrightarrow> keeps P (if b then m else m') Q"
  by simp

lemma nb_inv_Ret: "nb_inv s st w \<Longrightarrow> keeps (relaying STDIN s) (Ret st w) (\<lambda>st' w'. nb_inv s st' w')"
  by (simp add: keeps_Ret nb_inv_relaying)

lemma keeps_nb_writes:
  "nb_inv s st w \<Longrightarrow> keeps (relaying STDIN s) (nb_writes s ws st w) (\<lambda>st' w'. nb_inv s st' w')"
  unfolding nb_writes_def
  by (rule keeps_then [where R = "\<lambda>st' w'. nb_inv s st' w'"])
     (auto intro: keeps_nb_write_stdout keeps_nb_write_socket nb_inv_Ret)

lemma keeps_nb_from_socket:
  assumes inv: "nb_inv s st w" and room: "s \<in> rset \<Longrightarrow> length (nb_fr st) < MAXLINE"
  shows "keeps (relaying STDIN s)
    (then_run (if s \<in> rset then nb_read_socket s ws st w else Ret (Some (st, ws)) w) (\<lambda>r w. case r of
         None \<Rightarrow> Ret None w
       | Some (st, wset) \<Rightarrow> then_run (nb_writes s wset st w) (\<lambda>st w. Ret (Some st) w)))
    (\<lambda>r w'. case r of None \<Rightarrow> \<exists>st'. stdineof st' \<and> nb_inv s st' w' | Some st' \<Rightarrow> nb_inv s st' w')"
proof (rule keeps_then)
  show "keeps (relaying STDIN s) (if s \<in> rset then nb_read_socket s ws st w else Ret (Some (st, ws)) w)
    (\<lambda>r w'. case r of None \<Rightarrow> stdineof st \<and> nb_inv s st w' | Some (st', ws') \<Rightarrow> nb_inv s st' w')"
    using inv room by (auto intro!: keeps_nb_read_socket keeps_Ret nb_inv_relaying)
qed (auto split: option.splits intro!: keeps_Ret keeps_then [OF keeps_nb_writes] dest: nb_inv_relaying)

lemma keeps_nb_round:
  assumes inv: "nb_inv s st w"
  shows "keeps (relaying STDIN s) (nb_round s st w)
    (\<lambda>r w'. case r of None \<Rightarrow> \<exists>st'. stdineof st' \<and> nb_inv s st' w' | Some st' \<Rightarrow> nb_inv s st' w')"
  unfolding nb_round_def
proof (rule keeps_then [OF keeps_Select])
  let ?c = "C_select (max (max STDIN STDOUT) s + 1) (nb_rset s st) (nb_wset s st) None"
  let ?Q = "\<lambda>r w'. case r of None \<Rightarrow> \<exists>st'. stdineof st' \<and> nb_inv s st' w' | Some st' \<Rightarrow> nb_inv s st' w'"
  show "relaying STDIN s (trace w)" using inv by (rule nb_inv_relaying)
  then show "relaying STDIN s (trace w @ [Sys ?c a])" for a by (rule relaying_silent) simp_all
  then show "relaying STDIN s (trace (err_doit True LOG_ERR ''select error'' (called ?c a t w)))" for a t by simp
  fix r :: "int \<times> fd set \<times> fd set" and w1 :: world
  assume sel: "\<exists>a. trace w1 = trace w @ [Sys ?c a] \<and> fst (snd r) \<subseteq> nb_rset s st \<and> snd (snd r) \<subseteq> nb_wset s st"
  obtain x rset wset where r: "r = (x, rset, wset)" by (metis prod_cases3)
  have sub: "rset \<subseteq> nb_rset s st" using sel r by auto
  have s: "s \<noteq> STDIN" "STDIN \<noteq> s" using inv by (auto simp: nb_inv_def)
  have inv1: "nb_inv s st w1" using sel inv by (auto intro: nb_inv_silent)
  have fr: "length (nb_fr st) < MAXLINE" if "s \<in> rset"
    using that sub s by (auto simp: nb_rset_def split: if_splits)
  have from_stdin: "keeps (relaying STDIN s) (if STDIN \<in> rset then nb_read_stdin s wset st w1 else Ret (st, wset) w1)
      (\<lambda>r w'. nb_inv s (fst r) w' \<and> nb_fr (fst r) = nb_fr st)"
    using inv1 sub
    by (auto simp: nb_rset_def s split: if_splits intro!: keeps_nb_read_stdin keeps_Ret nb_inv_relaying)
  show "keeps (relaying STDIN s) (case r of (_, rset, wset) \<Rightarrow>
     then_run (if STDIN \<in> rset then nb_read_stdin s wset st w1 else Ret (st, wset) w1) (\<lambda>r w. case r of (st, wset) \<Rightarrow>
     then_run (if s \<in> rset then nb_read_socket s wset st w else Ret (Some (st, wset)) w) (\<lambda>r w. case r of
         None \<Rightarrow> Ret None w
       | Some (st, wset) \<Rightarrow> then_run (nb_writes s wset st w) (\<lambda>st w. Ret (Some st) w)))) ?Q"
    unfolding r prod.case
  proof (rule keeps_then [OF from_stdin])
    fix r1 :: "nb_state \<times> fd set" and w2 :: world
    assume inv2: "nb_inv s (fst r1) w2 \<and> nb_fr (fst r1) = nb_fr st"
    then show "keeps (relaying STDIN s) (case r1 of (st, wset) \<Rightarrow>
       then_run (if s \<in> rset then nb_read_socket s wset st w2 else Ret (Some (st, wset)) w2) (\<lambda>r w. case r of
         None \<Rightarrow> Ret None w
       | Some (st, wset) \<Rightarrow> then_run (nb_writes s wset st w) (\<lambda>st w. Ret (Some st) w))) ?Q"
      using fr by (cases r1) (simp add: keeps_nb_from_socket)
  qed
qed

lemma keeps_nb_loop: "nb_inv s st w \<Longrightarrow> keeps (relaying STDIN s) (nb_loop s st w) (\<lambda>_ w'. \<exists>st'. stdineof st' \<and> nb_inv s st' w')"
proof (induction s st w rule: nb_loop.induct)
  case (1 s st w)
  show ?case
    unfolding nb_loop.simps [of s st w]
  proof (rule keeps_then [OF keeps_nb_round [OF "1.prems"]])
    fix r and w1 :: world
    assume "nb_round s st w = Ret r w1"
      and "case r of None \<Rightarrow> \<exists>st'. stdineof st' \<and> nb_inv s st' w1 | Some st' \<Rightarrow> nb_inv s st' w1"
    then show "keeps (relaying STDIN s) (case r of None \<Rightarrow> Ret () w1 | Some st \<Rightarrow> nb_loop s st w1)
       (\<lambda>_ w'. \<exists>st'. stdineof st' \<and> nb_inv s st' w')"
      using "1.IH" by (cases r) (auto intro!: keeps_Ret dest: nb_inv_relaying)
  qed
qed

section \<open>The client\<close>

lemma keeps_set_nonblock:
  assumes "nb_inv s st w"
  shows "keeps (relaying STDIN s) (set_nonblock fd w) (\<lambda>_ w'. nb_inv s st w')"
proof -
  have one: "keeps (relaying STDIN s) (Fcntl fd c n w) (\<lambda>_ w'. nb_inv s st w')" if "nb_inv s st w" for c n and w :: world
  proof (rule keeps_weaken [OF Fcntl.wrap_keeps_any])
    show "relaying STDIN s (trace w)" using that by (rule nb_inv_relaying)
    then have *: "relaying STDIN s (trace w @ [Sys (C_fcntl fd c n) a])" for a by (rule relaying_silent) simp_all
    then show "relaying STDIN s (trace (called (C_fcntl fd c n) a t w))" for a t by simp
    with * show "relaying STDIN s (trace (err_doit True LOG_ERR ''fcntl error'' (called (C_fcntl fd c n) a t w)))" for a t
      by simp
    fix x :: int and w' :: world
    assume "\<exists>a t. script w = a # t \<and> a_err a = 0 \<and> x = int (a_val a) \<and> w' = called (C_fcntl fd c n) a t w"
    with that show "nb_inv s st w'" by (auto intro: nb_inv_silent)
  qed
  show ?thesis
    unfolding set_nonblock_def using assms
    by (auto intro!: keeps_then [OF one] keeps_Ret nb_inv_relaying)
qed

text \<open>
  The function may return with output it has not written: when the end of file of the socket is read
  while bytes are still waiting in \<^verbatim>\<open>fr\<close> (the standard output would have blocked), they are lost.
\<close>

definition unwritten_run :: world where
  "unwritten_run = boot [ans0, ans0, ans0, ans0, ans0, ans0,
     ans0\<lparr>a_rset := [0]\<rparr>, got [], ans0, ans0\<lparr>a_rset := [3]\<rparr>, got [65],
     fails EWOULDBLOCK, ans0\<lparr>a_rset := [3]\<rparr>, got []]"

lemma strclinonb_loses_output:
  "case strclinonb 3 unwritten_run of
     Ret _ w \<Rightarrow> delivered 3 (trace w) = [65] \<and> accepted STDOUT (trace w) = []
   | _ \<Rightarrow> False"
  by code_simp

text \<open>
  (C7) \<^verbatim>\<open>str_cli\<close> of \<^verbatim>\<open>nonblock/strclinonb.c\<close> relays faithfully in both directions at every moment,
  whatever the kernel answers (short writes, calls that would block, readiness in any order): what
  the socket has accepted is a prefix of what came from the standard input, what was written to the
  standard output is a prefix of what came from the socket, and the connection is half closed only
  after all of the standard input has been sent. What has not reached the other side when the
  function returns is at most one buffer, \<^verbatim>\<open>MAXLINE\<close> bytes, per direction.
\<close>

theorem strclinonb_relays:
  assumes "s \<noteq> STDIN" and "s \<noteq> STDOUT"
  shows "relaying STDIN s (trace (world_of (strclinonb s (boot sc)))) \<and>
    (strclinonb s (boot sc) = Ret () w' \<longrightarrow> (\<exists>unsent unwritten.
       delivered STDIN (trace w') = accepted s (trace w') @ unsent \<and> length unsent \<le> MAXLINE \<and>
       delivered s (trace w') = accepted STDOUT (trace w') @ unwritten \<and> length unwritten \<le> MAXLINE))"
proof -
  have start: "nb_inv s nb_init (boot sc)"
    using assms by (simp add: nb_inv_def nb_init_def boot_def shut_def)
  have "keeps (relaying STDIN s) (strclinonb s (boot sc)) (\<lambda>_ w'. \<exists>st. stdineof st \<and> nb_inv s st w')"
    unfolding strclinonb_def
    by (intro keeps_then [OF keeps_set_nonblock [OF start]] keeps_then [OF keeps_set_nonblock] keeps_nb_loop)
  then show ?thesis unfolding keeps_def nb_inv_def by fastforce
qed

theorem strclinonb_relays_witness:
  "relaying STDIN 3 (trace (world_of (strclinonb 3 (boot (script unwritten_run)))))"
  by (rule strclinonb_relays [THEN conjunct1]) (simp_all add: STDIN_def STDOUT_def)

section \<open>select/strcliselect02.c\<close>

text \<open>
  The set \<^verbatim>\<open>rset\<close> lives across the rounds: \<^verbatim>\<open>select\<close> reduces it to the ready descriptors and the
  next round adds to that. \<^verbatim>\<open>None\<close> is the return from the loop.
\<close>

definition sel02_socket :: "fd \<Rightarrow> bool \<Rightarrow> world \<Rightarrow> bool run" where
  "sel02_socket sockfd eof w =
     then_run (Read sockfd MAXLINE w) (\<lambda>r w. case r of (n, buf) \<Rightarrow>
       if n = 0 then (if eof then Ret False w else err_quit ''str_cli: server terminated prematurely'' w)
       else then_run (Write STDOUT buf w) (\<lambda>_ w. Ret True w))"

definition sel02_input :: "fd \<Rightarrow> fd \<Rightarrow> fd set \<Rightarrow> bool \<Rightarrow> world \<Rightarrow> (fd set \<times> bool) run" where
  "sel02_input fp sockfd rset eof w =
     then_run (Read fp MAXLINE w) (\<lambda>r w. case r of (n, buf) \<Rightarrow>
       if n = 0 then then_run (Shutdown sockfd SHUT_WR w) (\<lambda>_ w. Ret (rset - {fp}, True) w)
       else then_run (Writen sockfd buf w) (\<lambda>_ w. Ret (rset, eof) w))"

definition sel02_round :: "fd \<Rightarrow> fd \<Rightarrow> fd set \<Rightarrow> bool \<Rightarrow> world \<Rightarrow> (fd set \<times> bool) option run" where
  "sel02_round fp sockfd rset eof w =
     then_run (Select (max fp sockfd + 1) (insert sockfd (if eof then rset else insert fp rset)) {} None w)
       (\<lambda>r w. case r of (_, rset, _) \<Rightarrow>
     then_run (if sockfd \<in> rset then sel02_socket sockfd eof w else Ret True w) (\<lambda>go w.
       if \<not> go then Ret None w
       else then_run (if fp \<in> rset then sel02_input fp sockfd rset eof w else Ret (rset, eof) w)
         (\<lambda>st w. Ret (Some st) w)))"

lemma sel02_socket_consumes: "sel02_socket s eof w = Ret r w' \<Longrightarrow> length (script w') < length (script w)"
  by (fastforce simp: sel02_socket_def then_run_Ret_iff err_quit_def split: if_splits dest!: Read_consumes Write_consumes)

lemma sel02_input_consumes: "sel02_input fp s rs eof w = Ret r w' \<Longrightarrow> length (script w') < length (script w)"
  by (fastforce simp: sel02_input_def then_run_Ret_iff split: if_splits
      dest!: Read_consumes Writen_consumes Shutdown.wrap_consumes)

lemma sel02_round_consumes: "sel02_round fp s rs eof w = Ret r w' \<Longrightarrow> length (script w') < length (script w)"
  unfolding sel02_round_def then_run_Ret_iff
  by (fastforce simp: then_run_Ret_iff split: if_splits
      dest!: Select_consumes sel02_socket_consumes sel02_input_consumes)

function sel02_loop :: "fd \<Rightarrow> fd \<Rightarrow> fd set \<Rightarrow> bool \<Rightarrow> world \<Rightarrow> unit run" where
  "sel02_loop fp sockfd rset eof w = then_run (sel02_round fp sockfd rset eof w) (\<lambda>r w. case r of
       None \<Rightarrow> Ret () w
     | Some (rset, eof) \<Rightarrow> sel02_loop fp sockfd rset eof w)"
  by pat_completeness auto
termination
  by (relation "measure (\<lambda>(fp, fd, rs, e, w). length (script w))") (auto dest: sel02_round_consumes)

declare sel02_loop.simps [simp del]

definition strcliselect02 :: "fd \<Rightarrow> fd \<Rightarrow> world \<Rightarrow> unit run" where
  "strcliselect02 fp sockfd w = sel02_loop fp sockfd {} False w"

text \<open>Between two rounds nothing is held back, and the connection is half closed exactly at end of file.\<close>

definition sel02_inv :: "fd \<Rightarrow> fd \<Rightarrow> bool \<Rightarrow> event list \<Rightarrow> bool" where
  "sel02_inv fp s eof es \<longleftrightarrow> s \<noteq> fp \<and> s \<noteq> STDOUT \<and> accepted s es = delivered fp es \<and>
     accepted STDOUT es = delivered s es \<and> (shut s es \<longleftrightarrow> eof)"

lemma sel02_inv_relaying: "sel02_inv fp s eof es \<Longrightarrow> relaying fp s es"
  by (simp add: sel02_inv_def relaying_def)

lemma sel02_inv_silent:
  "sel02_inv fp s eof es \<Longrightarrow> silent e \<Longrightarrow> (\<And>a. e \<noteq> Sys (C_shutdown s SHUT_WR) a) \<Longrightarrow> sel02_inv fp s eof (es @ [e])"
  by (simp add: sel02_inv_def del: delivered_append accepted_append)

lemma keeps_Read_any:
  assumes "P (trace w)" and "\<And>a. P (trace w @ [Sys (C_read fd n) a])"
    and "\<And>a t. P (trace (err_doit True LOG_ERR ''read error'' (called (C_read fd n) a t w)))"
  shows "keeps P (Read fd n w) (\<lambda>r w'. \<exists>a. trace w' = trace w @ [Sys (C_read fd n) a] \<and> a_err a = 0 \<and>
     r = (int (length (take n (a_data a))), take n (a_data a)))"
  using assms by (cases "script w")
    (auto simp: Read_def keeps_def checked_def sys_read_def sys_data_def sys_def err_sys_def)

lemma keeps_Write_any:
  assumes "P (trace w)" and "\<And>a. P (trace w @ [Sys (C_write fd b) a])"
    and "\<And>a t. P (trace (err_doit True LOG_ERR ''write error'' (called (C_write fd b) a t w)))"
  shows "keeps P (Write fd b w) (\<lambda>_ w'. \<exists>a. trace w' = trace w @ [Sys (C_write fd b) a] \<and> a_err a = 0 \<and>
     length b \<le> a_val a)"
  using assms by (cases "script w")
    (auto simp: Write_def void_def keeps_def checked_def sys_write_def sys_accepts_def sys_def err_sys_def)

lemma keeps_sel02_socket:
  assumes inv: "sel02_inv fp s eof (trace w)"
  shows "keeps (relaying fp s) (sel02_socket s eof w) (\<lambda>go w'. sel02_inv fp s eof (trace w') \<and> (\<not> go \<longrightarrow> eof))"
  unfolding sel02_socket_def
proof (rule keeps_then [OF keeps_Read_any])
  have s: "s \<noteq> fp" "s \<noteq> STDOUT" using inv by (auto simp: sel02_inv_def)
  show "relaying fp s (trace w)" using inv by (rule sel02_inv_relaying)
  show *: "relaying fp s (trace w @ [Sys (C_read s MAXLINE) a])" for a
    using inv by (auto simp: sel02_inv_def relaying_def)
  then show "relaying fp s (trace (err_doit True LOG_ERR ''read error'' (called (C_read s MAXLINE) a t w)))" for a t
    by simp
  fix r :: "int \<times> bytes" and w1 :: world
  assume "\<exists>a. trace w1 = trace w @ [Sys (C_read s MAXLINE) a] \<and> a_err a = 0 \<and>
     r = (int (length (take MAXLINE (a_data a))), take MAXLINE (a_data a))"
  then obtain a buf where w1: "trace w1 = trace w @ [Sys (C_read s MAXLINE) a]" "a_err a = 0"
    and r: "r = (int (length buf), buf)" and buf: "take MAXLINE (a_data a) = buf" by blast
  have held: "accepted s (trace w1) = delivered fp (trace w1)" "shut s (trace w1) \<longleftrightarrow> eof"
    "delivered s (trace w1) = accepted STDOUT (trace w1) @ buf"
    using inv w1 buf s by (auto simp: sel02_inv_def)
  have empty: "sel02_inv fp s eof (trace w1)" if "buf = []"
    using held s that by (simp add: sel02_inv_def)
  have "keeps (relaying fp s) (Write STDOUT buf w1) (\<lambda>_ w'. sel02_inv fp s eof (trace w'))"
  proof (rule keeps_weaken [OF keeps_Write_any])
    show "relaying fp s (trace w1)" using * w1(1) by simp
    show **: "relaying fp s (trace w1 @ [Sys (C_write STDOUT buf) b])" for b
      using held s by (auto simp: relaying_def take_is_prefix)
    then show "relaying fp s (trace (err_doit True LOG_ERR ''write error'' (called (C_write STDOUT buf) b t w1)))" for b t
      by simp
    fix x :: unit and w2 :: world
    assume "\<exists>b. trace w2 = trace w1 @ [Sys (C_write STDOUT buf) b] \<and> a_err b = 0 \<and> length buf \<le> a_val b"
    with held s show "sel02_inv fp s eof (trace w2)" by (auto simp: sel02_inv_def)
  qed
  then have some: "keeps (relaying fp s) (then_run (Write STDOUT buf w1) (\<lambda>_ w. Ret True w))
      (\<lambda>go w'. sel02_inv fp s eof (trace w') \<and> (\<not> go \<longrightarrow> eof))"
    by (rule keeps_then) (simp add: keeps_Ret sel02_inv_relaying)
  show "keeps (relaying fp s) (case r of (n, buf) \<Rightarrow>
       if n = 0 then (if eof then Ret False w1 else err_quit ''str_cli: server terminated prematurely'' w1)
       else then_run (Write STDOUT buf w1) (\<lambda>_ w. Ret True w))
      (\<lambda>go w'. sel02_inv fp s eof (trace w') \<and> (\<not> go \<longrightarrow> eof))"
    unfolding r prod.case using empty some
    by (auto simp: err_quit_def sel02_inv_relaying intro!: keeps_Ret keeps_Exit)
qed

lemma keeps_sel02_Writen:
  assumes inv: "sel02_inv fp s eof es" and eof: "\<not> eof"
    and w: "trace w = es @ [Sys (C_read fp n) a]" "a_err a = 0" "take n (a_data a) = buf"
  shows "keeps (relaying fp s) (Writen s buf w) (\<lambda>_ w'. sel02_inv fp s eof (trace w'))"
proof -
  obtain es' k where es': "trace (world_of (Writen s buf w)) = trace w @ es'" "accepted s es' = take k buf"
    "\<forall>fd'. fd' \<noteq> s \<longrightarrow> accepted fd' es' = []" "\<forall>fd'. delivered fd' es' = []"
    "\<forall>e \<in> set es'. (\<exists>b a. e = Sys (C_write s b) a) \<or> (\<exists>s. e = Stderr s) \<or> (\<exists>l s. e = Syslog l s)"
    "\<forall>x w'. Writen s buf w = Ret x w' \<longrightarrow> accepted s es' = buf"
    using Writen_writes by blast
  have "shut s es' = False" using es'(5) by (auto simp: shut_def)
  then have "shut s (trace w @ es') = shut s es" unfolding w(1) by (auto simp: shut_def)
  moreover have "STDOUT \<noteq> s" "fp \<noteq> s" using inv by (auto simp: sel02_inv_def)
  moreover have "accepted s (trace w @ es') = delivered fp es @ take k buf"
    "delivered fp (trace w @ es') = delivered fp es @ buf"
    "accepted STDOUT (trace w @ es') = delivered s (trace w @ es')" "\<not> shut s es"
    using inv w es' calculation eof by (auto simp: sel02_inv_def)
  moreover have "take k buf = buf" if "Writen s buf w = Ret x w'" for x w' using es'(2,6) that by auto
  ultimately show ?thesis
    using inv eof es'(1) by (auto simp: keeps_def sel02_inv_def relaying_def take_is_prefix)
qed

lemma keeps_sel02_input:
  assumes inv: "sel02_inv fp s eof (trace w)" and eof: "\<not> eof"
  shows "keeps (relaying fp s) (sel02_input fp s rset eof w)
    (\<lambda>(rset', eof') w'. sel02_inv fp s eof' (trace w') \<and> (eof' \<longrightarrow> fp \<notin> rset'))"
  unfolding sel02_input_def
proof (rule keeps_then [OF keeps_Read_any])
  have s: "s \<noteq> fp" "s \<noteq> STDOUT" using inv by (auto simp: sel02_inv_def)
  show "relaying fp s (trace w)" using inv by (rule sel02_inv_relaying)
  show *: "relaying fp s (trace w @ [Sys (C_read fp MAXLINE) a])" for a
    using inv eof s by (auto simp: sel02_inv_def relaying_def)
  then show "relaying fp s (trace (err_doit True LOG_ERR ''read error'' (called (C_read fp MAXLINE) a t w)))" for a t
    by simp
  fix r :: "int \<times> bytes" and w1 :: world
  assume "\<exists>a. trace w1 = trace w @ [Sys (C_read fp MAXLINE) a] \<and> a_err a = 0 \<and>
     r = (int (length (take MAXLINE (a_data a))), take MAXLINE (a_data a))"
  then obtain a buf where w1: "trace w1 = trace w @ [Sys (C_read fp MAXLINE) a]" "a_err a = 0"
    and r: "r = (int (length buf), buf)" and buf: "take MAXLINE (a_data a) = buf" by blast
  let ?Q = "\<lambda>(rset', eof') w'. sel02_inv fp s eof' (trace w') \<and> (eof' \<longrightarrow> fp \<notin> rset')"
  have fin: "keeps (relaying fp s) (Shutdown s SHUT_WR w1) (\<lambda>_ w'. sel02_inv fp s True (trace w'))" if "buf = []"
  proof (rule keeps_weaken [OF Shutdown.wrap_keeps_any])
    have inv1: "sel02_inv fp s eof (trace w1)" using inv s w1 buf that by (auto simp: sel02_inv_def)
    then show "relaying fp s (trace w1)" by (rule sel02_inv_relaying)
    have *: "relaying fp s (trace w1 @ [Sys (C_shutdown s SHUT_WR) b])"
      "sel02_inv fp s True (trace w1 @ [Sys (C_shutdown s SHUT_WR) b])" for b
      using inv1 by (auto simp: sel02_inv_def relaying_def)
    then show "relaying fp s (trace (called (C_shutdown s SHUT_WR) b t w1))" for b t by simp
    show "relaying fp s (trace (err_doit True LOG_ERR ''shutdown error'' (called (C_shutdown s SHUT_WR) b t w1)))" for b t
      using * by simp
    fix x and w2 :: world
    assume "\<exists>b t. script w1 = b # t \<and> a_err b = 0 \<and> x = () \<and> w2 = called (C_shutdown s SHUT_WR) b t w1"
    then show "sel02_inv fp s True (trace w2)" using *(2) by auto
  qed
  have "keeps (relaying fp s) (then_run (Shutdown s SHUT_WR w1) (\<lambda>_ w. Ret (rset - {fp}, True) w)) ?Q" if "buf = []"
    using fin [OF that] by (rule keeps_then) (simp add: keeps_Ret sel02_inv_relaying)
  moreover have "keeps (relaying fp s) (then_run (Writen s buf w1) (\<lambda>_ w. Ret (rset, eof) w)) ?Q"
    using keeps_sel02_Writen [OF inv eof w1 buf]
    by (rule keeps_then) (simp add: keeps_Ret sel02_inv_relaying eof)
  ultimately show "keeps (relaying fp s) (case r of (n, buf) \<Rightarrow>
       if n = 0 then then_run (Shutdown s SHUT_WR w1) (\<lambda>_ w. Ret (rset - {fp}, True) w)
       else then_run (Writen s buf w1) (\<lambda>_ w. Ret (rset, eof) w)) ?Q"
    unfolding r by simp
qed

lemma keeps_sel02_round:
  assumes inv: "sel02_inv fp s eof (trace w)" and sub: "eof \<Longrightarrow> fp \<notin> rset"
  shows "keeps (relaying fp s) (sel02_round fp s rset eof w)
    (\<lambda>r w'. case r of None \<Rightarrow> sel02_inv fp s True (trace w')
       | Some (rset', eof') \<Rightarrow> sel02_inv fp s eof' (trace w') \<and> (eof' \<longrightarrow> fp \<notin> rset'))"
  unfolding sel02_round_def
proof (rule keeps_then [OF keeps_Select])
  let ?R = "insert s (if eof then rset else insert fp rset)"
  let ?c = "C_select (max fp s + 1) ?R {} None"
  let ?Q = "\<lambda>r w'. case r of None \<Rightarrow> sel02_inv fp s True (trace w')
       | Some (rset', eof') \<Rightarrow> sel02_inv fp s eof' (trace w') \<and> (eof' \<longrightarrow> fp \<notin> rset')"
  show "relaying fp s (trace w)" using inv by (rule sel02_inv_relaying)
  then show "relaying fp s (trace w @ [Sys ?c a])" for a by (rule relaying_silent) simp_all
  then show "relaying fp s (trace (err_doit True LOG_ERR ''select error'' (called ?c a t w)))" for a t
    by (simp add: relaying_def)
  fix r :: "int \<times> fd set \<times> fd set" and w1 :: world
  assume "\<exists>a. trace w1 = trace w @ [Sys ?c a] \<and> fst (snd r) \<subseteq> ?R \<and> snd (snd r) \<subseteq> {}"
  then obtain a n rs ws where w1: "trace w1 = trace w @ [Sys ?c a]" and r: "r = (n, rs, ws)" and rs: "rs \<subseteq> ?R"
    by (metis fst_conv prod_cases3 snd_conv)
  have "sel02_inv fp s eof (trace w1)" unfolding w1 using inv by (rule sel02_inv_silent) simp_all
  moreover have no: "fp \<notin> rs" if eof using rs sub [OF that] that inv by (auto simp: sel02_inv_def)
  ultimately have sock: "keeps (relaying fp s) (if s \<in> rs then sel02_socket s eof w1 else Ret True w1)
      (\<lambda>go w'. sel02_inv fp s eof (trace w') \<and> (\<not> go \<longrightarrow> eof))"
    by (auto intro!: keeps_sel02_socket keeps_Ret sel02_inv_relaying)
  show "keeps (relaying fp s) (case r of (_, rset, _) \<Rightarrow>
     then_run (if s \<in> rset then sel02_socket s eof w1 else Ret True w1) (\<lambda>go w.
       if \<not> go then Ret None w
       else then_run (if fp \<in> rset then sel02_input fp s rset eof w else Ret (rset, eof) w)
         (\<lambda>st w. Ret (Some st) w))) ?Q"
    unfolding r prod.case
  proof (rule keeps_then [OF sock])
    fix go and w2 :: world
    assume inv2: "sel02_inv fp s eof (trace w2) \<and> (\<not> go \<longrightarrow> eof)"
    then have "keeps (relaying fp s) (if fp \<in> rs then sel02_input fp s rs eof w2 else Ret (rs, eof) w2)
        (\<lambda>(rset', eof') w'. sel02_inv fp s eof' (trace w') \<and> (eof' \<longrightarrow> fp \<notin> rset'))"
      using no by (auto intro!: keeps_sel02_input keeps_Ret sel02_inv_relaying)
    then have "keeps (relaying fp s) (then_run (if fp \<in> rs then sel02_input fp s rs eof w2 else Ret (rs, eof) w2)
        (\<lambda>st w. Ret (Some st) w)) ?Q"
      by (rule keeps_then) (auto intro!: keeps_Ret sel02_inv_relaying)
    with inv2 show "keeps (relaying fp s) (if \<not> go then Ret None w2
       else then_run (if fp \<in> rs then sel02_input fp s rs eof w2 else Ret (rs, eof) w2)
         (\<lambda>st w. Ret (Some st) w)) ?Q"
      by (cases go) (auto intro!: keeps_Ret sel02_inv_relaying)
  qed
qed

lemma keeps_sel02_loop:
  "sel02_inv fp s eof (trace w) \<Longrightarrow> (eof \<Longrightarrow> fp \<notin> rset) \<Longrightarrow>
     keeps (relaying fp s) (sel02_loop fp s rset eof w) (\<lambda>_ w'. sel02_inv fp s True (trace w'))"
proof (induction fp s rset eof w rule: sel02_loop.induct)
  case (1 fp s rset eof w)
  show ?case
    unfolding sel02_loop.simps [of fp s rset eof w]
  proof (rule keeps_then [OF keeps_sel02_round [OF "1.prems"]])
    fix r and w1 :: world
    assume "sel02_round fp s rset eof w = Ret r w1"
      and "case r of None \<Rightarrow> sel02_inv fp s True (trace w1)
       | Some (rset', eof') \<Rightarrow> sel02_inv fp s eof' (trace w1) \<and> (eof' \<longrightarrow> fp \<notin> rset')"
    then show "keeps (relaying fp s) (case r of None \<Rightarrow> Ret () w1
       | Some (rset, eof) \<Rightarrow> sel02_loop fp s rset eof w1) (\<lambda>_ w'. sel02_inv fp s True (trace w'))"
      using "1.IH" by (cases r) (auto intro!: keeps_Ret sel02_inv_relaying)
  qed simp
qed

text \<open>
  (C28) \<^verbatim>\<open>str_cli\<close> of \<^verbatim>\<open>select/strcliselect02.c\<close> relays faithfully in both directions at every
  moment, and when it returns it has delivered everything: all of the input was sent and then the
  connection half closed, and all the server sent was written to the standard output.
\<close>

theorem strcliselect02_delivers:
  assumes "s \<noteq> fp" and "s \<noteq> STDOUT"
  shows "relaying fp s (trace (world_of (strcliselect02 fp s (boot sc)))) \<and>
    (strcliselect02 fp s (boot sc) = Ret () w' \<longrightarrow> shut s (trace w') \<and>
       accepted s (trace w') = delivered fp (trace w') \<and>
       accepted STDOUT (trace w') = delivered s (trace w'))"
proof -
  have start: "sel02_inv fp s False (trace (boot sc))"
    using assms by (simp add: sel02_inv_def shut_def)
  have "keeps (relaying fp s) (strcliselect02 fp s (boot sc)) (\<lambda>_ w'. sel02_inv fp s True (trace w'))"
    unfolding strcliselect02_def using start by (rule keeps_sel02_loop) simp
  then show ?thesis unfolding keeps_def sel02_inv_def by blast
qed

text \<open>A run over a socket with descriptor 3 that sends two bytes and receives one.\<close>

definition sel02_run :: world where
  "sel02_run = boot [ans0\<lparr>a_rset := [0]\<rparr>, got [7, 8], gave 2, ans0\<lparr>a_rset := [0, 3]\<rparr>, got [9], gave 1, got [], ans0,
     ans0\<lparr>a_rset := [3]\<rparr>, got []]"

theorem strcliselect02_delivers_witness:
  "\<exists>w'. strcliselect02 0 3 (boot (script sel02_run)) = Ret () w' \<and> accepted STDOUT (trace w') = [9] \<and>
     accepted 3 (trace w') = delivered 0 (trace w')"
proof -
  have "case strcliselect02 0 3 (boot (script sel02_run)) of Ret _ w \<Rightarrow> accepted STDOUT (trace w) = [9] | _ \<Rightarrow> False"
    by code_simp
  then obtain w' where w': "strcliselect02 0 3 (boot (script sel02_run)) = Ret () w'" "accepted STDOUT (trace w') = [9]"
    by (auto split: run.splits)
  then show ?thesis
    using strcliselect02_delivers [of 3 0 "script sel02_run" w'] by (auto simp: STDOUT_def)
qed

end
