(* ===== verification/Web_Client.thy ===== *)
theory Web_Client
  imports Fd_Table
begin

text \<open>
  The web client of \<^verbatim>\<open>nonblock\<close> (\<^verbatim>\<open>web.c\<close>, \<^verbatim>\<open>web.h\<close>, \<^verbatim>\<open>home_page.c\<close>, \<^verbatim>\<open>start_connect.c\<close>,
  \<^verbatim>\<open>write_get_cmd.c\<close>): it fetches a home page and then up to \<^verbatim>\<open>MAXFILES\<close> files over at most
  \<^verbatim>\<open>maxnconn\<close> simultaneous nonblocking connections. Each file goes through the states 0,
  \<^verbatim>\<open>F_CONNECTING\<close>, \<^verbatim>\<open>F_READING\<close>, \<^verbatim>\<open>F_DONE\<close>; four counters summarise them.
\<close>

section \<open>nonblock/web.h\<close>

record web_file =
  f_name :: string
  f_host :: string
  f_fd :: fd
  f_flags :: int

definition MAXFILES :: nat where [unp_consts]: "MAXFILES = 20"
definition SERV :: string where "SERV = ''80''"
definition F_CONNECTING :: int where [unp_consts]: "F_CONNECTING = 1"
definition F_READING :: int where [unp_consts]: "F_READING = 2"
definition F_DONE :: int where [unp_consts]: "F_DONE = 4"

record web =
  files :: "web_file list"
  nconn :: int
  nlefttoconn :: int
  nlefttoread :: int
  maxfd :: int
  rset :: "fd set"
  wset :: "fd set"

definition newline :: string where "newline = [CHR 0x0A]"

definition GET_CMD :: "string \<Rightarrow> string" where
  "GET_CMD fname = ''GET '' @ fname @ '' HTTP/1.0'' @ [CHR 0x0D, CHR 0x0A, CHR 0x0D, CHR 0x0A]"

text \<open>
  The command is built by \<^verbatim>\<open>snprintf\<close> in a buffer of \<^verbatim>\<open>MAXLINE\<close> bytes, but what is sent is as many
  bytes as \<^verbatim>\<open>snprintf\<close> returns, the length of the whole text: when the name is too long the bytes
  after the buffer, \<open>stack\<close>, go with it.
\<close>

definition get_line :: "bytes \<Rightarrow> string \<Rightarrow> bytes" where
  "get_line stack fname =
     take (length (GET_CMD fname)) (bytes_of_string (snprintf_s MAXLINE (GET_CMD fname)) @ [0] @ stack)"

section \<open>nonblock/home_page.c\<close>

function home_read :: "fd \<Rightarrow> world \<Rightarrow> unit run" where
  "home_read fd w = then_run (Read fd MAXLINE w) (\<lambda>r w.
     if fst r = 0 then Ret () w
     else home_read fd (emit (Stdout (''read '' @ decz (fst r) @ '' bytes of home page'' @ newline)) w))"
  by pat_completeness auto
termination
  by (relation "measure (\<lambda>(fd, w). length (script w))") (auto dest: Read_consumes)

declare home_read.simps [simp del]

definition home_page :: "gai \<Rightarrow> (int \<Rightarrow> string) \<Rightarrow> bytes \<Rightarrow> string \<Rightarrow> string \<Rightarrow> world \<Rightarrow> unit run" where
  "home_page gai gai_strerror stack host fname w =
     then_run (tcp_connect gai gai_strerror host SERV w) (\<lambda>fd w.
     then_run (Writen fd (get_line stack fname) w) (\<lambda>_ w.
     then_run (home_read fd w) (\<lambda>_ w.
     Close fd (emit (Stdout (''end-of-file on home page'' @ newline)) w))))"

section \<open>nonblock/write_get_cmd.c and nonblock/start_connect.c\<close>

definition upd_file :: "nat \<Rightarrow> (web_file \<Rightarrow> web_file) \<Rightarrow> web \<Rightarrow> web" where
  "upd_file i f st = st\<lparr>files := (files st)[i := f (files st ! i)]\<rparr>"

definition wrote_msg :: "string \<Rightarrow> event" where
  "wrote_msg name = Stdout (''wrote '' @ dec (length (GET_CMD name)) @ '' bytes for '' @ name @ newline)"

definition write_get_cmd :: "bytes \<Rightarrow> nat \<Rightarrow> web \<Rightarrow> world \<Rightarrow> web run" where
  "write_get_cmd stack i st w =
     (let f = files st ! i in
      then_run (Writen (f_fd f) (get_line stack (f_name f)) w) (\<lambda>_ w.
        Ret ((upd_file i (f_flags_update (\<lambda>_. F_READING)) st)\<lparr>rset := insert (f_fd f) (rset st),
               maxfd := (if f_fd f > maxfd st then f_fd f else maxfd st)\<rparr>)
          (emit (wrote_msg (f_name f)) w)))"

text \<open>What \<^verbatim>\<open>start_connect\<close> does with the new socket.\<close>

definition start_socket :: "bytes \<Rightarrow> nat \<Rightarrow> fd \<Rightarrow> addrinfo \<Rightarrow> web \<Rightarrow> world \<Rightarrow> web run" where
  "start_socket stack i fd ai st w =
     (let st = upd_file i (f_fd_update (\<lambda>_. fd)) st;
          w = emit (Stdout (''start_connect for '' @ f_name (files st ! i) @ '', fd '' @ decz fd @ newline)) w in
     then_run (Fcntl fd F_GETFL 0 w) (\<lambda>flags w.
     then_run (Fcntl fd F_SETFL (flags OR O_NONBLOCK) w) (\<lambda>_ w.
     then_run (sys_unit (C_connect fd (ai_addr ai)) w) (\<lambda>n w.
       if n < 0 then
         (if errno w \<noteq> EINPROGRESS then err_sys ''nonblocking connect error'' w
          else Ret ((upd_file i (f_flags_update (\<lambda>_. F_CONNECTING)) st)\<lparr>rset := insert fd (rset st),
                 wset := insert fd (wset st), maxfd := (if fd > maxfd st then fd else maxfd st)\<rparr>) w)
       else write_get_cmd stack i st w))))"

definition start_connect :: "gai \<Rightarrow> (int \<Rightarrow> string) \<Rightarrow> bytes \<Rightarrow> nat \<Rightarrow> web \<Rightarrow> world \<Rightarrow> web run" where
  "start_connect gai gai_strerror stack i st w =
     then_run (Host_serv gai gai_strerror (Some (f_host (files st ! i))) (Some SERV) 0 SOCK_STREAM w) (\<lambda>ais w.
     let ai = hd ais in
     then_run (Socket (ai_family ai) (ai_socktype ai) (ai_protocol ai) w) (\<lambda>fd w.
       start_socket stack i fd ai st w))"

section \<open>nonblock/web.c\<close>

text \<open>The first file not started yet; its position is the number of files when there is none.\<close>

fun web_find :: "web_file list \<Rightarrow> nat" where
  "web_find [] = 0"
| "web_find (f # fs) = (if f_flags f = 0 then 0 else Suc (web_find fs))"

lemma write_get_cmd_Ret:
  "write_get_cmd stk i st w = Ret st' w' \<longleftrightarrow> (let f = files st ! i in \<exists>w1.
     Writen (f_fd f) (get_line stk (f_name f)) w = Ret () w1 \<and> w' = emit (wrote_msg (f_name f)) w1 \<and>
     st' = (upd_file i (f_flags_update (\<lambda>_. F_READING)) st)\<lparr>rset := insert (f_fd f) (rset st),
               maxfd := (if f_fd f > maxfd st then f_fd f else maxfd st)\<rparr>)"
  by (auto simp: write_get_cmd_def Let_def then_run_Ret_iff)

lemma write_get_cmd_consumes:
  "write_get_cmd stk i st w = Ret st' w' \<Longrightarrow> length (script w') \<le> length (script w)"
  by (auto simp: write_get_cmd_Ret Let_def dest: Writen_consumes)

lemma start_socket_consumes:
  "start_socket stk i fd ai st w = Ret st' w' \<Longrightarrow> length (script w') < length (script w)"
  by (fastforce simp: start_socket_def then_run_Ret_iff Let_def err_sys_def sys_unit_def split: if_splits
      dest!: Fcntl.wrap_consumes sys_consumes write_get_cmd_consumes)

lemma start_connect_consumes:
  "start_connect gai ge stk i st w = Ret st' w' \<Longrightarrow> length (script w') < length (script w)"
  by (fastforce simp: start_connect_def Host_serv_def err_quit_def then_run_Ret_iff Let_def split: sum.splits
      dest!: Socket.wrap_consumes start_socket_consumes)

function web_start :: "gai \<Rightarrow> (int \<Rightarrow> string) \<Rightarrow> bytes \<Rightarrow> int \<Rightarrow> web \<Rightarrow> world \<Rightarrow> web run" where
  "web_start gai gai_strerror stack maxnconn st w =
     (if nconn st < maxnconn \<and> 0 < nlefttoconn st then
        (let i = web_find (files st) in
         if i = length (files st)
         then err_quit (''nlefttoconn = '' @ decz (nlefttoconn st) @ '' but nothing found'') w
         else then_run (start_connect gai gai_strerror stack i st w) (\<lambda>st w.
           web_start gai gai_strerror stack maxnconn
             (st\<lparr>nconn := nconn st + 1, nlefttoconn := nlefttoconn st - 1\<rparr>) w))
      else Ret st w)"
  by pat_completeness auto
termination
  by (relation "measure (\<lambda>(gai, ge, stack, maxnconn, st, w). length (script w))") (auto dest: start_connect_consumes)

declare web_start.simps [simp del]

definition eof_msg :: "string \<Rightarrow> event" where
  "eof_msg name = Stdout (''end-of-file on '' @ name @ newline)"

text \<open>One file after \<^verbatim>\<open>select\<close>, with the descriptors ready to read, \<open>rs\<close>, and to write, \<open>ws\<close>.\<close>

definition web_connected :: "bytes \<Rightarrow> nat \<Rightarrow> web \<Rightarrow> world \<Rightarrow> web run" where
  "web_connected stack i st w =
     (let f = files st ! i; fd = f_fd f in
      then_run (sys_opt (C_getsockopt fd SOL_SOCKET SO_ERROR) w) (\<lambda>r w.
      then_run (if fst r < 0 \<or> snd r \<noteq> OV_int 0
                then err_ret (''nonblocking connect failed for '' @ f_name f) w else Ret () w) (\<lambda>_ w.
        write_get_cmd stack i (st\<lparr>wset := wset st - {fd}\<rparr>)
          (emit (Stdout (''connection established for '' @ f_name f @ newline)) w))))"

definition web_read :: "nat \<Rightarrow> web \<Rightarrow> world \<Rightarrow> web run" where
  "web_read i st w =
     (let f = files st ! i; fd = f_fd f in
      then_run (Read fd MAXLINE w) (\<lambda>r w.
        if fst r = 0 then
          then_run (Close fd (emit (eof_msg (f_name f)) w)) (\<lambda>_ w.
            Ret ((upd_file i (f_flags_update (\<lambda>_. F_DONE)) st)\<lparr>rset := rset st - {fd},
                   nconn := nconn st - 1, nlefttoread := nlefttoread st - 1\<rparr>) w)
        else Ret st (emit (Stdout (''read '' @ decz (fst r) @ '' bytes from '' @ f_name f @ newline)) w)))"

definition web_step :: "bytes \<Rightarrow> fd set \<Rightarrow> fd set \<Rightarrow> nat \<Rightarrow> web \<Rightarrow> world \<Rightarrow> web run" where
  "web_step stack rs ws i st w =
     (let flags = f_flags (files st ! i); fd = f_fd (files st ! i) in
      if flags = 0 \<or> flags AND F_DONE \<noteq> 0 then Ret st w
      else if flags AND F_CONNECTING \<noteq> 0 \<and> (fd \<in> rs \<or> fd \<in> ws) then web_connected stack i st w
      else if flags AND F_READING \<noteq> 0 \<and> fd \<in> rs then web_read i st w
      else Ret st w)"

fun web_scan :: "bytes \<Rightarrow> fd set \<Rightarrow> fd set \<Rightarrow> nat \<Rightarrow> nat \<Rightarrow> web \<Rightarrow> world \<Rightarrow> web run" where
  "web_scan stack rs ws i 0 st w = Ret st w"
| "web_scan stack rs ws i (Suc k) st w =
     then_run (web_step stack rs ws i st w) (\<lambda>st w. web_scan stack rs ws (Suc i) k st w)"

definition web_round :: "gai \<Rightarrow> (int \<Rightarrow> string) \<Rightarrow> bytes \<Rightarrow> int \<Rightarrow> web \<Rightarrow> world \<Rightarrow> web run" where
  "web_round gai gai_strerror stack maxnconn st w =
     then_run (web_start gai gai_strerror stack maxnconn st w) (\<lambda>st w.
     then_run (Select (maxfd st + 1) (rset st) (wset st) None w) (\<lambda>r w. case r of (_, rs, ws) \<Rightarrow>
       web_scan stack rs ws 0 (length (files st)) st w))"

lemma web_start_consumes:
  "web_start gai ge stk m st w = Ret st' w' \<Longrightarrow> length (script w') \<le> length (script w)"
proof (induction gai ge stk m st w rule: web_start.induct)
  case (1 gai ge stk m st w)
  show ?case
  proof (cases "nconn st < m \<and> 0 < nlefttoconn st \<and> web_find (files st) \<noteq> length (files st)")
    case True
    with "1.prems" obtain st1 w1 where s: "start_connect gai ge stk (web_find (files st)) st w = Ret st1 w1"
      "web_start gai ge stk m (st1\<lparr>nconn := nconn st1 + 1, nlefttoconn := nlefttoconn st1 - 1\<rparr>) w1 = Ret st' w'"
      by (auto simp: web_start.simps [of gai ge stk m st w] Let_def then_run_Ret_iff)
    then show ?thesis using "1.IH" [OF _ refl _ s] True start_connect_consumes [OF s(1)] by simp
  next
    case False
    with "1.prems" show ?thesis
      by (auto simp: web_start.simps [of gai ge stk m st w] Let_def err_quit_def split: if_splits)
  qed
qed

lemma web_step_consumes: "web_step stk rs ws i st w = Ret st' w' \<Longrightarrow> length (script w') \<le> length (script w)"
  by (fastforce simp: web_step_def web_connected_def web_read_def write_get_cmd_def Let_def then_run_Ret_iff
      sys_opt_def err_ret_def split: if_splits
      dest!: sys_consumes Writen_consumes Read_consumes Close.wrap_consumes)

lemma web_scan_consumes: "web_scan stk rs ws i k st w = Ret st' w' \<Longrightarrow> length (script w') \<le> length (script w)"
  by (induction k arbitrary: i st w) (fastforce simp: then_run_Ret_iff dest!: web_step_consumes)+

lemma web_round_consumes: "web_round gai ge stk m st w = Ret st' w' \<Longrightarrow> length (script w') < length (script w)"
  by (fastforce simp: web_round_def then_run_Ret_iff dest!: web_start_consumes Select_consumes web_scan_consumes)

function web_loop :: "gai \<Rightarrow> (int \<Rightarrow> string) \<Rightarrow> bytes \<Rightarrow> int \<Rightarrow> web \<Rightarrow> world \<Rightarrow> web run" where
  "web_loop gai gai_strerror stack maxnconn st w =
     (if 0 < nlefttoread st then
        then_run (web_round gai gai_strerror stack maxnconn st w) (\<lambda>st w.
          web_loop gai gai_strerror stack maxnconn st w)
      else Ret st w)"
  by pat_completeness auto
termination
  by (relation "measure (\<lambda>(gai, ge, stack, maxnconn, st, w). length (script w))") (auto dest: web_round_consumes)

declare web_loop.simps [simp del]

text \<open>
  The global array holds as many files as fit. The arguments are those after the program's name:
  the number of connections, the host, the home page and the files.
\<close>

definition web_init :: "string \<Rightarrow> string list \<Rightarrow> web" where
  "web_init host names =
     (let fs = map (\<lambda>n. \<lparr>f_name = n, f_host = host, f_fd = 0, f_flags = 0\<rparr>) (take MAXFILES names);
          n = int (length fs)
      in \<lparr>files = fs, nconn = 0, nlefttoconn = n, nlefttoread = n, maxfd = - 1, rset = {}, wset = {}\<rparr>)"

definition web_fetch ::
  "gai \<Rightarrow> (int \<Rightarrow> string) \<Rightarrow> bytes \<Rightarrow> int \<Rightarrow> string \<Rightarrow> string \<Rightarrow> string list \<Rightarrow> world \<Rightarrow> web run" where
  "web_fetch gai gai_strerror stack maxnconn host homepage names w =
     (let st = web_init host names;
          w = emit (Stdout (''nfiles = '' @ dec (length (files st)) @ newline)) w in
      then_run (home_page gai gai_strerror stack host homepage w) (\<lambda>_ w.
        web_loop gai gai_strerror stack maxnconn st w))"

fun web_main :: "gai \<Rightarrow> (int \<Rightarrow> string) \<Rightarrow> bytes \<Rightarrow> string list \<Rightarrow> world \<Rightarrow> unit run" where
  "web_main gai gai_strerror stack (conn_arg # host # homepage # name # names) w =
     then_run (web_fetch gai gai_strerror stack (atoi conn_arg) host homepage (name # names) w) (\<lambda>_ w. Exit 0 w)"
| "web_main gai gai_strerror stack _ w =
     err_quit ''usage: web <#conns> <hostname> <homepage> <file1> ...'' w"

section \<open>Connections in use\<close>

text \<open>
  The connections the process holds, counted in the trace: sockets opened less descriptors closed.
  A run is \<open>calm\<close> when it neither opens nor closes one.
\<close>

fun net_ev :: "event \<Rightarrow> int" where
  "net_ev (Sys (C_socket f t p) a) = (if a_err a = 0 then 1 else 0)"
| "net_ev (Sys (C_close fd) a) = (if a_err a = 0 then - 1 else 0)"
| "net_ev e = 0"

definition net_open :: "event list \<Rightarrow> int" where
  "net_open es = (\<Sum>e\<leftarrow>es. net_ev e)"

lemma net_open_simps [simp]: "net_open [] = 0" "net_open (e # es) = net_ev e + net_open es"
  "net_open (es @ es') = net_open es + net_open es'"
  by (simp_all add: net_open_def)

abbreviation calm :: "'a run \<Rightarrow> world \<Rightarrow> bool" where
  "calm \<equiv> only (\<lambda>e. net_ev e = 0)"

lemma net_open_calm: "\<forall>e \<in> set es. net_ev e = 0 \<Longrightarrow> net_open es = 0"
  by (induction es) auto

lemma calm_net: "calm m w \<Longrightarrow> net_open (trace (world_of m)) = net_open (trace w)"
  by (auto simp: only_def net_open_calm)

lemma calm_extends: "calm m w \<Longrightarrow> set (trace w) \<subseteq> set (trace (world_of m))"
  by (auto simp: only_def)

lemma net_ev_output [simp]: "net_ev (wrote_msg n) = 0" "net_ev (eof_msg n) = 0"
  by (simp_all add: wrote_msg_def eof_msg_def)

lemmas calm_err [simp] = only_err [of "\<lambda>e. net_ev e = 0", simplified]

context wrapper begin

lemma wrap_calm: "(\<And>a. net_ev (Sys c a) = 0) \<Longrightarrow> calm (wrap w) w"
  by (rule wrap_only) simp_all

end

lemma calm_Writen: "calm (Writen fd b w) w"
  by (rule only_Writen) simp_all

lemma calm_write_get_cmd: "calm (write_get_cmd stk i st w) w"
  unfolding write_get_cmd_def Let_def by (rule only_then [OF calm_Writen]) (simp add: only_def emit_def)

section \<open>The invariant of the web client\<close>

definition in_state :: "int \<Rightarrow> web \<Rightarrow> nat" where
  "in_state k st = length (filter (\<lambda>f. f_flags f = k) (files st))"

text \<open>
  The counters count the files by their states, the connections held are those of the files that
  are connecting or reading, and what the messages of the trace say of a file agrees with its state.
\<close>

definition file_told :: "event list \<Rightarrow> web_file \<Rightarrow> bool" where
  "file_told es f \<longleftrightarrow> f_flags f \<in> {0, F_CONNECTING, F_READING, F_DONE} \<and>
     (f_flags f \<in> {F_READING, F_DONE} \<longrightarrow> wrote_msg (f_name f) \<in> set es) \<and>
     (f_flags f = F_DONE \<longrightarrow> eof_msg (f_name f) \<in> set es)"

definition web_inv :: "string list \<Rightarrow> int \<Rightarrow> int \<Rightarrow> web \<Rightarrow> event list \<Rightarrow> bool" where
  "web_inv names base maxn st es \<longleftrightarrow> map f_name (files st) = names \<and> (\<forall>f \<in> set (files st). file_told es f) \<and>
     nlefttoconn st = int (in_state 0 st) \<and>
     nconn st = int (in_state F_CONNECTING st + in_state F_READING st) \<and>
     nlefttoread st = nlefttoconn st + nconn st \<and> nconn st \<le> max 0 maxn \<and>
     net_open es = base + nconn st"

lemma in_state_upd:
  assumes "i < length (files st)"
  shows "int (in_state k (upd_file i g st)) = int (in_state k st) -
     (if f_flags (files st ! i) = k then 1 else 0) + (if f_flags (g (files st ! i)) = k then 1 else 0)"
proof -
  let ?fs = "files st" and ?p = "\<lambda>f. f_flags f = k"
  have "?fs = take i ?fs @ ?fs ! i # drop (Suc i) ?fs" using assms by (simp add: id_take_nth_drop)
  from arg_cong [OF this, of "\<lambda>l. length (filter ?p l)"] have one: "length (filter ?p ?fs) =
      length (filter ?p (take i ?fs)) + (if ?p (?fs ! i) then 1 else 0) + length (filter ?p (drop (Suc i) ?fs))"
    by simp
  have "?fs[i := g (?fs ! i)] = take i ?fs @ g (?fs ! i) # drop (Suc i) ?fs"
    using assms by (simp add: upd_conv_take_nth_drop)
  then have "length (filter ?p (?fs[i := g (?fs ! i)])) =
      length (filter ?p (take i ?fs)) + (if ?p (g (?fs ! i)) then 1 else 0) + length (filter ?p (drop (Suc i) ?fs))"
    by simp
  with one show ?thesis by (simp add: in_state_def upd_file_def)
qed

lemma keeps_calm:
  assumes "calm m w" and "net_open (trace w) \<le> B"
    and "\<And>x w'. m = Ret x w' \<Longrightarrow> set (trace w) \<subseteq> set (trace w') \<Longrightarrow> net_open (trace w') = net_open (trace w) \<Longrightarrow> Q x w'"
  shows "keeps (\<lambda>es. net_open es \<le> B) m Q"
  using assms(2) assms(3) calm_net [OF assms(1)] calm_extends [OF assms(1)] by (auto simp: keeps_def)

lemma file_told_mono: "file_told es f \<Longrightarrow> set es \<subseteq> set es' \<Longrightarrow> file_told es' f"
  by (auto simp: file_told_def)

lemma web_inv_mono:
  "web_inv names base m st es \<Longrightarrow> set es \<subseteq> set es' \<Longrightarrow> net_open es' = net_open es \<Longrightarrow> web_inv names base m st es'"
  by (auto simp: web_inv_def intro: file_told_mono)

lemma web_inv_bound: "web_inv names base m st es \<Longrightarrow> net_open es \<le> base + max 0 m"
  by (simp add: web_inv_def)

text \<open>The counters and the files are all the invariant looks at.\<close>

lemma web_inv_cong:
  "files st' = files st \<Longrightarrow> nconn st' = nconn st \<Longrightarrow> nlefttoconn st' = nlefttoconn st \<Longrightarrow>
     nlefttoread st' = nlefttoread st \<Longrightarrow> web_inv names base m st' es = web_inv names base m st es"
  by (simp add: web_inv_def in_state_def)

lemma upd_file_fields [simp]:
  "nconn (upd_file i g st) = nconn st" "nlefttoconn (upd_file i g st) = nlefttoconn st"
  "nlefttoread (upd_file i g st) = nlefttoread st"
  by (simp_all add: upd_file_def)

text \<open>One file changes its state.\<close>

lemma web_inv_move:
  assumes inv: "web_inv names base m st es" and i: "i < length (files st)" and ext: "set es \<subseteq> set es'"
    and told: "f_name (g (files st ! i)) = f_name (files st ! i)" "file_told es' (g (files st ! i))"
    and st': "files st' = files (upd_file i g st)"
    and cnt: "nlefttoconn st' = nlefttoconn st - (if f_flags (files st ! i) = 0 then 1 else 0) +
         (if f_flags (g (files st ! i)) = 0 then 1 else 0)"
      "nconn st' = nconn st - (if f_flags (files st ! i) \<in> {F_CONNECTING, F_READING} then 1 else 0) +
         (if f_flags (g (files st ! i)) \<in> {F_CONNECTING, F_READING} then 1 else 0)"
      "nlefttoread st' = nlefttoconn st' + nconn st'" "nconn st' \<le> max 0 m" "net_open es' = base + nconn st'"
  shows "web_inv names base m st' es'"
proof -
  have upd: "int (in_state k st') = int (in_state k st) - (if f_flags (files st ! i) = k then 1 else 0) +
      (if f_flags (g (files st ! i)) = k then 1 else 0)" for k
    using in_state_upd [OF i, of k g] st' by (simp add: in_state_def)
  have "map f_name (files st') = map f_name (files st)"
    unfolding st' using i told(1) by (simp add: upd_file_def map_update list_update_same_conv)
  moreover have "\<forall>f \<in> set (files st'). file_told es' f"
    unfolding st' using inv told(2) ext
    by (auto simp: upd_file_def web_inv_def dest!: set_update_subset_insert [THEN subsetD] intro: file_told_mono)
  moreover have "nlefttoconn st' = int (in_state 0 st')"
    using inv by (simp add: upd cnt(1) web_inv_def)
  moreover have "nconn st' = int (in_state F_CONNECTING st' + in_state F_READING st')"
    using inv by (simp add: upd cnt(2) web_inv_def F_CONNECTING_def F_READING_def)
  ultimately show ?thesis using inv cnt(3-5) by (simp add: web_inv_def)
qed

lemma web_find_spec:
  "web_find fs \<le> length fs \<and> (web_find fs < length fs \<longrightarrow> f_flags (fs ! web_find fs) = 0) \<and>
     (web_find fs = length fs \<longrightarrow> filter (\<lambda>f. f_flags f = 0) fs = [])"
  by (induction fs) auto

text \<open>The exit for the counter that is positive with no file left is never taken.\<close>

lemma web_find_some: "web_inv names base m st es \<Longrightarrow> 0 < nlefttoconn st \<Longrightarrow>
    web_find (files st) < length (files st) \<and> f_flags (files st ! web_find (files st)) = 0"
  using web_find_spec [of "files st"] by (auto simp: web_inv_def in_state_def le_less)

lemma calm_start_socket: "calm (start_socket stk i fd ai st w) w"
  unfolding start_socket_def Let_def sys_unit_def
  apply (rule only_emit)
  apply (rule only_then [OF Fcntl.wrap_calm])
  apply simp
  apply (rule only_then [OF Fcntl.wrap_calm])
  apply simp
  apply (rule only_then [OF only_then [OF only_sys]])
  apply (auto intro: calm_write_get_cmd)
  done

lemma start_socket_Ret:
  assumes "start_socket stk i fd ai st w = Ret st' w'" and i: "i < length (files st)"
  obtains k where "files st' = files (upd_file i (\<lambda>f. f\<lparr>f_fd := fd, f_flags := k\<rparr>) st)"
    "nconn st' = nconn st" "nlefttoconn st' = nlefttoconn st" "nlefttoread st' = nlefttoread st"
    "k = F_CONNECTING \<or> k = F_READING \<and> wrote_msg (f_name (files st ! i)) \<in> set (trace w')"
  using assms
  by (auto simp: start_socket_def Let_def then_run_Ret_iff err_sys_def write_get_cmd_Ret upd_file_def emit_def
      split: if_splits)

abbreviation bounded :: "int \<Rightarrow> event list \<Rightarrow> bool" where
  "bounded B \<equiv> (\<lambda>es. net_open es \<le> B)"

lemma keeps_Host_serv:
  "bounded B (trace w) \<Longrightarrow> keeps (bounded B) (Host_serv gai ge h s fam ty w) (\<lambda>_ w'. w' = w)"
  using calm_net [OF calm_err(1)] by (auto simp: Host_serv_def keeps_def err_quit_def split: sum.splits)

lemma keeps_start_connect:
  assumes inv: "web_inv names base m st (trace w)" and i: "i < length (files st)"
    and new: "f_flags (files st ! i) = 0" and room: "nconn st < m"
  shows "keeps (bounded (base + max 0 m)) (start_connect gai ge stk i st w) (\<lambda>st' w'.
    web_inv names base m (st'\<lparr>nconn := nconn st' + 1, nlefttoconn := nlefttoconn st' - 1\<rparr>) (trace w'))"
  unfolding start_connect_def Let_def
proof (rule keeps_then [OF keeps_Host_serv])
  let ?B = "base + max 0 m"
  show B: "bounded ?B (trace w)" using inv by (rule web_inv_bound)
  fix ais :: "addrinfo list" and w0 :: world
  assume [simp]: "w0 = w"
  let ?c = "C_socket (ai_family (hd ais)) (ai_socktype (hd ais)) (ai_protocol (hd ais))"
  have net: "net_open (trace w) = base + nconn st" using inv by (simp add: web_inv_def)
  show "keeps (bounded ?B) (then_run (Socket (ai_family (hd ais)) (ai_socktype (hd ais)) (ai_protocol (hd ais)) w0)
      (\<lambda>fd. start_socket stk i fd (hd ais) st)) (\<lambda>st' w'.
    web_inv names base m (st'\<lparr>nconn := nconn st' + 1, nlefttoconn := nlefttoconn st' - 1\<rparr>) (trace w'))"
    unfolding \<open>w0 = w\<close>
  proof (rule keeps_then [OF Socket.wrap_keeps_any])
    show "bounded ?B (trace w)" by (rule B)
    show "bounded ?B (trace (called ?c a s w))" for a s using net room by (auto simp: max_def)
    show "bounded ?B (trace (err_doit True LOG_ERR ''socket error'' (called ?c a s w)))" for a s
      using calm_net [OF calm_err(2), of "''socket error''" "called ?c a s w"] net room by (auto simp: err_sys_def max_def)
    fix fd :: int and w1 :: world
    assume "\<exists>a s. script w = a # s \<and> a_err a = 0 \<and> fd = int (a_val a) \<and> w1 = called ?c a s w"
    then have net1: "net_open (trace w1) = base + nconn st + 1" and ext: "set (trace w) \<subseteq> set (trace w1)"
      using net by auto
    show "keeps (bounded ?B) (start_socket stk i fd (hd ais) st w1) (\<lambda>st' w'.
      web_inv names base m (st'\<lparr>nconn := nconn st' + 1, nlefttoconn := nlefttoconn st' - 1\<rparr>) (trace w'))"
    proof (rule keeps_calm [OF calm_start_socket])
      show "net_open (trace w1) \<le> ?B" using net1 room by simp
      fix st' and w' :: world
      assume r: "start_socket stk i fd (hd ais) st w1 = Ret st' w'" and more: "set (trace w1) \<subseteq> set (trace w')"
        "net_open (trace w') = net_open (trace w1)"
      from start_socket_Ret [OF r i] obtain k where k:
        "files st' = files (upd_file i (\<lambda>f. f\<lparr>f_fd := fd, f_flags := k\<rparr>) st)"
        "nconn st' = nconn st" "nlefttoconn st' = nlefttoconn st" "nlefttoread st' = nlefttoread st"
        "k = F_CONNECTING \<or> k = F_READING \<and> wrote_msg (f_name (files st ! i)) \<in> set (trace w')" .
      have kn: "k \<noteq> 0" "k \<in> {F_CONNECTING, F_READING}" using k(5) by (auto simp: F_CONNECTING_def F_READING_def)
      show "web_inv names base m (st'\<lparr>nconn := nconn st' + 1, nlefttoconn := nlefttoconn st' - 1\<rparr>) (trace w')"
      proof (rule web_inv_move [OF inv i, where g = "\<lambda>f. f\<lparr>f_fd := fd, f_flags := k\<rparr>"])
        show "set (trace w) \<subseteq> set (trace w')" using ext more by blast
        show "file_told (trace w') ((files st ! i)\<lparr>f_fd := fd, f_flags := k\<rparr>)"
          using k(5) by (auto simp: file_told_def F_CONNECTING_def F_READING_def F_DONE_def)
      qed (use k kn new inv net1 more room in \<open>auto simp: web_inv_def F_CONNECTING_def F_READING_def\<close>)
    qed
  qed
qed

lemma keeps_web_start:
  "web_inv names base m st (trace w) \<Longrightarrow>
     keeps (bounded (base + max 0 m)) (web_start gai ge stk m st w) (\<lambda>st' w'. web_inv names base m st' (trace w'))"
proof (induction gai ge stk m st w rule: web_start.induct)
  case (1 gai ge stk m st w)
  let ?i = "web_find (files st)"
  show ?case
  proof (cases "nconn st < m \<and> 0 < nlefttoconn st")
    case True
    then have i: "?i < length (files st)" "f_flags (files st ! ?i) = 0"
      using web_find_some [OF "1.prems"] by auto
    have "keeps (bounded (base + max 0 m)) (then_run (start_connect gai ge stk ?i st w) (\<lambda>st w.
           web_start gai ge stk m (st\<lparr>nconn := nconn st + 1, nlefttoconn := nlefttoconn st - 1\<rparr>) w))
        (\<lambda>st' w'. web_inv names base m st' (trace w'))"
      using True i by (intro keeps_then [OF keeps_start_connect [OF "1.prems"]] "1.IH") auto
    with True i show ?thesis by (simp add: web_start.simps [of gai ge stk m st w] Let_def)
  next
    case False
    with "1.prems" show ?thesis
      unfolding web_start.simps [of gai ge stk m st w] if_not_P [OF False] by (simp add: keeps_Ret web_inv_bound)
  qed
qed

lemma calm_web_connected: "calm (web_connected stk i st w) w"
  unfolding web_connected_def Let_def sys_opt_def
  by (rule only_then [OF only_then [OF only_sys]])
     (auto intro!: only_then intro: only_emit [OF calm_write_get_cmd])

lemma web_connected_Ret:
  assumes "web_connected stk i st w = Ret st' w'" and i: "i < length (files st)"
  shows "files st' = files (upd_file i (f_flags_update (\<lambda>_. F_READING)) st)" and "nconn st' = nconn st"
    and "nlefttoconn st' = nlefttoconn st" and "nlefttoread st' = nlefttoread st"
    and "wrote_msg (f_name (files st ! i)) \<in> set (trace w')"
  using assms
  by (auto simp: web_connected_def Let_def then_run_Ret_iff write_get_cmd_Ret upd_file_def emit_def split: if_splits)

lemma keeps_web_connected:
  assumes inv: "web_inv names base m st (trace w)" and i: "i < length (files st)"
    and old: "f_flags (files st ! i) = F_CONNECTING"
  shows "keeps (bounded (base + max 0 m)) (web_connected stk i st w) (\<lambda>st' w'. web_inv names base m st' (trace w'))"
proof (rule keeps_calm [OF calm_web_connected web_inv_bound [OF inv]])
  fix st' and w' :: world
  assume r: "web_connected stk i st w = Ret st' w'" and ext: "set (trace w) \<subseteq> set (trace w')"
    and net: "net_open (trace w') = net_open (trace w)"
  note R = web_connected_Ret [OF r i]
  show "web_inv names base m st' (trace w')"
  proof (rule web_inv_move [OF inv i ext, where g = "f_flags_update (\<lambda>_. F_READING)"])
    show "file_told (trace w') (f_flags_update (\<lambda>_. F_READING) (files st ! i))"
      using R(5) by (simp add: file_told_def F_CONNECTING_def F_READING_def F_DONE_def)
  qed (use R old inv net in \<open>auto simp: web_inv_def F_CONNECTING_def F_READING_def\<close>)
qed

lemma keeps_web_read:
  assumes inv: "web_inv names base m st (trace w)" and i: "i < length (files st)"
    and old: "f_flags (files st ! i) = F_READING"
  shows "keeps (bounded (base + max 0 m)) (web_read i st w) (\<lambda>st' w'. web_inv names base m st' (trace w'))"
  unfolding web_read_def Let_def
proof (rule keeps_then [OF keeps_calm [OF Read.wrap_calm web_inv_bound [OF inv]]])
  let ?fd = "f_fd (files st ! i)" and ?B = "base + max 0 m"
    and ?eof = "eof_msg (f_name (files st ! i))" and ?Q = "\<lambda>st' w'. web_inv names base m st' (trace w')"
  let ?st = "upd_file i (f_flags_update (\<lambda>_. F_DONE)) st
      \<lparr>rset := rset st - {?fd}, nconn := nconn st - 1, nlefttoread := nlefttoread st - 1\<rparr>"
  fix r :: "int \<times> bytes" and w1 :: world
  show "True \<and> set (trace w) \<subseteq> set (trace w1) \<and> net_open (trace w1) = net_open (trace w)"
    if "Read ?fd MAXLINE w = Ret r w1" "set (trace w) \<subseteq> set (trace w1)" "net_open (trace w1) = net_open (trace w)"
    using that by blast
  assume "True \<and> set (trace w) \<subseteq> set (trace w1) \<and> net_open (trace w1) = net_open (trace w)"
  then have ext: "set (trace w) \<subseteq> set (trace w1)" and net: "net_open (trace w1) = net_open (trace w)" by auto
  have inv1: "web_inv names base m st (trace w1)" using web_inv_mono [OF inv ext net] .
  have done_inv: "web_inv names base m ?st (trace (called (C_close ?fd) a s (emit ?eof w1)))" if "a_err a = 0" for a s
  proof (rule web_inv_move [OF inv1 i, where g = "f_flags_update (\<lambda>_. F_DONE)"])
    have "wrote_msg (f_name (files st ! i)) \<in> set (trace w1)"
      using inv1 i old by (auto simp: web_inv_def file_told_def)
    then show "file_told (trace (called (C_close ?fd) a s (emit ?eof w1))) (f_flags_update (\<lambda>_. F_DONE) (files st ! i))"
      by (simp add: file_told_def F_CONNECTING_def F_READING_def F_DONE_def emit_def)
  qed (use old inv1 that in \<open>auto simp: web_inv_def F_CONNECTING_def F_READING_def F_DONE_def emit_def\<close>)
  have closing: "keeps (bounded ?B) (then_run (Close ?fd (emit ?eof w1)) (\<lambda>_ w. Ret ?st w)) ?Q"
  proof (rule keeps_then [OF Close.wrap_keeps_any])
    have B: "net_open (trace w1) \<le> ?B" using inv1 by (rule web_inv_bound)
    then show *: "bounded ?B (trace (emit ?eof w1))" by (simp add: emit_def)
    then show "bounded ?B (trace (called (C_close ?fd) a s (emit ?eof w1)))" for a s by simp
    show "bounded ?B (trace (err_doit True LOG_ERR ''close error'' (called (C_close ?fd) a s (emit ?eof w1))))" for a s
      using calm_net [OF calm_err(2), of "''close error''" "called (C_close ?fd) a s (emit ?eof w1)"] *
      by (simp add: err_sys_def)
    fix x :: unit and w2 :: world
    assume "\<exists>a s. script (emit ?eof w1) = a # s \<and> a_err a = 0 \<and> x = () \<and> w2 = called (C_close ?fd) a s (emit ?eof w1)"
    then show "keeps (bounded ?B) (Ret ?st w2) ?Q"
      using done_inv by (auto intro!: keeps_Ret web_inv_bound)
  qed
  have "web_inv names base m st (trace (emit (Stdout t) w1))" for t
    using inv1 by (rule web_inv_mono) (auto simp: emit_def)
  then have "keeps (bounded ?B) (Ret st (emit (Stdout t) w1)) ?Q" for t
    by (auto intro!: keeps_Ret web_inv_bound)
  with closing show "keeps (bounded ?B) (if fst r = 0 then then_run (Close ?fd (emit ?eof w1)) (\<lambda>_ w. Ret ?st w)
        else Ret st (emit (Stdout (''read '' @ decz (fst r) @ '' bytes from '' @ f_name (files st ! i) @ newline)) w1)) ?Q"
    by simp
qed simp

lemma keeps_web_step:
  assumes inv: "web_inv names base m st (trace w)" and i: "i < length (files st)"
  shows "keeps (bounded (base + max 0 m)) (web_step stk rs ws i st w) (\<lambda>st' w'. web_inv names base m st' (trace w'))"
proof -
  have "f_flags (files st ! i) \<in> {0, F_CONNECTING, F_READING, F_DONE}"
    using inv i by (auto simp: web_inv_def file_told_def)
  then have states: "f_flags (files st ! i) = 0 \<or> f_flags (files st ! i) = F_CONNECTING \<or>
      f_flags (files st ! i) = F_READING \<or> f_flags (files st ! i) = F_DONE" by blast
  have "keeps (bounded (base + max 0 m)) (Ret st w) (\<lambda>st' w'. web_inv names base m st' (trace w'))"
    using inv by (simp add: keeps_Ret web_inv_bound)
  then show ?thesis
    using states keeps_web_connected [OF inv i] keeps_web_read [OF inv i]
    by (elim disjE) (simp_all add: web_step_def Let_def F_CONNECTING_def F_READING_def F_DONE_def)
qed

lemma web_inv_files: "web_inv names base m st es \<Longrightarrow> length (files st) = length names"
  by (auto simp: web_inv_def)

lemma keeps_web_scan:
  "web_inv names base m st (trace w) \<Longrightarrow> i + k = length names \<Longrightarrow>
     keeps (bounded (base + max 0 m)) (web_scan stk rs ws i k st w) (\<lambda>st' w'. web_inv names base m st' (trace w'))"
proof (induction k arbitrary: i st w)
  case (Suc k)
  have "keeps (bounded (base + max 0 m)) (web_step stk rs ws i st w) (\<lambda>st' w'. web_inv names base m st' (trace w'))"
    using Suc.prems web_inv_files [OF Suc.prems(1)] by (intro keeps_web_step) auto
  then show ?case
    using Suc.IH Suc.prems(2) by (auto intro: keeps_then)
qed (simp add: keeps_Ret web_inv_bound)

lemma keeps_web_round:
  assumes "web_inv names base m st (trace w)"
  shows "keeps (bounded (base + max 0 m)) (web_round gai ge stk m st w) (\<lambda>st' w'. web_inv names base m st' (trace w'))"
  unfolding web_round_def
proof (rule keeps_then [OF keeps_web_start [OF assms]])
  fix st1 and w1 :: world
  assume inv1: "web_inv names base m st1 (trace w1)"
  let ?c = "C_select (maxfd st1 + 1) (rset st1) (wset st1) None" and ?B = "base + max 0 m"
  show "keeps (bounded ?B) (then_run (Select (maxfd st1 + 1) (rset st1) (wset st1) None w1)
      (\<lambda>r w. case r of (_, rs, ws) \<Rightarrow> web_scan stk rs ws 0 (length (files st1)) st1 w))
      (\<lambda>st' w'. web_inv names base m st' (trace w'))"
  proof (rule keeps_then [OF keeps_Select])
    show B: "bounded ?B (trace w1)" using inv1 by (rule web_inv_bound)
    then show "bounded ?B (trace w1 @ [Sys ?c a])" for a by simp
    show "bounded ?B (trace (err_doit True LOG_ERR ''select error'' (called ?c a s w1)))" for a s
      using calm_net [OF calm_err(2), of "''select error''" "called ?c a s w1"] B by (simp add: err_sys_def)
    fix r :: "int \<times> fd set \<times> fd set" and w2 :: world
    assume "\<exists>a. trace w2 = trace w1 @ [Sys ?c a] \<and> fst (snd r) \<subseteq> rset st1 \<and> snd (snd r) \<subseteq> wset st1"
    then have "web_inv names base m st1 (trace w2)" by (auto intro: web_inv_mono [OF inv1])
    then show "keeps (bounded ?B) (case r of (_, rs, ws) \<Rightarrow> web_scan stk rs ws 0 (length (files st1)) st1 w2)
        (\<lambda>st' w'. web_inv names base m st' (trace w'))"
      using web_inv_files [OF inv1] by (cases r) (simp add: keeps_web_scan)
  qed
qed

lemma keeps_web_loop:
  "web_inv names base m st (trace w) \<Longrightarrow>
     keeps (bounded (base + max 0 m)) (web_loop gai ge stk m st w)
       (\<lambda>st' w'. web_inv names base m st' (trace w') \<and> nlefttoread st' \<le> 0)"
proof (induction gai ge stk m st w rule: web_loop.induct)
  case (1 gai ge stk m st w)
  show ?case
  proof (cases "0 < nlefttoread st")
    case True
    have "keeps (bounded (base + max 0 m)) (then_run (web_round gai ge stk m st w) (\<lambda>st w. web_loop gai ge stk m st w))
       (\<lambda>st' w'. web_inv names base m st' (trace w') \<and> nlefttoread st' \<le> 0)"
      using "1.IH" [OF True] by (rule keeps_then [OF keeps_web_round [OF "1.prems"]])
    with True show ?thesis by (simp add: web_loop.simps [of gai ge stk m st w])
  next
    case False
    with "1.prems" show ?thesis
      unfolding web_loop.simps [of gai ge stk m st w] if_not_P [OF False] by (simp add: keeps_Ret web_inv_bound)
  qed
qed

section \<open>The whole client\<close>

lemma bounded_err: "bounded B (trace w) \<Longrightarrow> bounded B (trace (err_doit f l m w))"
  by (simp add: err_doit_def Let_def emit_def)

lemma keeps_walk_addrs:
  "net_open (trace w) < B \<Longrightarrow> keeps (bounded B) (walk_addrs connect_setup res w)
     (\<lambda>r w'. net_open (trace w') = net_open (trace w) + (if r = None then 0 else 1))"
proof (induction res arbitrary: w)
  case Nil
  then show ?case by (simp add: keeps_Ret)
next
  case (Cons ai res)
  let ?c = "C_socket (ai_family ai) (ai_socktype ai) (ai_protocol ai)"
  let ?Q = "\<lambda>r w'. net_open (trace w') = net_open (trace w) + (if r = None then 0 else 1)"
  show ?case
  proof (cases "script w")
    case Nil
    then show ?thesis using Cons.prems by (simp add: keeps_def sys_int_def sys_def)
  next
    case (Cons a s)
    let ?w1 = "called ?c a s w"
    show ?thesis
    proof (cases "a_err a = 0")
      case False
      have "keeps (bounded B) (walk_addrs connect_setup res ?w1) ?Q"
        using Cons.IH [of ?w1] Cons.prems False by simp
      with Cons False show ?thesis by (simp add: sys_int_def sys_def)
    next
      case ok: True
      let ?fd = "int (a_val a)"
      have net1: "net_open (trace ?w1) = net_open (trace w) + 1" using ok by simp
      have rest: "keeps (bounded B) (then_run (Close ?fd v) (\<lambda>_ w. walk_addrs connect_setup res w)) ?Q"
        if v: "net_open (trace v) = net_open (trace w) + 1" for v
      proof (rule keeps_then [OF Close.wrap_keeps_any])
        show "bounded B (trace v)" using v Cons.prems by simp
        then show "bounded B (trace (called (C_close ?fd) b t v))" for b t by simp
        then show "bounded B (trace (err_doit True LOG_ERR ''close error'' (called (C_close ?fd) b t v)))" for b t
          by (rule bounded_err)
        fix x :: unit and v' :: world
        assume "\<exists>b t. script v = b # t \<and> a_err b = 0 \<and> x = () \<and> v' = called (C_close ?fd) b t v"
        then have "net_open (trace v') = net_open (trace w)" using v by auto
        then show "keeps (bounded B) (walk_addrs connect_setup res v') ?Q" using Cons.IH [of v'] Cons.prems by simp
      qed
      have "keeps (bounded B) (then_run (connect_setup ai ?fd ?w1) (\<lambda>ok w.
           if ok then Ret (Some (?fd, ai)) w
           else then_run (Close ?fd w) (\<lambda>_ w. walk_addrs connect_setup res w))) ?Q"
      proof (rule keeps_then [OF keeps_calm])
        show "calm (connect_setup ai ?fd ?w1) ?w1"
          unfolding connect_setup_def sys_unit_def by (rule only_then [OF only_then [OF only_sys]]) auto
        show "net_open (trace ?w1) \<le> B" using net1 Cons.prems by simp
        fix b and v :: world
        show "net_open (trace v) = net_open (trace ?w1)" if "net_open (trace v) = net_open (trace ?w1)" using that .
        assume v: "net_open (trace v) = net_open (trace ?w1)"
        then have "keeps (bounded B) (Ret (Some (?fd, ai)) v) ?Q" using net1 Cons.prems by (simp add: keeps_Ret)
        then show "keeps (bounded B) (if b then Ret (Some (?fd, ai)) v
           else then_run (Close ?fd v) (\<lambda>_ w. walk_addrs connect_setup res w)) ?Q"
          using rest [of v] v net1 by simp
      qed
      with Cons ok show ?thesis by (simp add: sys_int_def sys_def)
    qed
  qed
qed

lemma keeps_tcp_connect:
  assumes "net_open (trace w) < B"
  shows "keeps (bounded B) (tcp_connect gai ge host serv w) (\<lambda>_ w'. net_open (trace w') = net_open (trace w) + 1)"
proof (cases "gai (Some host) (Some serv) (no_hints\<lparr>ai_family := AF_UNSPEC, ai_socktype := SOCK_STREAM\<rparr>)")
  case (Inl n)
  with assms show ?thesis
    by (simp add: tcp_connect_def open_first_def err_quit_def keeps_Exit bounded_err)
next
  case (Inr res)
  have "keeps (bounded B) (then_run (then_run (walk_addrs connect_setup res w) (\<lambda>r w. case r of
            None \<Rightarrow> err_sys (host_serv_error ''tcp_connect'' host serv) w | Some x \<Rightarrow> Ret x w)) (\<lambda>r w. Ret (fst r) w))
      (\<lambda>_ w'. net_open (trace w') = net_open (trace w) + 1)"
    unfolding then_run_assoc
  proof (rule keeps_then [OF keeps_walk_addrs [OF assms]])
    fix r :: "(fd \<times> addrinfo) option" and w1 :: world
    assume "net_open (trace w1) = net_open (trace w) + (if r = None then 0 else 1)"
    with assms show "keeps (bounded B) (then_run (case r of
            None \<Rightarrow> err_sys (host_serv_error ''tcp_connect'' host serv) w1 | Some x \<Rightarrow> Ret x w1) (\<lambda>r w. Ret (fst r) w))
        (\<lambda>_ w'. net_open (trace w') = net_open (trace w) + 1)"
      by (auto simp: err_sys_def split: option.split intro!: keeps_Ret keeps_Exit bounded_err)
  qed
  with Inr show ?thesis by (simp add: tcp_connect_def open_first_def)
qed

lemma calm_home_read: "calm (home_read fd w) w"
proof (induction fd w rule: home_read.induct)
  case (1 fd w)
  show ?case
    unfolding home_read.simps [of fd w]
    using "1.IH" by (intro only_then [OF Read.wrap_calm]) (auto intro: only_emit)
qed

lemma keeps_home_page:
  assumes "net_open (trace w) < B"
  shows "keeps (bounded B) (home_page gai ge stk host fname w) (\<lambda>_ w'. net_open (trace w') = net_open (trace w))"
  unfolding home_page_def
proof (rule keeps_then [OF keeps_tcp_connect [OF assms]])
  fix fd and w1 :: world
  assume w1: "net_open (trace w1) = net_open (trace w) + 1"
  let ?Q = "\<lambda>_ w'. net_open (trace w') = net_open (trace w)" and ?e = "Stdout (''end-of-file on home page'' @ newline)"
  have closing: "keeps (bounded B) (Close fd (emit ?e v)) ?Q" if v: "net_open (trace v) = net_open (trace w) + 1" for v
  proof (rule keeps_weaken [OF Close.wrap_keeps_any])
    show B: "bounded B (trace (emit ?e v))" using v assms by (simp add: emit_def)
    then show "bounded B (trace (called (C_close fd) b t (emit ?e v)))" for b t by simp
    then show "bounded B (trace (err_doit True LOG_ERR ''close error'' (called (C_close fd) b t (emit ?e v))))" for b t
      by (rule bounded_err)
    fix x :: unit and v' :: world
    assume "\<exists>b t. script (emit ?e v) = b # t \<and> a_err b = 0 \<and> x = () \<and> v' = called (C_close fd) b t (emit ?e v)"
    with v show "net_open (trace v') = net_open (trace w)" by (auto simp: emit_def)
  qed
  have "calm (then_run (Writen fd (get_line stk fname) w1) (\<lambda>_ w. home_read fd w)) w1"
    by (intro only_then [OF calm_Writen] calm_home_read)
  then have "keeps (bounded B) (then_run (then_run (Writen fd (get_line stk fname) w1) (\<lambda>_ w. home_read fd w))
      (\<lambda>_ v. Close fd (emit ?e v))) ?Q"
    using w1 assms closing by (intro keeps_then [OF keeps_calm]) auto
  then show "keeps (bounded B) (then_run (Writen fd (get_line stk fname) w1) (\<lambda>_ w.
      then_run (home_read fd w) (\<lambda>_ w. Close fd (emit ?e w)))) ?Q"
    by (simp only: then_run_assoc)
qed

lemma web_inv_init: "net_open es = 0 \<Longrightarrow> web_inv (take MAXFILES names) 0 m (web_init host names) es"
  by (auto simp: web_inv_def web_init_def Let_def in_state_def file_told_def F_CONNECTING_def F_READING_def
      F_DONE_def o_def filter_map)

lemma web_inv_finished:
  assumes inv: "web_inv names base m st es" and left: "nlefttoread st \<le> 0"
  shows "(\<forall>n \<in> set names. wrote_msg n \<in> set es \<and> eof_msg n \<in> set es) \<and> net_open es = base"
proof -
  have none: "in_state 0 st = 0" "in_state F_CONNECTING st = 0" "in_state F_READING st = 0"
    using assms by (auto simp: web_inv_def)
  then have "\<forall>f \<in> set (files st). f_flags f \<noteq> 0 \<and> f_flags f \<noteq> F_CONNECTING \<and> f_flags f \<noteq> F_READING"
    by (auto simp: in_state_def filter_empty_conv)
  with inv have "\<forall>f \<in> set (files st). f_flags f = F_DONE \<and> file_told es f"
    unfolding web_inv_def file_told_def by blast
  then have "\<forall>f \<in> set (files st). wrote_msg (f_name f) \<in> set es \<and> eof_msg (f_name f) \<in> set es"
    unfolding file_told_def by blast
  moreover have "set names = f_name ` set (files st)" using inv by (auto simp: web_inv_def)
  ultimately show ?thesis using inv none by (auto simp: web_inv_def)
qed

text \<open>
  A nonblocking \<^verbatim>\<open>connect\<close> that failed is reported, and then the file is treated as connected all
  the same: the request is written and the file moves on to reading.
\<close>

lemma web_failed_connect_goes_on:
  "case web_connected [] 0 (web_init ''h'' [''a'']) (boot [ans0\<lparr>a_opt := OV_int 111\<rparr>, gave 99]) of
     Ret st w \<Rightarrow> map f_flags (files st) = [F_READING] \<and> wrote_msg ''a'' \<in> set (trace w)
   | _ \<Rightarrow> False"
  by code_simp

text \<open>A name that fills the buffer makes the request carry the bytes behind it.\<close>

lemma get_line_overreads:
  assumes "MAXLINE \<le> length (GET_CMD name)"
  shows "get_line stk name = bytes_of_string (take (MAXLINE - 1) (GET_CMD name)) @ [0] @
    take (length (GET_CMD name) - MAXLINE) stk"
proof -
  from assms have "length (GET_CMD name) - (MAXLINE - 1) = Suc (length (GET_CMD name) - MAXLINE)"
    "min (length (GET_CMD name)) (MAXLINE - 1) = MAXLINE - 1" by (simp_all add: MAXLINE_def)
  then show ?thesis
    by (simp add: get_line_def snprintf_s_def bytes_of_string_def take_map flip: One_nat_def)
qed


text \<open>Two files over two connections, one connected at once and one later.\<close>

definition web_run :: "answer list" where
  "web_run = [gave 3, ans0, gave 99, got [], ans0,
     gave 4, ans0, ans0, fails EINPROGRESS, gave 5, ans0, ans0, ans0, gave 99,
     ans0\<lparr>a_rset := [5], a_wset := [4]\<rparr>, ans0\<lparr>a_opt := OV_int 0\<rparr>, gave 99, got [], ans0,
     ans0\<lparr>a_rset := [4]\<rparr>, got [72, 105], ans0\<lparr>a_rset := [4]\<rparr>, got [], ans0]"


end
