(* ===== verification/Icmpd.thy ===== *)
theory Icmpd
  imports Fd_Table Icmp
begin

text \<open>
  The ICMP daemon of \<^verbatim>\<open>icmpd\<close>: clients hand it their UDP sockets over a Unix domain connection and
  are told the ICMP errors that come back for datagrams they sent. \<^verbatim>\<open>icmpd.c\<close> is the \<^verbatim>\<open>select\<close> loop,
  \<^verbatim>\<open>readable_listen.c\<close>, \<^verbatim>\<open>readable_conn.c\<close>, \<^verbatim>\<open>readable_v4.c\<close> and \<^verbatim>\<open>readable_v6.c\<close> its handlers;
  \<^verbatim>\<open>unpicmpd.h\<close> is the error record.
\<close>

section \<open>icmpd/icmpd.h\<close>

record icmpd_client =
  connfd :: fd
  family :: int
  lport :: int

record icmpd =
  client :: "icmpd_client list"
  maxi :: int
  maxfd :: int
  nready :: int
  allset :: "fd set"
  fd4 :: fd
  fd6 :: fd
  listenfd :: fd

definition ICMPD_PATH :: string where "ICMPD_PATH = ''/tmp/icmpd''"


definition set_client :: "nat \<Rightarrow> (icmpd_client \<Rightarrow> icmpd_client) \<Rightarrow> icmpd \<Rightarrow> icmpd" where
  "set_client i f st = st\<lparr>client := (client st)[i := f (client st ! i)]\<rparr>"

definition served :: "icmpd \<Rightarrow> icmpd" where "served st = st\<lparr>nready := nready st - 1\<rparr>"

section \<open>icmpd/readable_listen.c\<close>

text \<open>The slot keeps the family and the port its last user left there.\<close>

definition readable_listen :: "icmpd \<Rightarrow> world \<Rightarrow> icmpd run" where
  "readable_listen st w =
     then_run (Accept (listenfd st) w) (\<lambda>r w.
       let cfd = fst r in
       (case first_free 0 (map connfd (client st)) of
          None \<Rightarrow> then_run (call_quietly (C_close cfd) w) (\<lambda>_ w. Ret (served st) w)
        | Some i \<Rightarrow> Ret
            (served ((set_client i (connfd_update (\<lambda>_. cfd)) st)\<lparr>allset := insert cfd (allset st),
               maxfd := (if cfd > maxfd st then cfd else maxfd st),
               maxi := (if int i > maxi st then int i else maxi st)\<rparr>))
            (puts (''new connection, i = '' @ dec i @ '', connfd = '' @ decz cfd @ [CHR 0x0A]) w)))"

section \<open>icmpd/readable_conn.c\<close>

text \<open>The labels \<^verbatim>\<open>clientdone\<close> and \<^verbatim>\<open>clienterr\<close>.\<close>

definition clientdone :: "nat \<Rightarrow> fd \<Rightarrow> fd \<Rightarrow> icmpd \<Rightarrow> world \<Rightarrow> icmpd run" where
  "clientdone i unixfd recvfd st w =
     then_run (Close unixfd w) (\<lambda>_ w.
     then_run (if 0 \<le> recvfd then Close recvfd w else Ret () w) (\<lambda>_ w.
       Ret (served ((set_client i (connfd_update (\<lambda>_. - 1)) st)\<lparr>allset := allset st - {unixfd}\<rparr>)) w))"

definition clienterr :: "nat \<Rightarrow> fd \<Rightarrow> fd \<Rightarrow> icmpd \<Rightarrow> world \<Rightarrow> icmpd run" where
  "clienterr i unixfd recvfd st w =
     then_run (Write unixfd (bytes_of_string ''0'') w) (\<lambda>_ w. clientdone i unixfd recvfd st w)"

definition client_ok :: "fd \<Rightarrow> fd \<Rightarrow> icmpd \<Rightarrow> world \<Rightarrow> icmpd run" where
  "client_ok unixfd recvfd st w =
     then_run (Write unixfd (bytes_of_string ''1'') w) (\<lambda>_ w.
     then_run (Close recvfd w) (\<lambda>_ w. Ret (served st) w))"

definition register :: "nat \<Rightarrow> fd \<Rightarrow> fd \<Rightarrow> icmpd \<Rightarrow> world \<Rightarrow> icmpd run" where
  "register i unixfd recvfd st w =
     then_run (sys_addr (C_getsockname recvfd) w) (\<lambda>r w. case r of (n, ss) \<Rightarrow>
       if n < 0 then then_run (err_ret ''getsockname error'' w) (\<lambda>_ w. clienterr i unixfd recvfd st w)
       else
         let st = set_client i (\<lambda>c. c\<lparr>family := sa_family ss, lport := sock_get_port ss\<rparr>) st in
         if sock_get_port ss = 0 then
           then_run (sock_bind_wild recvfd (sa_family ss) w) (\<lambda>port w.
             let st = set_client i (lport_update (\<lambda>_. port)) st in
             if port \<le> 0
             then then_run (err_ret ''error binding ephemeral port'' w) (\<lambda>_ w. clienterr i unixfd recvfd st w)
             else client_ok unixfd recvfd st w)
         else client_ok unixfd recvfd st w)"

definition readable_conn :: "nat \<Rightarrow> icmpd \<Rightarrow> world \<Rightarrow> icmpd run" where
  "readable_conn i st w =
     (let unixfd = connfd (client st ! i) in
      then_run (Read_fd unixfd 1 w) (\<lambda>r w. case r of (n, c, passed) \<Rightarrow>
        let recvfd = (case passed of None \<Rightarrow> - 1 | Some fd \<Rightarrow> fd) in
        if n = 0 then
          then_run (err_msg (''client '' @ dec i @ '' terminated, recvfd = '' @ decz recvfd) w) (\<lambda>_ w.
            clientdone i unixfd recvfd st w)
        else if recvfd < 0 then
          then_run (err_msg ''read_fd did not return descriptor'' w) (\<lambda>_ w. clienterr i unixfd recvfd st w)
        else register i unixfd recvfd st w))"

section \<open>icmpd/unpicmpd.h\<close>

text \<open>
  The bytes of the two address structures, with the address family first, and those of the error
  record. What the handlers do not set of the record, \<open>junk\<close>, is whatever the stack held: the
  paddings and most of \<^verbatim>\<open>icmpd_dest\<close>, which has room for any address.
\<close>

fun sa_bytes :: "sockaddr \<Rightarrow> bytes" where
  "sa_bytes (SA_in port addr) = le_bytes 2 (nat AF_INET) @ [lo8 port, hi8 port] @ addr @ replicate 8 0"
| "sa_bytes (SA_in6 port flow addr scope) = le_bytes 2 (nat AF_INET6) @ [lo8 port, hi8 port] @
     le_bytes 4 (unat flow) @ addr @ le_bytes 4 (unat scope)"
| "sa_bytes _ = []"

definition ICMPD_ERR_SIZE :: nat where [unp_consts]: "ICMPD_ERR_SIZE = 144"

definition icmpd_err :: "bytes \<Rightarrow> int \<Rightarrow> byte \<Rightarrow> byte \<Rightarrow> sockaddr \<Rightarrow> bytes" where
  "icmpd_err junk err type code dest =
     le_bytes 4 (nat err) @ [type, code] @ take 2 (drop 6 junk) @ le_bytes 4 (length (sa_bytes dest)) @
     take 4 (drop 12 junk) @ sa_bytes dest @ drop (16 + length (sa_bytes dest)) junk"

section \<open>icmpd/readable_v4.c and icmpd/readable_v6.c\<close>

text \<open>
  The loop over the clients: one is told when it registered the family and the port. The handlers
  of both protocols have it.
\<close>

definition wants :: "int \<Rightarrow> int \<Rightarrow> icmpd_client \<Rightarrow> bool" where
  "wants fam sport c \<longleftrightarrow> 0 \<le> connfd c \<and> family c = fam \<and> lport c = sport"

fun notify :: "int \<Rightarrow> int \<Rightarrow> bytes \<Rightarrow> icmpd_client list \<Rightarrow> world \<Rightarrow> unit run" where
  "notify fam sport msg [] w = Ret () w"
| "notify fam sport msg (c # cs) w =
     then_run (if wants fam sport c then Write (connfd c) msg w else Ret () w) (\<lambda>_ w. notify fam sport msg cs w)"

definition errno_v4 :: "byte \<Rightarrow> byte \<Rightarrow> int" where
  "errno_v4 type code =
     (if type = ICMP_UNREACH then
        (if code = ICMP_UNREACH_PORT then ECONNREFUSED
         else if code = ICMP_UNREACH_NEEDFRAG then EMSGSIZE else EHOSTUNREACH)
      else EHOSTUNREACH)"

definition errno_v6 :: "byte \<Rightarrow> byte \<Rightarrow> int" where
  "errno_v6 type code =
     (if type = ICMP6_PACKET_TOO_BIG then EMSGSIZE
      else if type = ICMP6_DST_UNREACH \<and> code = ICMP6_DST_UNREACH_NOPORT then ECONNREFUSED else EHOSTUNREACH)"

text \<open>
  The message is received into an array of the stack, whose other bytes are what they were;
  \<open>stack\<close> says what an array on the stack holds at a point of the history.
\<close>

definition received :: "(event list \<Rightarrow> bytes) \<Rightarrow> bytes \<Rightarrow> world \<Rightarrow> bytes" where
  "received stack data w = data @ drop (length data) (stack (trace w))"

definition v4_error :: "bytes \<Rightarrow> nat \<Rightarrow> icmpd \<Rightarrow> bytes \<Rightarrow> world \<Rightarrow> unit run" where
  "v4_error buf hlen1 st junk w =
     (let icmp = drop hlen1 buf; hip = drop (hlen1 + 8) buf; hlen2 = 4 * (unat (hip ! 0) mod 16);
          src = take 4 (drop 12 hip); dst = take 4 (drop 16 hip)
      in
      then_run (Inet_ntop AF_INET src (Some INET_ADDRSTRLEN) w) (\<lambda>srcstr w.
      then_run (Inet_ntop AF_INET dst (Some INET_ADDRSTRLEN) w) (\<lambda>dststr w.
      let w = puts ([CHR 0x09] @ ''srcip = '' @ srcstr @ '', dstip = '' @ dststr @ '', proto = '' @ dec (unat (hip ! 9)) @ [CHR 0x0A]) w in
      if uint (hip ! 9) = IPPROTO_UDP then
        (let udp = drop hlen2 hip; sport = uint (le16 (udp ! 0) (udp ! 1)) in
         notify AF_INET sport
           (icmpd_err junk (errno_v4 (icmp ! 0) (icmp ! 1)) (icmp ! 0) (icmp ! 1) (SA_in (le16 (udp ! 2) (udp ! 3)) dst))
           (take (nat (maxi st + 1)) (client st)) w)
      else Ret () w)))"

definition v4_message :: "(event list \<Rightarrow> bytes) \<Rightarrow> bytes \<Rightarrow> int \<Rightarrow> nat \<Rightarrow> icmpd \<Rightarrow> world \<Rightarrow> icmpd run" where
  "v4_message stack buf n hlen1 st w =
     (let icmp = drop hlen1 buf; icmplen = n - int hlen1 in
     if icmplen < 8 then err_quit (''icmplen ('' @ decz icmplen @ '') < 8'') w
     else
       let w = puts ('' type = '' @ dec (unat (icmp ! 0)) @ '', code = '' @ dec (unat (icmp ! 1)) @ [CHR 0x0A]) w in
       if icmp ! 0 = ICMP_UNREACH \<or> icmp ! 0 = ICMP_TIMXCEED \<or> icmp ! 0 = ICMP_SOURCEQUENCH then
         (if icmplen < 8 + 20 + 8 then err_quit (''icmplen ('' @ decz icmplen @ '') < 8 + 20 + 8'') w
          else then_run (v4_error buf hlen1 st (take ICMPD_ERR_SIZE (stack (trace w))) w) (\<lambda>_ w. Ret (served st) w))
       else Ret (served st) w)"

definition readable_v4 :: "(event list \<Rightarrow> bytes) \<Rightarrow> icmpd \<Rightarrow> world \<Rightarrow> icmpd run" where
  "readable_v4 stack st w =
     then_run (Recvfrom (fd4 st) MAXLINE 0 w) (\<lambda>r w. case r of (n, data, from) \<Rightarrow>
     let buf = received stack data w in
     then_run (Sock_ntop_host from 16 w) (\<lambda>host w.
     let w = puts (decz n @ '' bytes ICMPv4 from '' @ host @ '':'') w in
     v4_message stack buf n (4 * (unat (buf ! 0) mod 16)) st w))"

definition v6_error :: "bytes \<Rightarrow> icmpd \<Rightarrow> bytes \<Rightarrow> world \<Rightarrow> unit run" where
  "v6_error buf st junk w =
     (let hip6 = drop 8 buf; hlen2 = 40; src = take 16 (drop 8 hip6); dst = take 16 (drop 24 hip6)
      in
      then_run (Inet_ntop AF_INET6 src (Some INET6_ADDRSTRLEN) w) (\<lambda>srcstr w.
      then_run (Inet_ntop AF_INET6 dst (Some INET6_ADDRSTRLEN) w) (\<lambda>dststr w.
      let w = puts ([CHR 0x09] @ ''srcip = '' @ srcstr @ '', dstip = '' @ dststr @ '', next hdr = '' @ dec (unat (hip6 ! 6)) @ [CHR 0x0A]) w in
      if uint (hip6 ! 6) = IPPROTO_UDP then
        (let udp = drop hlen2 hip6; sport = uint (le16 (udp ! 0) (udp ! 1)) in
         notify AF_INET6 sport
           (icmpd_err junk (errno_v6 (buf ! 0) (buf ! 1)) (buf ! 0) (buf ! 1) (SA_in6 (le16 (udp ! 2) (udp ! 3)) 0 dst 0))
           (take (nat (maxi st + 1)) (client st)) w)
      else Ret () w)))"

definition readable_v6 :: "(event list \<Rightarrow> bytes) \<Rightarrow> icmpd \<Rightarrow> world \<Rightarrow> icmpd run" where
  "readable_v6 stack st w =
     then_run (Recvfrom (fd6 st) MAXLINE 0 w) (\<lambda>r w. case r of (n, data, from) \<Rightarrow>
     let buf = received stack data w in
     then_run (Sock_ntop_host from 28 w) (\<lambda>host w.
     let w = puts (decz n @ '' bytes ICMPv6 from '' @ host @ '':'') w in
     if n < 8 then err_quit (''icmp6len ('' @ decz n @ '') < 8'') w
     else
       let w = puts ('' type = '' @ dec (unat (buf ! 0)) @ '', code = '' @ dec (unat (buf ! 1)) @ [CHR 0x0A]) w in
       if buf ! 0 = ICMP6_DST_UNREACH \<or> buf ! 0 = ICMP6_PACKET_TOO_BIG \<or> buf ! 0 = ICMP6_TIME_EXCEEDED then
         (if n < 8 + 8 then err_quit (''icmp6len ('' @ decz n @ '') < 8 + 8'') w
          else then_run (v6_error buf st (take ICMPD_ERR_SIZE (stack (trace w))) w) (\<lambda>_ w. Ret (served st) w))
       else Ret (served st) w))"

section \<open>icmpd/icmpd.c\<close>

fun icmpd_clients :: "nat \<Rightarrow> nat \<Rightarrow> fd set \<Rightarrow> icmpd \<Rightarrow> world \<Rightarrow> icmpd run" where
  "icmpd_clients i 0 rset st w = Ret st w"
| "icmpd_clients i (Suc k) rset st w =
     (let sockfd = connfd (client st ! i) in
      if sockfd < 0 then icmpd_clients (Suc i) k rset st w
      else if sockfd \<in> rset then
        then_run (readable_conn i st w) (\<lambda>st w.
          if nready st \<le> 0 then Ret st w else icmpd_clients (Suc i) k rset st w)
      else icmpd_clients (Suc i) k rset st w)"

text \<open>A handler whose descriptor is ready; the flag says that the loop goes on with the next one.\<close>

definition handle :: "fd \<Rightarrow> fd set \<Rightarrow> (icmpd \<Rightarrow> world \<Rightarrow> icmpd run) \<Rightarrow> icmpd \<times> bool \<Rightarrow> world \<Rightarrow> (icmpd \<times> bool) run" where
  "handle fd rset h p w =
     (if snd p \<and> fd \<in> rset then then_run (h (fst p) w) (\<lambda>st w. Ret (st, 0 < nready st) w) else Ret p w)"

definition icmpd_round :: "(event list \<Rightarrow> bytes) \<Rightarrow> icmpd \<Rightarrow> world \<Rightarrow> icmpd run" where
  "icmpd_round stack st w =
     then_run (Select (maxfd st + 1) (allset st) {} None w) (\<lambda>r w. case r of (n, rset, _) \<Rightarrow>
     then_run (handle (listenfd st) rset readable_listen (st\<lparr>nready := n\<rparr>, True) w) (\<lambda>p w.
     then_run (handle (fd4 st) rset (readable_v4 stack) p w) (\<lambda>p w.
     then_run (handle (fd6 st) rset (readable_v6 stack) p w) (\<lambda>p w.
       if snd p then icmpd_clients 0 (nat (maxi (fst p) + 1)) rset (fst p) w else Ret (fst p) w))))"

definition icmpd_init :: "fd \<Rightarrow> fd \<Rightarrow> fd \<Rightarrow> icmpd" where
  "icmpd_init f4 f6 l =
     \<lparr>client = replicate FD_SETSIZE \<lparr>connfd = - 1, family = 0, lport = 0\<rparr>, maxi = - 1,
      maxfd = max (max f4 f6) l, nready = 0, allset = {f4, f6, l}, fd4 = f4, fd6 = f6, listenfd = l\<rparr>"

lemma Read_fd_consumes: "Read_fd fd n w = Ret r w' \<Longrightarrow> length (script w') < length (script w)"
  by (auto simp: Read_fd_def read_fd_def checked_Ret_iff then_run_Ret_iff err_quit_def split: if_splits list.splits
      dest!: sys_recvmsg_consumes)

lemma clientdone_consumes: "clientdone i u p st w = Ret st' w' \<Longrightarrow> length (script w') \<le> length (script w)"
  by (fastforce simp: clientdone_def then_run_Ret_iff split: if_splits dest!: Close.wrap_consumes)

lemma clienterr_consumes: "clienterr i u p st w = Ret st' w' \<Longrightarrow> length (script w') \<le> length (script w)"
  by (fastforce simp: clienterr_def then_run_Ret_iff dest!: clientdone_consumes Write_consumes)

lemma client_ok_consumes: "client_ok u p st w = Ret st' w' \<Longrightarrow> length (script w') \<le> length (script w)"
  by (fastforce simp: client_ok_def then_run_Ret_iff dest!: Close.wrap_consumes Write_consumes)

lemma sock_bind_wild_consumes: "sock_bind_wild fd f w = Ret r w' \<Longrightarrow> length (script w') \<le> length (script w)"
  by (fastforce simp: sock_bind_wild_def bind_and_get_def then_run_Ret_iff split: if_splits
      dest!: sys_unit_consumes sys_addr_consumes)

lemma register_consumes: "register i u p st w = Ret st' w' \<Longrightarrow> length (script w') \<le> length (script w)"
  unfolding register_def then_run_Ret_iff Let_def err_ret_def
  by (fastforce simp: then_run_Ret_iff split: if_splits
      dest!: sys_addr_consumes sock_bind_wild_consumes client_ok_consumes clienterr_consumes)

lemma readable_conn_consumes: "readable_conn i st w = Ret st' w' \<Longrightarrow> length (script w') < length (script w)"
  unfolding readable_conn_def then_run_Ret_iff Let_def
  by (fastforce simp: then_run_Ret_iff err_msg_def split: if_splits
      dest!: Read_fd_consumes clientdone_consumes clienterr_consumes register_consumes)

lemma readable_listen_consumes: "readable_listen st w = Ret st' w' \<Longrightarrow> length (script w') \<le> length (script w)"
  by (fastforce simp: readable_listen_def then_run_Ret_iff Let_def puts_def split: option.splits
      dest!: Accept_consumes call_quietly_consumes)

lemma notify_consumes: "notify f p m cs w = Ret x w' \<Longrightarrow> length (script w') \<le> length (script w)"
proof (induction cs arbitrary: w)
  case (Cons c cs)
  then obtain w1 where "(if wants f p c then Write (connfd c) m w else Ret () w) = Ret () w1" "notify f p m cs w1 = Ret x w'"
    by (auto simp: then_run_Ret_iff)
  with Cons.IH [of w1] show ?case by (auto split: if_splits dest!: Write_consumes)
qed simp

lemma Inet_ntop_Ret: "Inet_ntop f a n w = Ret s w' \<Longrightarrow> w' = w"
  by (auto simp: Inet_ntop_def err_quit_def err_sys_def split: option.splits sum.splits)

lemma Sock_ntop_host_world: "Sock_ntop_host sa n w = Ret s w' \<Longrightarrow> w' = w"
  by (auto simp: Sock_ntop_host_def err_sys_def split: sum.splits)

lemma v4_error_consumes: "v4_error buf h st j w = Ret x w' \<Longrightarrow> length (script w') \<le> length (script w)"
  by (auto simp: v4_error_def Let_def then_run_Ret_iff puts_def split: if_splits dest!: Inet_ntop_Ret notify_consumes)

lemma v6_error_consumes: "v6_error buf st j w = Ret x w' \<Longrightarrow> length (script w') \<le> length (script w)"
  by (auto simp: v6_error_def Let_def then_run_Ret_iff puts_def split: if_splits dest!: Inet_ntop_Ret notify_consumes)

lemma Recvfrom_consumes: "Recvfrom fd n fl w = Ret r w' \<Longrightarrow> length (script w') < length (script w)"
  by (rule Recvfrom.wrap_consumes)

lemma readable_v4_consumes: "readable_v4 s st w = Ret st' w' \<Longrightarrow> length (script w') \<le> length (script w)"
  by (auto simp: readable_v4_def v4_message_def Let_def then_run_Ret_iff puts_def err_quit_def split: if_splits
      dest!: Recvfrom_consumes Sock_ntop_host_world v4_error_consumes)

lemma readable_v6_consumes: "readable_v6 s st w = Ret st' w' \<Longrightarrow> length (script w') \<le> length (script w)"
  by (auto simp: readable_v6_def Let_def then_run_Ret_iff puts_def err_quit_def split: if_splits
      dest!: Recvfrom_consumes Sock_ntop_host_world v6_error_consumes)

lemma icmpd_clients_consumes:
  "icmpd_clients i k rset st w = Ret st' w' \<Longrightarrow> length (script w') \<le> length (script w)"
proof (induction k arbitrary: i st w)
  case (Suc k)
  consider (here) st1 w1 where "readable_conn i st w = Ret st1 w1"
      "(if nready st1 \<le> 0 then Ret st1 w1 else icmpd_clients (Suc i) k rset st1 w1) = Ret st' w'"
    | (skip) "icmpd_clients (Suc i) k rset st w = Ret st' w'"
    using Suc.prems by (auto simp: Let_def then_run_Ret_iff split: if_splits)
  then show ?case
  proof cases
    case here
    from readable_conn_consumes [OF here(1)] here(2) Suc.IH [of "Suc i" st1 w1] show ?thesis
      by (auto split: if_splits)
  qed (use Suc.IH in blast)
qed simp

lemma handle_consumes:
  assumes "handle fd rset h p w = Ret p' w'"
    and "\<And>st st' w w'. h st w = Ret st' w' \<Longrightarrow> length (script w') \<le> length (script w)"
  shows "length (script w') \<le> length (script w)"
  using assms by (auto simp: handle_def then_run_Ret_iff split: if_splits)

lemma icmpd_round_consumes:
  assumes "icmpd_round s st w = Ret st' w'"
  shows "length (script w') < length (script w)"
proof -
  from assms obtain n rset ws w1 p2 w2 p3 w3 p4 w4 where
    "Select (maxfd st + 1) (allset st) {} None w = Ret (n, rset, ws) w1"
    and a: "handle (listenfd st) rset readable_listen (st\<lparr>nready := n\<rparr>, True) w1 = Ret p2 w2"
    and b: "handle (fd4 st) rset (readable_v4 s) p2 w2 = Ret p3 w3"
    and c: "handle (fd6 st) rset (readable_v6 s) p3 w3 = Ret p4 w4"
    and "(if snd p4 then icmpd_clients 0 (nat (maxi (fst p4) + 1)) rset (fst p4) w4 else Ret (fst p4) w4) = Ret st' w'"
    by (auto simp: icmpd_round_def then_run_Ret_iff)
  then show ?thesis
    using handle_consumes [OF a readable_listen_consumes] handle_consumes [OF b readable_v4_consumes]
      handle_consumes [OF c readable_v6_consumes]
    by (fastforce split: if_splits dest!: Select_consumes icmpd_clients_consumes)
qed

function icmpd_loop :: "(event list \<Rightarrow> bytes) \<Rightarrow> icmpd \<Rightarrow> world \<Rightarrow> unit run" where
  "icmpd_loop stack st w = then_run (icmpd_round stack st w) (\<lambda>st w. icmpd_loop stack st w)"
  by pat_completeness auto
termination
  by (relation "measure (\<lambda>(s, st, w). length (script w))") (auto dest: icmpd_round_consumes)

declare icmpd_loop.simps [simp del]

definition icmpd_main :: "(event list \<Rightarrow> bytes) \<Rightarrow> string list \<Rightarrow> world \<Rightarrow> unit run" where
  "icmpd_main stack args w =
     (if args \<noteq> [] then err_quit ''usage: icmpd'' w
      else
        then_run (Socket AF_INET SOCK_RAW IPPROTO_ICMP w) (\<lambda>f4 w.
        then_run (Socket AF_INET6 SOCK_RAW IPPROTO_ICMPV6 w) (\<lambda>f6 w.
        then_run (Socket AF_UNIX SOCK_STREAM 0 w) (\<lambda>l w.
        then_run (call_quietly (C_unlink ICMPD_PATH) w) (\<lambda>_ w.
        then_run (Bind l (SA_un ICMPD_PATH) w) (\<lambda>_ w.
        then_run (Listen l LISTENQ w) (\<lambda>_ w. icmpd_loop stack (icmpd_init f4 f6 l) w)))))))"

section \<open>icmpd/dgcli01.c\<close>

text \<open>The address in an error record, by its family; the record as the client reads it.\<close>

definition sa_of :: "bytes \<Rightarrow> sockaddr" where
  "sa_of b = (let fam = int (le_nat (take 2 b)) in
     if fam = AF_INET then SA_in (le16 (b ! 2) (b ! 3)) (take 4 (drop 4 b))
     else if fam = AF_INET6 then SA_in6 (le16 (b ! 2) (b ! 3)) (word_of_nat (le_nat (take 4 (drop 4 b))))
            (take 16 (drop 8 b)) (word_of_nat (le_nat (take 4 (drop 24 b))))
     else SA_other fam)"

definition icmp_report :: "bytes \<Rightarrow> world \<Rightarrow> unit run" where
  "icmp_report msg w =
     then_run (Sock_ntop (sa_of (drop 16 msg)) (le_nat (take 4 (drop 8 msg))) w) (\<lambda>addr w. Ret ()
       (puts (''ICMP error: dest = '' @ addr @ '', '' @ strerror_of w (sint (word_of_nat (le_nat (take 4 msg)) :: u32)) @
          '', type = '' @ decz (sint (msg ! 4)) @ '', code = '' @ decz (sint (msg ! 5)) @ [CHR 0x0A]) w))"

definition read_icmp_error :: "fd \<Rightarrow> world \<Rightarrow> unit run" where
  "read_icmp_error icmpfd w =
     then_run (Read icmpfd ICMPD_ERR_SIZE w) (\<lambda>r w. case r of (n, msg) \<Rightarrow>
       if n = 0 then err_quit ''ICMP daemon terminated'' w
       else if n \<noteq> int ICMPD_ERR_SIZE
       then err_quit (''n = '' @ decz n @ '', expected '' @ dec ICMPD_ERR_SIZE) w
       else icmp_report msg w)"

definition icmp_register :: "(event list \<Rightarrow> bytes) \<Rightarrow> fd \<Rightarrow> sockaddr \<Rightarrow> world \<Rightarrow> fd run" where
  "icmp_register stack sockfd servaddr w =
     then_run (Sock_bind_wild sockfd (sa_family servaddr) w) (\<lambda>_ w.
     then_run (Socket AF_UNIX SOCK_STREAM 0 w) (\<lambda>icmpfd w.
     then_run (Connect icmpfd (SA_un ICMPD_PATH) w) (\<lambda>_ w.
     then_run (Write_fd icmpfd (bytes_of_string ''1'') sockfd w) (\<lambda>_ w.
     then_run (Read icmpfd 1 w) (\<lambda>r w. case r of (n, data) \<Rightarrow>
       let recvline = received stack data w in
       if n \<noteq> 1 \<or> recvline ! 0 \<noteq> 0x31
       then err_quit (''error creating icmp socket, n = '' @ decz n @ '', char = '' @
              [char_of (unat (recvline ! 0))]) w
       else Ret icmpfd w)))))"

definition dg_cli_wait :: "fd \<Rightarrow> fd \<Rightarrow> fd set \<Rightarrow> world \<Rightarrow> fd set run" where
  "dg_cli_wait sockfd icmpfd rset w =
     then_run (Select (max sockfd icmpfd + 1) (insert icmpfd (insert sockfd rset)) {} (Some 5) w) (\<lambda>r w.
     case r of (n, rset, _) \<Rightarrow>
       if n = 0 then Ret rset (emit (Stderr (''socket timeout'' @ [CHR 0x0A])) w)
       else
         then_run (if sockfd \<in> rset then
             then_run (Recvfrom sockfd MAXLINE 0 w) (\<lambda>r w. case r of (n, recvline, _) \<Rightarrow>
               Fputs STDOUT (c_str recvline) w)
           else Ret () w) (\<lambda>_ w.
         then_run (if icmpfd \<in> rset then read_icmp_error icmpfd w else Ret () w) (\<lambda>_ w. Ret rset w)))"

lemma read_icmp_error_consumes: "read_icmp_error i w = Ret x w' \<Longrightarrow> length (script w') < length (script w)"
  by (auto simp: read_icmp_error_def icmp_report_def Sock_ntop_def err_quit_def err_sys_def puts_def
      then_run_Ret_iff split: if_splits sum.splits dest!: Read_consumes)

lemma dg_cli_wait_consumes:
  assumes "dg_cli_wait s i rs w = Ret x w'"
  shows "length (script w') < length (script w)"
proof -
  from assms obtain n rset ws w1 where sel: "Select (max s i + 1) (insert i (insert s rs)) {} (Some 5) w = Ret (n, rset, ws) w1"
    and rest: "n \<noteq> 0 \<Longrightarrow> \<exists>w2 w3. (if s \<in> rset then
             then_run (Recvfrom s MAXLINE 0 w1) (\<lambda>r w. case r of (n, recvline, _) \<Rightarrow> Fputs STDOUT (c_str recvline) w)
           else Ret () w1) = Ret () w2 \<and> (if i \<in> rset then read_icmp_error i w2 else Ret () w2) = Ret () w3 \<and> w' = w3"
    and none: "n = 0 \<Longrightarrow> w' = emit (Stderr (''socket timeout'' @ [CHR 0x0A])) w1"
    unfolding dg_cli_wait_def then_run_Ret_iff by (auto simp: then_run_Ret_iff split: if_splits)
  have "length (script w1) < length (script w)" using sel by (rule Select_consumes)
  moreover have "length (script w') \<le> length (script w1)"
  proof (cases "n = 0")
    case False
    from rest [OF this] show ?thesis
      by (fastforce simp: then_run_Ret_iff split: if_splits
          dest!: Recvfrom_consumes Fputs.wrap_consumes read_icmp_error_consumes)
  qed (use none in simp)
  ultimately show ?thesis by simp
qed

function dg_cli_loop :: "int \<Rightarrow> fd \<Rightarrow> fd \<Rightarrow> sockaddr \<Rightarrow> fd set \<Rightarrow> world \<Rightarrow> unit run" where
  "dg_cli_loop fp sockfd icmpfd servaddr rset w = then_run (Fgets fp MAXLINE w) (\<lambda>r w. case r of
       None \<Rightarrow> Ret () w
     | Some sendline \<Rightarrow>
         then_run (Sendto sockfd (c_str sendline) 0 servaddr w) (\<lambda>_ w.
         then_run (dg_cli_wait sockfd icmpfd rset w) (\<lambda>rset w.
           dg_cli_loop fp sockfd icmpfd servaddr rset w)))"
  by pat_completeness auto
termination
  by (relation "measure (\<lambda>(fp, s, i, sa, rs, w). length (script w))")
     (auto dest!: Fgets_consumes Sendto_consumes dg_cli_wait_consumes)

declare dg_cli_loop.simps [simp del]

definition dgcli01 :: "(event list \<Rightarrow> bytes) \<Rightarrow> int \<Rightarrow> fd \<Rightarrow> sockaddr \<Rightarrow> world \<Rightarrow> unit run" where
  "dgcli01 stack fp sockfd servaddr w =
     then_run (icmp_register stack sockfd servaddr w) (\<lambda>icmpfd w. dg_cli_loop fp sockfd icmpfd servaddr {} w)"

section \<open>Error records\<close>

text \<open>The client reads the record the daemon wrote, whatever the uninitialised bytes are.\<close>

lemma le_nat_family: "le_nat (le_bytes 2 2) = 2" "le_nat (le_bytes 2 10) = 10"
  by (simp_all add: le_nat_le_bytes)

lemma le_nat_u32 [simp]: "word_of_nat (le_nat (le_bytes 4 (unat x))) = (x :: u32)"
proof -
  have "unat x < 256 ^ 4" by (rule less_le_trans [OF unsigned_less]) simp
  then show ?thesis by (simp add: le_nat_le_bytes)
qed

lemma sa_of_in: "length addr = 4 \<Longrightarrow> sa_of (sa_bytes (SA_in port addr) @ rest) = SA_in port addr"
  by (simp add: sa_of_def Let_def AF_INET_def nth_append le16_lo_hi le_nat_family)

lemma sa_of_in6:
  "length addr = 16 \<Longrightarrow> sa_of (sa_bytes (SA_in6 port flow addr scope) @ rest) = SA_in6 port flow addr scope"
  by (simp add: sa_of_def Let_def AF_INET_def AF_INET6_def nth_append le16_lo_hi le_nat_family)

lemma sa_of_ip:
  assumes "wf_sockaddr sa" and "sa_family sa = AF_INET \<or> sa_family sa = AF_INET6"
  shows "sa_of (sa_bytes sa @ rest) = sa"
proof (cases sa)
  case (SA_un path)
  with assms show ?thesis by (simp add: AF_INET_def AF_INET6_def AF_UNIX_def)
next
  case (SA_other f)
  with assms show ?thesis by auto
next
  case (SA_in port addr)
  with assms show ?thesis by (simp only: wf_sockaddr.simps sa_of_in)
next
  case (SA_in6 port flow addr scope)
  with assms show ?thesis by (simp only: wf_sockaddr.simps sa_of_in6)
qed

lemma length_sa_bytes: "wf_sockaddr sa \<Longrightarrow> length (sa_bytes sa) \<le> 28"
  by (cases sa) simp_all

lemma sint_u32:
  assumes "0 \<le> i" and "i < 2 ^ 31"
  shows "sint (word_of_int i :: u32) = i"
  using assms by (simp add: signed_of_int signed_take_bit_int_eq_self [of 31])

lemma icmpd_err_fields:
  assumes junk: "length junk = ICMPD_ERR_SIZE" and err: "0 \<le> err" "err < 2 ^ 31" and dest: "wf_sockaddr dest"
  shows "length (icmpd_err junk err ty cd dest) = ICMPD_ERR_SIZE"
    and "sint (word_of_nat (le_nat (take 4 (icmpd_err junk err ty cd dest))) :: u32) = err"
    and "icmpd_err junk err ty cd dest ! 4 = ty" and "icmpd_err junk err ty cd dest ! 5 = cd"
    and "le_nat (take 4 (drop 8 (icmpd_err junk err ty cd dest))) = length (sa_bytes dest)"
    and "drop 16 (icmpd_err junk err ty cd dest) = sa_bytes dest @ drop (16 + length (sa_bytes dest)) junk"
proof -
  note len = length_sa_bytes [OF dest]
  have pads: "length (take 2 (drop 6 junk)) = 2" "length (take 4 (drop 12 junk)) = 4"
    using junk by (simp_all add: ICMPD_ERR_SIZE_def)
  show "length (icmpd_err junk err ty cd dest) = ICMPD_ERR_SIZE"
    using pads junk len by (simp add: icmpd_err_def ICMPD_ERR_SIZE_def)
  have "nat err < 2 ^ 31" using err by (simp add: nat_less_iff)
  then have "le_nat (take 4 (icmpd_err junk err ty cd dest)) = nat err"
    by (simp add: icmpd_err_def le_nat_le_bytes)
  moreover have "sint (word_of_nat (nat err) :: u32) = err"
    using err by (simp add: sint_u32)
  ultimately show "sint (word_of_nat (le_nat (take 4 (icmpd_err junk err ty cd dest))) :: u32) = err" by simp
  show "icmpd_err junk err ty cd dest ! 4 = ty" "icmpd_err junk err ty cd dest ! 5 = cd"
    by (simp_all add: icmpd_err_def nth_append)
  show "le_nat (take 4 (drop 8 (icmpd_err junk err ty cd dest))) = length (sa_bytes dest)"
    using pads len by (simp add: icmpd_err_def le_nat_le_bytes)
  show "drop 16 (icmpd_err junk err ty cd dest) = sa_bytes dest @ drop (16 + length (sa_bytes dest)) junk"
    using pads by (simp add: icmpd_err_def)
qed

section \<open>Who is told\<close>

text \<open>The data a trace hands to descriptors.\<close>

fun told_ev :: "event \<Rightarrow> (fd \<times> bytes) list" where
  "told_ev (Sys (C_write fd b) a) = [(fd, b)]"
| "told_ev _ = []"

definition told :: "event list \<Rightarrow> (fd \<times> bytes) list" where
  "told es = concat (map told_ev es)"

lemma told_simps [simp]: "told [] = []" "told (e # es) = told_ev e @ told es" "told (es @ es') = told es @ told es'"
  by (simp_all add: told_def)

lemma Write_Ret: "Write fd b w = Ret x w' \<longleftrightarrow> (\<exists>a s. script w = a # s \<and> a_err a = 0 \<and> length b \<le> a_val a \<and>
    w' = called (C_write fd b) a s w)"
  by (cases "script w") (auto simp: Write_def void_Ret_iff checked_Ret_iff sys_write_def sys_accepts_def sys_def then_run_Ret_iff)

lemma notify_Ret:
  "notify fam sport msg cs w = Ret x w' \<Longrightarrow> \<exists>es. trace w' = trace w @ es \<and> closed es = [] \<and>
     told es = map (\<lambda>c. (connfd c, msg)) (filter (wants fam sport) cs)"
proof (induction cs arbitrary: w)
  case (Cons c cs)
  then obtain w1 where one: "(if wants fam sport c then Write (connfd c) msg w else Ret () w) = Ret () w1"
    and rest: "notify fam sport msg cs w1 = Ret x w'"
    by (auto simp: then_run_Ret_iff)
  from Cons.IH [OF rest] obtain es where es: "trace w' = trace w1 @ es" "closed es = []"
    "told es = map (\<lambda>c. (connfd c, msg)) (filter (wants fam sport) cs)" by blast
  show ?case
  proof (cases "wants fam sport c")
    case True
    with one obtain a where "trace w1 = trace w @ [Sys (C_write (connfd c) msg) a]" by (auto simp: Write_Ret)
    with es True show ?thesis by (intro exI [of _ "Sys (C_write (connfd c) msg) a # es"]) simp
  qed (use es one in auto)
qed simp

lemma v4_error_told:
  assumes ok: "returned_ok p" and buf: "buf = packet p @ tail"
    and run: "v4_error buf (length (r_outer p)) st junk w = Ret x w'"
  shows "\<exists>es. trace w' = trace w @ es \<and> closed es = [] \<and>
    told es = map (\<lambda>c. (connfd c, icmpd_err junk (errno_v4 (r_type p) (r_code p)) (r_type p) (r_code p)
        (SA_in (r_dport p) (r_dst p)))) (filter (wants AF_INET (uint (r_sport p))) (take (nat (maxi st + 1)) (client st)))"
proof -
  note a = packet_parts [OF ok buf]
  note b = header_parts [OF ok a(4)]
  let ?n = "notify AF_INET (uint (r_sport p)) (icmpd_err junk (errno_v4 (r_type p) (r_code p)) (r_type p) (r_code p)
        (SA_in (r_dport p) (r_dst p))) (take (nat (maxi st + 1)) (client st))"
  obtain t where "?n (puts t w) = Ret x w'"
    using run unfolding v4_error_def Let_def a(2,3) b then_run_Ret_iff by (auto dest!: Inet_ntop_Ret)
  from notify_Ret [OF this] obtain es where "trace w' = trace (puts t w) @ es" "closed es = []"
    "told es = map (\<lambda>c. (connfd c, icmpd_err junk (errno_v4 (r_type p) (r_code p)) (r_type p) (r_code p)
        (SA_in (r_dport p) (r_dst p)))) (filter (wants AF_INET (uint (r_sport p))) (take (nat (maxi st + 1)) (client st)))"
    by blast
  then show ?thesis by (intro exI [of _ "Stdout t # es"]) (simp add: puts_def emit_def)
qed

lemma readable_v4_told:
  assumes ok: "returned_ok p" and ty: "r_type p \<in> {ICMP_UNREACH, ICMP_TIMXCEED, ICMP_SOURCEQUENCH}"
    and got: "script w = a # s" "a_err a = 0" "take MAXLINE (a_data a) = packet p"
    and run: "readable_v4 stack st w = Ret st' w'"
  obtains es es' where "st' = served st" "trace w' = trace w @ es" "closed es = []"
    "told es = map (\<lambda>c. (connfd c, icmpd_err (take ICMPD_ERR_SIZE (stack es')) (errno_v4 (r_type p) (r_code p))
        (r_type p) (r_code p) (SA_in (r_dport p) (r_dst p))))
      (filter (wants AF_INET (uint (r_sport p))) (take (nat (maxi st + 1)) (client st)))"
proof -
  let ?c = "C_recvfrom (fd4 st) MAXLINE 0" and ?w = "called (C_recvfrom (fd4 st) MAXLINE 0) a s w"
  let ?buf = "received stack (packet p) ?w"
  have buf: "?buf = packet p @ drop (length (packet p)) (stack (trace ?w))" by (simp add: received_def)
  note pp = packet_parts [OF ok buf]
  have len: "\<not> int (length (packet p)) - int (length (r_outer p)) < 8"
    "\<not> int (length (packet p)) - int (length (r_outer p)) < 8 + 20 + 8"
    using ok by (simp_all add: returned_ok_def packet_def)
  obtain t' where "v4_message stack ?buf (int (length (packet p))) (length (r_outer p)) st (puts t' ?w) = Ret st' w'"
    using run got pp(1)
    by (auto simp: readable_v4_def Let_def Recvfrom.wrap_answer [OF got(1)] then_run_Ret_iff dest!: Sock_ntop_host_world)
  then obtain t x w1 where run1: "v4_error ?buf (length (r_outer p)) st (take ICMPD_ERR_SIZE (stack (trace w1))) w1 = Ret x w'"
    and w1: "w1 = puts t (puts t' ?w)" and st': "st' = served st"
    using ty unfolding v4_message_def Let_def pp(2,3) if_not_P [OF len(1)] if_not_P [OF len(2)]
    by (auto simp: then_run_Ret_iff)
  from v4_error_told [OF ok buf run1] obtain es where es: "trace w' = trace w1 @ es" "closed es = []"
    "told es = map (\<lambda>c. (connfd c, icmpd_err (take ICMPD_ERR_SIZE (stack (trace w1))) (errno_v4 (r_type p) (r_code p))
        (r_type p) (r_code p) (SA_in (r_dport p) (r_dst p))))
      (filter (wants AF_INET (uint (r_sport p))) (take (nat (maxi st + 1)) (client st)))" by blast
  show thesis
    by (rule that [of "Sys ?c a # Stdout t' # Stdout t # es" "trace w1"]) (use es st' w1 in \<open>simp_all add: puts_def emit_def\<close>)
qed

lemma icmp_report_prints:
  assumes junk: "length junk = ICMPD_ERR_SIZE" and err: "0 \<le> err" "err < 2 ^ 31" and dest: "wf_sockaddr dest"
    and ip: "sa_family dest = AF_INET \<or> sa_family dest = AF_INET6"
    and name: "sock_ntop dest (length (sa_bytes dest)) = Inr addr"
  shows "icmp_report (icmpd_err junk err ty cd dest) w =
    Ret () (puts (''ICMP error: dest = '' @ addr @ '', '' @ strerror_of w err @ '', type = '' @ decz (sint ty) @
      '', code = '' @ decz (sint cd) @ [CHR 0x0A]) w)"
proof -
  note f = icmpd_err_fields [OF junk err dest, of ty cd]
  have "sa_of (drop 16 (icmpd_err junk err ty cd dest)) = dest"
    unfolding f(6) by (rule sa_of_ip [OF dest ip])
  with name show ?thesis unfolding icmp_report_def f(2-5) by (simp add: Sock_ntop_def)
qed

lemma read_icmp_error_prints:
  assumes junk: "length junk = ICMPD_ERR_SIZE" and err: "0 \<le> err" "err < 2 ^ 31" and dest: "wf_sockaddr dest"
    and ip: "sa_family dest = AF_INET \<or> sa_family dest = AF_INET6"
    and name: "sock_ntop dest (length (sa_bytes dest)) = Inr addr"
    and script: "script w = a # s" "a_err a = 0" "a_data a = icmpd_err junk err ty cd dest"
  shows "\<exists>w'. read_icmp_error fd w = Ret () w' \<and>
    trace w' = trace w @ [Sys (C_read fd ICMPD_ERR_SIZE) a, Stdout (''ICMP error: dest = '' @ addr @ '', '' @
      strerror_of w err @ '', type = '' @ decz (sint ty) @ '', code = '' @ decz (sint cd) @ [CHR 0x0A])]"
proof -
  note f = icmpd_err_fields [OF junk err dest, of ty cd]
  have t: "take ICMPD_ERR_SIZE (a_data a) = icmpd_err junk err ty cd dest" using f(1) script(3) by simp
  have "Read fd ICMPD_ERR_SIZE w = Ret (int ICMPD_ERR_SIZE, icmpd_err junk err ty cd dest) (called (C_read fd ICMPD_ERR_SIZE) a s w)"
    using script(2) by (simp only: Read.wrap_answer [OF script(1)] t f(1) if_True simp_thms)
  then have "read_icmp_error fd w = icmp_report (icmpd_err junk err ty cd dest) (called (C_read fd ICMPD_ERR_SIZE) a s w)"
    by (simp add: read_icmp_error_def ICMPD_ERR_SIZE_def)
  then show ?thesis
    unfolding icmp_report_prints [OF junk err dest ip name] by (simp add: puts_def emit_def called_def)
qed

section \<open>Registering\<close>

text \<open>What a run of the daemon adds to the trace: whom it tells what, and what it closes.\<close>

definition does :: "world \<Rightarrow> world \<Rightarrow> (fd \<times> bytes) list \<Rightarrow> fd list \<Rightarrow> bool" where
  "does w w' ts cs \<longleftrightarrow> (\<exists>es. trace w' = trace w @ es \<and> told es = ts \<and> closed es = cs)"

lemma does_refl: "trace w' = trace w \<Longrightarrow> does w w' [] []"
  by (auto simp: does_def intro: exI [of _ "[]"])

lemma does_trans: "does w1 w2 ts cs \<Longrightarrow> does w2 w3 ts' cs' \<Longrightarrow> does w1 w3 (ts @ ts') (cs @ cs')"
  unfolding does_def by (metis append.assoc closed_simps(3) told_simps(3))

lemma does_event: "trace w' = trace w @ [e] \<Longrightarrow> does w w' (told_ev e) (closed_ev e)"
  by (auto simp: does_def intro: exI [of _ "[e]"])

lemma does_Close: "Close fd w = Ret x w' \<Longrightarrow> does w w' [] [fd]"
  using does_event [of w' w] by (fastforce simp: Close.wrap_Ret)

lemma does_Write: "Write fd b w = Ret x w' \<Longrightarrow> does w w' [(fd, b)] []"
  using does_event [of w' w] by (fastforce simp: Write_Ret)

lemma does_err: "does w (err_doit f l m w) [] []"
  using err_doit_trace [of f l m w] by (auto simp: does_def)

lemma clientdone_Ret:
  assumes "clientdone i u p st w = Ret st' w'"
  shows "st' = served ((set_client i (connfd_update (\<lambda>_. - 1)) st)\<lparr>allset := allset st - {u}\<rparr>) \<and>
    does w w' [] (u # (if 0 \<le> p then [p] else []))"
proof -
  from assms obtain w1 where c: "Close u w = Ret () w1" "(if 0 \<le> p then Close p w1 else Ret () w1) = Ret () w'"
    and st': "st' = served ((set_client i (connfd_update (\<lambda>_. - 1)) st)\<lparr>allset := allset st - {u}\<rparr>)"
    by (auto simp: clientdone_def then_run_Ret_iff)
  from c(2) have "does w1 w' [] (if 0 \<le> p then [p] else [])"
    by (auto split: if_splits intro: does_Close does_refl)
  from does_trans [OF does_Close [OF c(1)] this] st' show ?thesis by simp
qed

lemma clienterr_Ret:
  assumes "clienterr i u p st w = Ret st' w'"
  shows "st' = served ((set_client i (connfd_update (\<lambda>_. - 1)) st)\<lparr>allset := allset st - {u}\<rparr>) \<and>
    does w w' [(u, bytes_of_string ''0'')] (u # (if 0 \<le> p then [p] else []))"
proof -
  from assms obtain w1 where "Write u (bytes_of_string ''0'') w = Ret () w1" "clientdone i u p st w1 = Ret st' w'"
    by (auto simp: clienterr_def then_run_Ret_iff)
  with clientdone_Ret does_trans [OF does_Write] show ?thesis by fastforce
qed

lemma client_ok_Ret:
  assumes "client_ok u p st w = Ret st' w'"
  shows "st' = served st \<and> does w w' [(u, bytes_of_string ''1'')] [p]"
proof -
  from assms obtain w1 where "Write u (bytes_of_string ''1'') w = Ret () w1" "Close p w1 = Ret () w'" "st' = served st"
    by (auto simp: client_ok_def then_run_Ret_iff)
  with does_trans [OF does_Write does_Close] show ?thesis by fastforce
qed

lemma does_sys_addr: "sys_addr c w = Ret r w' \<Longrightarrow> (\<And>a. told_ev (Sys c a) = [] \<and> closed_ev (Sys c a) = []) \<Longrightarrow> does w w' [] []"
  by (cases "script w") (auto simp: sys_addr_def sys_def does_def)

lemma does_bind_wild:
  assumes "sock_bind_wild fd fam w = Ret port w'"
  shows "does w w' [] []"
proof -
  have one: "does w w' [] []" if "bind_and_get fd sa w = Ret port w'" for sa
  proof -
    from that obtain n w1 where b: "sys_unit (C_bind fd sa) w = Ret n w1" and rest: "n < 0 \<and> w' = w1 \<or>
        (\<exists>r. sys_addr (C_getsockname fd) w1 = Ret r w')"
      by (auto simp: bind_and_get_def then_run_Ret_iff split: if_splits)
    have d1: "does w w1 [] []"
      using b by (cases "script w") (auto simp: sys_unit_def sys_def does_def)
    from rest show ?thesis
      using d1 does_trans [OF d1 does_sys_addr] by fastforce
  qed
  from assms show ?thesis
    by (auto simp: sock_bind_wild_def intro: one does_refl split: if_splits)
qed

text \<open>
  The two outcomes for client \<open>i\<close> on descriptor \<open>u\<close> that passed the descriptor \<open>p\<close>: registered and
  told so, or dropped.
\<close>

definition conn_outcome :: "nat \<Rightarrow> fd \<Rightarrow> fd \<Rightarrow> icmpd \<Rightarrow> icmpd \<Rightarrow> (fd \<times> bytes) list \<Rightarrow> fd list \<Rightarrow> bool" where
  "conn_outcome i u p st st' ts cs \<longleftrightarrow> nready st' = nready st - 1 \<and>
     (ts = [(u, bytes_of_string ''1'')] \<and> cs = [p] \<and> 0 \<le> p \<and> connfd (client st' ! i) = u \<and>
        lport (client st' ! i) \<noteq> 0 \<and> allset st' = allset st \<or>
      ts \<in> {[], [(u, bytes_of_string ''0'')]} \<and> cs = u # (if 0 \<le> p then [p] else []) \<and>
        connfd (client st' ! i) = - 1 \<and> allset st' = allset st - {u})"

lemma dropped:
  assumes "i < length (client st)" and "ts \<in> {[], [(u, bytes_of_string ''0'')]}"
    and "st' = served ((set_client i (connfd_update (\<lambda>_. - 1)) st)\<lparr>allset := allset st - {u}\<rparr>)"
    and "allset st = allset st0" and "nready st = nready st0"
  shows "conn_outcome i u p st0 st' ts (u # (if 0 \<le> p then [p] else []))"
  using assms by (auto simp: conn_outcome_def served_def set_client_def)

lemma set_client_fields [simp]:
  "allset (set_client i f st) = allset st" "nready (set_client i f st) = nready st"
  "length (client (set_client i f st)) = length (client st)"
  "i < length (client st) \<Longrightarrow> client (set_client i f st) ! i = f (client st ! i)"
  by (simp_all add: set_client_def)

text \<open>A run has such an outcome.\<close>

definition ends_well :: "nat \<Rightarrow> fd \<Rightarrow> fd \<Rightarrow> icmpd \<Rightarrow> world \<Rightarrow> icmpd \<Rightarrow> world \<Rightarrow> bool" where
  "ends_well i u p st w st' w' \<longleftrightarrow> (\<exists>ts cs. does w w' ts cs \<and> conn_outcome i u p st st' ts cs)"

lemma ends_well_after: "does w w1 [] [] \<Longrightarrow> ends_well i u p st w1 st' w' \<Longrightarrow> ends_well i u p st w st' w'"
  unfolding ends_well_def using does_trans by fastforce

lemma ends_well_err:
  assumes "clienterr i u p st w = Ret st' w'" and "i < length (client st)"
    and "allset st = allset st0" and "nready st = nready st0"
  shows "ends_well i u p st0 w st' w'"
  unfolding ends_well_def using clienterr_Ret [OF assms(1)] dropped [OF assms(2) _ _ assms(3,4)] by blast

lemma ends_well_done:
  assumes "clientdone i u p st w = Ret st' w'" and "i < length (client st)"
  shows "ends_well i u p st w st' w'"
  unfolding ends_well_def using clientdone_Ret [OF assms(1)] dropped [OF assms(2)] by blast

lemma ends_well_ok:
  assumes "client_ok u p st w = Ret st' w'" and "0 \<le> p" and "connfd (client st ! i) = u" and "lport (client st ! i) \<noteq> 0"
    and "allset st = allset st0" and "nready st = nready st0"
  shows "ends_well i u p st0 w st' w'"
  unfolding ends_well_def
  by (rule exI [of _ "[(u, bytes_of_string ''1'')]"], rule exI [of _ "[p]"])
     (use client_ok_Ret [OF assms(1)] assms in \<open>auto simp: conn_outcome_def served_def\<close>)

lemma register_outcome:
  assumes run: "register i u p st w = Ret st' w'" and i: "i < length (client st)" "connfd (client st ! i) = u" "0 \<le> p"
  shows "ends_well i u p st w st' w'"
proof -
  from run obtain n ss w1 where g: "sys_addr (C_getsockname p) w = Ret (n, ss) w1" and
    rest: "(if n < 0 then then_run (err_ret ''getsockname error'' w1) (\<lambda>_ w. clienterr i u p st w)
       else
         let st = set_client i (\<lambda>c. c\<lparr>family := sa_family ss, lport := sock_get_port ss\<rparr>) st in
         if sock_get_port ss = 0 then
           then_run (sock_bind_wild p (sa_family ss) w1) (\<lambda>port w.
             let st = set_client i (lport_update (\<lambda>_. port)) st in
             if port \<le> 0
             then then_run (err_ret ''error binding ephemeral port'' w) (\<lambda>_ w. clienterr i u p st w)
             else client_ok u p st w)
         else client_ok u p st w1) = Ret st' w'"
    by (auto simp: register_def then_run_Ret_iff)
  have d1: "does w w1 [] []" using g by (rule does_sys_addr) simp
  define st1 where "st1 = set_client i (\<lambda>c. c\<lparr>family := sa_family ss, lport := sock_get_port ss\<rparr>) st"
  have st1: "i < length (client st1)" "connfd (client st1 ! i) = u" "lport (client st1 ! i) = sock_get_port ss"
    "allset st1 = allset st" "nready st1 = nready st"
    using i by (simp_all add: st1_def)
  note rest = rest [folded st1_def]
  consider (failed) "n < 0" | (bound) "0 \<le> n" "sock_get_port ss \<noteq> 0" | (unbound) "0 \<le> n" "sock_get_port ss = 0"
    by linarith
  then have "ends_well i u p st w1 st' w'"
  proof cases
    case failed
    with rest have "clienterr i u p st (err_doit True LOG_INFO ''getsockname error'' w1) = Ret st' w'"
      by (simp add: err_ret_def)
    from ends_well_after [OF does_err ends_well_err [OF this i(1) refl refl]] show ?thesis .
  next
    case bound
    with rest have "client_ok u p st1 w1 = Ret st' w'" by (simp add: Let_def)
    then show ?thesis by (rule ends_well_ok) (use i bound st1 in simp_all)
  next
    case unbound
    with rest obtain port w2 where b: "sock_bind_wild p (sa_family ss) w1 = Ret port w2" and
      rest: "(if port \<le> 0 then then_run (err_ret ''error binding ephemeral port'' w2) (\<lambda>_ w.
               clienterr i u p (set_client i (lport_update (\<lambda>_. port)) st1) w)
             else client_ok u p (set_client i (lport_update (\<lambda>_. port)) st1) w2) = Ret st' w'"
      by (auto simp: Let_def then_run_Ret_iff)
    have "ends_well i u p st w2 st' w'"
    proof (cases "port \<le> 0")
      case True
      with rest have "clienterr i u p (set_client i (lport_update (\<lambda>_. port)) st1)
          (err_doit True LOG_INFO ''error binding ephemeral port'' w2) = Ret st' w'"
        by (simp add: err_ret_def)
      from ends_well_after [OF does_err ends_well_err [OF this]] st1 show ?thesis by simp
    next
      case False
      with rest have "client_ok u p (set_client i (lport_update (\<lambda>_. port)) st1) w2 = Ret st' w'" by simp
      then show ?thesis by (rule ends_well_ok) (use i False st1 in simp_all)
    qed
    with does_bind_wild [OF b] show ?thesis by (rule ends_well_after)
  qed
  with d1 show ?thesis by (rule ends_well_after)
qed

text \<open>The descriptor that came with a message, \<open>- 1\<close> for none.\<close>

definition passed_fd :: "answer \<Rightarrow> fd" where
  "passed_fd a = (case a_cmsg a of c # _ \<Rightarrow> if a_data a \<noteq> [] \<and> cmsg_len c = CMSG_LEN_int then cmsg_int c else - 1
     | [] \<Rightarrow> - 1)"

lemma Read_fd_Ret:
  assumes "Read_fd u 1 w = Ret (n, c, passed) w'"
  obtains a where "trace w' = trace w @ [Sys (C_recvmsg u 1) a]" "a_err a = 0" "0 \<le> n"
    "(case passed of None \<Rightarrow> - 1 | Some fd \<Rightarrow> fd) = passed_fd a" "n = 0 \<longleftrightarrow> a_data a = []"
proof (cases "script w")
  case Nil
  with assms show ?thesis by (simp add: Read_fd_def checked_def read_fd_def sys_recvmsg_def sys_def)
next
  case (Cons a s)
  show ?thesis
  proof (cases "a_err a = 0")
    case True
    then show ?thesis
      using assms Cons that [of a]
      by (cases "a_data a") (auto simp: Read_fd_def checked_def read_fd_def sys_recvmsg_def sys_def passed_fd_def
          err_quit_def split: list.splits if_splits)
  next
    case False
    with assms Cons show ?thesis
      by (simp add: Read_fd_def checked_def read_fd_def sys_recvmsg_def sys_def err_sys_def)
  qed
qed

section \<open>Properties of the daemon\<close>


text \<open>
  (C6) A client of the ICMP daemon that passes its socket is answered, and nothing is left behind:
  either it is told \<open>1\<close>, its slot holds a port other than 0 and only the passed descriptor is closed;
  or it is told \<open>0\<close> (or has gone and is told nothing), and its connection and the passed descriptor, if
  there was one, are both closed, its slot is free and its descriptor no longer selected for.
\<close>

theorem icmpd_registration:
  assumes "readable_conn i st w = Ret st' w'" and "i < length (client st)"
  shows "\<exists>a es. trace w' = trace w @ Sys (C_recvmsg (connfd (client st ! i)) 1) a # es \<and>
    conn_outcome i (connfd (client st ! i)) (passed_fd a) st st' (told es) (closed es)"
proof -
  let ?u = "connfd (client st ! i)"
  from assms(1) obtain n c passed w1 where r: "Read_fd ?u 1 w = Ret (n, c, passed) w1" and
    rest: "(let recvfd = (case passed of None \<Rightarrow> - 1 | Some fd \<Rightarrow> fd) in
        if n = 0 then
          then_run (err_msg (''client '' @ dec i @ '' terminated, recvfd = '' @ decz recvfd) w1) (\<lambda>_ w.
            clientdone i ?u recvfd st w)
        else if recvfd < 0 then
          then_run (err_msg ''read_fd did not return descriptor'' w1) (\<lambda>_ w. clienterr i ?u recvfd st w)
        else register i ?u recvfd st w1) = Ret st' w'"
    by (auto simp: readable_conn_def Let_def then_run_Ret_iff)
  from Read_fd_Ret [OF r] obtain a where a: "trace w1 = trace w @ [Sys (C_recvmsg ?u 1) a]"
    "(case passed of None \<Rightarrow> - 1 | Some fd \<Rightarrow> fd) = passed_fd a" by metis
  consider (gone) "n = 0" | (none) "n \<noteq> 0" "passed_fd a < 0" | (some) "n \<noteq> 0" "0 \<le> passed_fd a" by linarith
  then have "ends_well i ?u (passed_fd a) st w1 st' w'"
  proof cases
    case gone
    with rest obtain m where "clientdone i ?u (passed_fd a) st (err_doit False LOG_INFO m w1) = Ret st' w'"
      by (auto simp: Let_def a(2) err_msg_def)
    from ends_well_after [OF does_err ends_well_done [OF this assms(2)]] show ?thesis .
  next
    case none
    with rest obtain m where "clienterr i ?u (passed_fd a) st (err_doit False LOG_INFO m w1) = Ret st' w'"
      by (auto simp: Let_def a(2) err_msg_def)
    from ends_well_after [OF does_err ends_well_err [OF this assms(2) refl refl]] show ?thesis .
  next
    case some
    with rest have "register i ?u (passed_fd a) st w1 = Ret st' w'" by (simp add: Let_def a(2))
    from register_outcome [OF this assms(2) refl some(2)] show ?thesis .
  qed
  then show ?thesis using a(1) by (auto simp: ends_well_def does_def)
qed

text \<open>A daemon with one client on descriptor 5, which passes a socket bound to port 53 (in network order).\<close>

definition one_client :: "int \<Rightarrow> icmpd" where
  "one_client port = \<lparr>client = [\<lparr>connfd = 5, family = AF_INET, lport = port\<rparr>], maxi = 0, maxfd = 5, nready = 1,
     allset = {3, 4, 5, 6}, fd4 = 3, fd6 = 4, listenfd = 6\<rparr>"

definition registering_run :: world where
  "registering_run = boot [(got [0])\<lparr>a_cmsg := [fd_cmsg 9]\<rparr>, ans0\<lparr>a_addr := SA_in 13568 [0, 0, 0, 0]\<rparr>, gave 1, ans0]"

theorem icmpd_registration_witness:
  "\<exists>st' w' ts cs. readable_conn 0 (one_client 0) registering_run = Ret st' w' \<and> lport (client st' ! 0) = 13568 \<and>
     conn_outcome 0 5 9 (one_client 0) st' ts cs"
proof -
  let ?m = "readable_conn 0 (one_client 0) registering_run"
  have m: "case ?m of Ret st' w' \<Rightarrow> lport (client st' ! 0) = 13568 \<and> (\<exists>a es. trace w' = a # es \<and>
      a = Sys (C_recvmsg 5 1) ((got [0])\<lparr>a_cmsg := [fd_cmsg 9]\<rparr>)) | _ \<Rightarrow> False"
    by (simp add: readable_conn_def one_client_def registering_run_def Read_fd_def read_fd_def sys_recvmsg_def sys_def
        checked_def boot_def fd_cmsg_def got_def ans0_def register_def sys_addr_def client_ok_def Write_def void_def
        sys_write_def sys_accepts_def Close_def sys_unit_def set_client_def served_def bytes_of_string_def gave_def
        SOL_SOCKET_def SCM_RIGHTS_def AF_INET_def)
  then obtain st' w' where r: "?m = Ret st' w'" "lport (client st' ! 0) = 13568"
    "\<exists>es. trace w' = Sys (C_recvmsg 5 1) ((got [0])\<lparr>a_cmsg := [fd_cmsg 9]\<rparr>) # es"
    by (auto split: run.splits)
  have slot: "0 < length (client (one_client 0))" "connfd (client (one_client 0) ! 0) = 5" by (simp_all add: one_client_def)
  have "passed_fd ((got [0])\<lparr>a_cmsg := [fd_cmsg 9]\<rparr>) = 9" by (simp add: passed_fd_def fd_cmsg_def got_def)
  with icmpd_registration [OF r(1) slot(1)] r(3) have "\<exists>ts cs. conn_outcome 0 5 9 (one_client 0) st' ts cs"
    unfolding slot(2) by (force simp: registering_run_def)
  with r(1,2) show ?thesis by blast
qed

text \<open>An unreachable port reported by a router for a datagram from port 53 to port 7 of 10.0.0.1.\<close>

definition unreachable :: returned where
  "unreachable = \<lparr>r_outer = 0x45 # replicate 19 0, r_type = 3, r_code = 3, r_check = replicate 6 0,
     r_inner = (0x45 # replicate 8 0) @ [17] @ replicate 6 0, r_dst = [10, 0, 0, 1], r_options = [],
     r_sport = 13568, r_dport = 1792, r_rest = replicate 4 0\<rparr>"

definition unreachable_bytes :: bytes where
  "unreachable_bytes = [0x45, 0, 0, 0, 0, 0, 0, 0, 0, 0, 0, 0, 0, 0, 0, 0, 0, 0, 0, 0,
     3, 3, 0, 0, 0, 0, 0, 0,
     0x45, 0, 0, 0, 0, 0, 0, 0, 0, 17, 0, 0, 0, 0, 0, 0, 10, 0, 0, 1,
     0, 53, 0, 7, 0, 0, 0, 0]"

lemma replicate_numeral: "replicate (numeral k) x = x # replicate (pred_numeral k) x"
  by (simp add: numeral_eq_Suc)

lemma packet_unreachable: "packet unreachable = unreachable_bytes"
  by (simp add: packet_def unreachable_def unreachable_bytes_def lo8_def hi8_def replicate_numeral)

definition unreachable_run :: world where
  "unreachable_run = boot [(got unreachable_bytes)\<lparr>a_addr := SA_in 0 [10, 0, 0, 254]\<rparr>, gave 144]"


section \<open>Defects\<close>

text \<open>
  A slot that is given up keeps its family and port, and the next client that connects gets it: before
  it has passed any socket it is told the errors of its predecessor.
\<close>

lemma next_client_inherits:
  assumes "clientdone i u p st w = Ret st1 w1" and "readable_listen st1 v = Ret st2 w2"
    and "first_free 0 (map connfd (client st1)) = Some i" and "i < length (client st)"
    and "0 \<le> connfd (client st2 ! i)"
  shows "wants (family (client st ! i)) (lport (client st ! i)) (client st2 ! i)"
proof -
  from clientdone_Ret [OF assms(1)] have st1: "client st1 ! i = (client st ! i)\<lparr>connfd := - 1\<rparr>" "i < length (client st1)"
    using assms(4) by (simp_all add: served_def set_client_def)
  from assms(2,3) obtain cfd where "client st2 = (client st1)[i := (client st1 ! i)\<lparr>connfd := cfd\<rparr>]"
    by (auto simp: readable_listen_def then_run_Ret_iff Let_def served_def set_client_def)
  with st1 assms(5) show ?thesis by (simp add: wants_def)
qed

text \<open>
  The length check for ICMPv6 lets messages pass that do not hold the returned datagram: of a message
  of 16 bytes, everything the daemon looks at in the returned headers is what the stack held.
\<close>

lemma v6_uses_unreceived:
  "case readable_v6 (\<lambda>_. replicate 14 0 @ [17] @ replicate 33 0 @ [0, 53] @ replicate 94 0)
      ((one_client 13568)\<lparr>client := [\<lparr>connfd = 5, family = AF_INET6, lport = 13568\<rparr>]\<rparr>)
      (boot [(got (1 # replicate 13 0 @ [17, 0]))\<lparr>a_addr := SA_in6 0 0 (replicate 16 0) 0\<rparr>, gave 144]) of
     Ret st' w' \<Rightarrow> map fst (told (trace w')) = [5]
   | _ \<Rightarrow> False"
  by code_simp

end
