(* ===== verification/Traceroute.thy ===== *)
theory Traceroute
  imports Ping Icmp Run_Logic
begin

text \<open>
  The traceroute program of \<^verbatim>\<open>traceroute\<close>: \<^verbatim>\<open>traceloop.c\<close> sends the probes, \<^verbatim>\<open>recv_v4.c\<close> and
  \<^verbatim>\<open>recv_v6.c\<close> wait for the ICMP message that returns one, \<^verbatim>\<open>sig_alrm.c\<close> ends the wait, and
  \<^verbatim>\<open>icmpcode_v4.c\<close> and \<^verbatim>\<open>icmpcode_v6.c\<close> name the codes. As in \<^verbatim>\<open>ping\<close>, the alarm is the answer \<^verbatim>\<open>EINTR\<close>
  of the call it interrupts.
\<close>

section \<open>traceroute/trace.h and traceroute/main.c\<close>

definition TRACE_BUFSIZE :: nat where [unp_consts]: "TRACE_BUFSIZE = 1500"
definition IP_TTL :: int where [unp_consts]: "IP_TTL = 2"
definition IPV6_UNICAST_HOPS :: int where [unp_consts]: "IPV6_UNICAST_HOPS = 16"
definition ICMP_TIMXCEED_INTRANS :: byte where [unp_consts]: "ICMP_TIMXCEED_INTRANS = 0"
definition ICMP6_TIME_EXCEED_TRANSIT :: byte where [unp_consts]: "ICMP6_TIME_EXCEED_TRANSIT = 0"

record trace_rt =
  tr_recvbuf :: bytes
  sport :: u16
  dport :: u16
  nprobes :: nat
  sendfd :: fd
  recvfd :: fd
  max_ttl :: int
  tr_verbose :: int
  gotalarm :: bool
  tr_proto :: ping_proto
  tr_sasend :: sockaddr
  tr_sarecv :: sockaddr
  tr_salast :: sockaddr
  tr_salen :: nat

fun tr_ttllevel :: "ping_proto \<Rightarrow> int" where
  "tr_ttllevel Proto_v4 = IPPROTO_IP"
| "tr_ttllevel Proto_v6 = IPPROTO_IPV6"

fun tr_ttloptname :: "ping_proto \<Rightarrow> int" where
  "tr_ttloptname Proto_v4 = IP_TTL"
| "tr_ttloptname Proto_v6 = IPV6_UNICAST_HOPS"

text \<open>\<^verbatim>\<open>struct rec\<close>, the data of a probe; the paddings are those of a static array.\<close>

definition rec_bytes :: "int \<Rightarrow> int \<Rightarrow> int \<times> int \<Rightarrow> bytes" where
  "rec_bytes seq ttl tv = le_bytes 2 (nat (seq mod 2 ^ 16)) @ le_bytes 2 (nat (ttl mod 2 ^ 16)) @ replicate 4 0 @
     timeval_bytes tv"

definition htons_int :: "int \<Rightarrow> u16" where "htons_int n = ntohs (word_of_int n)"

section \<open>traceroute/icmpcode_v4.c and traceroute/icmpcode_v6.c\<close>

definition icmp_codes_v4 :: "string list" where
  "icmp_codes_v4 = [''network unreachable'', ''host unreachable'', ''protocol unreachable'', ''port unreachable'',
     ''fragmentation required but DF bit set'', ''source route failed'', ''destination network unknown'',
     ''destination host unknown'', ''source host isolated (obsolete)'',
     ''destination network administratively prohibited'', ''destination host administratively prohibited'',
     ''network unreachable for TOS'', ''host unreachable for TOS'',
     ''communication administratively prohibited by filtering'', ''host recedence violation'',
     ''precedence cutoff in effect'']"

definition unknown_code :: "int \<Rightarrow> string" where
  "unknown_code code = ''[unknown code '' @ decz code @ '']''"

definition icmpcode_v4 :: "int \<Rightarrow> string" where
  "icmpcode_v4 code = (if 0 \<le> code \<and> code < 16 then icmp_codes_v4 ! nat code else unknown_code code)"

definition icmpcode_v6 :: "int \<Rightarrow> string" where
  "icmpcode_v6 code = (if 0 \<le> code \<and> code < 5
     then [''no route to host'', ''administratively prohibited'', ''not a neighbor'', ''address unreachable'',
           ''port unreachable''] ! nat code
     else unknown_code code)"

fun icmpcode :: "ping_proto \<Rightarrow> int \<Rightarrow> string" where
  "icmpcode Proto_v4 = icmpcode_v4"
| "icmpcode Proto_v6 = icmpcode_v6"

section \<open>traceroute/recv_v4.c and traceroute/recv_v6.c\<close>

text \<open>The returned datagram is the probe: UDP, from our port to the port of this probe.\<close>

definition is_probe :: "trace_rt \<Rightarrow> int \<Rightarrow> byte \<Rightarrow> bytes \<Rightarrow> bool" where
  "is_probe st seq prot udp \<longleftrightarrow> uint prot = IPPROTO_UDP \<and> le16 (udp ! 0) (udp ! 1) = htons_int (uint (sport st)) \<and>
     le16 (udp ! 2) (udp ! 3) = htons_int (uint (dport st) + seq)"

text \<open>What the body of the loop decides on a message: go on at once, report it and go on, or return.\<close>

datatype verdict = Skip | Report | Found int

definition inner_v4 :: "trace_rt \<Rightarrow> int \<Rightarrow> bytes \<Rightarrow> int \<Rightarrow> int \<Rightarrow> verdict" where
  "inner_v4 st seq hip icmplen code =
     (if icmplen < 8 + 20 then Skip
      else let hlen2 = 4 * (unat (hip ! 0) mod 16) in
        if icmplen < 8 + int hlen2 + 4 then Skip
        else if is_probe st seq (hip ! 9) (drop hlen2 hip) then Found code else Report)"

definition verdict_v4 :: "trace_rt \<Rightarrow> int \<Rightarrow> int \<Rightarrow> nat \<Rightarrow> verdict" where
  "verdict_v4 st seq n hlen1 =
     (let buf = tr_recvbuf st; icmp = drop hlen1 buf; icmplen = n - int hlen1 in
      if icmplen < 8 then Skip
      else if icmp ! 0 = ICMP_TIMXCEED \<and> icmp ! 1 = ICMP_TIMXCEED_INTRANS
      then inner_v4 st seq (drop (hlen1 + 8) buf) icmplen (- 2)
      else if icmp ! 0 = ICMP_UNREACH
      then inner_v4 st seq (drop (hlen1 + 8) buf) icmplen
             (if icmp ! 1 = ICMP_UNREACH_PORT then - 1 else uint (icmp ! 1))
      else Report)"

text \<open>
  In the time exceeded branch of \<^verbatim>\<open>recv_v6\<close> the \<^verbatim>\<open>break\<close> is not guarded by the comparison above it; the
  variable it returns then holds \<open>junk\<close>. Unreachable messages of others are not reported.
\<close>

definition verdict_v6 :: "int \<Rightarrow> trace_rt \<Rightarrow> int \<Rightarrow> int \<Rightarrow> verdict" where
  "verdict_v6 junk st seq n =
     (let icmp6 = tr_recvbuf st; hip6 = drop 8 icmp6; udp = drop 40 hip6 in
      if n < 8 then Skip
      else if icmp6 ! 0 = ICMP6_TIME_EXCEEDED \<and> icmp6 ! 1 = ICMP6_TIME_EXCEED_TRANSIT then
        (if n < 8 + 40 + 4 then Skip else Found (if is_probe st seq (hip6 ! 6) udp then - 2 else junk))
      else if icmp6 ! 0 = ICMP6_DST_UNREACH then
        (if n < 8 + 40 + 4 then Skip
         else if is_probe st seq (hip6 ! 6) udp
         then Found (if icmp6 ! 1 = ICMP6_DST_UNREACH_NOPORT then - 1 else uint (icmp6 ! 1))
         else Skip)
      else Report)"

text \<open>The header the ICMP type and code come after, in bytes.\<close>

fun tr_hlen1 :: "ping_proto \<Rightarrow> bytes \<Rightarrow> nat" where
  "tr_hlen1 Proto_v4 buf = 4 * (unat (buf ! 0) mod 16)"
| "tr_hlen1 Proto_v6 buf = 0"

fun tr_verdict :: "ping_proto \<Rightarrow> int \<Rightarrow> trace_rt \<Rightarrow> int \<Rightarrow> int \<Rightarrow> verdict" where
  "tr_verdict Proto_v4 junk st seq n = verdict_v4 st seq n (tr_hlen1 Proto_v4 (tr_recvbuf st))"
| "tr_verdict Proto_v6 junk st seq n = verdict_v6 junk st seq n"

definition report :: "trace_rt \<Rightarrow> world \<Rightarrow> unit run" where
  "report st w =
     (if tr_verbose st = 0 then Ret () w
      else let icmp = drop (tr_hlen1 (tr_proto st) (tr_recvbuf st)) (tr_recvbuf st) in
        then_run (Sock_ntop_host (tr_sarecv st) (tr_salen st) w) (\<lambda>host w. Ret () (puts ('' (from '' @ host @ '': type = '' @
          dec (unat (icmp ! 0)) @ '', code = '' @ dec (unat (icmp ! 1)) @ '')'' @ [CHR 0x0A]) w)))"

lemma report_world: "report st w = Ret x w' \<Longrightarrow> script w' = script w"
  by (auto simp: report_def then_run_Ret_iff Let_def puts_def Sock_ntop_host_Ret split: if_splits)

function recv_loop :: "int \<Rightarrow> int \<Rightarrow> trace_rt \<Rightarrow> world \<Rightarrow> (int \<times> trace_rt) run" where
  "recv_loop junk seq st w =
     (if gotalarm st then Ret (- 3, st) w
      else then_run (sys_recvfrom (recvfd st) TRACE_BUFSIZE 0 w) (\<lambda>r w. case r of (n, data, from) \<Rightarrow>
        if n < 0 then
          (if errno w = EINTR then recv_loop junk seq (st\<lparr>gotalarm := True\<rparr>) w else err_sys ''recvfrom error'' w)
        else
          let st = st\<lparr>tr_recvbuf := data @ drop (length data) (tr_recvbuf st), tr_sarecv := from\<rparr> in
          (case tr_verdict (tr_proto st) junk st seq n of
             Skip \<Rightarrow> recv_loop junk seq st w
           | Report \<Rightarrow> then_run (report st w) (\<lambda>_ w. recv_loop junk seq st w)
           | Found ret \<Rightarrow> Ret (ret, st) w)))"
  by pat_completeness auto
termination
  by (relation "measure (\<lambda>(j, seq, st, w). length (script w))") (auto dest!: sys_recvfrom_consumes report_world)

declare recv_loop.simps [simp del]

text \<open>The time of the arrival is stored unless the alarm came first.\<close>

definition tr_recv :: "int \<Rightarrow> int \<Rightarrow> trace_rt \<Rightarrow> world \<Rightarrow> (int \<times> (int \<times> int) option \<times> trace_rt) run" where
  "tr_recv junk seq st w =
     then_run (call_quietly (C_alarm 3) w) (\<lambda>_ w.
     then_run (recv_loop junk seq (st\<lparr>gotalarm := False\<rparr>) w) (\<lambda>r w. case r of (ret, st) \<Rightarrow>
       if ret = - 3 \<and> gotalarm st then Ret (- 3, None, st) w
       else then_run (call_quietly (C_alarm 0) w) (\<lambda>_ w.
            then_run (Gettimeofday w) (\<lambda>tv w. Ret (ret, Some tv, st) w))))"

section \<open>traceroute/traceloop.c\<close>

definition probe_dest :: "trace_rt \<Rightarrow> int \<Rightarrow> sockaddr" where
  "probe_dest st seq = sock_set_port (tr_sasend st) (uint (htons_int (uint (dport st) + seq)))"

text \<open>The line for a reply; \<open>gni\<close> is \<^verbatim>\<open>getnameinfo\<close>.\<close>

definition show_host :: "(sockaddr \<Rightarrow> string option) \<Rightarrow> trace_rt \<Rightarrow> world \<Rightarrow> trace_rt run" where
  "show_host gni st w =
     (if sock_cmp_addr (tr_sarecv st) (tr_salast st) \<noteq> 0 then
        then_run (Sock_ntop_host (tr_sarecv st) (tr_salen st) w) (\<lambda>h w.
          Ret (st\<lparr>tr_salast := tr_sarecv st\<rparr>)
            (puts ('' '' @ (case gni (tr_sarecv st) of Some str \<Rightarrow> str @ '' ('' @ h @ '')'' | None \<Rightarrow> h)) w))
      else Ret st w)"

definition show_reply ::
  "(sockaddr \<Rightarrow> string option) \<Rightarrow> int \<times> int \<Rightarrow> int \<Rightarrow> int \<times> int \<Rightarrow> int \<Rightarrow> trace_rt \<Rightarrow> world \<Rightarrow> (int \<times> trace_rt) run" where
  "show_reply gni sent code tvrecv dn st w =
     then_run (show_host gni st w) (\<lambda>st w.
       let w = puts (''  '' @ fmt3 (rtt_ms (tv_sub tvrecv sent)) @ '' ms'') w in
       if code = - 1 then Ret (dn + 1, st) w
       else if 0 \<le> code then Ret (dn, st) (puts ('' (ICMP '' @ icmpcode (tr_proto st) code @ '')'') w)
       else Ret (dn, st) w)"

text \<open>One probe: what is passed on are the sequence number, \<^verbatim>\<open>done\<close> and the state.\<close>

definition send_probe ::
  "(sockaddr \<Rightarrow> string option) \<Rightarrow> int \<Rightarrow> int \<Rightarrow> int \<times> int \<times> trace_rt \<Rightarrow> world \<Rightarrow> (int \<times> int \<times> trace_rt) run" where
  "send_probe gni junk ttl p w = (case p of (seq, dn, st) \<Rightarrow>
     let seq = seq + 1 in
     then_run (Gettimeofday w) (\<lambda>sent w.
     let st = st\<lparr>tr_sasend := probe_dest st seq\<rparr> in
     then_run (Sendto (sendfd st) (rec_bytes seq ttl sent) 0 (tr_sasend st) w) (\<lambda>_ w.
     then_run (tr_recv junk seq st w) (\<lambda>r w. case r of (code, tv, st) \<Rightarrow>
       if code = - 3 then Ret (seq, dn, st) (puts '' *'' w)
       else then_run (show_reply gni sent code (case tv of Some tv \<Rightarrow> tv | None \<Rightarrow> (0, 0)) dn st w) (\<lambda>r w.
         Ret (seq, r) w)))))"

fun send_probes ::
  "(sockaddr \<Rightarrow> string option) \<Rightarrow> int \<Rightarrow> int \<Rightarrow> nat \<Rightarrow> int \<times> int \<times> trace_rt \<Rightarrow> world \<Rightarrow> (int \<times> int \<times> trace_rt) run" where
  "send_probes gni junk ttl 0 p w = Ret p w"
| "send_probes gni junk ttl (Suc k) p w =
     then_run (send_probe gni junk ttl p w) (\<lambda>p w. send_probes gni junk ttl k p w)"

text \<open>\<^verbatim>\<open>%2d\<close>.\<close>

definition pad2 :: "int \<Rightarrow> string" where
  "pad2 n = (let s = decz n in replicate (2 - length s) (CHR '' '') @ s)"

lemma recv_loop_consumes: "recv_loop junk seq st w = Ret r w' \<Longrightarrow> length (script w') \<le> length (script w)"
proof (induction junk seq st w arbitrary: r w' rule: recv_loop.induct)
  case (1 junk seq st w)
  show ?case
  proof (cases "gotalarm st")
    case True
    with "1.prems" show ?thesis by (simp add: recv_loop.simps [of junk seq st w])
  next
    case False
    with "1.prems" obtain n data sa w1 where s: "sys_recvfrom (recvfd st) TRACE_BUFSIZE 0 w = Ret (n, data, sa) w1"
      by (auto simp: recv_loop.simps [of junk seq st w] then_run_Ret_iff)
    let ?st = "st\<lparr>tr_recvbuf := data @ drop (length data) (tr_recvbuf st), tr_sarecv := sa\<rparr>"
    have less: "length (script w1) < length (script w)" using s by (rule sys_recvfrom_consumes)
    consider (alarm) "recv_loop junk seq (st\<lparr>gotalarm := True\<rparr>) w1 = Ret r w'" "n < 0" "errno w1 = EINTR"
      | (skip) "0 \<le> n" "tr_verdict (tr_proto ?st) junk ?st seq n = Skip" "recv_loop junk seq ?st w1 = Ret r w'"
      | (rep) w2 where "0 \<le> n" "tr_verdict (tr_proto ?st) junk ?st seq n = Report" "report ?st w1 = Ret () w2"
          "recv_loop junk seq ?st w2 = Ret r w'"
      | (found) "w' = w1"
      using "1.prems" False s
      by (auto simp: recv_loop.simps [of junk seq st w] Let_def err_sys_def then_run_Ret_iff
          split: if_splits verdict.splits)
    then show ?thesis
    proof cases
      case alarm
      from "1.IH"(1) [OF False s refl refl alarm(2,3,1)] less show ?thesis by simp
    next
      case skip
      have "\<not> n < 0" using skip(1) by simp
      from "1.IH"(2) [OF False s refl refl this refl skip(2,3)] less show ?thesis by simp
    next
      case rep
      have "\<not> n < 0" using rep(1) by simp
      from "1.IH"(3) [OF False s refl refl this refl rep(2,3,4)] less report_world [OF rep(3)] show ?thesis by simp
    qed (use less in simp)
  qed
qed

lemma tr_recv_consumes: "tr_recv junk seq st w = Ret r w' \<Longrightarrow> length (script w') \<le> length (script w)"
  by (fastforce simp: tr_recv_def then_run_Ret_iff split: if_splits
      dest!: call_quietly_consumes recv_loop_consumes Gettimeofday_consumes)

lemma show_reply_world: "show_reply gni sent code tv dn st w = Ret r w' \<Longrightarrow> script w' = script w"
  by (auto simp: show_reply_def show_host_def then_run_Ret_iff Let_def puts_def Sock_ntop_host_Ret split: if_splits)

lemma send_probe_consumes: "send_probe gni junk ttl p w = Ret r w' \<Longrightarrow> length (script w') \<le> length (script w)"
  by (fastforce simp: send_probe_def Let_def then_run_Ret_iff puts_def split: if_splits prod.splits
      dest!: Gettimeofday_consumes Sendto_consumes tr_recv_consumes show_reply_world)

lemma send_probes_consumes: "send_probes gni junk ttl k p w = Ret r w' \<Longrightarrow> length (script w') \<le> length (script w)"
  by (induction k arbitrary: p w) (fastforce simp: then_run_Ret_iff dest!: send_probe_consumes)+

function ttl_loop ::
  "(sockaddr \<Rightarrow> string option) \<Rightarrow> int \<Rightarrow> int \<Rightarrow> int \<times> int \<times> trace_rt \<Rightarrow> world \<Rightarrow> (int \<times> int \<times> trace_rt) run" where
  "ttl_loop gni junk ttl p w = (case p of (seq, dn, st) \<Rightarrow>
     if ttl \<le> max_ttl st \<and> dn = 0 then
       then_run (Setsockopt (sendfd st) (tr_ttllevel (tr_proto st)) (tr_ttloptname (tr_proto st)) (OV_int ttl) w) (\<lambda>_ w.
       then_run (send_probes gni junk ttl (nprobes st) (seq, dn, st\<lparr>tr_salast := SA_other 0\<rparr>) (puts (pad2 ttl @ '' '') w)) (\<lambda>p w.
         ttl_loop gni junk (ttl + 1) p (puts [CHR 0x0A] w)))
     else Ret p w)"
  by pat_completeness auto
termination
  by (relation "measure (\<lambda>(g, j, ttl, p, w). length (script w))")
     (auto simp: puts_def dest!: Setsockopt.wrap_consumes send_probes_consumes)

declare ttl_loop.simps [simp del]

text \<open>The ICMPv6 filter passes time exceeded and destination unreachable only.\<close>

definition trace_filter :: bytes where
  "trace_filter = (replicate 32 0xff)[0 := 0xf5]"

fun zero_sockaddr :: "int \<Rightarrow> sockaddr" where
  "zero_sockaddr f = (if f = AF_INET then SA_in 0 in4addr_any
     else if f = AF_INET6 then SA_in6 0 0 in6addr_any 0 else SA_other f)"

definition trace_start :: "trace_rt \<Rightarrow> world \<Rightarrow> trace_rt run" where
  "trace_start st w =
     (let fam = sa_family (tr_sasend st) in
      then_run (Socket fam SOCK_RAW (icmpproto (tr_proto st)) w) (\<lambda>rfd w.
      then_run (sys_int (C_other ''getuid'' []) w) (\<lambda>uid w.
      then_run (call_quietly (C_other ''setuid'' [uid]) w) (\<lambda>_ w.
      then_run (if fam = AF_INET6 \<and> tr_verbose st = 0
                then call_quietly (C_setsockopt rfd IPPROTO_IPV6 ICMP6_FILTER (OV_bytes trace_filter)) w
                else Ret () w) (\<lambda>_ w.
      then_run (Socket fam SOCK_DGRAM 0 w) (\<lambda>sfd w.
      then_run (sys_int (C_other ''getpid'' []) w) (\<lambda>pid w.
      let prt = word_of_int ((pid AND 0xffff) OR 0x8000) in
      then_run (Bind sfd (sock_set_port (zero_sockaddr fam) (uint (htons_int (uint (prt :: u16))))) w) (\<lambda>_ w.
        Ret (st\<lparr>recvfd := rfd, sendfd := sfd, sport := prt, gotalarm := True\<rparr>) w))))))))"

definition traceloop :: "(sockaddr \<Rightarrow> string option) \<Rightarrow> int \<Rightarrow> trace_rt \<Rightarrow> world \<Rightarrow> (int \<times> int \<times> trace_rt) run" where
  "traceloop gni junk st w = then_run (trace_start st w) (\<lambda>st w. ttl_loop gni junk 1 (0, 0, st) w)"

section \<open>traceroute/main.c\<close>

text \<open>
  \<open>opts\<close> are the letters \<^verbatim>\<open>getopt\<close> returns with their arguments, \<open>args\<close> what it leaves of the command
  line.
\<close>

fun trace_options :: "(char \<times> string) list \<Rightarrow> int \<times> int \<Rightarrow> world \<Rightarrow> (int \<times> int) run" where
  "trace_options [] mv w = Ret mv w"
| "trace_options ((c, optarg) # cs) mv w =
     (if c = CHR ''m'' then
        (if atoi optarg \<le> 1 then err_quit ''invalid -m value'' w else trace_options cs (atoi optarg, snd mv) w)
      else if c = CHR ''v'' then trace_options cs (fst mv, snd mv + 1) w
      else if c = CHR ''?'' then err_quit (''unrecognized option: '' @ [c]) w
      else trace_options cs mv w)"

definition trace_main ::
  "gai \<Rightarrow> (int \<Rightarrow> string) \<Rightarrow> (sockaddr \<Rightarrow> string option) \<Rightarrow> int \<Rightarrow> int \<Rightarrow> (char \<times> string) list \<Rightarrow> string list \<Rightarrow>
     world \<Rightarrow> unit run" where
  "trace_main gai gai_strerror gni junk sig_alrm opts args w =
     then_run (trace_options opts (30, 0) w) (\<lambda>mv w.
     if length args \<noteq> 1 then err_quit ''usage: traceroute [ -m <maxttl> -v ] <hostname>'' w
     else
       then_run (sys_int (C_other ''getpid'' []) w) (\<lambda>_ w.
       then_run (Signal SIGALRM sig_alrm w) (\<lambda>_ w.
       then_run (Host_serv gai gai_strerror (Some (hd args)) None 0 0 w) (\<lambda>ais w.
       let ai = hd ais in
       then_run (Sock_ntop_host (ai_addr ai) (ai_addrlen ai) w) (\<lambda>h w.
       let w = puts (''traceroute to '' @ (case ai_canonname ai of Some n \<Rightarrow> n | None \<Rightarrow> h) @ '' ('' @ h @ ''): '' @
             decz (fst mv) @ '' hops max, '' @ dec 24 @ '' data bytes'' @ [CHR 0x0A]) w in
       then_run (if ai_family ai = AF_INET then Ret Proto_v4 w
                 else if ai_family ai = AF_INET6 then
                   (case ai_addr ai of
                      SA_in6 port flow addr scope \<Rightarrow>
                        if in6_is_v4mapped addr then err_quit ''cannot traceroute IPv4-mapped IPv6 address'' w
                        else Ret Proto_v6 w
                    | _ \<Rightarrow> Ret Proto_v6 w)
                 else err_quit (''unknown address family '' @ decz (ai_family ai)) w) (\<lambda>pr w.
       then_run (Calloc 1 (ai_addrlen ai) w) (\<lambda>_ w.
       then_run (Calloc 1 (ai_addrlen ai) w) (\<lambda>_ w.
       then_run (Calloc 1 (ai_addrlen ai) w) (\<lambda>_ w.
       then_run (traceloop gni junk \<lparr>tr_recvbuf = replicate TRACE_BUFSIZE 0, sport = 0, dport = 33434, nprobes = 3,
           sendfd = 0, recvfd = 0, max_ttl = fst mv, tr_verbose = snd mv, gotalarm = False, tr_proto = pr,
           tr_sasend = ai_addr ai, tr_sarecv = SA_other 0, tr_salast = SA_other 0, tr_salen = ai_addrlen ai\<rparr> w)
         (\<lambda>_ w. Exit 0 w))))))))))"

section \<open>Finding the reply to a probe\<close>

text \<open>A message that answers the probe, and what it means.\<close>

definition answers :: "trace_rt \<Rightarrow> int \<Rightarrow> returned \<Rightarrow> bool" where
  "answers st seq p \<longleftrightarrow> (r_type p = ICMP_TIMXCEED \<and> r_code p = ICMP_TIMXCEED_INTRANS \<or> r_type p = ICMP_UNREACH) \<and>
     r_sport p = htons_int (uint (sport st)) \<and> r_dport p = htons_int (uint (dport st) + seq)"

definition meaning :: "returned \<Rightarrow> int" where
  "meaning p = (if r_type p = ICMP_TIMXCEED then - 2
     else if r_code p = ICMP_UNREACH_PORT then - 1 else uint (r_code p))"

lemma inner_v4_packet:
  assumes ok: "returned_ok p" and hip: "hip = r_inner p @ r_dst p @ r_options p @
     [lo8 (r_sport p), hi8 (r_sport p), lo8 (r_dport p), hi8 (r_dport p)] @ r_rest p @ tail"
  shows "inner_v4 st seq hip (int (length (packet p)) - int (length (r_outer p))) code =
    (if r_sport p = htons_int (uint (sport st)) \<and> r_dport p = htons_int (uint (dport st) + seq) then Found code else Report)"
proof -
  note h = header_parts [OF ok hip]
  have hd: "hip ! 0 = hd (r_inner p)"
    using ok by (cases "r_inner p") (auto simp: returned_ok_def hip)
  have len: "\<not> int (length (packet p)) - int (length (r_outer p)) < 8 + 20"
    "\<not> int (length (packet p)) - int (length (r_outer p)) < 8 + int (4 * (unat (hip ! 0) mod 16)) + 4"
    using ok unfolding hd by (simp_all add: returned_ok_def packet_def)
  show ?thesis
    unfolding inner_v4_def Let_def if_not_P [OF len(1)] if_not_P [OF len(2)] is_probe_def h by simp
qed

lemma verdict_v4_packet:
  assumes ok: "returned_ok p" and buf: "tr_recvbuf st = packet p @ tail" and pr: "tr_proto st = Proto_v4"
  shows "tr_verdict (tr_proto st) junk st seq (int (length (packet p))) =
    (if answers st seq p then Found (meaning p) else Report)"
proof -
  note pp = packet_parts [OF ok buf]
  note inner = inner_v4_packet [OF ok pp(4)]
  have len: "\<not> int (length (packet p)) - int (length (r_outer p)) < 8"
    using ok by (simp add: returned_ok_def packet_def)
  have ne: "ICMP_TIMXCEED \<noteq> ICMP_UNREACH" by (simp add: ICMP_TIMXCEED_def ICMP_UNREACH_def)
  have "verdict_v4 st seq (int (length (packet p))) (length (r_outer p)) =
     (if answers st seq p then Found (meaning p) else Report)"
    unfolding verdict_v4_def Let_def if_not_P [OF len] pp(2,3) inner answers_def meaning_def using ne by auto
  then show ?thesis by (simp only: pr tr_verdict.simps tr_hlen1.simps pp(1))
qed

text \<open>Messages about other datagrams are passed over.\<close>

lemma recv_loop_packet:
  assumes ok: "returned_ok p" and len: "length (packet p) \<le> TRACE_BUFSIZE"
    and st: "\<not> gotalarm st" "tr_proto st = Proto_v4" "tr_verbose st = 0"
    and script: "script w = a # s" "a_err a = 0" "a_data a = packet p"
  obtains st1 where "tr_proto st1 = Proto_v4" "\<not> gotalarm st1" "tr_verbose st1 = 0" "sport st1 = sport st" "dport st1 = dport st"
    "tr_sarecv st1 = a_addr a"
    "recv_loop junk seq st w = (if answers st seq p then Ret (meaning p, st1) (called (C_recvfrom (recvfd st) TRACE_BUFSIZE 0) a s w)
       else recv_loop junk seq st1 (called (C_recvfrom (recvfd st) TRACE_BUFSIZE 0) a s w))"
proof -
  let ?st1 = "st\<lparr>tr_recvbuf := packet p @ drop (length (packet p)) (tr_recvbuf st), tr_sarecv := a_addr a\<rparr>"
  let ?w = "called (C_recvfrom (recvfd st) TRACE_BUFSIZE 0) a s w"
  have buf: "tr_recvbuf ?st1 = packet p @ drop (length (packet p)) (tr_recvbuf st)" by simp
  have v: "tr_verdict (tr_proto ?st1) junk ?st1 seq (int (length (packet p))) =
      (if answers ?st1 seq p then Found (meaning p) else Report)"
    by (rule verdict_v4_packet [OF ok buf]) (simp add: st)
  have recv: "sys_recvfrom (recvfd st) TRACE_BUFSIZE 0 w = Ret (int (length (packet p)), packet p, a_addr a) ?w"
    using script len by (simp add: sys_recvfrom_def sys_def)
  have ans: "answers ?st1 seq p = answers st seq p" by (simp add: answers_def)
  have rep: "report ?st1 ?w = Ret () ?w" using st by (simp add: report_def)
  show thesis
    by (rule that [of ?st1])
      (use st v recv ans rep in \<open>simp_all add: recv_loop.simps [of junk seq st w] Let_def run_simps\<close>)
qed

text \<open>The message that arrives with an answer.\<close>

definition brings :: "returned \<Rightarrow> answer \<Rightarrow> bool" where
  "brings p a \<longleftrightarrow> returned_ok p \<and> length (packet p) \<le> TRACE_BUFSIZE \<and> a_err a = 0 \<and> a_data a = packet p"

lemma recv_loop_finds:
  assumes "list_all2 brings qs as" and "\<forall>q \<in> set qs. \<not> answers st seq q" and "brings p a" and "answers st seq p"
    and "\<not> gotalarm st" "tr_proto st = Proto_v4" "tr_verbose st = 0" and "script w = as @ a # s"
  shows "\<exists>st' w'. recv_loop junk seq st w = Ret (meaning p, st') w' \<and> script w' = s \<and> tr_sarecv st' = a_addr a \<and>
    \<not> gotalarm st'"
  using assms
proof (induction qs as arbitrary: st w rule: list_all2_induct)
  case Nil
  then have scr: "script w = a # s" "a_err a = 0" "a_data a = packet p" and p: "returned_ok p" "length (packet p) \<le> TRACE_BUFSIZE"
    by (simp_all add: brings_def)
  from Nil obtain st1 where "\<not> gotalarm st1" "tr_sarecv st1 = a_addr a"
    "recv_loop junk seq st w = Ret (meaning p, st1) (called (C_recvfrom (recvfd st) TRACE_BUFSIZE 0) a s w)"
    by (metis recv_loop_packet [OF p _ _ _ scr])
  then show ?case by simp
next
  case (Cons q qs b as)
  then have scr: "script w = b # (as @ a # s)" "a_err b = 0" "a_data b = packet q" and q: "returned_ok q" "length (packet q) \<le> TRACE_BUFSIZE"
    by (simp_all add: brings_def)
  from Cons.prems(1) have no: "\<not> answers st seq q" by simp
  from Cons.prems obtain st1 where st1: "tr_proto st1 = Proto_v4" "\<not> gotalarm st1" "tr_verbose st1 = 0"
    "sport st1 = sport st" "dport st1 = dport st"
    "recv_loop junk seq st w = recv_loop junk seq st1 (called (C_recvfrom (recvfd st) TRACE_BUFSIZE 0) b (as @ a # s) w)"
    using no by (metis recv_loop_packet [OF q _ _ _ scr])
  have "answers st1 seq r = answers st seq r" for r using st1(4,5) by (simp add: answers_def)
  with Cons.prems Cons.IH [of st1 "called (C_recvfrom (recvfd st) TRACE_BUFSIZE 0) b (as @ a # s) w"] st1
  show ?case by simp
qed

text \<open>
  (C35) Waiting for the reply to a probe: after any number of ICMP messages that return other datagrams
  (with any IP options), the message that returns the probe itself is recognised, and the result tells
  an intermediate router (-2), the destination (-1) and the other unreachable codes apart; the time of
  the arrival is taken then.
\<close>

theorem traceroute_finds_reply:
  assumes "list_all2 brings qs as" and "\<forall>q \<in> set qs. \<not> answers st seq q" and "brings p a" and "answers st seq p"
    and "tr_proto st = Proto_v4" and "tr_verbose st = 0"
    and "script w = t # as @ [a, t', b] @ s" and "a_err b = 0"
  shows "\<exists>st' w'. tr_recv junk seq st w = Ret (meaning p, Some (a_time b), st') w' \<and> script w' = s \<and>
    tr_sarecv st' = a_addr a"
proof -
  let ?w = "called (C_alarm 3) t (as @ [a, t', b] @ s) w"
  have ans: "answers (st\<lparr>gotalarm := False\<rparr>) seq = answers st seq" by (simp add: answers_def fun_eq_iff)
  obtain st1 w1 where r: "recv_loop junk seq (st\<lparr>gotalarm := False\<rparr>) ?w = Ret (meaning p, st1) w1"
    "script w1 = t' # b # s" "tr_sarecv st1 = a_addr a" "\<not> gotalarm st1"
    using recv_loop_finds [of qs as "st\<lparr>gotalarm := False\<rparr>" seq p a ?w "t' # b # s" junk] assms ans by auto
  have "call_quietly (C_alarm 3) w = Ret () ?w"
    using assms(7) by (simp add: call_quietly_def void_def sys_def run_simps)
  moreover have "call_quietly (C_alarm 0) w1 = Ret () (called (C_alarm 0) t' (b # s) w1)"
    using r(2) by (simp add: call_quietly_def void_def sys_def run_simps)
  moreover have "Gettimeofday (called (C_alarm 0) t' (b # s) w1) =
      Ret (a_time b) (called C_gettimeofday b s (called (C_alarm 0) t' (b # s) w1))"
    using assms(8) by (simp add: Gettimeofday_Ret)
  ultimately show ?thesis using r by (simp add: tr_recv_def run_simps)
qed

text \<open>
  An example: a router at 10.0.0.254 returns another program's datagram, then the third probe, sent from port
  34567 to port 33437.
\<close>

definition trace_example :: trace_rt where
  "trace_example = \<lparr>tr_recvbuf = [], sport = 34567, dport = 33434, nprobes = 3, sendfd = 4, recvfd = 3, max_ttl = 30,
     tr_verbose = 0, gotalarm = False, tr_proto = Proto_v4, tr_sasend = SA_in 0 [10, 0, 0, 1],
     tr_sarecv = SA_other 0, tr_salast = SA_other 0, tr_salen = 16\<rparr>"

definition exceeded :: "u16 \<Rightarrow> returned" where
  "exceeded port = \<lparr>r_outer = 0x45 # replicate 19 0, r_type = 11, r_code = 0, r_check = replicate 6 0,
     r_inner = [0x45, 0, 0, 0, 0, 0, 0, 0, 0, 17, 0, 0, 0, 0, 0, 0], r_dst = [10, 0, 0, 1], r_options = [],
     r_sport = htons_int 34567, r_dport = port, r_rest = replicate 4 0\<rparr>"

definition exceeded_answer :: "u16 \<Rightarrow> answer" where
  "exceeded_answer port = (got (packet (exceeded port)))\<lparr>a_addr := SA_in 0 [10, 0, 0, 254]\<rparr>"

lemma exceeded_brings: "brings (exceeded port) (exceeded_answer port)"
  by (simp add: brings_def exceeded_answer_def got_def returned_ok_def exceeded_def packet_def TRACE_BUFSIZE_def
      IPPROTO_UDP_def)

theorem traceroute_finds_reply_witness:
  "\<exists>t st' w'. tr_recv 0 3 trace_example (boot ([gave 0, exceeded_answer 7, exceeded_answer (htons_int 33437), gave 0, gave 0])) =
     Ret (- 2, t, st') w' \<and> tr_sarecv st' = SA_in 0 [10, 0, 0, 254]"
proof -
  let ?p = "htons_int 33437"
  have "\<not> answers trace_example 3 (exceeded 7)"
    by (simp add: answers_def exceeded_def trace_example_def htons_int_def ntohs_def le16_def lo8_def hi8_def)
  then have other: "list_all2 brings [exceeded 7] [exceeded_answer 7]" "\<forall>q \<in> set [exceeded 7]. \<not> answers trace_example 3 q"
    by (simp_all add: exceeded_brings)
  have ours: "answers trace_example 3 (exceeded ?p)"
    by (simp add: answers_def exceeded_def trace_example_def ICMP_TIMXCEED_def ICMP_TIMXCEED_INTRANS_def)
  have meaning: "meaning (exceeded ?p) = - 2" by (simp add: meaning_def exceeded_def ICMP_TIMXCEED_def)
  have st: "tr_proto trace_example = Proto_v4" "tr_verbose trace_example = 0" "a_err (gave 0) = 0"
    by (simp_all add: trace_example_def gave_def)
  have "\<exists>st' w'. tr_recv 0 3 trace_example (boot ([gave 0, exceeded_answer 7, exceeded_answer ?p, gave 0, gave 0])) =
      Ret (meaning (exceeded ?p), Some (a_time (gave 0)), st') w' \<and> script w' = [] \<and>
      tr_sarecv st' = a_addr (exceeded_answer ?p)"
    by (rule traceroute_finds_reply [OF other exceeded_brings ours st(1,2) _ st(3)]) simp
  then show ?thesis by (auto simp: meaning exceeded_answer_def)
qed

section \<open>The time exceeded branch of recv_v6\<close>

text \<open>
  Any time exceeded message that is long enough ends the wait, whatever datagram it returns; when it is not
  the probe the result is a variable that was never set.
\<close>

lemma recv_v6_uses_unset:
  assumes "52 \<le> n" and "tr_recvbuf st ! 0 = ICMP6_TIME_EXCEEDED" and "tr_recvbuf st ! 1 = ICMP6_TIME_EXCEED_TRANSIT"
    and "\<not> is_probe st seq (drop 8 (tr_recvbuf st) ! 6) (drop 40 (drop 8 (tr_recvbuf st)))"
  shows "tr_verdict Proto_v6 junk st seq n = Found junk"
  using assms by (simp add: verdict_v6_def Let_def)

section \<open>The probes\<close>

text \<open>What the program does to the network: it sets a hop limit, or sends a probe to an address.\<close>

datatype hop = TTL int | To sockaddr

fun hop_ev :: "event \<Rightarrow> hop list" where
  "hop_ev (Sys (C_setsockopt fd l n (OV_int t)) a) = [TTL t]"
| "hop_ev (Sys (C_sendto fd b fl sa) a) = [To sa]"
| "hop_ev _ = []"

definition hops :: "event list \<Rightarrow> hop list" where
  "hops es = concat (map hop_ev es)"

lemma hops_simps [simp]: "hops [] = []" "hops (e # es) = hop_ev e @ hops es" "hops (es @ es') = hops es @ hops es'"
  by (simp_all add: hops_def)

text \<open>
  The plan: for each hop limit from \<open>ttl\<close> on, \<open>m\<close> of them, set it and send the probes, each to the next
  port.
\<close>

definition probe_round :: "trace_rt \<Rightarrow> int \<Rightarrow> nat \<Rightarrow> hop list" where
  "probe_round st seq k = map (\<lambda>i. To (probe_dest st (seq + 1 + int i))) [0..<k]"

fun plan :: "trace_rt \<Rightarrow> int \<Rightarrow> int \<Rightarrow> nat \<Rightarrow> hop list" where
  "plan st seq ttl 0 = []"
| "plan st seq ttl (Suc m) = TTL ttl # probe_round st seq (nprobes st) @ plan st (seq + int (nprobes st)) (ttl + 1) m"

text \<open>What the plan depends on.\<close>

definition same_target :: "trace_rt \<Rightarrow> trace_rt \<Rightarrow> bool" where
  "same_target st st' \<longleftrightarrow> probe_dest st' = probe_dest st \<and> nprobes st' = nprobes st \<and> max_ttl st' = max_ttl st"

lemma same_target_plan: "same_target st st' \<Longrightarrow> plan st' seq ttl m = plan st seq ttl m"
  by (induction m arbitrary: seq ttl) (simp_all add: same_target_def probe_round_def)

lemma same_target_round: "same_target st st' \<Longrightarrow> probe_round st' seq k = probe_round st seq k"
  by (simp add: same_target_def probe_round_def)

lemma same_target_trans: "same_target a b \<Longrightarrow> same_target b c \<Longrightarrow> same_target a c"
  by (simp add: same_target_def)

lemma same_target_fields [simp]:
  "same_target st (st\<lparr>gotalarm := g\<rparr>)" "same_target st (st\<lparr>tr_salast := sa\<rparr>)" "same_target st st"
  "same_target st (st\<lparr>tr_recvbuf := b, tr_sarecv := sa\<rparr>)"
  by (simp_all add: same_target_def probe_dest_def fun_eq_iff)

lemma sock_set_port_twice [simp]: "sock_set_port (sock_set_port sa p) q = sock_set_port sa q"
  by (cases sa) simp_all

lemma same_target_dest [simp]: "same_target st (st\<lparr>tr_sasend := probe_dest st n\<rparr>)"
  by (simp add: same_target_def probe_dest_def fun_eq_iff)

text \<open>Waiting and reporting neither set a limit nor send.\<close>

abbreviation still :: "'a run \<Rightarrow> world \<Rightarrow> bool" where
  "still \<equiv> only (\<lambda>e. hop_ev e = [])"

lemmas still_err [simp] = only_err [of "\<lambda>e. hop_ev e = []", simplified]

lemma still_sys: "(\<And>a. hop_ev (Sys c a) = []) \<Longrightarrow> still (sys c w) w"
  by (rule only_sys)

lemma still_quiet: "(\<And>a. hop_ev (Sys c a) = []) \<Longrightarrow> still (call_quietly c w) w"
  unfolding call_quietly_def void_def by (rule only_then [OF only_sys]) simp_all

lemma still_puts: "still m (puts s w) \<Longrightarrow> still m w"
  unfolding puts_def by (erule only_emit) simp

lemma still_puts_Ret [simp]: "still (Ret x (puts s w)) w"
  by (rule still_puts [where s = s]) simp

lemma still_puts_twice [simp]: "still (Ret x (puts s (puts t w))) w"
  by (rule still_puts [where s = t]) simp

lemma still_set_errno: "still m (set_errno e w) \<Longrightarrow> still m w"
  by (simp add: only_def set_errno_def)

lemma still_Sock_ntop_host: "still (Sock_ntop_host sa n w) w"
  unfolding Sock_ntop_host_def by (auto split: sum.split intro: still_set_errno [OF still_err(2)])

lemma still_report: "still (report st w) w"
  unfolding report_def Let_def by (auto intro: only_then [OF still_Sock_ntop_host])

lemma still_recvfrom: "still (sys_recvfrom fd n fl w) w"
  unfolding sys_recvfrom_def by (rule only_then [OF only_sys]) simp_all

lemma still_Gettimeofday: "still (Gettimeofday w) w"
  unfolding Gettimeofday_def sys_time_def checked_def
  by (cases "script w") (auto simp: only_def sys_def err_sys_def err_doit_def Let_def emit_def)

text \<open>A run that is still and keeps the target.\<close>

definition steady :: "trace_rt \<Rightarrow> ('a \<Rightarrow> trace_rt) \<Rightarrow> 'a run \<Rightarrow> world \<Rightarrow> bool" where
  "steady st f m w \<longleftrightarrow> still m w \<and> (\<forall>r w'. m = Ret r w' \<longrightarrow> same_target st (f r))"

lemma steady_then:
  "still m w \<Longrightarrow> (\<And>x w'. m = Ret x w' \<Longrightarrow> steady st f (g x w') w') \<Longrightarrow> steady st f (then_run m g) w"
proof -
  assume m: "still m w" and g: "\<And>x w'. m = Ret x w' \<Longrightarrow> steady st f (g x w') w'"
  have "still (then_run m g) w" by (rule only_then [OF m]) (use g in \<open>auto simp: steady_def\<close>)
  then show ?thesis using g by (auto simp: steady_def then_run_Ret_iff)
qed

lemma steady_Ret: "same_target st (f x) \<Longrightarrow> steady st f (Ret x w) w"
  by (simp add: steady_def)

lemma steady_err: "steady st f (err_sys m w) w"
  by (simp add: steady_def) (simp add: err_sys_def)

lemma steady_other: "same_target st st' \<Longrightarrow> steady st' f m w \<Longrightarrow> steady st f m w"
  by (auto simp: steady_def intro: same_target_trans)

lemma recv_loop_steady: "steady st snd (recv_loop junk seq st w) w"
proof (induction junk seq st w rule: recv_loop.induct)
  case (1 junk seq st w)
  show ?case
  proof (cases "gotalarm st")
    case True
    then show ?thesis by (simp add: recv_loop.simps [of junk seq st w] steady_Ret)
  next
    case False
    show ?thesis
      unfolding recv_loop.simps [of junk seq st w] if_not_P [OF False]
    proof (rule steady_then [OF still_recvfrom])
      fix r and w1 :: world
      assume r: "sys_recvfrom (recvfd st) TRACE_BUFSIZE 0 w = Ret r w1"
      obtain n data sa where [simp]: "r = (n, data, sa)" by (metis prod_cases3)
      have r': "sys_recvfrom (recvfd st) TRACE_BUFSIZE 0 w = Ret (n, data, sa) w1" using r by simp
      define st1 where "st1 = st\<lparr>tr_recvbuf := data @ drop (length data) (tr_recvbuf st), tr_sarecv := sa\<rparr>"
      have tgt: "same_target st st1" by (simp add: st1_def)
      note IH = "1.IH" [OF False r' refl refl]
      have alarm: "steady st snd (recv_loop junk seq (st\<lparr>gotalarm := True\<rparr>) w1) w1" if "n < 0" "errno w1 = EINTR"
        using IH(1) that by (auto intro: steady_other [rotated])
      have skip: "steady st snd (recv_loop junk seq st1 w1) w1" if "\<not> n < 0" "tr_verdict (tr_proto st1) junk st1 seq n = Skip"
        using IH(2) that tgt by (auto simp: st1_def intro: steady_other [rotated])
      have rep: "steady st snd (then_run (report st1 w1) (\<lambda>_ w. recv_loop junk seq st1 w)) w1"
        if "\<not> n < 0" "tr_verdict (tr_proto st1) junk st1 seq n = Report"
        by (rule steady_then [OF still_report], rule steady_other [OF tgt])
          (use IH(3) that in \<open>auto simp: st1_def\<close>)
      show "steady st snd (case r of (n, data, sa) \<Rightarrow>
        if n < 0 then
          (if errno w1 = EINTR then recv_loop junk seq (st\<lparr>gotalarm := True\<rparr>) w1 else err_sys ''recvfrom error'' w1)
        else
          let st = st\<lparr>tr_recvbuf := data @ drop (length data) (tr_recvbuf st), tr_sarecv := sa\<rparr> in
          (case tr_verdict (tr_proto st) junk st seq n of
             Skip \<Rightarrow> recv_loop junk seq st w1
           | Report \<Rightarrow> then_run (report st w1) (\<lambda>_ w. recv_loop junk seq st w)
           | Found ret \<Rightarrow> Ret (ret, st) w1)) w1"
        using alarm skip rep tgt
        by (auto simp: Let_def steady_Ret steady_err st1_def [symmetric] split: verdict.split)
    qed
  qed
qed

lemma same_target_gotalarm [simp]: "same_target (st\<lparr>gotalarm := g\<rparr>) = same_target st"
  by (auto simp: same_target_def fun_eq_iff probe_dest_def)

lemma tr_recv_steady: "steady st (\<lambda>r. snd (snd r)) (tr_recv junk seq st w) w"
  unfolding tr_recv_def
proof (rule steady_then [OF still_quiet])
  fix x and w1 :: world
  let ?m = "recv_loop junk seq (st\<lparr>gotalarm := False\<rparr>) w1"
  have m: "still ?m w1" "\<And>r w2. ?m = Ret r w2 \<Longrightarrow> same_target st (snd r)"
    using recv_loop_steady [of "st\<lparr>gotalarm := False\<rparr>" junk seq w1] by (simp_all add: steady_def)
  show "steady st (\<lambda>r. snd (snd r)) (then_run ?m (\<lambda>r w. case r of (ret, st) \<Rightarrow>
       if ret = - 3 \<and> gotalarm st then Ret (- 3, None, st) w
       else then_run (call_quietly (C_alarm 0) w) (\<lambda>_ w.
            then_run (Gettimeofday w) (\<lambda>tv w. Ret (ret, Some tv, st) w)))) w1"
  proof (rule steady_then [OF m(1)])
    fix r :: "int \<times> trace_rt" and w2 :: world
    assume "?m = Ret r w2"
    then have "same_target st (snd r)" by (rule m(2))
    then show "steady st (\<lambda>r. snd (snd r)) (case r of (ret, st) \<Rightarrow>
       if ret = - 3 \<and> gotalarm st then Ret (- 3, None, st) w2
       else then_run (call_quietly (C_alarm 0) w2) (\<lambda>_ w.
            then_run (Gettimeofday w) (\<lambda>tv w. Ret (ret, Some tv, st) w))) w2"
      by (cases r) (auto intro!: steady_Ret steady_then [OF still_quiet] steady_then [OF still_Gettimeofday])
  qed
qed simp

text \<open>A step of the loops: it may stop before or after what it adds to the plan.\<close>

abbreviation along :: "hop list \<Rightarrow> event list \<Rightarrow> bool" where
  "along hs es \<equiv> prefix (hops es) hs"

lemma keeps_still:
  assumes "still m w" and "along hs (trace w)"
  shows "keeps (along hs) m (\<lambda>_ w'. hops (trace w') = hops (trace w))"
proof -
  from assms(1) obtain es where es: "trace (world_of m) = trace w @ es" "\<forall>e \<in> set es. hop_ev e = []"
    by (auto simp: only_def)
  then have "hops es = []" by (auto simp: hops_def)
  with es assms show ?thesis by (auto simp: keeps_def)
qed

lemma keeps_Sendto:
  assumes "prefix (hops (trace w) @ [To sa]) hs" and "\<And>w'. hops (trace w') = hops (trace w) @ [To sa] \<Longrightarrow> Q () w'"
  shows "keeps (along hs) (Sendto fd b fl sa w) Q"
proof -
  have "along hs (trace w)" using assms(1) by (rule append_prefixD)
  then show ?thesis using assms
    by (cases "script w")
      (auto simp: Sendto_def checked_def sys_accepts_def sys_def void_def err_sys_def err_doit_def Let_def emit_def keeps_def)
qed

lemma still_show_reply: "still (show_reply gni sent code tv dn st w) w"
  unfolding show_reply_def show_host_def Let_def
  by (intro only_then) (auto intro: only_then [OF still_Sock_ntop_host] still_puts)

lemma show_reply_keeps: "show_reply gni sent code tv dn st w = Ret r w' \<Longrightarrow> same_target st (snd r) \<and> dn \<le> fst r"
  by (auto simp: show_reply_def show_host_def then_run_Ret_iff Let_def puts_def split: if_splits)

lemma keeps_send_probe:
  assumes "prefix (hops (trace w) @ [To (probe_dest st (seq + 1))]) hs"
  shows "keeps (along hs) (send_probe gni junk ttl (seq, dn, st) w) (\<lambda>p w'.
    hops (trace w') = hops (trace w) @ [To (probe_dest st (seq + 1))] \<and> fst p = seq + 1 \<and> dn \<le> fst (snd p) \<and>
    same_target st (snd (snd p)))"
  (is "keeps _ _ ?Q")
proof -
  have al: "along hs (trace w)" using assms by (rule append_prefixD)
  let ?st = "st\<lparr>tr_sasend := probe_dest st (seq + 1)\<rparr>"
  show ?thesis
    unfolding send_probe_def Let_def prod.case
  proof (rule keeps_then [OF keeps_still [OF still_Gettimeofday al]], rule keeps_then)
    fix sent and w1 :: world
    assume "hops (trace w1) = hops (trace w)"
    with assms show "keeps (along hs) (Sendto (sendfd ?st) (rec_bytes (seq + 1) ttl sent) 0 (tr_sasend ?st) w1)
      (\<lambda>_ w'. hops (trace w') = hops (trace w) @ [To (probe_dest st (seq + 1))])"
      by (intro keeps_Sendto) simp_all
    fix x and w2 :: world
    assume w2: "hops (trace w2) = hops (trace w) @ [To (probe_dest st (seq + 1))]"
    have st: "steady ?st (\<lambda>r. snd (snd r)) (tr_recv junk (seq + 1) ?st w2) w2" by (rule tr_recv_steady)
    show "keeps (along hs) (then_run (tr_recv junk (seq + 1) ?st w2) (\<lambda>r w. case r of (code, tv, st) \<Rightarrow>
       if code = - 3 then Ret (seq + 1, dn, st) (puts '' *'' w)
       else then_run (show_reply gni sent code (case tv of Some tv \<Rightarrow> tv | None \<Rightarrow> (0, 0)) dn st w) (\<lambda>r w.
         Ret (seq + 1, r) w))) ?Q"
    proof (rule keeps_then [OF keeps_still])
      fix r :: "int \<times> (int \<times> int) option \<times> trace_rt" and w3 :: world
      obtain code tv st3 where r: "r = (code, tv, st3)" by (metis prod_cases3)
      assume "tr_recv junk (seq + 1) ?st w2 = Ret r w3" and "hops (trace w3) = hops (trace w2)"
      then have w3: "hops (trace w3) = hops (trace w) @ [To (probe_dest st (seq + 1))]" and st3: "same_target st st3"
        using st w2 r by (auto simp: steady_def intro: same_target_trans [OF same_target_dest])
      have "keeps (along hs) (then_run (show_reply gni sent code (case tv of Some tv \<Rightarrow> tv | None \<Rightarrow> (0, 0)) dn st3 w3)
          (\<lambda>r w. Ret (seq + 1, r) w)) ?Q"
      proof (rule keeps_then [OF keeps_still [OF still_show_reply]])
        fix r :: "int \<times> trace_rt" and w4 :: world
        assume "show_reply gni sent code (case tv of Some tv \<Rightarrow> tv | None \<Rightarrow> (0, 0)) dn st3 w3 = Ret r w4"
          and "hops (trace w4) = hops (trace w3)"
        with w3 st3 assms show "keeps (along hs) (Ret (seq + 1, r) w4) ?Q"
          by (auto intro!: keeps_Ret dest!: show_reply_keeps intro: same_target_trans)
      qed (use w3 assms in simp_all)
      with w3 st3 assms show "keeps (along hs) (case r of (code, tv, st) \<Rightarrow>
         if code = - 3 then Ret (seq + 1, dn, st) (puts '' *'' w3)
         else then_run (show_reply gni sent code (case tv of Some tv \<Rightarrow> tv | None \<Rightarrow> (0, 0)) dn st w3) (\<lambda>r w.
           Ret (seq + 1, r) w)) ?Q"
        by (auto simp: r intro!: keeps_Ret simp: puts_def)
    qed (use st w2 assms in \<open>simp_all add: steady_def\<close>)
  qed
qed

text \<open>The rounds.\<close>

lemma probe_round_Suc: "probe_round st seq (Suc k) = To (probe_dest st (seq + 1)) # probe_round st (seq + 1) k"
  by (simp add: probe_round_def upt_conv_Cons map_Suc_upt [symmetric] add.assoc del: upt_Suc)

lemma keeps_send_probes:
  assumes "same_target st0 st" and "prefix (hops (trace w) @ probe_round st0 seq k) hs"
  shows "keeps (along hs) (send_probes gni junk ttl k (seq, dn, st) w) (\<lambda>p w'.
    hops (trace w') = hops (trace w) @ probe_round st0 seq k \<and> fst p = seq + int k \<and> dn \<le> fst (snd p) \<and>
    same_target st0 (snd (snd p)))"
  using assms
proof (induction k arbitrary: seq dn st w)
  case 0
  then show ?case by (auto simp: probe_round_def intro!: keeps_Ret)
next
  case (Suc k)
  have dest: "probe_dest st (seq + 1) = probe_dest st0 (seq + 1)" using Suc.prems(1) by (simp add: same_target_def)
  show ?case
    unfolding send_probes.simps
  proof (rule keeps_then [OF keeps_send_probe])
    show "prefix (hops (trace w) @ [To (probe_dest st (seq + 1))]) hs"
      using Suc.prems(2) unfolding dest probe_round_Suc
      by (metis append_Cons append_Nil append_assoc append_prefixD)
    fix p :: "int \<times> int \<times> trace_rt" and w1 :: world
    obtain seq1 dn1 st1 where p: "p = (seq1, dn1, st1)" by (metis prod_cases3)
    assume "hops (trace w1) = hops (trace w) @ [To (probe_dest st (seq + 1))] \<and> fst p = seq + 1 \<and>
      dn \<le> fst (snd p) \<and> same_target st (snd (snd p))"
    then have one: "hops (trace w1) = hops (trace w) @ [To (probe_dest st0 (seq + 1))]" "seq1 = seq + 1" "dn \<le> dn1"
      "same_target st0 st1" using Suc.prems(1) by (auto simp: p dest intro: same_target_trans)
    have "keeps (along hs) (send_probes gni junk ttl k (seq1, dn1, st1) w1) (\<lambda>p w'.
      hops (trace w') = hops (trace w1) @ probe_round st0 seq1 k \<and> fst p = seq1 + int k \<and> dn1 \<le> fst (snd p) \<and>
      same_target st0 (snd (snd p)))"
      using Suc.prems(2) one by (intro Suc.IH) (simp_all add: probe_round_Suc)
    then show "keeps (along hs) (send_probes gni junk ttl k p w1) (\<lambda>p w'.
      hops (trace w') = hops (trace w) @ probe_round st0 seq (Suc k) \<and> fst p = seq + int (Suc k) \<and>
      dn \<le> fst (snd p) \<and> same_target st0 (snd (snd p)))"
      unfolding p by (rule keeps_weaken) (use one in \<open>auto simp: probe_round_Suc\<close>)
  qed
qed


lemma keeps_set_limit:
  assumes "prefix (hops (trace w) @ [TTL t]) hs"
  shows "keeps (along hs) (Setsockopt fd l n (OV_int t) w) (\<lambda>_ w'. hops (trace w') = hops (trace w) @ [TTL t])"
proof -
  have "along hs (trace w)" using assms by (rule append_prefixD)
  with assms have "keeps (along hs) (Setsockopt fd l n (OV_int t) w) (\<lambda>x w'. \<exists>a s. script w = a # s \<and>
      a_err a = 0 \<and> x = () \<and> w' = called (C_setsockopt fd l n (OV_int t)) a s w)"
    by (intro Setsockopt.wrap_keeps_any) (simp_all add: err_doit_def Let_def emit_def)
  then show ?thesis by (rule keeps_weaken) auto
qed

text \<open>What has been done of the plan when a round is over: all of it, or up to the round that reached the target.\<close>

definition rounds_done :: "trace_rt \<Rightarrow> hop list \<Rightarrow> int \<Rightarrow> int \<Rightarrow> nat \<Rightarrow> (int \<times> int \<times> trace_rt) \<Rightarrow> hop list \<Rightarrow> bool" where
  "rounds_done st0 before seq ttl m p hs \<longleftrightarrow>
     (\<exists>r \<le> m. hs = before @ plan st0 seq ttl r \<and> (r = m \<or> 0 < fst (snd p)))"

lemma ttl_loop_plan:
  assumes "same_target st0 st" and "0 \<le> dn" and "m = nat (max_ttl st0 + 1 - ttl)"
    and "prefix (hops (trace w) @ plan st0 seq ttl m) hs"
  shows "keeps (along hs) (ttl_loop gni junk ttl (seq, dn, st) w)
    (\<lambda>p w'. rounds_done st0 (hops (trace w)) seq ttl m p (hops (trace w')))"
  using assms
proof (induction m arbitrary: ttl seq dn st w)
  case 0
  then have "\<not> ttl \<le> max_ttl st" by (simp add: same_target_def)
  with 0 show ?case by (auto simp: ttl_loop.simps [of gni junk ttl] rounds_done_def intro!: keeps_Ret)
next
  case (Suc m)
  have al: "along hs (trace w)" using Suc.prems(4) by (rule append_prefixD)
  have n: "nprobes st = nprobes st0" "max_ttl st = max_ttl st0" using Suc.prems(1) by (simp_all add: same_target_def)
  show ?case
  proof (cases "ttl \<le> max_ttl st \<and> dn = 0")
    case False
    then have "dn \<noteq> 0" using Suc.prems(3) n by linarith
    then have "0 < dn" using Suc.prems(2) by simp
    with False al show ?thesis
      by (auto simp: ttl_loop.simps [of gni junk ttl] rounds_done_def intro!: keeps_Ret exI [of _ 0])
  next
    case True
    have pre: "prefix (hops (trace w) @ TTL ttl # probe_round st0 seq (nprobes st0)) hs"
      using Suc.prems(4) by (simp add: append_prefixD)
    show ?thesis
      unfolding ttl_loop.simps [of gni junk ttl] prod.case if_P [OF True]
    proof (rule keeps_then [OF keeps_set_limit], use pre in \<open>metis append_Cons append_Nil append_assoc append_prefixD\<close>)
      fix x and w1 :: world
      let ?b = "puts (pad2 ttl @ '' '') w1"
      assume w1: "hops (trace w1) = hops (trace w) @ [TTL ttl]"
      then have b: "hops (trace ?b) = hops (trace w) @ [TTL ttl]" by (simp add: puts_def)
      show "keeps (along hs) (then_run (send_probes gni junk ttl (nprobes st) (seq, dn, st\<lparr>tr_salast := SA_other 0\<rparr>) ?b)
          (\<lambda>p w. ttl_loop gni junk (ttl + 1) p (puts [CHR 0x0A] w)))
        (\<lambda>p w'. rounds_done st0 (hops (trace w)) seq ttl (Suc m) p (hops (trace w')))"
      proof (rule keeps_then [OF keeps_send_probes [of st0]])
        show "same_target st0 (st\<lparr>tr_salast := SA_other 0\<rparr>)"
          using Suc.prems(1) by (rule same_target_trans) simp
        show "prefix (hops (trace ?b) @ probe_round st0 seq (nprobes st)) hs" using pre by (simp add: b n)
        fix p :: "int \<times> int \<times> trace_rt" and w2 :: world
        obtain seq1 dn1 st1 where p: "p = (seq1, dn1, st1)" by (metis prod_cases3)
        assume "hops (trace w2) = hops (trace ?b) @ probe_round st0 seq (nprobes st) \<and> fst p = seq + int (nprobes st) \<and>
          dn \<le> fst (snd p) \<and> same_target st0 (snd (snd p))"
        then have h: "hops (trace (puts [CHR 0x0A] w2)) = hops (trace w) @ TTL ttl # probe_round st0 seq (nprobes st0)"
          and q: "seq1 = seq + int (nprobes st0)" "dn \<le> dn1" "same_target st0 st1"
          by (simp_all add: puts_def w1 n p)
        have "keeps (along hs) (ttl_loop gni junk (ttl + 1) (seq1, dn1, st1) (puts [CHR 0x0A] w2))
          (\<lambda>p w'. rounds_done st0 (hops (trace (puts [CHR 0x0A] w2))) seq1 (ttl + 1) m p (hops (trace w')))"
        proof (rule Suc.IH)
          show "m = nat (max_ttl st0 + 1 - (ttl + 1))" using Suc.prems(3) by simp
          show "prefix (hops (trace (puts [CHR 0x0A] w2)) @ plan st0 seq1 (ttl + 1) m) hs"
            using Suc.prems(4) unfolding h q by simp
        qed (use Suc.prems(2) q in simp_all)
        then show "keeps (along hs) (ttl_loop gni junk (ttl + 1) p (puts [CHR 0x0A] w2))
          (\<lambda>p w'. rounds_done st0 (hops (trace w)) seq ttl (Suc m) p (hops (trace w')))"
          unfolding p
        proof (rule keeps_weaken)
          fix r w3
          assume "rounds_done st0 (hops (trace (puts [CHR 0x0A] w2))) seq1 (ttl + 1) m r (hops (trace w3))"
          then obtain k where "k \<le> m" "hops (trace w3) = hops (trace w) @ plan st0 seq ttl (Suc k)"
            "k = m \<or> 0 < fst (snd r)" unfolding rounds_done_def h q by auto
          then show "rounds_done st0 (hops (trace w)) seq ttl (Suc m) r (hops (trace w3))"
            unfolding rounds_done_def by (intro exI [of _ "Suc k"]) auto
        qed
      qed
    qed
  qed
qed

lemma still_if: "(c \<Longrightarrow> still m w) \<Longrightarrow> (\<not> c \<Longrightarrow> still m' w) \<Longrightarrow> still (if c then m else m') w"
  by simp

lemma still_calls:
  "still (Socket f t pr w) w" "still (Bind fd sa w) w" "still (sys_int (C_other n args) w) w"
  by (auto simp: sys_int_def intro!: Socket.wrap_only Bind.wrap_only only_then [OF only_sys])

lemma trace_start_steady: "steady st (\<lambda>st. st) (trace_start st w) w"
  unfolding trace_start_def Let_def
  by (intro steady_then still_calls still_if still_quiet only_Ret steady_Ret)
    (simp_all add: same_target_def probe_dest_def fun_eq_iff)


end
