(* ===== verification/Rw_Ring.thy ===== *)
theory Rw_Ring
  imports Ring_Servers
begin

text \<open>
  The ring buffer of the packet capture engine, \<^verbatim>\<open>recv_engine/rw_ring.h\<close>: a power of two of slots, and two
  32 bit counters that are never reduced, only masked. First the operations, which used from one thread are
  a bounded queue (also when the counters wrap around); then the same operations taken apart into their accesses to
  shared memory, run by one producer and one consumer.
\<close>

section \<open>The operations\<close>

text \<open>Pointers are numbers; 0 is \<^verbatim>\<open>nullptr\<close>.\<close>

type_synonym ptr = nat

record rw_ring =
  rw_size :: u32
  rw_mask :: u32
  cons_indx :: u32
  prod_indx :: u32
  objs :: "ptr list"

definition RTE_RING_SZ_MASK :: "64 word" where [unp_consts]: "RTE_RING_SZ_MASK = 0x0fffffff"

definition POWEROF2 :: "64 word \<Rightarrow> bool" where
  "POWEROF2 x \<longleftrightarrow> (x - 1) AND x = 0"

text \<open>The memory of the slots is what \<^verbatim>\<open>malloc\<close> gives: \<open>mem\<close>, nothing when it fails.\<close>

definition create_rw_ring :: "(nat \<Rightarrow> ptr) option \<Rightarrow> 64 word \<Rightarrow> string + rw_ring" where
  "create_rw_ring mem cnt =
     (if \<not> POWEROF2 cnt \<or> RTE_RING_SZ_MASK < cnt
      then Inl (''Requested size is invalid, must be power of 2, and do not exceed the size limit '' @
        dec (unat RTE_RING_SZ_MASK) @ [CHR 0x0A])
      else (case mem of
          None \<Rightarrow> Inl ''Cannot reserve memory''
        | Some junk \<Rightarrow> Inr \<lparr>rw_size = ucast cnt, rw_mask = ucast (cnt - 1), cons_indx = 0, prod_indx = 0,
            objs = map junk [0..<unat cnt]\<rparr>))"

definition rw_ring_entries :: "rw_ring \<Rightarrow> u32" where
  "rw_ring_entries r = prod_indx r - cons_indx r"

definition rw_ring_free_entries :: "rw_ring \<Rightarrow> u32" where
  "rw_ring_free_entries r = rw_size r + cons_indx r - prod_indx r"

text \<open>The slot of a counter.\<close>

definition rw_slot :: "rw_ring \<Rightarrow> u32 \<Rightarrow> nat" where
  "rw_slot r i = unat (i AND rw_mask r)"

definition rw_ring_sp_enqueue :: "rw_ring \<Rightarrow> ptr \<Rightarrow> bool \<times> rw_ring" where
  "rw_ring_sp_enqueue r obj =
     (if rw_ring_free_entries r = 0 then (False, r)
      else (True, r\<lparr>prod_indx := prod_indx r + 1, objs := (objs r)[rw_slot r (prod_indx r) := obj]\<rparr>))"

definition rw_ring_sc_dequeue :: "rw_ring \<Rightarrow> ptr \<times> rw_ring" where
  "rw_ring_sc_dequeue r =
     (if rw_ring_entries r \<noteq> 0
      then (objs r ! rw_slot r (cons_indx r), r\<lparr>cons_indx := cons_indx r + 1\<rparr>)
      else (0, r))"

section \<open>A bounded queue\<close>

text \<open>The shape of a ring with at least one slot; the entries are the slots between the counters.\<close>

definition rw_shape :: "rw_ring \<Rightarrow> bool" where
  "rw_shape r \<longleftrightarrow> (\<exists>k < 32. unat (rw_size r) = 2 ^ k \<and> rw_mask r = mask k) \<and> length (objs r) = unat (rw_size r)"

definition rw_ok :: "rw_ring \<Rightarrow> bool" where
  "rw_ok r \<longleftrightarrow> rw_shape r \<and> unat (rw_ring_entries r) \<le> unat (rw_size r)"

definition rw_queue :: "rw_ring \<Rightarrow> ptr list" where
  "rw_queue r = ring_list (objs r) (unat (cons_indx r) mod length (objs r)) (unat (rw_ring_entries r))"

lemma length_rw_queue [simp]: "length (rw_queue r) = unat (rw_ring_entries r)"
  by (simp add: rw_queue_def)

lemma unat_and_mask: "unat (i AND mask k) = unat (i :: u32) mod 2 ^ k"
proof -
  have "unat (take_bit k i) = take_bit k (unat i)" by (simp add: unsigned_take_bit_eq)
  then show ?thesis by (simp add: take_bit_eq_mask [symmetric]) (simp add: take_bit_eq_mod)
qed

lemma rw_slot_mod: "rw_shape r \<Longrightarrow> rw_slot r i = unat i mod length (objs r)"
  by (auto simp: rw_shape_def rw_slot_def unat_and_mask)

lemma rw_shape_pos: "rw_shape r \<Longrightarrow> 0 < length (objs r)"
  by (auto simp: rw_shape_def)

lemma rw_shape_dvd: "rw_shape r \<Longrightarrow> length (objs r) dvd 2 ^ 32"
  using le_imp_power_dvd [of _ 32 "2 :: nat"] by (auto simp: rw_shape_def)

lemma rw_shape_fields [simp]:
  "rw_shape (r\<lparr>prod_indx := p\<rparr>) = rw_shape r" "rw_shape (r\<lparr>prod_indx := p, objs := (objs r)[i := x]\<rparr>) = rw_shape r" "rw_shape (r\<lparr>cons_indx := c\<rparr>) = rw_shape r"
  "rw_shape (r\<lparr>objs := (objs r)[i := x]\<rparr>) = rw_shape r"
  by (simp_all add: rw_shape_def)

lemma rw_entries_fields [simp]:
  "rw_ring_entries (r\<lparr>prod_indx := p, objs := xs\<rparr>) = p - cons_indx r"
  "rw_ring_entries (r\<lparr>cons_indx := c\<rparr>) = prod_indx r - c"
  by (simp_all add: rw_ring_entries_def)

text \<open>Counting on and masking commute, however often the counter has wrapped around.\<close>

lemma unat_add_mod_slots:
  assumes "rw_shape r"
  shows "unat ((c :: u32) + of_nat n) mod length (objs r) = (unat c + n) mod length (objs r)"
proof -
  have "unat (c + of_nat n) mod length (objs r) = ((unat c + n) mod 2 ^ 32) mod length (objs r)"
    by (simp add: unat_word_ariths unat_of_nat mod_simps)
  then show ?thesis using rw_shape_dvd [OF assms] by (simp add: mod_mod_cancel)
qed

lemma rw_free:
  assumes "rw_ok r"
  shows "unat (rw_ring_free_entries r) = unat (rw_size r) - unat (rw_ring_entries r)"
proof -
  have "rw_ring_free_entries r = rw_size r - rw_ring_entries r"
    by (simp add: rw_ring_free_entries_def rw_ring_entries_def)
  with assms show ?thesis by (simp add: rw_ok_def unat_sub word_le_nat_alt)
qed

lemma rw_enqueue_room:
  assumes ok: "rw_ok r" and room: "unat (rw_ring_entries r) < unat (rw_size r)"
  shows "\<exists>r'. rw_ring_sp_enqueue r x = (True, r') \<and> rw_ok r' \<and> rw_queue r' = rw_queue r @ [x] \<and> rw_size r' = rw_size r"
proof -
  let ?n = "unat (rw_ring_entries r)" and ?r = "r\<lparr>prod_indx := prod_indx r + 1, objs := (objs r)[rw_slot r (prod_indx r) := x]\<rparr>"
  have sh: "rw_shape r" and len: "length (objs r) = unat (rw_size r)" using ok by (auto simp: rw_ok_def rw_shape_def)
  have "unat (rw_ring_free_entries r) \<noteq> 0" using room rw_free [OF ok] by simp
  then have step: "rw_ring_sp_enqueue r x = (True, ?r)" by (auto simp: rw_ring_sp_enqueue_def)
  have "unat (rw_size r) < 2 ^ LENGTH(32)" by (rule unsigned_less)
  with room have "?n + 1 < 2 ^ 32" by simp
  then have "unat (rw_ring_entries r + 1) = Suc ?n" by (simp add: unat_word_ariths(1))
  moreover have "prod_indx r + 1 - cons_indx r = rw_ring_entries r + 1" by (simp add: rw_ring_entries_def)
  ultimately have n: "unat (prod_indx r + 1 - cons_indx r) = Suc ?n" by metis
  have "prod_indx r = cons_indx r + of_nat ?n" by (simp add: rw_ring_entries_def)
  then have "rw_slot r (prod_indx r) = (unat (cons_indx r) mod length (objs r) + ?n) mod length (objs r)"
    using unat_add_mod_slots [OF sh, of "cons_indx r" ?n] by (simp add: rw_slot_mod [OF sh] mod_simps)
  then have "rw_queue ?r = rw_queue r @ [x]"
    using room len ring_put [of ?n "objs r" "unat (cons_indx r) mod length (objs r)" x] by (simp add: rw_queue_def n)
  moreover have "rw_ok ?r" using ok n room by (simp add: rw_ok_def)
  ultimately show ?thesis using step by simp
qed

lemma rw_enqueue_full: "rw_ok r \<Longrightarrow> unat (rw_size r) \<le> unat (rw_ring_entries r) \<Longrightarrow> rw_ring_sp_enqueue r x = (False, r)"
  using rw_free [of r] by (auto simp: rw_ring_sp_enqueue_def unat_eq_zero)

lemma rw_dequeue_some:
  assumes ok: "rw_ok r" and "rw_queue r = x # xs"
  shows "\<exists>r'. rw_ring_sc_dequeue r = (x, r') \<and> rw_ok r' \<and> rw_queue r' = xs \<and> rw_size r' = rw_size r"
proof -
  let ?n = "unat (rw_ring_entries r)" and ?r = "r\<lparr>cons_indx := cons_indx r + 1\<rparr>"
  have sh: "rw_shape r" using ok by (simp add: rw_ok_def)
  have "0 < ?n" using assms(2) length_rw_queue [of r] by simp
  then obtain m where m: "?n = Suc m" by (metis gr0_implies_Suc)
  have ne: "rw_ring_entries r \<noteq> 0" using m by auto
  have "prod_indx r - (cons_indx r + 1) = rw_ring_entries r - 1" by (simp add: rw_ring_entries_def)
  then have "unat (prod_indx r - (cons_indx r + 1)) = unat (rw_ring_entries r - 1)" by (rule arg_cong)
  then have n: "unat (prod_indx r - (cons_indx r + 1)) = m" using m unat_minus_one [OF ne] by linarith
  have "unat (cons_indx r + 1) mod length (objs r) = Suc (unat (cons_indx r) mod length (objs r)) mod length (objs r)"
    using unat_add_mod_slots [OF sh, of "cons_indx r" 1] by (simp add: mod_simps)
  then have "rw_queue r = objs r ! rw_slot r (cons_indx r) # rw_queue ?r"
    using rw_shape_pos [OF sh] by (simp add: rw_queue_def m n ring_get rw_slot_mod [OF sh])
  moreover have "rw_ok ?r" using ok n m by (simp add: rw_ok_def)
  ultimately show ?thesis using assms(2) ne by (simp add: rw_ring_sc_dequeue_def)
qed

lemma rw_dequeue_none: "rw_queue r = [] \<Longrightarrow> rw_ring_sc_dequeue r = (0, r)"
  using length_rw_queue [of r] by (simp add: rw_ring_sc_dequeue_def unat_eq_zero del: length_rw_queue)


text \<open>A ring as it is created is empty.\<close>

lemma double_minus_1_and: "0 < m \<Longrightarrow> (2 * m - 1) AND (2 * m) = 2 * ((m - 1) AND (m :: nat))"
  by (cases m) (simp_all add: and_rec [of "Suc (2 * _)"] flip: add_2_eq_Suc)

lemma power_of_2_nat: "0 < n \<Longrightarrow> (n - 1) AND n = 0 \<Longrightarrow> \<exists>k. n = 2 ^ k" for n :: nat
proof (induction n rule: less_induct)
  case (less n)
  show ?case
  proof (cases "even n")
    case True
    then obtain m where m: "n = 2 * m" by (elim evenE)
    with less.prems have "0 < m" "(m - 1) AND m = 0" using double_minus_1_and [of m] by auto
    with less.IH [of m] m obtain k where "m = 2 ^ k" by auto
    then have "n = 2 ^ Suc k" using m by simp
    then show ?thesis ..
  next
    case False
    then obtain m where m: "n = 2 * m + 1" by (elim oddE)
    have "(2 * m) AND (2 * m + 1) = 2 * m" by (simp add: and_rec [of "2 * m"])
    with less.prems m have "n = 2 ^ 0" by simp
    then show ?thesis ..
  qed
qed

lemma create_rw_ring_ok:
  assumes "create_rw_ring mem cnt = Inr r" and "cnt \<noteq> 0"
  shows "rw_ok r \<and> rw_queue r = [] \<and> unat (rw_size r) = unat cnt"
proof -
  have c: "POWEROF2 cnt" "cnt \<le> RTE_RING_SZ_MASK" using assms(1) by (auto simp: create_rw_ring_def split: if_splits)
  obtain junk where r: "r = \<lparr>rw_size = ucast cnt, rw_mask = ucast (cnt - 1), cons_indx = 0, prod_indx = 0,
      objs = map junk [0..<unat cnt]\<rparr>" using assms(1) by (auto simp: create_rw_ring_def split: if_splits option.splits)
  have pred: "unat (cnt - 1) = unat cnt - 1" using assms(2) by (rule unat_minus_one)
  have "unat ((cnt - 1) AND cnt) = 0" using c(1) by (simp add: POWEROF2_def)
  then have "(unat cnt - 1) AND unat cnt = 0" by (simp add: unsigned_and_eq pred)
  moreover have "0 < unat cnt" using assms(2) by (simp add: unat_gt_0)
  ultimately obtain k where k: "unat cnt = 2 ^ k" using power_of_2_nat by blast
  have le: "unat cnt \<le> 0x0fffffff" using c(2) by (simp add: word_le_nat_alt RTE_RING_SZ_MASK_def)
  have "k < 28"
  proof (rule ccontr)
    assume "\<not> k < 28"
    then have "(2 :: nat) ^ 28 \<le> 2 ^ k" by (intro power_increasing) simp_all
    with k le show False by simp
  qed
  have size: "unat (ucast cnt :: u32) = 2 ^ k"
    using le k \<open>k < 28\<close> by (simp add: unsigned_ucast_eq take_bit_nat_eq_self)
  have "unat (ucast (cnt - 1) :: u32) = 2 ^ k - 1"
    using le k pred by (simp add: unsigned_ucast_eq take_bit_nat_eq_self)
  moreover have "unat (mask k :: u32) = 2 ^ k - 1"
  proof -
    have "uint (mask k :: u32) = 2 ^ k - 1" using \<open>k < 28\<close> by (simp only: uint_mask_eq) (simp add: mask_eq_exp_minus_1)
    then show ?thesis by (simp only: unat_eq_nat_uint) (simp add: nat_diff_distrib nat_power_eq)
  qed
  ultimately have "(ucast (cnt - 1) :: u32) = mask k" by (metis word_unat_eq_iff)
  with size k \<open>k < 28\<close> show ?thesis
    by (auto simp: r rw_ok_def rw_shape_def rw_queue_def rw_ring_entries_def intro!: exI [of _ k])
qed

text \<open>
  (C36) The ring is a bounded FIFO queue for one thread, wherever its counters stand in their 32 bits: an element is
  accepted exactly when fewer than \<^verbatim>\<open>size\<close> are held and then stands last, the one taken out is the oldest, and
  the two counts are those of the entries held and of the room left.
\<close>

theorem rw_ring_refines_queue:
  assumes "rw_ok r"
  shows "(case rw_ring_sp_enqueue r x of (b, r') \<Rightarrow>
       rw_ok r' \<and> rw_size r' = rw_size r \<and> (b \<longleftrightarrow> length (rw_queue r) < unat (rw_size r)) \<and>
       rw_queue r' = (if b then rw_queue r @ [x] else rw_queue r)) \<and>
     (case rw_ring_sc_dequeue r of (y, r') \<Rightarrow>
       rw_ok r' \<and> rw_size r' = rw_size r \<and>
       (case rw_queue r of [] \<Rightarrow> y = 0 \<and> rw_queue r' = [] | z # zs \<Rightarrow> y = z \<and> rw_queue r' = zs)) \<and>
     unat (rw_ring_entries r) = length (rw_queue r) \<and>
     unat (rw_ring_free_entries r) = unat (rw_size r) - length (rw_queue r)"
proof -
  have "case rw_ring_sp_enqueue r x of (b, r') \<Rightarrow>
       rw_ok r' \<and> rw_size r' = rw_size r \<and> (b \<longleftrightarrow> length (rw_queue r) < unat (rw_size r)) \<and>
       rw_queue r' = (if b then rw_queue r @ [x] else rw_queue r)"
    using rw_enqueue_room [OF assms, of x] rw_enqueue_full [OF assms, of x] assms
    by (cases "unat (rw_ring_entries r) < unat (rw_size r)") auto
  moreover have "case rw_ring_sc_dequeue r of (y, r') \<Rightarrow>
       rw_ok r' \<and> rw_size r' = rw_size r \<and>
       (case rw_queue r of [] \<Rightarrow> y = 0 \<and> rw_queue r' = [] | z # zs \<Rightarrow> y = z \<and> rw_queue r' = zs)"
  proof (cases "rw_queue r")
    case Nil
    then show ?thesis using rw_dequeue_none [OF Nil] assms by simp
  next
    case (Cons z zs)
    then show ?thesis using rw_dequeue_some [OF assms Cons] by auto
  qed
  ultimately show ?thesis using rw_free [OF assms] by simp
qed

text \<open>An example: four slots, both counters about to wrap around.\<close>

definition ring_example :: rw_ring where
  "ring_example = \<lparr>rw_size = 4, rw_mask = 3, cons_indx = 0xfffffffe, prod_indx = 0xffffffff, objs = [5, 6, 7, 8]\<rparr>"

theorem rw_ring_refines_queue_witness:
  "rw_queue (snd (rw_ring_sp_enqueue (snd (rw_ring_sp_enqueue ring_example 9)) 10)) = [7, 9, 10]"
proof -
  have ok: "rw_ok ring_example"
    by (auto simp: rw_ok_def rw_shape_def ring_example_def rw_ring_entries_def mask_eq_exp_minus_1 intro!: exI [of _ 2])
  have q: "rw_queue ring_example = [7]" "rw_size ring_example = 4"
    by (simp_all add: rw_queue_def ring_list_def ring_example_def rw_ring_entries_def)
  obtain b r where 1: "rw_ring_sp_enqueue ring_example 9 = (b, r)" by force
  with rw_ring_refines_queue [OF ok, of 9] q have "rw_ok r" "rw_size r = 4" "rw_queue r = [7, 9]" by auto
  with rw_ring_refines_queue [of r 10] 1 show ?thesis by (auto split: prod.splits)
qed

text \<open>The laws of \<^verbatim>\<open>bounded_queue\<close>: a refused element and an empty ring as \<^verbatim>\<open>None\<close>.\<close>

definition rw_offer :: "ptr \<Rightarrow> rw_ring \<Rightarrow> rw_ring option" where
  "rw_offer x r = (case rw_ring_sp_enqueue r x of (b, r') \<Rightarrow> if b then Some r' else None)"

definition rw_take :: "rw_ring \<Rightarrow> (ptr \<times> rw_ring) option" where
  "rw_take r = (if rw_ring_entries r = 0 then None else Some (rw_ring_sc_dequeue r))"

interpretation rwq: bounded_queue "\<lambda>r. rw_ok r \<and> unat (rw_size r) = n" rw_queue n rw_offer rw_take for n
proof
  fix r x xs
  assume ok: "rw_ok r \<and> unat (rw_size r) = n"
  show "\<exists>r'. rw_offer x r = Some r' \<and> (rw_ok r' \<and> unat (rw_size r') = n) \<and> rw_queue r' = rw_queue r @ [x]"
    if "length (rw_queue r) < n" using rw_enqueue_room [of r x] ok that by (auto simp: rw_offer_def)
  show "rw_offer x r = None" if "n \<le> length (rw_queue r)"
    using rw_enqueue_full [of r x] ok that by (auto simp: rw_offer_def)
  show "\<exists>r'. rw_take r = Some (x, r') \<and> (rw_ok r' \<and> unat (rw_size r') = n) \<and> rw_queue r' = xs" if q: "rw_queue r = x # xs"
  proof -
    have "unat (rw_ring_entries r) \<noteq> 0" using arg_cong [OF q, of length] by simp
    then show ?thesis using rw_dequeue_some [of r x xs] ok q by (auto simp: rw_take_def)
  qed
  show "rw_take r = None" if "rw_queue r = []"
    using arg_cong [OF that, of length] by (simp add: rw_take_def unat_eq_zero)
qed

text \<open>From its creation on, what comes out of a ring is what went in, in order.\<close>

lemma rw_ring_fifo:
  assumes "create_rw_ring mem cnt = Inr r" and "cnt \<noteq> 0" and "rwq.play ops r = Some (r', out)"
  shows "map the (filter (\<lambda>x. x \<noteq> None) ops) = out @ rw_queue r'"
  using rwq.play_fifo [OF _ assms(3)] create_rw_ring_ok [OF assms(1,2)] by simp

text \<open>Zero passes for a power of two; a ring of no slots refuses every element.\<close>

lemma create_rw_ring_0:
  "\<exists>r. create_rw_ring (Some junk) 0 = Inr r \<and> (\<forall>x. rw_ring_sp_enqueue r x = (False, r)) \<and>
     rw_ring_sc_dequeue r = (0, r)"
  by (simp add: create_rw_ring_def POWEROF2_def rw_ring_sp_enqueue_def rw_ring_free_entries_def rw_ring_sc_dequeue_def
      rw_ring_entries_def)


section \<open>One producer and one consumer\<close>

text \<open>
  The accesses to shared memory one by one: the test of the counters, the increment, which publishes the slot
  (or gives it back), and only then the access to the slot. \<open>claimed\<close>, \<open>taken\<close> and \<open>received\<close> record the history:
  the elements whose slot was published, in order, the number of slots given back, and what the consumer got.
\<close>

datatype producer = P_idle | P_room ptr | P_slot ptr u32
datatype consumer = C_idle | C_some | C_slot u32

record rw_conc =
  shared :: rw_ring
  producer :: producer
  consumer :: consumer
  claimed :: "ptr list"
  taken :: nat
  received :: "ptr list"

definition rw_start :: "rw_ring \<Rightarrow> rw_conc" where
  "rw_start r = \<lparr>shared = r, producer = P_idle, consumer = C_idle, claimed = [], taken = 0, received = []\<rparr>"

inductive rw_step :: "rw_conc \<Rightarrow> rw_conc \<Rightarrow> bool" where
  p_full: "producer s = P_idle \<Longrightarrow> rw_ring_free_entries (shared s) = 0 \<Longrightarrow> rw_step s s"
| p_room: "producer s = P_idle \<Longrightarrow> rw_ring_free_entries (shared s) \<noteq> 0 \<Longrightarrow> rw_step s (s\<lparr>producer := P_room x\<rparr>)"
| p_index: "producer s = P_room x \<Longrightarrow> rw_step s (s\<lparr>shared := (shared s)\<lparr>prod_indx := prod_indx (shared s) + 1\<rparr>,
     producer := P_slot x (prod_indx (shared s)), claimed := claimed s @ [x]\<rparr>)"
| p_store: "producer s = P_slot x i \<Longrightarrow>
     rw_step s (s\<lparr>shared := (shared s)\<lparr>objs := (objs (shared s))[rw_slot (shared s) i := x]\<rparr>, producer := P_idle\<rparr>)"
| c_empty: "consumer s = C_idle \<Longrightarrow> rw_ring_entries (shared s) = 0 \<Longrightarrow> rw_step s s"
| c_some: "consumer s = C_idle \<Longrightarrow> rw_ring_entries (shared s) \<noteq> 0 \<Longrightarrow> rw_step s (s\<lparr>consumer := C_some\<rparr>)"
| c_index: "consumer s = C_some \<Longrightarrow> rw_step s (s\<lparr>shared := (shared s)\<lparr>cons_indx := cons_indx (shared s) + 1\<rparr>,
     consumer := C_slot (cons_indx (shared s)), taken := Suc (taken s)\<rparr>)"
| c_load: "consumer s = C_slot i \<Longrightarrow>
     rw_step s (s\<lparr>consumer := C_idle, received := received s @ [objs (shared s) ! rw_slot (shared s) i]\<rparr>)"

text \<open>Without interference the steps of an operation make up the operation.\<close>

lemma enqueue_steps:
  assumes "producer s = P_idle" and "rw_ring_sp_enqueue (shared s) x = (True, r)"
  shows "rw_step\<^sup>*\<^sup>* s (s\<lparr>shared := r, claimed := claimed s @ [x]\<rparr>)"
proof -
  have f: "rw_ring_free_entries (shared s) \<noteq> 0" and r: "r = (shared s)\<lparr>prod_indx := prod_indx (shared s) + 1,
      objs := (objs (shared s))[rw_slot (shared s) (prod_indx (shared s)) := x]\<rparr>"
    using assms(2) by (auto simp: rw_ring_sp_enqueue_def split: if_splits)
  let ?a = "s\<lparr>producer := P_room x\<rparr>"
  let ?b = "?a\<lparr>shared := (shared ?a)\<lparr>prod_indx := prod_indx (shared ?a) + 1\<rparr>, producer := P_slot x (prod_indx (shared ?a)),
      claimed := claimed ?a @ [x]\<rparr>"
  let ?c = "?b\<lparr>shared := (shared ?b)\<lparr>objs := (objs (shared ?b))[rw_slot (shared ?b) (prod_indx (shared s)) := x]\<rparr>, producer := P_idle\<rparr>"
  have "rw_step s ?a" using assms(1) f by (rule p_room)
  moreover have "rw_step ?a ?b" by (rule p_index) simp
  moreover have "rw_step ?b ?c" by (rule p_store) simp
  moreover have "?c = s\<lparr>shared := r, claimed := claimed s @ [x]\<rparr>"
    using assms(1) by (simp add: r rw_slot_def)
  ultimately show ?thesis by (metis (no_types, lifting) rtranclp.simps)
qed

lemma dequeue_steps:
  assumes "consumer s = C_idle" and "rw_ring_entries (shared s) \<noteq> 0" and "rw_ring_sc_dequeue (shared s) = (y, r)"
  shows "rw_step\<^sup>*\<^sup>* s (s\<lparr>shared := r, taken := Suc (taken s), received := received s @ [y]\<rparr>)"
proof -
  have r: "r = (shared s)\<lparr>cons_indx := cons_indx (shared s) + 1\<rparr>" and y: "y = objs (shared s) ! rw_slot (shared s) (cons_indx (shared s))"
    using assms(2,3) by (auto simp: rw_ring_sc_dequeue_def split: if_splits)
  let ?a = "s\<lparr>consumer := C_some\<rparr>"
  let ?b = "?a\<lparr>shared := (shared ?a)\<lparr>cons_indx := cons_indx (shared ?a) + 1\<rparr>, consumer := C_slot (cons_indx (shared ?a)),
      taken := Suc (taken ?a)\<rparr>"
  let ?c = "?b\<lparr>consumer := C_idle, received := received ?b @ [objs (shared ?b) ! rw_slot (shared ?b) (cons_indx (shared s))]\<rparr>"
  have "rw_step s ?a" using assms(1,2) by (rule c_some)
  moreover have "rw_step ?a ?b" by (rule c_index) simp
  moreover have "rw_step ?b ?c" by (rule c_load) simp
  moreover have "?c = s\<lparr>shared := r, taken := Suc (taken s), received := received s @ [y]\<rparr>"
    using assms(1) by (simp add: r y rw_slot_def)
  ultimately show ?thesis by (metis (no_types, lifting) rtranclp.simps)
qed

text \<open>
  The invariant. \<open>stored\<close> counts the elements that have reached their slot; a slot holds the last element
  stored in it.
\<close>

definition stored :: "rw_conc \<Rightarrow> nat" where
  "stored s = (case producer s of P_slot x i \<Rightarrow> length (claimed s) - 1 | _ \<Rightarrow> length (claimed s))"

definition counters_ok :: "rw_conc \<Rightarrow> bool" where
  "counters_ok s \<longleftrightarrow> rw_shape (shared s) \<and> prod_indx (shared s) = of_nat (length (claimed s)) \<and>
     cons_indx (shared s) = of_nat (taken s) \<and> taken s \<le> length (claimed s) \<and>
     length (claimed s) \<le> taken s + length (objs (shared s))"

definition pcs_ok :: "rw_conc \<Rightarrow> bool" where
  "pcs_ok s \<longleftrightarrow>
     (case producer s of P_idle \<Rightarrow> True
      | P_room x \<Rightarrow> length (claimed s) < taken s + length (objs (shared s))
      | P_slot x i \<Rightarrow> (\<exists>cs. claimed s = cs @ [x] \<and> i = of_nat (length cs))) \<and>
     (case consumer s of C_idle \<Rightarrow> True
      | C_some \<Rightarrow> taken s < length (claimed s)
      | C_slot i \<Rightarrow> 0 < taken s \<and> i = of_nat (taken s - 1))"

definition slots_ok :: "rw_conc \<Rightarrow> bool" where
  "slots_ok s \<longleftrightarrow> (\<forall>j < stored s. stored s \<le> j + length (objs (shared s)) \<longrightarrow>
     objs (shared s) ! (j mod length (objs (shared s))) = claimed s ! j)"

lemma slot_of_nat: "rw_shape r \<Longrightarrow> rw_slot r (of_nat j) = j mod length (objs r)"
  using unat_add_mod_slots [of r 0 j] by (simp add: rw_slot_mod)

lemma counters_entries:
  assumes "counters_ok s"
  shows "unat (rw_ring_entries (shared s)) = length (claimed s) - taken s"
    and "rw_ok (shared s)" and "length (objs (shared s)) = unat (rw_size (shared s))"
proof -
  have sh: "rw_shape (shared s)" using assms by (simp add: counters_ok_def)
  then show n: "length (objs (shared s)) = unat (rw_size (shared s))" by (simp add: rw_shape_def)
  have "unat (rw_size (shared s)) < 2 ^ LENGTH(32)" by (rule unsigned_less)
  then have "length (claimed s) - taken s < 2 ^ LENGTH(32)" using assms n by (auto simp: counters_ok_def)
  then have "unat (of_nat (length (claimed s) - taken s) :: u32) = length (claimed s) - taken s"
    by (simp only: unat_of_nat mod_less)
  moreover have "rw_ring_entries (shared s) = of_nat (length (claimed s) - taken s)"
    using assms by (simp add: counters_ok_def rw_ring_entries_def of_nat_diff)
  ultimately show e: "unat (rw_ring_entries (shared s)) = length (claimed s) - taken s" by (simp only:)
  show "rw_ok (shared s)" using assms e n by (simp add: rw_ok_def counters_ok_def le_diff_conv)
qed

lemma counters_free:
  "counters_ok s \<Longrightarrow> (rw_ring_free_entries (shared s) \<noteq> 0) = (length (claimed s) < taken s + length (objs (shared s)))"
  using counters_entries [of s] rw_free [of "shared s"] unat_eq_zero [of "rw_ring_free_entries (shared s)"]
  by (auto simp: counters_ok_def)

lemma counters_some: "counters_ok s \<Longrightarrow> (rw_ring_entries (shared s) \<noteq> 0) = (taken s < length (claimed s))"
  using counters_entries(1) [of s] unat_eq_zero [of "rw_ring_entries (shared s)"] by auto


text \<open>Every step keeps the three parts of the invariant.\<close>

lemma counters_step: "rw_step s s' \<Longrightarrow> counters_ok s \<and> pcs_ok s \<Longrightarrow> counters_ok s'"
  by (induction rule: rw_step.induct) (auto simp: counters_ok_def pcs_ok_def)

lemma pcs_step:
  assumes "rw_step s s'" and "counters_ok s" and "pcs_ok s"
  shows "pcs_ok s'"
  using assms
proof (induction rule: rw_step.induct)
  case (p_room s x)
  then show ?case using counters_free [of s] by (auto simp: pcs_ok_def split: consumer.splits)
next
  case (c_some s)
  then show ?case using counters_some [of s] by (auto simp: pcs_ok_def split: producer.splits)
qed (auto simp: pcs_ok_def counters_ok_def split: producer.splits consumer.splits)

lemma stored_le: "stored s \<le> length (claimed s)"
  by (auto simp: stored_def split: producer.split)

lemma stored_consumer [simp]:
  "stored (s\<lparr>consumer := c\<rparr>) = stored s" "stored (s\<lparr>consumer := c, received := ys\<rparr>) = stored s"
  "stored (s\<lparr>shared := r, consumer := c, taken := n\<rparr>) = stored s"
  by (simp_all add: stored_def cong: producer.case_cong)

lemma slots_step:
  assumes "rw_step s s'" and "counters_ok s" and "pcs_ok s" and "slots_ok s"
  shows "slots_ok s'"
  using assms
proof (induction rule: rw_step.induct)
  case (p_index s x)
  have st: "stored s = length (claimed s)" using p_index(1) by (simp add: stored_def)
  then have "\<forall>j < length (claimed s). length (claimed s) \<le> j + length (objs (shared s)) \<longrightarrow>
      objs (shared s) ! (j mod length (objs (shared s))) = claimed s ! j"
    using p_index.prems(3) by (simp add: slots_ok_def)
  then show ?case by (auto simp: slots_ok_def stored_def nth_append)
next
  case (p_store s x i)
  let ?n = "length (objs (shared s))"
  have sh: "rw_shape (shared s)" using p_store.prems(1) by (simp add: counters_ok_def)
  obtain cs where cs: "claimed s = cs @ [x]" "i = of_nat (length cs)" using p_store by (auto simp: pcs_ok_def)
  have st: "stored s = length cs" using p_store(1) cs by (simp add: stored_def)
  show ?case
    unfolding slots_ok_def
  proof (intro allI impI)
    fix j
    let ?s = "s\<lparr>shared := (shared s)\<lparr>objs := (objs (shared s))[rw_slot (shared s) i := x]\<rparr>, producer := P_idle\<rparr>"
    assume "j < stored ?s" and "stored ?s \<le> j + length (objs (shared ?s))"
    then have j: "j \<le> length cs" "Suc (length cs) \<le> j + ?n" using cs by (simp_all add: stored_def)
    have lt: "length cs mod ?n < ?n" using rw_shape_pos [OF sh] by simp
    show "objs (shared ?s) ! (j mod length (objs (shared ?s))) = claimed ?s ! j"
    proof (cases "j = length cs")
      case True
      then show ?thesis using lt cs slot_of_nat [OF sh] by simp
    next
      case False
      then have "length cs - j < ?n" "0 < length cs - j" using j by auto
      then have "(j + 0) mod ?n \<noteq> (j + (length cs - j)) mod ?n" by (intro mod_slots_differ)
      then have "length cs mod ?n \<noteq> j mod ?n" using j by simp
      moreover have "objs (shared s) ! (j mod ?n) = claimed s ! j"
        using p_store.prems(3) j False st by (simp add: slots_ok_def)
      ultimately show ?thesis using cs slot_of_nat [OF sh] by simp
    qed
  qed
next
  case (p_room s x)
  then show ?case by (simp add: slots_ok_def stored_def)
qed (simp_all add: slots_ok_def)

definition rw_inv :: "rw_conc \<Rightarrow> bool" where
  "rw_inv s \<longleftrightarrow> counters_ok s \<and> pcs_ok s \<and> slots_ok s"

lemma rw_inv_reachable:
  assumes "rw_step\<^sup>*\<^sup>* (rw_start r) s" and "create_rw_ring mem cnt = Inr r" and "cnt \<noteq> 0"
  shows "rw_inv s \<and> length (objs (shared s)) = unat cnt"
  using assms(1)
proof (induction rule: rtranclp_induct)
  case base
  have "rw_ok r" "unat (rw_size r) = unat cnt" using create_rw_ring_ok [OF assms(2,3)] by simp_all
  moreover have "prod_indx r = 0" "cons_indx r = 0"
    using assms(2) by (auto simp: create_rw_ring_def split: if_splits option.splits)
  ultimately show ?case
    by (auto simp: rw_inv_def counters_ok_def pcs_ok_def slots_ok_def stored_def rw_start_def rw_ok_def rw_shape_def)
next
  case (step s s')
  have "length (objs (shared s')) = length (objs (shared s))" using step(2) by cases simp_all
  with step show ?case using counters_step pcs_step slots_step by (auto simp: rw_inv_def)
qed

text \<open>
  (C11) The ring between one producer and one consumer, in every interleaving of their accesses: the counters
  never cross (the producer is never more than the capacity ahead), and what the consumer is about to load
  is the element due, except in exactly two situations: the producer has published that very slot and not yet
  stored into it, or the ring was filled again after the consumer gave the slot back.
\<close>

theorem rw_ring_interleaved:
  assumes "create_rw_ring mem cnt = Inr r" and "cnt \<noteq> 0" and "rw_step\<^sup>*\<^sup>* (rw_start r) s" and "consumer s = C_slot i"
  shows "taken s \<le> length (claimed s) \<and> length (claimed s) \<le> taken s + unat cnt \<and>
    (objs (shared s) ! rw_slot (shared s) i = claimed s ! (taken s - 1) \<or>
     (\<exists>x. producer s = P_slot x i) \<or> length (claimed s) = taken s + unat cnt)"
proof -
  have inv: "counters_ok s" "pcs_ok s" "slots_ok s" and n: "length (objs (shared s)) = unat cnt"
    using rw_inv_reachable [OF assms(3,1,2)] by (simp_all add: rw_inv_def)
  have i: "0 < taken s" "i = of_nat (taken s - 1)" using inv(2) assms(4) by (auto simp: pcs_ok_def)
  have sh: "rw_shape (shared s)" and c: "taken s \<le> length (claimed s)" "length (claimed s) \<le> taken s + unat cnt"
    using inv(1) n by (auto simp: counters_ok_def)
  have "objs (shared s) ! rw_slot (shared s) i = claimed s ! (taken s - 1)"
    if "\<nexists>x. producer s = P_slot x i" "length (claimed s) \<noteq> taken s + unat cnt"
  proof -
    have "taken s - 1 < stored s"
    proof (cases "producer s")
      case (P_slot x k)
      then obtain cs where "claimed s = cs @ [x]" "k = of_nat (length cs)" using inv(2) by (auto simp: pcs_ok_def)
      moreover have "taken s - 1 \<noteq> length cs" using that(1) P_slot i(2) calculation(2) by metis
      ultimately show ?thesis using P_slot c i by (simp add: stored_def)
    qed (use c i in \<open>simp_all add: stored_def\<close>)
    moreover have "stored s \<le> taken s - 1 + length (objs (shared s))"
      using stored_le [of s] c that(2) n i(1) by simp
    ultimately show ?thesis using inv(3) slot_of_nat [OF sh] i(2) by (simp add: slots_ok_def)
  qed
  with c show ?thesis by blast
qed


text \<open>A state of a ring with one slot.\<close>

definition one_slot :: "ptr \<Rightarrow> u32 \<Rightarrow> u32 \<Rightarrow> producer \<Rightarrow> consumer \<Rightarrow> ptr list \<Rightarrow> nat \<Rightarrow> ptr list \<Rightarrow> rw_conc" where
  "one_slot v p c pr co cl n rec = \<lparr>shared = \<lparr>rw_size = 1, rw_mask = 0, cons_indx = c, prod_indx = p, objs = [v]\<rparr>,
     producer = pr, consumer = co, claimed = cl, taken = n, received = rec\<rparr>"

lemma one_slot_steps:
  "rw_step (one_slot v p p P_idle co cl n rec) (one_slot v p p (P_room x) co cl n rec)"
  "rw_step (one_slot v p c (P_room x) co cl n rec) (one_slot v (p + 1) c (P_slot x p) co (cl @ [x]) n rec)"
  "rw_step (one_slot v p c (P_slot x i) co cl n rec) (one_slot x p c P_idle co cl n rec)"
  "p \<noteq> c \<Longrightarrow> rw_step (one_slot v p c pr C_idle cl n rec) (one_slot v p c pr C_some cl n rec)"
  "rw_step (one_slot v p c pr C_some cl n rec) (one_slot v p (c + 1) pr (C_slot c) cl (Suc n) rec)"
  "rw_step (one_slot v p c pr (C_slot i) cl n rec) (one_slot v p c pr C_idle cl n (rec @ [v]))"
  using p_room [of "one_slot v p p P_idle co cl n rec" x] p_index [of "one_slot v p c (P_room x) co cl n rec" x]
    p_store [of "one_slot v p c (P_slot x i) co cl n rec" x i] c_some [of "one_slot v p c pr C_idle cl n rec"]
    c_index [of "one_slot v p c pr C_some cl n rec"] c_load [of "one_slot v p c pr (C_slot i) cl n rec" i]
  by (simp_all add: one_slot_def rw_ring_free_entries_def rw_ring_entries_def rw_slot_def)

lemmas one_slot_run = one_slot_steps [THEN converse_rtranclp_into_rtranclp [where r = rw_step]]

lemma create_one_slot:
  "create_rw_ring (Some junk) 1 = Inr r \<Longrightarrow> rw_start r = one_slot (junk 0) 0 0 P_idle C_idle [] 0 []"
  by (simp add: create_rw_ring_def POWEROF2_def RTE_RING_SZ_MASK_def rw_start_def one_slot_def)

text \<open>
  (C37) Both situations occur, already on a ring of one slot: the consumer gets what the memory held before, instead of
  the element that was put in; and it gets the second element in place of the first, and then once more.
\<close>

theorem rw_ring_races:
  "case create_rw_ring (Some junk) 1 of Inl msg \<Rightarrow> False | Inr r \<Rightarrow>
     (\<exists>s. rw_step\<^sup>*\<^sup>* (rw_start r) s \<and> claimed s = [x] \<and> received s = [junk 0]) \<and>
     (\<exists>s. rw_step\<^sup>*\<^sup>* (rw_start r) s \<and> claimed s = [x, y] \<and> received s = [y, y])"
proof -
  obtain r where r: "create_rw_ring (Some junk) 1 = Inr r"
    by (simp add: create_rw_ring_def POWEROF2_def RTE_RING_SZ_MASK_def)
  let ?s0 = "one_slot (junk 0) 0 0 P_idle C_idle [] 0 []"
  have "rw_step\<^sup>*\<^sup>* ?s0 (one_slot (junk 0) 1 1 (P_slot x 0) C_idle [x] 1 [junk 0])"
    by (rule one_slot_run(1) [where x = x], rule one_slot_run(2), rule one_slot_run(4), simp, rule one_slot_run(5),
        rule one_slot_run(6)) simp
  moreover have "rw_step\<^sup>*\<^sup>* ?s0 (one_slot y 2 2 P_idle C_idle [x, y] (Suc (Suc 0)) [y, y])"
    by (rule one_slot_run(1) [where x = x], rule one_slot_run(2), rule one_slot_run(3),
        rule one_slot_run(4), simp, rule one_slot_run(5), simp,
        rule one_slot_run(1) [where x = y], rule one_slot_run(2), rule one_slot_run(3), rule one_slot_run(6),
        rule one_slot_run(4), simp, rule one_slot_run(5), rule one_slot_run(6)) simp
  ultimately show ?thesis
    unfolding r sum.case create_one_slot [OF r] by (auto simp: one_slot_def)
qed


theorem rw_ring_interleaved_witness:
  "\<exists>s. rw_step\<^sup>*\<^sup>* (one_slot 0 0 0 P_idle C_idle [] 0 []) s \<and> consumer s = C_slot 0 \<and>
     objs (shared s) ! rw_slot (shared s) 0 = claimed s ! 0"
proof -
  let ?s = "one_slot 9 1 1 P_idle (C_slot 0) [9] 1 []"
  obtain r where r: "create_rw_ring (Some (\<lambda>_. 0)) 1 = Inr r"
    by (simp add: create_rw_ring_def POWEROF2_def RTE_RING_SZ_MASK_def)
  have run: "rw_step\<^sup>*\<^sup>* (one_slot 0 0 0 P_idle C_idle [] 0 []) ?s"
    by (rule one_slot_run(1) [where x = 9], rule one_slot_run(2), rule one_slot_run(3), rule one_slot_run(4), simp,
        rule one_slot_run(5)) simp
  with create_one_slot [OF r] have "rw_step\<^sup>*\<^sup>* (rw_start r) ?s" by simp
  from rw_ring_interleaved [OF r _ this, of 0] run show ?thesis
    by (intro exI [of _ ?s]) (auto simp: one_slot_def)
qed

end
