(* ===== verification/Vec.thy ===== *)
theory Vec
  imports Main "HOL-Library.Monad_Syntax" "HOL-Library.Multiset"
begin

text \<open>
  Vectors as the algorithms of \<^verbatim>\<open>algorithm\<close> use them: lists whose accesses are checked. An access out of
  range has no meaning in C++; here it ends the computation with \<^verbatim>\<open>None\<close>. Indices have type \<^verbatim>\<open>size_t\<close>; since
  a vector has less than 2 ^ 63 elements they are natural numbers, and only a subtraction can wrap around.
  Then what it means to permute a range of a vector, and the loop that the three partitions share.
\<close>

section \<open>Accesses\<close>

definition vget :: "'a list \<Rightarrow> nat \<Rightarrow> 'a option" where
  "vget v i = (if i < length v then Some (v ! i) else None)"

definition vset :: "'a list \<Rightarrow> nat \<Rightarrow> 'a \<Rightarrow> 'a list option" where
  "vset v i x = (if i < length v then Some (v[i := x]) else None)"

text \<open>\<^verbatim>\<open>std::swap\<close> of two elements.\<close>

definition vswap :: "'a list \<Rightarrow> nat \<Rightarrow> nat \<Rightarrow> 'a list option" where
  "vswap v i j = do { x \<leftarrow> vget v i; y \<leftarrow> vget v j; v \<leftarrow> vset v i y; vset v j x }"

text \<open>\<open>n - 1\<close> for a \<^verbatim>\<open>size_t\<close>.\<close>

definition pred64 :: "nat \<Rightarrow> nat" where
  "pred64 n = (if n = 0 then 2 ^ 64 - 1 else n - 1)"

lemma pred64_Suc [simp]: "pred64 (Suc n) = n" "0 < n \<Longrightarrow> pred64 n = n - 1"
  by (simp_all add: pred64_def)

definition exchange :: "'a list \<Rightarrow> nat \<Rightarrow> nat \<Rightarrow> 'a list" where
  "exchange v i j = v[i := v ! j, j := v ! i]"

lemma vget_Some [simp]: "i < length v \<Longrightarrow> vget v i = Some (v ! i)"
  by (simp add: vget_def)

lemma vset_Some [simp]: "i < length v \<Longrightarrow> vset v i x = Some (v[i := x])"
  by (simp add: vset_def)

lemma vget_eq_Some: "vget v i = Some x \<longleftrightarrow> i < length v \<and> x = v ! i"
  by (auto simp: vget_def)

lemma vset_eq_Some: "vset v i x = Some v' \<longleftrightarrow> i < length v \<and> v' = v[i := x]"
  by (auto simp: vset_def)

lemma vswap_eq_Some: "vswap v i j = Some v' \<longleftrightarrow> i < length v \<and> j < length v \<and> v' = exchange v i j"
  by (auto simp: vswap_def exchange_def vget_def vset_def bind_eq_Some_conv)

lemma vswap_Some [simp]: "i < length v \<Longrightarrow> j < length v \<Longrightarrow> vswap v i j = Some (exchange v i j)"
  by (simp add: vswap_eq_Some)

lemma length_exchange [simp]: "length (exchange v i j) = length v"
  by (simp add: exchange_def)

lemma nth_exchange:
  "i < length v \<Longrightarrow> j < length v \<Longrightarrow> exchange v i j ! k = (if k = i then v ! j else if k = j then v ! i else v ! k)"
  by (cases "k < length v") (auto simp: exchange_def nth_list_update)

lemma mset_exchange: "i < length v \<Longrightarrow> j < length v \<Longrightarrow> mset (exchange v i j) = mset v"
  unfolding exchange_def by (rule mset_swap [OF _ _, of j v i, simplified list_update_swap])

section \<open>Permutations of a range\<close>

definition perm_range :: "nat \<Rightarrow> nat \<Rightarrow> 'a list \<Rightarrow> 'a list \<Rightarrow> bool" where
  "perm_range b e v v' \<longleftrightarrow> mset v' = mset v \<and> take b v' = take b v \<and> drop (Suc e) v' = drop (Suc e) v"

lemma perm_range_length: "perm_range b e v v' \<Longrightarrow> length v' = length v"
  unfolding perm_range_def by (metis size_mset)

lemma perm_range_refl [simp]: "perm_range b e v v"
  by (simp add: perm_range_def)

lemma perm_range_trans: "perm_range b e v v' \<Longrightarrow> perm_range b e v' v'' \<Longrightarrow> perm_range b e v v''"
  by (simp add: perm_range_def)

lemma perm_range_wider:
  assumes "perm_range b e v v'" and "b' \<le> b" and "e \<le> e'"
  shows "perm_range b' e' v v'"
proof -
  have "take b' v' = take b' v"
    using assms(1,2) unfolding perm_range_def by (metis min.absorb1 take_take)
  have tail: "drop (Suc e') u = drop (e' - e) (drop (Suc e) u)" for u :: "'a list" using assms(3) by simp
  have "drop (Suc e') v' = drop (Suc e') v"
    using assms(1) unfolding perm_range_def tail [of v'] tail [of v] by simp
  with \<open>take b' v' = take b' v\<close> assms(1) show ?thesis by (simp add: perm_range_def)
qed

lemma perm_range_outside: "perm_range b e v v' \<Longrightarrow> i < b \<or> e < i \<Longrightarrow> i < length v \<Longrightarrow> v' ! i = v ! i"
proof (elim disjE)
  assume "perm_range b e v v'" and "i < b"
  then show "v' ! i = v ! i" unfolding perm_range_def by (metis nth_take)
next
  assume p: "perm_range b e v v'" and i: "e < i" "i < length v"
  have "drop (Suc e) v' ! (i - Suc e) = drop (Suc e) v ! (i - Suc e)" using p by (simp add: perm_range_def)
  then show "v' ! i = v ! i" using i perm_range_length [OF p] by simp
qed

definition slice :: "nat \<Rightarrow> nat \<Rightarrow> 'a list \<Rightarrow> 'a list" where
  "slice b e v = take (Suc e - b) (drop b v)"

lemma split_slice: "b \<le> Suc e \<Longrightarrow> v = take b v @ slice b e v @ drop (Suc e) v"
  unfolding slice_def by (metis append_take_drop_id drop_drop le_add_diff_inverse2)

lemma perm_range_slice:
  assumes "perm_range b e v v'" and "b \<le> Suc e"
  shows "mset (slice b e v') = mset (slice b e v)"
proof -
  have "mset (take b v @ slice b e v' @ drop (Suc e) v) = mset (take b v @ slice b e v @ drop (Suc e) v)"
    using assms split_slice [OF assms(2), of v] split_slice [OF assms(2), of v'] by (simp add: perm_range_def)
  then show ?thesis by simp
qed

lemma set_slice: "e < length v \<Longrightarrow> set (slice b e v) = {v ! i | i. b \<le> i \<and> i \<le> e}"
proof (intro set_eqI iffI)
  fix x
  assume e: "e < length v"
  show "x \<in> {v ! i |i. b \<le> i \<and> i \<le> e}" if "x \<in> set (slice b e v)"
  proof -
    from that obtain k where "k < Suc e - b" "x = drop b v ! k" "k < length v - b"
      by (auto simp: slice_def in_set_conv_nth)
    then show ?thesis by (intro CollectI exI [of _ "b + k"]) auto
  qed
  show "x \<in> set (slice b e v)" if "x \<in> {v ! i |i. b \<le> i \<and> i \<le> e}"
  proof -
    from that obtain i where "x = v ! i" "b \<le> i" "i \<le> e" by auto
    with e show ?thesis unfolding slice_def in_set_conv_nth by (intro exI [of _ "i - b"]) auto
  qed
qed

text \<open>What holds of all elements of a range is kept by a permutation of the range.\<close>

lemma perm_range_all:
  assumes "perm_range b e v v'" and "e < length v" and "\<And>i. b \<le> i \<Longrightarrow> i \<le> e \<Longrightarrow> P (v ! i)"
    and "b \<le> i" and "i \<le> e"
  shows "P (v' ! i)"
proof -
  have "b \<le> Suc e" using assms(4,5) by simp
  then have "set (slice b e v') = set (slice b e v)"
    using perm_range_slice [OF assms(1)] by (metis set_mset_mset)
  moreover have "v' ! i \<in> set (slice b e v')"
    using assms(2,4,5) perm_range_length [OF assms(1)] by (auto simp: set_slice)
  ultimately show ?thesis using assms(2,3) by (auto simp: set_slice)
qed

lemma perm_range_exchange:
  assumes "b \<le> i" and "i \<le> e" and "b \<le> j" and "j \<le> e" and "e < length v"
  shows "perm_range b e v (exchange v i j)"
  using assms by (auto simp: perm_range_def mset_exchange) (simp_all add: exchange_def)


section \<open>Partitioning\<close>

text \<open>
  The loop of the partitions: \<open>pos\<close> is the last of the elements known to be less than the pivot, which
  stands in front of them.
\<close>

function part_loop :: "'a::linorder \<Rightarrow> nat \<Rightarrow> 'a list \<Rightarrow> nat \<Rightarrow> nat \<Rightarrow> (nat \<times> 'a list) option" where
  "part_loop pivot e v pos cur =
     (if cur \<le> e then do {
        x \<leftarrow> vget v cur;
        if x < pivot then do {
          v \<leftarrow> vswap v (pos + 1) cur;
          part_loop pivot e v (pos + 1) (cur + 1)
        } else part_loop pivot e v pos (cur + 1)
      } else Some (pos, v))"
  by pat_completeness auto
termination by (relation "measure (\<lambda>(pivot, e, v, pos, cur). Suc e - cur)") auto

declare part_loop.simps [simp del]

text \<open>Up to \<open>pos\<close> the elements are less than the pivot, from there to \<open>cur\<close> they are not.\<close>

definition part_inv :: "'a::linorder \<Rightarrow> nat \<Rightarrow> nat \<Rightarrow> nat \<Rightarrow> 'a list \<Rightarrow> bool" where
  "part_inv pivot b pos cur v \<longleftrightarrow> v ! b = pivot \<and> (\<forall>i. b < i \<and> i \<le> pos \<longrightarrow> v ! i < pivot) \<and>
     (\<forall>i. pos < i \<and> i < cur \<longrightarrow> \<not> v ! i < pivot)"

lemma part_loop_spec:
  assumes "part_inv pivot b pos cur v" and "b \<le> pos" and "pos < cur" and "cur \<le> Suc e" and "e < length v"
  shows "\<exists>pos' v'. part_loop pivot e v pos cur = Some (pos', v') \<and> pos \<le> pos' \<and> pos' \<le> e \<and>
    part_inv pivot b pos' (Suc e) v' \<and> perm_range (Suc b) e v v' \<and> (\<not> v ! e < pivot \<longrightarrow> cur \<le> e \<longrightarrow> pos' < e)"
  using assms
proof (induction pivot e v pos cur rule: part_loop.induct)
  case (1 pivot e v pos cur)
  consider (stop) "\<not> cur \<le> e" | (less) "cur \<le> e" "v ! cur < pivot" | (ge) "cur \<le> e" "\<not> v ! cur < pivot" by blast
  then show ?case
  proof cases
    case stop
    then have "cur = Suc e" using "1.prems" by simp
    with "1.prems" show ?thesis by (auto simp: part_loop.simps [of pivot e v])
  next
    case ge
    have get: "vget v cur = Some (v ! cur)" using ge "1.prems" by simp
    have inv: "part_inv pivot b pos (cur + 1) v"
      using "1.prems"(1) ge(2) by (auto simp: part_inv_def less_Suc_eq)
    from "1.IH"(2) [OF ge(1) get ge(2) inv] "1.prems" ge obtain pos' v' where
      r: "part_loop pivot e v pos (cur + 1) = Some (pos', v')" "pos \<le> pos'" "pos' \<le> e" "part_inv pivot b pos' (Suc e) v'"
        "perm_range (Suc b) e v v'" "\<not> v ! e < pivot \<longrightarrow> cur + 1 \<le> e \<longrightarrow> pos' < e" by auto
    have "pos' < e" if "\<not> v ! e < pivot" "\<not> cur + 1 \<le> e"
    proof -
      have "cur = e" using that ge by simp
      with r(1) have "pos' = pos" by (simp add: part_loop.simps [of pivot e v pos "Suc e"])
      with \<open>cur = e\<close> "1.prems" show ?thesis by simp
    qed
    with r ge get show ?thesis by (auto simp: part_loop.simps [of pivot e v])
  next
    case less
    let ?v = "exchange v (pos + 1) cur"
    have get: "vget v cur = Some (v ! cur)" and swap: "vswap v (pos + 1) cur = Some ?v" using less "1.prems" by simp_all
    have nth: "?v ! k = (if k = pos + 1 then v ! cur else if k = cur then v ! (pos + 1) else v ! k)" for k
      using less "1.prems" by (intro nth_exchange) simp_all
    have inv: "part_inv pivot b (pos + 1) (cur + 1) ?v"
      unfolding part_inv_def nth using "1.prems"(1,2,3) less(2) unfolding part_inv_def
      by (auto simp: less_Suc_eq le_Suc_eq)
    have perm: "perm_range (Suc b) e v ?v" using less "1.prems" by (intro perm_range_exchange) simp_all
    from "1.IH"(1) [OF less(1) get less(2) swap inv] "1.prems" less obtain pos' v' where
      r: "part_loop pivot e ?v (pos + 1) (cur + 1) = Some (pos', v')" "pos + 1 \<le> pos'" "pos' \<le> e"
        "part_inv pivot b pos' (Suc e) v'" "perm_range (Suc b) e ?v v'"
        "\<not> ?v ! e < pivot \<longrightarrow> cur + 1 \<le> e \<longrightarrow> pos' < e" by auto
    have "pos' < e" if e: "\<not> v ! e < pivot"
    proof -
      have "e \<noteq> cur" using e less(2) by auto
      with less(1) have c: "cur + 1 \<le> e" by simp
      then have "?v ! e = v ! e" using "1.prems"(3) unfolding nth by simp
      with r(6) c e show ?thesis by simp
    qed
    with r less get swap perm_range_trans [OF perm r(5)] show ?thesis by (auto simp: part_loop.simps [of pivot e v])
  qed
qed

text \<open>With the pivot in front the loop, followed by the exchange of the pivot into its place, splits the range.\<close>

definition splits :: "nat \<Rightarrow> nat \<Rightarrow> nat \<Rightarrow> 'a::linorder list \<Rightarrow> bool" where
  "splits b pos e v \<longleftrightarrow> b \<le> pos \<and> pos \<le> e \<and> (\<forall>i. b \<le> i \<and> i < pos \<longrightarrow> v ! i < v ! pos) \<and>
     (\<forall>i. pos < i \<and> i \<le> e \<longrightarrow> v ! pos \<le> v ! i)"

lemma part_split:
  assumes "b \<le> e" and "e < length v"
  shows "\<exists>pos v' v''. part_loop (v ! b) e v b b = Some (pos, v') \<and> vswap v' pos b = Some v'' \<and> splits b pos e v'' \<and>
    perm_range b e v v'' \<and> v'' ! pos = v ! b \<and> (b < e \<longrightarrow> v ! b \<le> v ! e \<longrightarrow> pos < e)"
proof -
  have "part_inv (v ! b) b b (Suc b) v" by (auto simp: part_inv_def)
  from part_loop_spec [OF this _ _ _ assms(2)] assms obtain pos v' where
    l: "part_loop (v ! b) e v b (Suc b) = Some (pos, v')" "b \<le> pos" "pos \<le> e" "part_inv (v ! b) b pos (Suc e) v'"
      "perm_range (Suc b) e v v'" "\<not> v ! e < v ! b \<longrightarrow> Suc b \<le> e \<longrightarrow> pos < e" by auto
  have first: "part_loop (v ! b) e v b b = Some (pos, v')"
    using l(1) assms by (simp add: part_loop.simps [of "v ! b" e v b b])
  let ?v = "exchange v' pos b"
  have len: "length v' = length v" using perm_range_length [OF l(5)] .
  have nth: "?v ! k = (if k = pos then v' ! b else if k = b then v' ! pos else v' ! k)" for k
    using l assms len by (intro nth_exchange) simp_all
  have "v' ! b = v ! b" using l(4) by (simp add: part_inv_def)
  have "splits b pos e ?v"
    unfolding splits_def nth using l(2,3,4) unfolding part_inv_def by (auto simp: not_less)
  moreover have "perm_range b e v ?v"
    using perm_range_trans [OF perm_range_wider [OF l(5)] perm_range_exchange] l assms len by simp
  moreover have "vswap v' pos b = Some ?v" using l assms len by simp
  ultimately show ?thesis using first l \<open>v' ! b = v ! b\<close> by (auto simp: nth not_less)
qed

lemma part_loop_in_range: "part_loop pivot e v pos cur = Some r \<Longrightarrow> cur \<le> e \<Longrightarrow> e < length v"
proof (induction pivot e v pos cur rule: part_loop.induct)
  case (1 pivot e v pos cur)
  from "1.prems" have c: "cur < length v" by (auto simp: part_loop.simps [of pivot e v] bind_eq_Some_conv vget_eq_Some)
  show ?case
  proof (cases "cur = e")
    case False
    then have le: "cur + 1 \<le> e" using "1.prems" by simp
    show ?thesis
    proof (cases "v ! cur < pivot")
      case True
      with "1.prems" c obtain v1 where s: "vswap v (pos + 1) cur = Some v1" "part_loop pivot e v1 (pos + 1) (cur + 1) = Some r"
        by (auto simp: part_loop.simps [of pivot e v] bind_eq_Some_conv)
      from "1.IH"(1) [OF "1.prems"(2) _ True s le] c s(1) show ?thesis by (simp add: vswap_eq_Some)
    next
      case no: False
      with "1.prems" c have "part_loop pivot e v pos (cur + 1) = Some r" by (simp add: part_loop.simps [of pivot e v])
      from "1.IH"(2) [OF "1.prems"(2) _ no this le] c show ?thesis by simp
    qed
  qed (use c in simp)
qed

end
