(* ===== verification/Quick_Sort.thy ===== *)
theory Quick_Sort
  imports Vec
begin

text \<open>
  The quick sort of \<^verbatim>\<open>algorithm/qsort.h\<close>, on vectors of a totally ordered type. The left recursive call
  covers the pivot's place, so that it need not be on a shorter range; that it ends all the same is the
  termination proof below. The result is the sorted vector for every vector but the empty one.
\<close>

section \<open>algorithm/qsort.h\<close>

definition median_of_three_pivot :: "'a::linorder list \<Rightarrow> nat \<Rightarrow> nat \<Rightarrow> ('a \<times> 'a list) option" where
  "median_of_three_pivot v b e = do {
     let mid = (b + e) div 2;
     x \<leftarrow> vget v b;
     m \<leftarrow> vget v mid;
     z \<leftarrow> vget v e;
     let pos = (if x \<le> m \<and> m \<le> z then mid else if x \<le> z \<and> z \<le> m then e else b);
     v \<leftarrow> vswap v pos b;
     pivot \<leftarrow> vget v b;
     Some (pivot, v)
   }"

definition qs_partition :: "'a::linorder list \<Rightarrow> nat \<Rightarrow> nat \<Rightarrow> (nat \<times> 'a list) option" where
  "qs_partition v b e = do {
     (pivot, v) \<leftarrow> median_of_three_pivot v b e;
     (pos, v) \<leftarrow> part_loop pivot e v b b;
     v \<leftarrow> vswap v pos b;
     Some (pos, v)
   }"

text \<open>What a partition does, and when it splits off nothing.\<close>

definition top_last :: "nat \<Rightarrow> nat \<Rightarrow> 'a::linorder list \<Rightarrow> bool" where
  "top_last b e v \<longleftrightarrow> (\<forall>i. b \<le> i \<and> i < e \<longrightarrow> v ! i < v ! e)"

lemma median_pivot:
  assumes "b < e" and "e < length v"
  shows "\<exists>v'. median_of_three_pivot v b e = Some (v' ! b, v') \<and> perm_range b e v v' \<and>
    (top_last b e v \<longrightarrow> v' ! b \<le> v' ! e)"
proof -
  let ?mid = "(b + e) div 2"
  let ?pos = "if v ! b \<le> v ! ?mid \<and> v ! ?mid \<le> v ! e then ?mid else if v ! b \<le> v ! e \<and> v ! e \<le> v ! ?mid then e else b"
  have mid: "b \<le> ?mid" "?mid < e" using assms by simp_all
  then have pos: "b \<le> ?pos" "?pos \<le> e" using assms by auto
  let ?v = "exchange v ?pos b"
  have nth: "?v ! k = (if k = ?pos then v ! b else if k = b then v ! ?pos else v ! k)" for k
    using pos assms by (intro nth_exchange) simp_all
  have "median_of_three_pivot v b e = Some (?v ! b, ?v)"
    using pos mid assms by (simp add: median_of_three_pivot_def Let_def)
  moreover have "perm_range b e v ?v" using pos assms by (intro perm_range_exchange) simp_all
  moreover have "?v ! b \<le> ?v ! e" if "top_last b e v"
  proof -
    have "v ! i < v ! e" if "b \<le> i" "i < e" for i using \<open>top_last b e v\<close> that by (simp add: top_last_def)
    then have m: "v ! ?mid < v ! e" and "v ! b < v ! e" using mid assms by simp_all
    then have "?pos \<noteq> e" "v ! ?pos < v ! e" using mid assms by (auto split: if_splits)
    then show ?thesis unfolding nth using assms \<open>v ! b < v ! e\<close> by auto
  qed
  ultimately show ?thesis by blast
qed

lemma qs_partition_spec:
  assumes "b < e" and "e < length v"
  shows "\<exists>pos v'. qs_partition v b e = Some (pos, v') \<and> splits b pos e v' \<and> perm_range b e v v' \<and>
    (pos = e \<longrightarrow> top_last b e v' \<and> \<not> top_last b e v)"
proof -
  obtain v1 where m: "median_of_three_pivot v b e = Some (v1 ! b, v1)" "perm_range b e v v1"
    "top_last b e v \<longrightarrow> v1 ! b \<le> v1 ! e" using median_pivot [OF assms] by blast
  have len: "e < length v1" using assms perm_range_length [OF m(2)] by simp
  from part_split [OF _ len, of b] assms(1) obtain pos v2 v3 where
    p: "part_loop (v1 ! b) e v1 b b = Some (pos, v2)" "vswap v2 pos b = Some v3" "splits b pos e v3"
      "perm_range b e v1 v3" "v3 ! pos = v1 ! b" "v1 ! b \<le> v1 ! e \<longrightarrow> pos < e" by auto
  have "top_last b e v3" if "pos = e" using p(3) that by (simp add: splits_def top_last_def)
  then show ?thesis using m p perm_range_trans [OF m(2) p(4)] by (auto simp: qs_partition_def)
qed

lemma qs_partition_in_range:
  assumes "qs_partition v b e = Some r" and "b \<le> e"
  shows "e < length v"
proof -
  obtain pivot v1 where m: "median_of_three_pivot v b e = Some (pivot, v1)" and "part_loop pivot e v1 b b \<noteq> None"
    using assms(1) by (auto simp: qs_partition_def bind_eq_Some_conv)
  then have "e < length v1" using assms(2) part_loop_in_range by auto
  moreover have "length v1 = length v"
    using m by (auto simp: median_of_three_pivot_def bind_eq_Some_conv Let_def vswap_eq_Some)
  ultimately show ?thesis by simp
qed

lemma qs_partition_shrinks:
  assumes "qs_partition v b e = Some (pos, v')" and "b < e"
  shows "b \<le> pos \<and> (pos < e \<or> pos = e \<and> top_last b e v' \<and> \<not> top_last b e v)"
proof -
  have "e < length v" using qs_partition_in_range [OF assms(1)] assms(2) by simp
  from qs_partition_spec [OF assms(2) this] assms(1) show ?thesis by (auto simp: splits_def)
qed

text \<open>
  Termination: a call on the same range is made only with the greatest element of it moved to the end, and
  then the next partition splits off that element.
\<close>

function qsort_range :: "'a::linorder list \<Rightarrow> nat \<Rightarrow> nat \<Rightarrow> 'a list option" where
  "qsort_range v b e =
     (if b < e then do {
        (pos, v) \<leftarrow> qs_partition v b e;
        v \<leftarrow> qsort_range v b pos;
        qsort_range v (pos + 1) e
      } else Some v)"
  by pat_completeness auto
termination
proof (relation "inv_image (less_than <*lex*> less_than) (\<lambda>(v, b, e). (e - b, if top_last b e v then 0 else 1 :: nat))")
  show "wf (inv_image (less_than <*lex*> less_than) (\<lambda>(v, b, e). (e - b, if top_last b e v then 0 else 1 :: nat)))"
    by auto
qed (auto dest!: qs_partition_shrinks)

declare qsort_range.simps [simp del]

text \<open>\<^verbatim>\<open>nums.size() - 1\<close> wraps around for the empty vector.\<close>

definition qsort :: "'a::linorder list \<Rightarrow> 'a list option" where
  "qsort v = qsort_range v 0 (pred64 (length v))"


section \<open>The result is sorted\<close>

definition sorted_range :: "nat \<Rightarrow> nat \<Rightarrow> 'a::linorder list \<Rightarrow> bool" where
  "sorted_range b e v \<longleftrightarrow> (\<forall>i j. b \<le> i \<and> i \<le> j \<and> j \<le> e \<longrightarrow> v ! i \<le> v ! j)"

lemma sorted_range_join:
  assumes "splits b pos e v" and "e < length v"
    and "perm_range b pos v v1" and "sorted_range b pos v1"
    and "perm_range (Suc pos) e v1 v2" and "sorted_range (Suc pos) e v2"
  shows "sorted_range b e v2"
  unfolding sorted_range_def
proof (intro allI impI)
  fix i j
  assume ij: "b \<le> i \<and> i \<le> j \<and> j \<le> e"
  have pos: "b \<le> pos" "pos \<le> e" and len1: "length v1 = length v"
    using assms(1) perm_range_length [OF assms(3)] by (simp_all add: splits_def)
  have low: "v1 ! k \<le> v ! pos" if "b \<le> k" "k \<le> pos" for k
  proof (rule perm_range_all [OF assms(3), where P = "\<lambda>x. x \<le> v ! pos"])
    show "v ! m \<le> v ! pos" if "b \<le> m" "m \<le> pos" for m
      using assms(1) that by (cases "m = pos") (auto simp: splits_def intro: less_imp_le)
  qed (use that pos assms(2) in auto)
  have same: "v2 ! k = v1 ! k" if "k \<le> pos" for k
    using assms(2) pos len1 that by (intro perm_range_outside [OF assms(5)]) auto
  have high: "v ! pos \<le> v2 ! k" if "pos < k" "k \<le> e" for k
  proof (rule perm_range_all [OF assms(5), where P = "\<lambda>x. v ! pos \<le> x"])
    show "v ! pos \<le> v1 ! m" if "Suc pos \<le> m" "m \<le> e" for m
      using perm_range_outside [OF assms(3), of m] assms(1,2) that by (auto simp: splits_def)
  qed (use that len1 assms(2) in auto)
  consider "j \<le> pos" | "i \<le> pos" "pos < j" | "pos < i" by linarith
  then show "v2 ! i \<le> v2 ! j"
  proof cases
    case 1
    then show ?thesis using ij assms(4) same by (simp add: sorted_range_def)
  next
    case 2
    then have "v2 ! i \<le> v ! pos" using ij low same by simp
    also have "\<dots> \<le> v2 ! j" using ij 2 high by simp
    finally show ?thesis .
  next
    case 3
    then show ?thesis using ij assms(6) by (simp add: sorted_range_def)
  qed
qed

lemma qsort_range_sorts:
  "e < length v \<Longrightarrow> \<exists>v'. qsort_range v b e = Some v' \<and> perm_range b e v v' \<and> sorted_range b e v'"
proof (induction v b e rule: qsort_range.induct)
  case (1 v b e)
  show ?case
  proof (cases "b < e")
    case False
    have "sorted_range b e v" unfolding sorted_range_def using False by (metis le_antisym le_trans not_less order_refl)
    with False show ?thesis by (simp add: qsort_range.simps [of v b e])
  next
    case True
    obtain pos v1 where p: "qs_partition v b e = Some (pos, v1)" "splits b pos e v1" "perm_range b e v v1"
      using qs_partition_spec [OF True "1.prems"] by blast
    have pos: "b \<le> pos" "pos \<le> e" using p(2) by (simp_all add: splits_def)
    have len1: "length v1 = length v" using perm_range_length [OF p(3)] .
    from "1.IH"(1) [OF True p(1) refl] pos len1 "1.prems" obtain v2 where
      l: "qsort_range v1 b pos = Some v2" "perm_range b pos v1 v2" "sorted_range b pos v2" by auto
    have len2: "length v2 = length v" using len1 perm_range_length [OF l(2)] by simp
    from "1.IH"(2) [OF True p(1) refl l(1)] len2 "1.prems" obtain v3 where
      r: "qsort_range v2 (Suc pos) e = Some v3" "perm_range (Suc pos) e v2 v3" "sorted_range (Suc pos) e v3" by auto
    have "sorted_range b e v3"
      using len1 "1.prems" by (intro sorted_range_join [OF p(2) _ l(2,3) r(2,3)]) simp
    moreover have "perm_range b e v v3"
      using p(3) perm_range_wider [OF l(2) order_refl pos(2)] perm_range_wider [OF r(2) _ order_refl, of b] pos
      by (meson le_SucI perm_range_trans)
    ultimately show ?thesis using True p(1) l(1) r(1) by (simp add: qsort_range.simps [of v b e])
  qed
qed

text \<open>
  (C19) Quick sort returns the sorted vector for every vector with elements, equal elements or not; it always ends.
  On the empty vector the last index wraps around and the first access is out of range.
\<close>

theorem qsort_sorts:
  "qsort v = (if v = [] then None else Some (sort v))"
proof (cases "v = []")
  case True
  have "qs_partition ([] :: 'a list) 0 (2 ^ 64 - 1) = None"
    by (simp add: qs_partition_def median_of_three_pivot_def vget_def)
  with True show ?thesis by (simp add: qsort_def pred64_def qsort_range.simps [of "[]"])
next
  case False
  let ?e = "length v - 1"
  have e: "?e < length v" using False by simp
  obtain v' where r: "qsort_range v 0 ?e = Some v'" "perm_range 0 ?e v v'" "sorted_range 0 ?e v'"
    using qsort_range_sorts [OF e] by blast
  have "sorted v'"
    using r(3) perm_range_length [OF r(2)] False by (auto simp: sorted_iff_nth_mono sorted_range_def)
  moreover have "mset v' = mset v" using r(2) by (simp add: perm_range_def)
  ultimately have "v' = sort v" by (metis properties_for_sort)
  with False r(1) show ?thesis by (simp add: qsort_def)
qed

end
