(* ===== verification/Nth_Select.thy ===== *)
theory Nth_Select
  imports Vec
begin

text \<open>
  The three selection algorithms of \<^verbatim>\<open>algorithm/qselect.h\<close>. Randomized selection and heap selection return
  the \<open>k\<close>-th smallest element whatever the random numbers are; the insertion sort of the third runs over the
  beginning of the vector, which makes that one fail.
\<close>

section \<open>Selection and sorting\<close>

lemma sort_eqI: "mset xs = mset ys \<Longrightarrow> sort xs = sort ys"
  by (metis mset_sort properties_for_sort sorted_sort)

lemma sort_eq_Nil [simp]: "sort xs = [] \<longleftrightarrow> xs = []"
  by (metis length_0_conv length_sort)

lemma sort_split:
  assumes "\<And>x. x \<in> set l \<Longrightarrow> x \<le> p" and "\<And>x. x \<in> set r \<Longrightarrow> p \<le> x"
  shows "sort (l @ p # r) = sort l @ p # sort r"
proof (rule properties_for_sort)
  show "sorted (sort l @ p # sort r)" using assms by (auto simp: sorted_append intro: order_trans)
qed simp

definition seg :: "nat \<Rightarrow> nat \<Rightarrow> 'a list \<Rightarrow> 'a list" where
  "seg b n v = take n (drop b v)"

lemma slice_seg: "slice b e v = seg b (Suc e - b) v"
  by (simp add: slice_def seg_def)

lemma set_seg: "b + n \<le> length v \<Longrightarrow> set (seg b n v) = {v ! i | i. b \<le> i \<and> i < b + n}"
proof (cases n)
  case (Suc m)
  assume "b + n \<le> length v"
  with set_slice [of "b + m" v b] Suc show ?thesis by (auto simp: slice_seg less_Suc_eq_le)
qed (auto simp: seg_def)

lemma split_seg:
  assumes "b \<le> pos" and "pos \<le> e" and "e < length v"
  shows "slice b e v = seg b (pos - b) v @ v ! pos # seg (Suc pos) (e - pos) v"
proof -
  have "Suc e - b = (pos - b) + Suc (e - pos)" using assms by simp
  then have "slice b e v = seg b (pos - b) v @ take (Suc (e - pos)) (drop pos v)"
    unfolding slice_def seg_def using assms(1) by (simp only: take_add drop_drop) simp
  also have "drop pos v = v ! pos # drop (Suc pos) v" using assms by (intro Cons_nth_drop_Suc [symmetric]) simp
  finally show ?thesis by (simp add: seg_def)
qed

text \<open>The \<open>k\<close>-th smallest element of a range, for \<open>k\<close> from 1 on.\<close>

definition kth :: "nat \<Rightarrow> nat \<Rightarrow> nat \<Rightarrow> 'a::linorder list \<Rightarrow> 'a" where
  "kth b e k v = sort (slice b e v) ! (k - 1)"

lemma kth_perm: "perm_range b e v v' \<Longrightarrow> b \<le> Suc e \<Longrightarrow> kth b e k v' = kth b e k v"
  unfolding kth_def using sort_eqI [OF perm_range_slice] by metis

text \<open>Where the \<open>k\<close>-th smallest element is after a partition.\<close>

lemma kth_split:
  assumes "splits b pos e v" and "e < length v" and "1 \<le> k" and "k \<le> Suc e - b"
  shows "kth b e k v = (if k = pos - b + 1 then v ! pos
     else if k < pos - b + 1 then kth b (pos - 1) k v else kth (pos + 1) e (k - (pos - b + 1)) v)"
proof -
  have pos: "b \<le> pos" "pos \<le> e" using assms(1) by (simp_all add: splits_def)
  let ?l = "seg b (pos - b) v" and ?r = "seg (Suc pos) (e - pos) v"
  have "sort (slice b e v) = sort ?l @ v ! pos # sort ?r"
    unfolding split_seg [OF pos assms(2)]
    by (rule sort_split) (use assms pos in \<open>auto simp: set_seg splits_def intro: less_imp_le\<close>)
  moreover have "length (sort ?l) = pos - b" using pos assms(2) by (simp add: seg_def)
  moreover have "?r = slice (pos + 1) e v" using pos by (simp add: slice_seg)
  moreover have "?l = slice b (pos - 1) v" if "b < pos" using that by (simp add: slice_seg)
  ultimately show ?thesis using assms(3,4) pos by (auto simp: kth_def nth_append nth_Cons' diff_diff_eq)
qed

section \<open>Randomized selection\<close>

text \<open>\<open>\<rho> n\<close> is the \<open>n\<close>-th value that \<^verbatim>\<open>rand\<close> returns.\<close>

definition random_pivot ::
  "(nat \<Rightarrow> nat) \<Rightarrow> nat \<Rightarrow> 'a list \<Rightarrow> nat \<Rightarrow> nat \<Rightarrow> ('a \<times> nat \<times> 'a list) option" where
  "random_pivot \<rho> n v b e = do {
     (n, v) \<leftarrow> (if b < e then do {
         v \<leftarrow> vswap v (\<rho> n mod (e - b + 1) + b) b;
         Some (Suc n, v)
       } else Some (n, v));
     pivot \<leftarrow> vget v b;
     Some (pivot, n, v)
   }"

definition randomized_partition ::
  "(nat \<Rightarrow> nat) \<Rightarrow> nat \<Rightarrow> 'a::linorder list \<Rightarrow> nat \<Rightarrow> nat \<Rightarrow> (nat \<times> nat \<times> 'a list) option" where
  "randomized_partition \<rho> n v b e = do {
     (pivot, n, v) \<leftarrow> random_pivot \<rho> n v b e;
     (pos, v) \<leftarrow> part_loop pivot e v b b;
     v \<leftarrow> vswap v pos b;
     Some (pos, n, v)
   }"

partial_function (option) randomized_select_loop ::
  "(nat \<Rightarrow> nat) \<Rightarrow> nat \<Rightarrow> 'a::linorder list \<Rightarrow> nat \<Rightarrow> nat \<Rightarrow> nat \<Rightarrow> nat \<Rightarrow> ('a \<times> 'a list) option" where
  "randomized_select_loop \<rho> n v pos b e k =
     (if b \<le> e then do {
        (pos, n, v) \<leftarrow> randomized_partition \<rho> n v b e;
        let ordinal = pos - b + 1;
        if k = ordinal then do { x \<leftarrow> vget v pos; Some (x, v) }
        else if k < ordinal then randomized_select_loop \<rho> n v pos b (pred64 pos) k
        else randomized_select_loop \<rho> n v pos (pos + 1) e (k - ordinal)
      } else do { x \<leftarrow> vget v pos; Some (x, v) })"

definition randomized_select :: "(nat \<Rightarrow> nat) \<Rightarrow> 'a::{linorder, zero} list \<Rightarrow> nat \<Rightarrow> ('a \<times> 'a list) option" where
  "randomized_select \<rho> v k =
     (let lens = length v in
      if lens = 0 \<or> k = 0 then Some (0, v)
      else let k = (if lens < k then lens else k) in randomized_select_loop \<rho> 0 v 0 0 (lens - 1) k)"

lemma randomized_partition_spec:
  assumes "b \<le> e" and "e < length v"
  shows "\<exists>pos n' v'. randomized_partition \<rho> n v b e = Some (pos, n', v') \<and> splits b pos e v' \<and> perm_range b e v v'"
proof -
  let ?i = "\<rho> n mod (e - b + 1) + b"
  have "\<rho> n mod (e - b + 1) < e - b + 1" by (rule mod_less_divisor) simp
  then have i: "b \<le> ?i" "?i \<le> e" using assms(1) by linarith+
  obtain n1 v1 where 1: "random_pivot \<rho> n v b e = Some (v1 ! b, n1, v1)" "perm_range b e v v1"
  proof (cases "b < e")
    case True
    have len: "?i < length v" "b < length v" using i assms by simp_all
    show ?thesis
      using True len assms i
      by (intro that [of "exchange v ?i b" "Suc n"]) (simp_all add: random_pivot_def perm_range_exchange)
  next
    case False
    then show ?thesis using assms by (intro that [of v n]) (simp_all add: random_pivot_def)
  qed
  have "e < length v1" using assms(2) perm_range_length [OF 1(2)] by simp
  from part_split [OF assms(1) this] obtain pos v2 v3 where
    "part_loop (v1 ! b) e v1 b b = Some (pos, v2)" "vswap v2 pos b = Some v3" "splits b pos e v3"
    "perm_range b e v1 v3" by blast
  with 1 show ?thesis using perm_range_trans [OF 1(2)] by (auto simp: randomized_partition_def)
qed

lemma randomized_select_loop_spec:
  assumes "b \<le> e" and "e < length v" and "1 \<le> k" and "k \<le> Suc e - b"
  shows "\<exists>v'. randomized_select_loop \<rho> n v p b e k = Some (kth b e k v, v') \<and> perm_range b e v v'"
  using assms
proof (induction "e - b" arbitrary: n v p b e k rule: less_induct)
  case less
  obtain pos n1 v1 where p: "randomized_partition \<rho> n v b e = Some (pos, n1, v1)" "splits b pos e v1" "perm_range b e v v1"
    using randomized_partition_spec [OF less.prems(1,2)] by blast
  have pos: "b \<le> pos" "pos \<le> e" using p(2) by (simp_all add: splits_def)
  have len: "e < length v1" using less.prems(2) perm_range_length [OF p(3)] by simp
  have k1: "kth b e k v = kth b e k v1" using kth_perm [OF p(3)] less.prems(1) by simp
  note k = k1 kth_split [OF p(2) len less.prems(3,4)]
  note step = randomized_select_loop.simps [of \<rho> n v p b e k]
  consider (hit) "k = pos - b + 1" | (left) "k < pos - b + 1" | (right) "pos - b + 1 < k" by linarith
  then show ?case
  proof cases
    case hit
    with p less.prems pos len k show ?thesis unfolding step by simp
  next
    case left
    then have lt: "b < pos" using less.prems(3) by linarith
    then have "pos - 1 - b < e - b" "b \<le> pos - 1" "pos - 1 < length v1" "k \<le> Suc (pos - 1) - b"
      using pos len left by simp_all
    from less.hyps [OF this(1,2,3) less.prems(3) this(4)] obtain v2 where
      "randomized_select_loop \<rho> n1 v1 pos b (pos - 1) k = Some (kth b (pos - 1) k v1, v2)" "perm_range b (pos - 1) v1 v2"
      by blast
    moreover have "perm_range b e v v2"
      using p(3) perm_range_wider [OF calculation(2) order_refl, of e] pos by (auto intro: perm_range_trans)
    ultimately show ?thesis using left lt p less.prems k by (simp add: step)
  next
    case right
    then have ks: "k - (pos - b + 1) \<le> Suc e - (pos + 1)" "1 \<le> k - (pos - b + 1)" "pos + 1 \<le> e"
      using less.prems(4) pos by simp_all
    have "e - (pos + 1) < e - b" using ks(3) pos by simp
    from less.hyps [OF this ks(3) len ks(2,1)] obtain v2 where
      "randomized_select_loop \<rho> n1 v1 pos (pos + 1) e (k - (pos - b + 1)) =
         Some (kth (pos + 1) e (k - (pos - b + 1)) v1, v2)" "perm_range (pos + 1) e v1 v2" by blast
    moreover have "perm_range b e v v2"
      using p(3) perm_range_wider [OF calculation(2) _ order_refl, of b] pos by (auto intro: perm_range_trans)
    ultimately show ?thesis using right p less.prems k by (simp add: step)
  qed
qed

lemma randomized_select_spec:
  "\<exists>v'. randomized_select \<rho> v k =
     Some (if v = [] \<or> k = 0 then 0 else sort v ! (min k (length v) - 1), v') \<and> mset v' = mset v"
proof (cases "v = [] \<or> k = 0")
  case False
  then have "\<exists>v'. randomized_select_loop \<rho> 0 v 0 0 (length v - 1) (min k (length v)) =
      Some (kth 0 (length v - 1) (min k (length v)) v, v') \<and> perm_range 0 (length v - 1) v v'"
    by (intro randomized_select_loop_spec) (auto simp: Suc_le_eq)
  moreover have "(if length v < k then length v else k) = min k (length v)" by auto
  moreover have "slice 0 (length v - 1) v = v" by (simp add: slice_def)
  ultimately show ?thesis using False by (auto simp: randomized_select_def Let_def kth_def perm_range_def)
qed (auto simp: randomized_select_def)

text \<open>
  (C38) Randomized selection: whatever the random numbers, it ends with the \<open>k\<close>-th smallest element (the greatest
  when there are fewer than \<open>k\<close>, 0 when there is nothing to select) and has only permuted the vector.
\<close>

theorem randomized_select_kth:
  "\<exists>v'. randomized_select \<rho> v k =
     Some (if v = [] \<or> k = 0 then 0 else sort v ! (min k (length v) - 1), v') \<and> mset v' = mset v"
  by (rule randomized_select_spec)


section \<open>Heap selection\<close>

text \<open>\<^verbatim>\<open>std::priority_queue\<close>: the ascending list of its elements, the greatest is on top.\<close>

definition pq_push :: "'a::linorder \<Rightarrow> 'a list \<Rightarrow> 'a list" where "pq_push x h = insort x h"
definition pq_pop :: "'a list \<Rightarrow> 'a list" where "pq_pop h = butlast h"
definition pq_top :: "'a list \<Rightarrow> 'a option" where "pq_top h = (if h = [] then None else Some (last h))"

fun heap_select_loop :: "nat \<Rightarrow> 'a::linorder list \<Rightarrow> nat \<Rightarrow> 'a list \<Rightarrow> 'a list option" where
  "heap_select_loop k [] ordinal heap = Some heap"
| "heap_select_loop k (elem # nums) ordinal heap =
     (if ordinal \<le> k then heap_select_loop k nums (ordinal + 1) (pq_push elem heap)
      else do {
        t \<leftarrow> pq_top heap;
        heap_select_loop k nums (ordinal + 1) (if elem < t then pq_push elem (pq_pop heap) else heap)
      })"

definition heap_select :: "'a::{linorder, zero} list \<Rightarrow> nat \<Rightarrow> 'a option" where
  "heap_select nums k =
     (if length nums = 0 \<or> k = 0 then Some 0
      else do { heap \<leftarrow> heap_select_loop k nums 1 []; pq_top heap })"

text \<open>One more element: the \<open>k\<close> smallest of all.\<close>

lemma smallest_snoc:
  assumes "k \<le> length xs" and "0 < k" and h: "h = take k (sort xs)"
  shows "take k (sort (xs @ [x])) = (if x < last h then insort x (butlast h) else h)"
proof -
  let ?b = "drop k (sort xs)"
  have len: "length h = k" and ne: "h \<noteq> []" using assms by auto
  have s: "sort xs = h @ ?b" using h by simp
  have srt: "sorted (h @ ?b)" unfolding s [symmetric] by simp
  have mx: "mset xs = mset h + mset ?b" by (metis mset_append mset_sort s)
  have hl: "h = butlast h @ [last h]" using ne by simp
  have le: "y \<le> last h" if "y \<in> set (butlast h)" for y
    using srt that by (subst (asm) hl) (auto simp: sorted_append)
  have ge: "last h \<le> y" if "y \<in> set ?b" for y using srt that ne by (auto simp: sorted_append)
  have sh: "sorted h" "sorted ?b" using srt by (auto simp: sorted_append)
  have "sorted (butlast h)" using sh(1) by (subst (asm) hl) (simp add: sorted_append)
  show ?thesis
  proof (cases "x < last h")
    case True
    have "sort (xs @ [x]) = insort x (butlast h) @ last h # ?b"
    proof (rule properties_for_sort)
      show "mset (insort x (butlast h) @ last h # ?b) = mset (xs @ [x])"
        using mx by (subst (asm) hl) simp
      show "sorted (insort x (butlast h) @ last h # ?b)"
        using True le ge sh \<open>sorted (butlast h)\<close>
        by (fastforce simp: sorted_append sorted_insort set_insort_key)
    qed
    moreover have "length (insort x (butlast h)) = k" using len assms(2) by simp
    ultimately show ?thesis using True by simp
  next
    case False
    have "sort (xs @ [x]) = h @ sort (x # ?b)"
    proof (rule properties_for_sort)
      have "y \<le> x \<and> (\<forall>z \<in> set ?b. y \<le> z)" if "y \<in> set h" for y
      proof -
        have "y \<le> last h" using that le by (subst (asm) hl) auto
        then show ?thesis using False ge by (auto simp: not_less intro: order_trans)
      qed
      then show "sorted (h @ sort (x # ?b))" using sh(1) by (auto simp: sorted_append sorted_insort set_insort_key)
    qed (use mx in simp)
    then show ?thesis using False len by simp
  qed
qed

lemma heap_select_loop_spec:
  "0 < k \<Longrightarrow> heap_select_loop k nums (length seen + 1) (take k (sort seen)) = Some (take k (sort (seen @ nums)))"
proof (induction nums arbitrary: seen)
  case (Cons x nums)
  note IH = Cons.IH [OF Cons.prems, of "seen @ [x]"]
  show ?case
  proof (cases "length seen + 1 \<le> k")
    case True
    have "insort x (sort seen) = sort (seen @ [x])" by (rule properties_for_sort [symmetric]) (simp_all add: sorted_insort)
    with True IH show ?thesis by (simp add: pq_push_def)
  next
    case False
    then have k: "k \<le> length seen" by simp
    then have "take k (sort seen) \<noteq> []" using Cons.prems by auto
    with IH smallest_snoc [OF k Cons.prems refl, of x] False show ?thesis
      by (cases "x < last (take k (sort seen))") (simp_all add: pq_push_def pq_pop_def pq_top_def)
  qed
qed simp

text \<open>
  Heap selection returns the same element as randomized selection, the \<open>k\<close>-th smallest, and 0 when there is nothing
  to select.
\<close>

theorem heap_select_kth:
  "heap_select v k = map_option fst (randomized_select \<rho> v k) \<and>
   heap_select v k = Some (if v = [] \<or> k = 0 then 0 else sort v ! (min k (length v) - 1))"
proof -
  have "heap_select v k = Some (if v = [] \<or> k = 0 then 0 else sort v ! (min k (length v) - 1))"
  proof (cases "v = [] \<or> k = 0")
    case False
    let ?h = "take k (sort v)"
    have "heap_select v k = pq_top ?h"
      using False heap_select_loop_spec [of k v "[]"] by (simp add: heap_select_def)
    moreover have "?h \<noteq> []" "length ?h = min k (length v)" using False by auto
    moreover have "min k (length v) - 1 < k" using False by auto
    ultimately show ?thesis using False by (simp add: pq_top_def last_conv_nth)
  qed (simp add: heap_select_def)
  moreover obtain v' where "randomized_select \<rho> v k =
      Some (if v = [] \<or> k = 0 then 0 else sort v ! (min k (length v) - 1), v')"
    using randomized_select_spec [of \<rho> v k] by blast
  ultimately show ?thesis by simp
qed


section \<open>Insertion sort\<close>

text \<open>
  The inner loop counts down with an unsigned index, so that for a range at the beginning of the vector the comparison
  \<^verbatim>\<open>j >= begin\<close> never fails and \<open>j\<close> goes from 0 to 2 ^ 64 - 1.
\<close>

partial_function (option) isort_shift :: "'a::linorder \<Rightarrow> nat \<Rightarrow> 'a list \<Rightarrow> nat \<Rightarrow> (nat \<times> 'a list) option" where
  "isort_shift val b v j =
     (if b \<le> j then do {
        x \<leftarrow> vget v j;
        if val < x then do { v \<leftarrow> vset v (j + 1) x; isort_shift val b v (pred64 j) } else Some (j, v)
      } else Some (j, v))"

function isort_loop :: "nat \<Rightarrow> nat \<Rightarrow> 'a::linorder list \<Rightarrow> nat \<Rightarrow> 'a list option" where
  "isort_loop b e v i =
     (if i \<le> e then do {
        val \<leftarrow> vget v i;
        (j, v) \<leftarrow> isort_shift val b v (pred64 i);
        v \<leftarrow> vset v (j + 1) val;
        isort_loop b e v (i + 1)
      } else Some v)"
  by pat_completeness auto
termination by (relation "measure (\<lambda>(b, e, v, i). Suc e - i)") auto

declare isort_loop.simps [simp del]

definition isort :: "'a::linorder list \<Rightarrow> nat \<Rightarrow> nat \<Rightarrow> 'a list option" where
  "isort v b e = isort_loop b e v (b + 1)"

lemma insort_snoc:
  assumes "sorted (ys @ [y])"
  shows "insort x (ys @ [y]) = (if x < y then insort x ys @ [y] else ys @ [y, x])"
proof -
  have "insort x (ys @ [y]) = sort (x # ys @ [y])" using assms by (simp add: sorted_sort_id)
  also have "\<dots> = (if x < y then insort x ys @ [y] else ys @ [y, x])"
    by (rule properties_for_sort)
      (use assms in \<open>auto simp: sorted_append sorted_insort set_insort_key not_less intro: order_trans\<close>)
  finally show ?thesis .
qed

lemma isort_shift_spec:
  assumes "length pre = b" and "sorted xs" and "length (pre @ xs @ [h] @ post) < 2 ^ 64"
  shows "do { (j, v) \<leftarrow> isort_shift val b (pre @ xs @ [h] @ post) (pred64 (b + length xs)); vset v (j + 1) val } =
    (if 0 < b \<or> (\<exists>x \<in> set xs. x \<le> val) then Some (pre @ insort val xs @ post) else None)"
  using assms(2,3)
proof (induction xs arbitrary: h post rule: rev_induct)
  case Nil
  show ?case
  proof (cases b)
    case 0
    then show ?thesis using assms(1) Nil
      by (simp add: isort_shift.simps [of val 0] pred64_def vget_def)
  next
    case (Suc n)
    then show ?thesis using assms(1) by (simp add: isort_shift.simps [of val "Suc n"] list_update_append)
  qed
next
  case (snoc y ys)
  let ?v = "pre @ (ys @ [y]) @ [h] @ post"
  have idx: "pred64 (b + length (ys @ [y])) = b + length ys" by simp
  have get: "vget ?v (b + length ys) = Some y" using assms(1) by (simp add: nth_append)
  show ?case
  proof (cases "val < y")
    case True
    have set: "vset ?v (b + length ys + 1) y = Some (pre @ ys @ [y] @ y # post)"
      using assms(1) by (simp add: list_update_append)
    have step: "isort_shift val b ?v (b + length ys) = isort_shift val b (pre @ ys @ [y] @ y # post) (pred64 (b + length ys))"
      by (subst isort_shift.simps) (simp only: get set True if_True Option.bind.simps le_add1)
    have "(\<exists>x \<in> set (ys @ [y]). x \<le> val) = (\<exists>x \<in> set ys. x \<le> val)" using True by auto
    moreover have "sorted ys" using snoc.prems(1) by (simp add: sorted_append)
    ultimately show ?thesis
      using snoc.IH [of y "y # post"] snoc.prems True unfolding idx step insort_snoc [OF snoc.prems(1)]
      by simp
  next
    case False
    have "isort_shift val b ?v (b + length ys) = Some (b + length ys, ?v)"
      by (subst isort_shift.simps) (simp only: get False if_False if_True Option.bind.simps le_add1)
    then show ?thesis
      using assms(1) False unfolding idx insort_snoc [OF snoc.prems(1)]
      by (auto simp: list_update_append not_less)
  qed
qed

lemma isort_loop_spec:
  assumes "length pre = b" and "seen \<noteq> []" and "length (pre @ seen @ rest @ post) < 2 ^ 64"
    and "Suc e = b + length seen + length rest"
  shows "isort_loop b e (pre @ sort seen @ rest @ post) (b + length seen) =
    (if 0 < b \<or> (\<forall>x \<in> set rest. \<exists>y \<in> set seen. y \<le> x) then Some (pre @ sort (seen @ rest) @ post) else None)"
  using assms(2-)
proof (induction rest arbitrary: seen)
  case Nil
  then show ?case by (simp add: isort_loop.simps [of b e])
next
  case (Cons val rest)
  let ?v = "pre @ sort seen @ (val # rest) @ post"
  have le: "b + length seen \<le> e" using Cons.prems(3) by simp
  have get: "vget ?v (b + length seen) = Some val" using assms(1) by (simp add: nth_append)
  have srt: "insort val (sort seen) = sort (seen @ [val])"
    by (rule properties_for_sort [symmetric]) (simp_all add: sorted_insort)
  have shift: "do { (j, v) \<leftarrow> isort_shift val b ?v (pred64 (b + length seen)); vset v (j + 1) val } =
    (if 0 < b \<or> (\<exists>x \<in> set seen. x \<le> val) then Some (pre @ sort (seen @ [val]) @ rest @ post) else None)"
    using isort_shift_spec [OF assms(1), of "sort seen" val "rest @ post" val] Cons.prems(2) by (simp add: srt)
  have step: "isort_loop b e ?v (b + length seen) =
    do { v \<leftarrow> do { (j, v) \<leftarrow> isort_shift val b ?v (pred64 (b + length seen)); vset v (j + 1) val };
         isort_loop b e v (b + length seen + 1) }"
    by (subst isort_loop.simps) (simp only: le get if_True Option.bind.simps Option.bind_assoc split_def)
  show ?case
  proof (cases "0 < b \<or> (\<exists>x \<in> set seen. x \<le> val)")
    case True
    have "(\<forall>x \<in> set rest. \<exists>y \<in> set (seen @ [val]). y \<le> x) = (\<forall>x \<in> set rest. \<exists>y \<in> set seen. y \<le> x)" if "\<not> 0 < b"
      using True that by (auto intro: order_trans)
    with True show ?thesis
      using Cons.IH [of "seen @ [val]"] Cons.prems unfolding step shift by auto
  next
    case False
    then show ?thesis unfolding step shift by auto
  qed
qed

text \<open>
  Insertion sort of a range: away from the beginning of the vector the range is sorted and nothing else is touched; a
  range that starts at index 0 is sorted only if its first element is a least one, and otherwise an element in
  front of the vector is read.
\<close>

theorem isort_sorts:
  assumes "b \<le> e" and "e < length v" and "length v < 2 ^ 64"
  shows "isort v b e = (if 0 < b \<or> (\<forall>x \<in> set (slice b e v). v ! b \<le> x)
    then Some (take b v @ sort (slice b e v) @ drop (Suc e) v) else None)"
proof -
  obtain rest where rest: "slice b e v = v ! b # rest"
    using split_seg [OF order_refl assms(1,2)] by (simp add: seg_def)
  have v: "v = take b v @ (v ! b # rest) @ drop (Suc e) v" using split_slice [of b e v] assms(1) rest by simp
  have "length (slice b e v) = Suc e - b" using assms by (simp add: slice_def)
  then have len: "length rest = e - b" using rest assms(1) by simp
  have "isort_loop b e (take b v @ sort [v ! b] @ rest @ drop (Suc e) v) (b + length [v ! b]) =
    (if 0 < b \<or> (\<forall>x \<in> set rest. \<exists>y \<in> set [v ! b]. y \<le> x) then
     Some (take b v @ sort ([v ! b] @ rest) @ drop (Suc e) v) else None)"
    using assms v len by (intro isort_loop_spec) simp_all
  then show ?thesis using v unfolding isort_def rest by (cases "0 < b") simp_all
qed

theorem isort_sorts_witness:
  "isort [9, 3, 1, 2 :: int] 1 3 = Some [9, 1, 2, 3] \<and> isort [3, 1 :: int] 0 1 = None"
  using isort_sorts [of 1 3 "[9, 3, 1, 2 :: int]"] isort_sorts [of 0 1 "[3, 1 :: int]"]
  by (simp add: slice_def)


section \<open>Selection with the median of medians\<close>

definition add64 :: "nat \<Rightarrow> nat \<Rightarrow> nat" where "add64 m n = (m + n) mod 2 ^ 64"
definition sub64 :: "nat \<Rightarrow> nat \<Rightarrow> nat" where "sub64 m n = (m + 2 ^ 64 - n) mod 2 ^ 64"

definition median_partition :: "'a::linorder list \<Rightarrow> nat \<Rightarrow> nat \<Rightarrow> (nat \<times> 'a list) option" where
  "median_partition v b e = do {
     let mid = b + (e - b) div 2;
     pivot \<leftarrow> vget v mid;
     v \<leftarrow> vswap v mid b;
     (pos, v) \<leftarrow> part_loop pivot e v b b;
     v \<leftarrow> vswap v pos b;
     Some (pos, v)
   }"

text \<open>The loop that sorts groups of five and collects their medians in front.\<close>

function median_groups :: "nat \<Rightarrow> 'a::linorder list \<Rightarrow> nat \<Rightarrow> nat \<Rightarrow> (nat \<times> 'a list) option" where
  "median_groups e v i tail =
     (if i < e then do {
        let j = (if i + 4 < e then i + 4 else e);
        v \<leftarrow> isort v i j;
        v \<leftarrow> vswap v tail (i + (j - i) div 2);
        median_groups e v (i + 5) (tail + 1)
      } else Some (tail, v))"
  by pat_completeness auto
termination by (relation "measure (\<lambda>(e, v, i, tail). e - i)") auto

declare median_groups.simps [simp del]

partial_function (option) median_select_loop ::
  "'a::linorder list \<Rightarrow> nat \<Rightarrow> nat \<Rightarrow> nat \<Rightarrow> ('a \<times> 'a list) option" where
  "median_select_loop v b e k =
     (if add64 (sub64 e b) 1 \<le> 5 then do {
        v \<leftarrow> isort v b e;
        x \<leftarrow> vget v (sub64 (add64 b k) 1);
        Some (x, v)
      } else do {
        (tail, v) \<leftarrow> median_groups e v b b;
        let mid = b + (tail - b) div 2;
        (x, v) \<leftarrow> median_select_loop v b tail mid;
        (pos, v) \<leftarrow> median_partition v b e;
        let ordinal = pos - b + 1;
        if k = ordinal then do { x \<leftarrow> vget v pos; Some (x, v) }
        else if k < ordinal then median_select_loop v b (pred64 pos) k
        else median_select_loop v (pos + 1) e (k - ordinal)
      })"

definition median_of_median_select :: "'a::{linorder, zero} list \<Rightarrow> nat \<Rightarrow> ('a \<times> 'a list) option" where
  "median_of_median_select v k =
     (let lens = length v in
      if lens = 0 \<or> k = 0 then Some (0, v)
      else let k = (if lens < k then lens else k) in median_select_loop v 0 (lens - 1) k)"

text \<open>The partition is right.\<close>

lemma median_partition_spec:
  assumes "b \<le> e" and "e < length v"
  shows "\<exists>pos v'. median_partition v b e = Some (pos, v') \<and> splits b pos e v' \<and> perm_range b e v v'"
proof -
  let ?mid = "b + (e - b) div 2"
  let ?v = "exchange v ?mid b"
  have mid: "b \<le> ?mid" "?mid \<le> e" using assms(1) by simp_all
  have perm: "perm_range b e v ?v" using mid assms by (intro perm_range_exchange) simp_all
  have "e < length ?v" using assms(2) by simp
  from part_split [OF assms(1) this] obtain pos v1 v2 where
    "part_loop (?v ! b) e ?v b b = Some (pos, v1)" "vswap v1 pos b = Some v2" "splits b pos e v2" "perm_range b e ?v v2"
    by blast
  moreover have "?v ! b = v ! ?mid" using mid assms by (subst nth_exchange) auto
  ultimately show ?thesis
    using mid assms perm_range_trans [OF perm] by (auto simp: median_partition_def Let_def)
qed

text \<open>
  On up to five elements the function is insertion sort from index 0: it has a result only if the first element is a least
  one.
\<close>

lemma median_select_small:
  assumes "v \<noteq> []" and "length v \<le> 5" and "0 < k"
  shows "median_of_median_select v k =
    (if \<forall>x \<in> set v. hd v \<le> x then Some (sort v ! (min k (length v) - 1), sort v) else None)"
proof -
  let ?k = "min k (length v)"
  have k: "(if length v < k then length v else k) = ?k" by auto
  have s: "slice 0 (length v - Suc 0) v = v" by (simp add: slice_def)
  have "isort v 0 (length v - 1) = (if \<forall>x \<in> set v. hd v \<le> x then Some (sort v) else None)"
    using isort_sorts [of 0 "length v - 1" v] assms by (simp add: s hd_conv_nth)
  moreover have "add64 (sub64 (length v - 1) 0) 1 \<le> 5" using assms by (simp add: add64_def sub64_def)
  moreover have "sub64 (add64 0 ?k) 1 = ?k - 1" "?k - 1 < length (sort v)"
  proof -
    have "0 < ?k" using assms by simp
    then obtain n where n: "?k = Suc n" by (metis gr0_implies_Suc)
    then have "n < 5" "n < length v" using assms(2) by linarith+
    then show "sub64 (add64 0 ?k) 1 = ?k - 1" "?k - 1 < length (sort v)"
      unfolding n by (simp_all add: add64_def sub64_def)
  qed
  ultimately show ?thesis
    using assms by (simp add: median_of_median_select_def Let_def k median_select_loop.simps [of v 0])
qed

text \<open>
  The function takes the middle index for the ordinal of the median. With six elements there is one group, so that the index is 0;
  the element in front of the vector is read.
\<close>

lemma median_select_six:
  assumes "length v = 6" and "0 < k"
  shows "median_of_median_select v k = None"
proof -
  have "median_select_loop v 0 5 m = None" for m
  proof -
    have inner: "median_select_loop u 0 1 0 = None" if "length u = 6" for u :: "'a list"
    proof (cases "isort u 0 1")
      case (Some u')
      then have "length u' = 6" using isort_sorts [of 0 1 u] that by (auto simp: slice_def split: if_splits)
      with Some show ?thesis
        by (simp add: median_select_loop.simps [of u 0 "Suc 0"] add64_def sub64_def vget_def)
    qed (simp add: median_select_loop.simps [of u 0 "Suc 0"] add64_def sub64_def)
    show ?thesis
    proof (cases "isort v 0 4")
      case (Some v1)
      then have "length v1 = 6" using isort_sorts [of 0 4 v] assms(1) by (auto simp: slice_def split: if_splits)
      with Some inner [of "exchange v1 0 2"] show ?thesis
        by (simp add: median_select_loop.simps [of v 0 5] add64_def sub64_def median_groups.simps [of 5] Let_def)
    qed (simp add: median_select_loop.simps [of v 0 5] add64_def sub64_def median_groups.simps [of 5] Let_def)
  qed
  with assms show ?thesis by (simp add: median_of_median_select_def Let_def)
qed

end
