(* ===== verification/Linked_Store.thy ===== *)
theory Linked_Store
  imports Main
begin

text \<open>
  The store of the linked structures of \<^verbatim>\<open>data_structure\<close>: a partial map from addresses to nodes. A
  computation on it may end with a value, use a pointer to no node (which has no meaning in C++), end the
  process because memory is exhausted, or never end. \<^verbatim>\<open>operator new\<close> is a parameter.
\<close>

type_synonym addr = nat
type_synonym 'c store = "addr \<Rightarrow> 'c option"

datatype 'a outcome = Done 'a | Undefined | Aborted

text \<open>A computation that never ends is \<^verbatim>\<open>None\<close>.\<close>

type_synonym 'a comp = "'a outcome option"

definition and_then :: "'a comp \<Rightarrow> ('a \<Rightarrow> 'b comp) \<Rightarrow> 'b comp" where
  "and_then m f = (case m of None \<Rightarrow> None
     | Some r \<Rightarrow> (case r of Done x \<Rightarrow> f x | Undefined \<Rightarrow> Some Undefined | Aborted \<Rightarrow> Some Aborted))"

lemma and_then_simps [simp]:
  "and_then (Some (Done x)) f = f x" "and_then (Some Undefined) f = Some Undefined"
  "and_then (Some Aborted) f = Some Aborted" "and_then None f = None"
  by (simp_all add: and_then_def)

lemma and_then_mono [partial_function_mono]:
  assumes "mono_option B" and "\<And>y. mono_option (\<lambda>f. C y f)"
  shows "mono_option (\<lambda>f. and_then (B f) (\<lambda>y. C y f))"
proof -
  have "and_then (B f) (\<lambda>y. C y f) = Option.bind (B f) (\<lambda>r. case r of Done x \<Rightarrow> C x f
      | Undefined \<Rightarrow> Some Undefined | Aborted \<Rightarrow> Some Aborted)" for f
    by (cases "B f") (simp_all add: and_then_def)
  moreover have "mono_option (\<lambda>f. Option.bind (B f) (\<lambda>r. case r of Done x \<Rightarrow> C x f
      | Undefined \<Rightarrow> Some Undefined | Aborted \<Rightarrow> Some Aborted))"
    using assms(1)
  proof (rule bind_mono)
    show "mono_option (\<lambda>f. case r of Done x \<Rightarrow> C x f | Undefined \<Rightarrow> Some Undefined | Aborted \<Rightarrow> Some Aborted)" for r
      using assms(2) by (cases r) (auto intro: option.const_mono)
  qed
  ultimately show ?thesis by simp
qed

text \<open>Reading and changing the node a pointer points to; 0 is \<^verbatim>\<open>nullptr\<close>.\<close>

definition node_at :: "'c store \<Rightarrow> addr \<Rightarrow> 'c comp" where
  "node_at h p = (case h p of None \<Rightarrow> Some Undefined | Some n \<Rightarrow> Some (Done n))"

definition change :: "addr \<Rightarrow> ('c \<Rightarrow> 'c) \<Rightarrow> 'c store \<Rightarrow> 'c store comp" where
  "change p f h = (case h p of None \<Rightarrow> Some Undefined | Some n \<Rightarrow> Some (Done (h(p \<mapsto> f n))))"

definition release :: "addr \<Rightarrow> 'c store \<Rightarrow> 'c store comp" where
  "release p h = (if h p = None then Some Undefined else Some (Done (h(p := None))))"

lemma node_at_Some [simp]: "h p = Some n \<Longrightarrow> node_at h p = Some (Done n)"
  by (simp add: node_at_def)

lemma node_at_None [simp]: "h p = None \<Longrightarrow> node_at h p = Some Undefined"
  by (simp add: node_at_def)

lemma change_Some [simp]: "h p = Some n \<Longrightarrow> change p f h = Some (Done (h(p \<mapsto> f n)))"
  by (simp add: change_def)

lemma release_Some [simp]: "h p = Some n \<Longrightarrow> release p h = Some (Done (h(p := None)))"
  by (simp add: release_def)

text \<open>
  An allocator picks an unused address for a new node, or none when memory is exhausted. Exhausted memory
  is reported and ends the process.
\<close>

type_synonym 'c alloc = "'c store \<Rightarrow> addr option"

definition allocator :: "'c alloc \<Rightarrow> bool" where
  "allocator new \<longleftrightarrow> (\<forall>h a. new h = Some a \<longrightarrow> a \<noteq> 0 \<and> h a = None)"

definition new_node :: "'c alloc \<Rightarrow> 'c \<Rightarrow> 'c store \<Rightarrow> (addr \<times> 'c store) comp" where
  "new_node new n h = (case new h of None \<Rightarrow> Some Aborted | Some a \<Rightarrow> Some (Done (a, h(a \<mapsto> n))))"

lemma allocatorD: "allocator new \<Longrightarrow> new h = Some a \<Longrightarrow> a \<noteq> 0 \<and> h a = None"
  by (simp add: allocator_def)

text \<open>An allocator for examples: the first of the addresses 1 to 9.\<close>

definition first_of_nine :: "'c alloc" where
  "first_of_nine h = find (\<lambda>a. h a = None) [1, 2, 3, 4, 5, 6, 7, 8, 9]"

lemma allocator_first: "allocator first_of_nine"
  by (auto simp: allocator_def first_of_nine_def split: if_splits)

end
