(* ===== verification/Linked_Tree.thy ===== *)
theory Linked_Tree
  imports Linked_Store "HOL-Library.Word" "HOL-Library.Tree"
begin

text \<open>
  The binary search tree of \<^verbatim>\<open>data_structure/BST.h\<close>, on a store of nodes with two pointers. Every
  operation is related to a tree of the library whose nodes carry their addresses: insertion, search,
  traversal, copying and destruction are right; removal is right except in one situation, in which it makes the
  structure cyclic.
\<close>

section \<open>Nodes and searching\<close>

record 'a link_node =
  node_data :: 'a
  left_link :: addr
  right_link :: addr

record bst =
  m_root :: addr
  m_size :: "32 word"

definition bst_empty :: bst where "bst_empty = \<lparr>m_root = 0, m_size = 0\<rparr>"

definition bst_size :: "bst \<Rightarrow> 32 word" where "bst_size t = m_size t"

text \<open>The loop of \<^verbatim>\<open>insert\<close>, \<^verbatim>\<open>remove\<close> and \<^verbatim>\<open>find\<close>: where it stops, and the node above.\<close>

partial_function (option) bst_walk ::
  "'a::linorder link_node store \<Rightarrow> 'a \<Rightarrow> addr \<Rightarrow> addr \<Rightarrow> (addr \<times> addr) comp" where
  "bst_walk h elem parent pos =
     (if pos = 0 then Some (Done (parent, pos))
      else and_then (node_at h pos) (\<lambda>n.
        if node_data n = elem then Some (Done (parent, pos))
        else bst_walk h elem pos (if node_data n < elem then right_link n else left_link n)))"

definition bst_find :: "bst \<Rightarrow> 'a::linorder link_node store \<Rightarrow> 'a \<Rightarrow> bool comp" where
  "bst_find t h elem = and_then (bst_walk h elem (m_root t) (m_root t)) (\<lambda>(parent, pos). Some (Done (pos \<noteq> 0)))"

definition bst_insert ::
  "'a::linorder link_node alloc \<Rightarrow> bst \<Rightarrow> 'a link_node store \<Rightarrow> 'a \<Rightarrow> (bool \<times> bst \<times> 'a link_node store) comp" where
  "bst_insert new t h elem =
     and_then (bst_walk h elem (m_root t) (m_root t)) (\<lambda>(parent, pos).
     if pos \<noteq> 0 then Some (Done (False, t, h))
     else and_then (new_node new \<lparr>node_data = elem, left_link = 0, right_link = 0\<rparr> h) (\<lambda>(pos, h).
       and_then (if parent = 0 then Some (Done (t\<lparr>m_root := pos\<rparr>, h))
         else and_then (change parent (\<lambda>n. if node_data n < elem then n\<lparr>right_link := pos\<rparr> else n\<lparr>left_link := pos\<rparr>) h)
           (\<lambda>h. Some (Done (t, h)))) (\<lambda>(t, h).
         Some (Done (True, t\<lparr>m_size := m_size t + 1\<rparr>, h)))))"

section \<open>Trees with addresses\<close>

primrec root_of :: "(addr \<times> 'a) tree \<Rightarrow> addr" where
  "root_of \<langle>\<rangle> = 0"
| "root_of \<langle>l, n, r\<rangle> = fst n"

primrec in_store :: "'a link_node store \<Rightarrow> (addr \<times> 'a) tree \<Rightarrow> bool" where
  "in_store h \<langle>\<rangle> = True"
| "in_store h \<langle>l, n, r\<rangle> = (fst n \<noteq> 0 \<and> in_store h l \<and> in_store h r \<and>
     h (fst n) = Some \<lparr>node_data = snd n, left_link = root_of l, right_link = root_of r\<rparr>)"

abbreviation addrs :: "(addr \<times> 'a) tree \<Rightarrow> addr list" where
  "addrs t \<equiv> map fst (inorder t)"

abbreviation keys :: "(addr \<times> 'a) tree \<Rightarrow> 'a list" where
  "keys t \<equiv> map snd (inorder t)"

text \<open>The tree in the store is a search tree without duplicates, and its size is counted.\<close>

definition bst_ok :: "bst \<Rightarrow> 'a::linorder link_node store \<Rightarrow> (addr \<times> 'a) tree \<Rightarrow> bool" where
  "bst_ok t h T \<longleftrightarrow> m_root t = root_of T \<and> in_store h T \<and> distinct (addrs T) \<and> sorted_wrt (<) (keys T) \<and>
     m_size t = of_nat (size T)"

lemma root_of_0: "in_store h T \<Longrightarrow> root_of T = 0 \<longleftrightarrow> T = \<langle>\<rangle>"
  by (cases T) auto

lemma root_in_addrs: "T \<noteq> \<langle>\<rangle> \<Longrightarrow> root_of T \<in> set (addrs T)"
  by (cases T) auto

lemma in_store_cong: "(\<And>a. a \<in> set (addrs T) \<Longrightarrow> h' a = h a) \<Longrightarrow> in_store h' T = in_store h T"
  by (induction T) auto

lemma in_store_upd [simp]: "a \<notin> fst ` set_tree T \<Longrightarrow> in_store (h(a := v)) T = in_store h T"
  by (rule in_store_cong) auto

lemma in_store_addrs: "in_store h T \<Longrightarrow> a \<in> set (addrs T) \<Longrightarrow> a \<noteq> 0 \<and> h a \<noteq> None"
  by (induction T) auto

text \<open>The walk on the tree.\<close>

fun walk_tree :: "'a::linorder \<Rightarrow> addr \<Rightarrow> (addr \<times> 'a) tree \<Rightarrow> addr \<times> addr" where
  "walk_tree x p \<langle>\<rangle> = (p, 0)"
| "walk_tree x p \<langle>l, (a, y), r\<rangle> = (if y = x then (p, a) else walk_tree x a (if y < x then r else l))"

lemma bst_walk_null [simp]: "bst_walk h x p 0 = Some (Done (p, 0))"
  by (simp add: bst_walk.simps)

lemma bst_walk_node: "h q = Some n \<Longrightarrow> q \<noteq> 0 \<Longrightarrow> bst_walk h x p q =
    (if node_data n = x then Some (Done (p, q)) else bst_walk h x q (if node_data n < x then right_link n else left_link n))"
  by (simp add: bst_walk.simps [of h x p q])

lemma bst_walk_tree: "in_store h T \<Longrightarrow> bst_walk h x p (root_of T) = Some (Done (walk_tree x p T))"
  by (induction x p T rule: walk_tree.induct) (auto simp: bst_walk_node)

lemma sorted_keys_node:
  "sorted_wrt (<) (keys l @ y # keys r) \<longleftrightarrow> sorted_wrt (<) (keys l) \<and> sorted_wrt (<) (keys r) \<and>
     (\<forall>z \<in> set_tree l. snd z < y) \<and> (\<forall>z \<in> set_tree r. (y :: 'a::linorder) < snd z)"
  by (auto simp: sorted_wrt_append) (metis less_trans snd_conv)

lemma walk_tree_found:
  "sorted_wrt (<) (keys T) \<Longrightarrow> in_store h T \<Longrightarrow> snd (walk_tree x p T) = 0 \<longleftrightarrow> x \<notin> set (keys T)"
proof (induction x p T rule: walk_tree.induct)
  case (2 x p l a y r)
  then have lt: "\<forall>z \<in> set_tree l. snd z < y" "\<forall>z \<in> set_tree r. y < snd z" and a: "a \<noteq> 0"
    by (auto simp: sorted_keys_node)
  consider "y = x" | "y < x" | "x < y" by fastforce
  then show ?case
  proof cases
    case 1
    then show ?thesis using a by simp
  next
    case 2
    then have "x \<notin> set (keys l)" using lt by auto
    with 2 "2.IH" "2.prems" show ?thesis by (auto simp: sorted_keys_node)
  next
    case 3
    then have "x \<notin> set (keys r)" using lt by auto
    with 3 "2.IH" "2.prems" show ?thesis by (auto simp: sorted_keys_node)
  qed
qed simp

text \<open>
  Searching: on a search tree \<^verbatim>\<open>find\<close> always returns, uses no bad pointer, and tells whether the element is in
  the tree.
\<close>

theorem bst_find_member:
  assumes "bst_ok t h T"
  shows "bst_find t h x = Some (Done (x \<in> set (keys T)))"
proof -
  have "m_root t = root_of T" "in_store h T" "sorted_wrt (<) (keys T)" using assms by (simp_all add: bst_ok_def)
  moreover have "(snd (walk_tree x (root_of T) T) \<noteq> 0) = (x \<in> set (keys T))"
    using walk_tree_found [OF calculation(3,2), of x "root_of T"] by metis
  ultimately show ?thesis by (simp add: bst_find_def bst_walk_tree split_def)
qed

section \<open>Insertion\<close>

fun tree_insert :: "addr \<Rightarrow> 'a::linorder \<Rightarrow> (addr \<times> 'a) tree \<Rightarrow> (addr \<times> 'a) tree" where
  "tree_insert a x \<langle>\<rangle> = \<langle>\<langle>\<rangle>, (a, x), \<langle>\<rangle>\<rangle>"
| "tree_insert a x \<langle>l, (b, y), r\<rangle> =
     (if y < x then \<langle>l, (b, y), tree_insert a x r\<rangle> else \<langle>tree_insert a x l, (b, y), r\<rangle>)"

lemma set_tree_insert: "set_tree (tree_insert a x T) = insert (a, x) (set_tree T)"
  by (induction a x T rule: tree_insert.induct) auto

lemma size_tree_insert: "size (tree_insert a x T) = Suc (size T)"
  by (induction a x T rule: tree_insert.induct) auto

lemma distinct_tree_insert: "distinct (addrs T) \<Longrightarrow> a \<notin> set (addrs T) \<Longrightarrow> distinct (addrs (tree_insert a x T))"
  by (induction a x T rule: tree_insert.induct) (auto simp: set_tree_insert)

lemma sorted_tree_insert:
  "sorted_wrt (<) (keys T) \<Longrightarrow> x \<notin> set (keys T) \<Longrightarrow> sorted_wrt (<) (keys (tree_insert a x T))"
proof (induction a x T rule: tree_insert.induct)
  case (2 a x l b y r)
  then show ?case by (auto simp: sorted_keys_node set_tree_insert not_less)
qed simp

lemma root_tree_insert: "T \<noteq> \<langle>\<rangle> \<Longrightarrow> root_of (tree_insert a x T) = root_of T"
  by (cases "(a, x, T)" rule: tree_insert.cases) auto

text \<open>Where the new node is linked, and that this is all that changes.\<close>

lemma walk_parent:
  "in_store h T \<Longrightarrow> T \<noteq> \<langle>\<rangle> \<Longrightarrow> snd (walk_tree x p T) = 0 \<Longrightarrow> fst (walk_tree x p T) \<in> set (addrs T)"
proof (induction x p T rule: walk_tree.induct)
  case (2 x p l a y r)
  let ?c = "if y < x then r else l"
  have ne: "y \<noteq> x" using "2.prems" by auto
  show ?case
  proof (cases "?c = \<langle>\<rangle>")
    case True
    with ne show ?thesis by (auto split: if_splits)
  next
    case False
    with 2 ne show ?thesis by (auto split: if_splits)
  qed
qed simp

definition link_below :: "addr \<Rightarrow> 'a::linorder \<Rightarrow> 'a link_node \<Rightarrow> 'a link_node" where
  "link_below a x n = (if node_data n < x then n\<lparr>right_link := a\<rparr> else n\<lparr>left_link := a\<rparr>)"

lemma in_store_insert:
  assumes "in_store h T" and "distinct (addrs T)" and "T \<noteq> \<langle>\<rangle>" and "snd (walk_tree x p T) = 0"
    and "a \<notin> set (addrs T)" and "a \<noteq> 0" and "h a = Some \<lparr>node_data = x, left_link = 0, right_link = 0\<rparr>"
  shows "\<exists>n. h (fst (walk_tree x p T)) = Some n \<and>
    in_store (h(fst (walk_tree x p T) \<mapsto> link_below a x n)) (tree_insert a x T)"
  using assms
proof (induction x p T rule: walk_tree.induct)
  case (2 x p l b y r)
  let ?c = "if y < x then r else l" and ?d = "if y < x then l else r"
  have ne: "y \<noteq> x" using "2.prems" by auto
  have b: "h b = Some \<lparr>node_data = y, left_link = root_of l, right_link = root_of r\<rparr>" "b \<noteq> 0" "in_store h ?c" "in_store h ?d"
    using "2.prems" by auto
  have dist: "distinct (addrs ?c)" "b \<notin> set (addrs ?c)" "b \<notin> set (addrs ?d)" "set (addrs ?c) \<inter> set (addrs ?d) = {}"
    "a \<notin> set (addrs ?c)" "a \<notin> set (addrs ?d)" "a \<noteq> b"
    using "2.prems" by auto
  show ?case
  proof (cases "?c = \<langle>\<rangle>")
    case True
    then show ?thesis using b ne dist "2.prems"(6,7)
      by (cases "y < x") (simp_all add: link_below_def del: fun_upd_apply, simp_all)
  next
    case False
    let ?q = "fst (walk_tree x b ?c)"
    have s: "snd (walk_tree x b ?c) = 0" using "2.prems" ne by simp
    from "2.IH" [OF ne b(3) dist(1) False s dist(5) "2.prems"(6,7)] obtain n where
      n: "h ?q = Some n" "in_store (h(?q \<mapsto> link_below a x n)) (tree_insert a x ?c)" by blast
    have q: "?q \<in> set (addrs ?c)" by (rule walk_parent [OF b(3) False s])
    then have "in_store (h(?q \<mapsto> link_below a x n)) ?d"
    proof -
      have "?q \<notin> set (addrs ?d)" using q dist(4) by blast
      with b(4) show ?thesis by simp
    qed
    moreover have "?q \<noteq> b" using q dist(2) by metis
    ultimately show ?thesis using n b ne False root_tree_insert [OF False, of a x]
      by (cases "y < x") (simp_all del: fun_upd_apply, simp_all)
  qed
qed simp

lemma insert_below:
  assumes "bst_ok t h T" and "T \<noteq> \<langle>\<rangle>" and "walk_tree x (root_of T) T = (parent, 0)" and "new h = Some a"
    and "a \<noteq> 0" and "h a = None"
  shows "\<exists>h'. bst_insert new t h x = Some (Done (True, t\<lparr>m_size := m_size t + 1\<rparr>, h')) \<and>
    in_store h' (tree_insert a x T) \<and> (\<forall>b. h b \<noteq> None \<and> b \<notin> set (addrs T) \<longrightarrow> h' b = h b)"
proof -
  have T: "m_root t = root_of T" "in_store h T" "distinct (addrs T)" using assms(1) by (simp_all add: bst_ok_def)
  let ?n = "\<lparr>node_data = x, left_link = 0, right_link = 0\<rparr>"
  have fresh: "a \<notin> set (addrs T)" using in_store_addrs [OF T(2), of a] assms(6) by metis
  have in1: "in_store (h(a \<mapsto> ?n)) T" using T(2) fresh by simp
  have "snd (walk_tree x (root_of T) T) = 0" using assms(3) by simp
  from in_store_insert [OF in1 T(3) assms(2) this fresh assms(5)] assms(3) obtain n where
    n: "(h(a \<mapsto> ?n)) parent = Some n" "in_store (h(a \<mapsto> ?n, parent \<mapsto> link_below a x n)) (tree_insert a x T)" by auto
  let ?h = "h(a \<mapsto> ?n, parent \<mapsto> link_below a x n)"
  have p: "parent \<in> set (addrs T)" using walk_parent [OF T(2) assms(2), of x "root_of T"] assms(3) by simp
  then have "parent \<noteq> 0" using in_store_addrs [OF T(2)] by blast
  then have "bst_insert new t h x = Some (Done (True, t\<lparr>m_size := m_size t + 1\<rparr>, ?h))"
    using assms(3,4) n(1) by (simp add: bst_insert_def T(1) bst_walk_tree [OF T(2)] new_node_def link_below_def)
  moreover have "?h b = h b" if "h b \<noteq> None" "b \<notin> set (addrs T)" for b using that p assms(6) by auto
  ultimately show ?thesis using n(2) by (intro exI [of _ ?h] conjI allI impI) simp_all
qed

text \<open>
  (C17) Insertion: it returns false and changes nothing for an element already there; otherwise it allocates
  one node, and the search tree then has the new element besides the old ones. No node outside
  the tree is touched. It ends the process only when there is no memory for the new node.
\<close>

theorem bst_insert_adds:
  assumes "allocator new" and "bst_ok t h T"
  shows "case bst_insert new t h x of
      Some (Done (b, t', h')) \<Rightarrow> (b \<longleftrightarrow> x \<notin> set (keys T)) \<and>
        (\<exists>T'. bst_ok t' h' T' \<and> set (keys T') = insert x (set (keys T)) \<and> (\<not> b \<longrightarrow> t' = t \<and> h' = h) \<and>
          (\<forall>a. h a \<noteq> None \<and> a \<notin> set (addrs T) \<longrightarrow> h' a = h a))
    | Some Aborted \<Rightarrow> x \<notin> set (keys T) \<and> new h = None
    | _ \<Rightarrow> False"
proof -
  have T: "m_root t = root_of T" "in_store h T" "distinct (addrs T)" "sorted_wrt (<) (keys T)"
    "m_size t = of_nat (size T)" using assms(2) by (simp_all add: bst_ok_def)
  obtain parent pos where w: "walk_tree x (root_of T) T = (parent, pos)" by force
  have found: "pos = 0 \<longleftrightarrow> x \<notin> set (keys T)" using walk_tree_found [OF T(4,2), of x "root_of T"] w by simp
  note walk = bst_walk_tree [OF T(2), of x "root_of T"]
  show ?thesis
  proof (cases "pos = 0")
    case False
    then have "bst_insert new t h x = Some (Done (False, t, h))" by (simp add: bst_insert_def T(1) walk w)
    with False found assms(2) show ?thesis by auto
  next
    case True
    show ?thesis
    proof (cases "new h")
      case None
      then have "bst_insert new t h x = Some Aborted" using True by (simp add: bst_insert_def T(1) walk w new_node_def)
      with None True found show ?thesis by simp
    next
      case (Some a)
      let ?n = "\<lparr>node_data = x, left_link = 0, right_link = 0\<rparr>"
      have a: "a \<noteq> 0" "h a = None" using allocatorD [OF assms(1) Some] by simp_all
      then have fresh: "a \<notin> set (addrs T)" using in_store_addrs [OF T(2), of a] by metis
      let ?T = "tree_insert a x T"
      have ok: "distinct (addrs ?T)" "sorted_wrt (<) (keys ?T)" "of_nat (size ?T) = m_size t + 1"
        using distinct_tree_insert [OF T(3) fresh] sorted_tree_insert [OF T(4)] True found T(5)
        by (simp_all add: size_tree_insert)
      show ?thesis
      proof (cases "T = \<langle>\<rangle>")
        case leaf: True
        have "bst_insert new t h x = Some (Done (True, \<lparr>m_root = a, m_size = m_size t + 1\<rparr>, h(a \<mapsto> ?n)))"
          using True Some w leaf by (simp add: bst_insert_def T(1) walk new_node_def)
        moreover have "bst_ok \<lparr>m_root = a, m_size = m_size t + 1\<rparr> (h(a \<mapsto> ?n)) ?T"
          using leaf a ok by (simp add: bst_ok_def)
        ultimately show ?thesis using leaf a by (auto intro!: exI [of _ ?T])
      next
        case ne: False
        have "walk_tree x (root_of T) T = (parent, 0)" using w True by simp
        from insert_below [where new = new and h = h and t = t, OF assms(2) ne this Some a] obtain h' where
          h': "bst_insert new t h x = Some (Done (True, t\<lparr>m_size := m_size t + 1\<rparr>, h'))" "in_store h' ?T"
            "\<forall>b. h b \<noteq> None \<and> b \<notin> set (addrs T) \<longrightarrow> h' b = h b" by blast
        then have "bst_ok (t\<lparr>m_size := m_size t + 1\<rparr>) h' ?T"
          using T(1) ok root_tree_insert [OF ne, of a x] by (simp add: bst_ok_def)
        moreover have "set (keys ?T) = insert x (set (keys T))" by (simp add: set_tree_insert)
        ultimately show ?thesis using True found h' by (auto intro!: exI [of _ ?T])
      qed
    qed
  qed
qed


section \<open>Traversal and depth\<close>

text \<open>
  The two nested loops of \<^verbatim>\<open>traverse\<close> as one: \<open>unvisited\<close> is the stack, top first; \<open>visited\<close> what has been written.
\<close>

partial_function (option) traverse_loop ::
  "'a link_node store \<Rightarrow> addr list \<Rightarrow> addr \<Rightarrow> 'a list \<Rightarrow> 'a list comp" where
  "traverse_loop h unvisited node visited =
     (if node \<noteq> 0 then and_then (node_at h node) (\<lambda>n. traverse_loop h (node # unvisited) (left_link n) visited)
      else (case unvisited of
          [] \<Rightarrow> Some (Done visited)
        | p # unvisited \<Rightarrow> and_then (node_at h p) (\<lambda>n.
            traverse_loop h unvisited (right_link n) (visited @ [node_data n]))))"

definition bst_traverse :: "('a \<Rightarrow> string) \<Rightarrow> bst \<Rightarrow> 'a link_node store \<Rightarrow> string comp" where
  "bst_traverse shw t h =
     and_then (if m_size t \<noteq> 0 then traverse_loop h [] (m_root t) [] else Some (Done [])) (\<lambda>xs.
       Some (Done (''{ [lxy::BST] '' @ concat (map (\<lambda>x. shw x @ '' '') xs) @ ''}'')))"

partial_function (option) depth_impl :: "'a link_node store \<Rightarrow> addr \<Rightarrow> 32 word comp" where
  "depth_impl h root =
     (if root = 0 then Some (Done 0)
      else and_then (node_at h root) (\<lambda>n.
        and_then (depth_impl h (left_link n)) (\<lambda>l.
        and_then (depth_impl h (right_link n)) (\<lambda>r. Some (Done (1 + max l r))))))"

definition bst_depth :: "bst \<Rightarrow> 'a link_node store \<Rightarrow> 32 word comp" where
  "bst_depth t h = depth_impl h (m_root t)"

lemma traverse_loop_tree:
  "in_store h T \<Longrightarrow> traverse_loop h st (root_of T) out = traverse_loop h st 0 (out @ keys T)"
proof (induction T arbitrary: st out)
  case (Node l n r)
  obtain a x where n: "n = (a, x)" by force
  have h: "h a = Some \<lparr>node_data = x, left_link = root_of l, right_link = root_of r\<rparr>" "a \<noteq> 0"
    using Node.prems n by auto
  have "traverse_loop h st (root_of \<langle>l, n, r\<rangle>) out = traverse_loop h (a # st) (root_of l) out"
    using h by (simp add: n traverse_loop.simps [of h st a])
  also have "\<dots> = traverse_loop h (a # st) 0 (out @ keys l)" using Node by simp
  also have "\<dots> = traverse_loop h st (root_of r) (out @ keys l @ [x])"
    using h by (simp add: traverse_loop.simps [of h "a # st" 0])
  also have "\<dots> = traverse_loop h st 0 (out @ keys \<langle>l, n, r\<rangle>)" using Node by (simp add: n)
  finally show ?case .
qed simp

lemma max_of_nat: "m < 2 ^ 32 \<Longrightarrow> n < 2 ^ 32 \<Longrightarrow> max (of_nat m) (of_nat n :: 32 word) = of_nat (max m n)"
  by (auto simp: max_def word_le_nat_alt take_bit_nat_eq_self unat_of_nat)

lemma depth_impl_tree:
  "in_store h T \<Longrightarrow> height T < 2 ^ 32 \<Longrightarrow> depth_impl h (root_of T) = Some (Done (of_nat (height T)))"
proof (induction T)
  case (Node l n r)
  obtain a x where "n = (a, x)" by force
  with Node show ?case by (simp add: depth_impl.simps [of h a] max_of_nat)
qed (simp add: depth_impl.simps)

lemma m_size_0: "bst_ok t h T \<Longrightarrow> size T < 2 ^ 32 \<Longrightarrow> m_size t = 0 \<longleftrightarrow> T = \<langle>\<rangle>"
  by (auto simp: bst_ok_def word_of_nat_eq_0_iff dvd_imp_le)

text \<open>
  Traversal writes the elements in ascending order, whatever the shape of the tree, and the depth is the
  height of the tree; both always return.
\<close>

theorem bst_traverse_sorted:
  assumes "bst_ok t h T" and "size T < 2 ^ 32"
  shows "bst_traverse shw t h = Some (Done (''{ [lxy::BST] '' @
      concat (map (\<lambda>x. shw x @ '' '') (sorted_list_of_set (set (keys T)))) @ ''}'')) \<and>
    bst_depth t h = Some (Done (of_nat (height T)))"
proof -
  have T: "m_root t = root_of T" "in_store h T" "sorted_wrt (<) (keys T)" using assms(1) by (simp_all add: bst_ok_def)
  have "traverse_loop h [] (root_of T) [] = Some (Done (keys T))"
    using traverse_loop_tree [OF T(2), of "[]" "[]"] by (simp add: traverse_loop.simps [of h "[]" 0])
  moreover have "keys T = []" if "m_size t = 0" using m_size_0 [OF assms] that by simp
  moreover have "sorted_list_of_set (set (keys T)) = keys T"
    by (rule sorted_list_of_set.idem_if_sorted_distinct) (use T(3) in \<open>simp_all add: strict_sorted_iff\<close>)
  moreover have "height T < 2 ^ 32" using height_le_size_tree [of T] assms(2) by simp
  ultimately show ?thesis by (auto simp: bst_traverse_def bst_depth_def T(1) depth_impl_tree [OF T(2)])
qed

section \<open>Copying and destruction\<close>

partial_function (option) bst_clear :: "'a link_node store \<Rightarrow> addr \<Rightarrow> 'a link_node store comp" where
  "bst_clear h root =
     (if root = 0 then Some (Done h)
      else and_then (node_at h root) (\<lambda>n.
        and_then (bst_clear h (left_link n)) (\<lambda>h.
        and_then (node_at h root) (\<lambda>n.
        and_then (bst_clear h (right_link n)) (\<lambda>h. release root h)))))"

definition bst_destroy :: "bst \<Rightarrow> 'a link_node store \<Rightarrow> (bst \<times> 'a link_node store) comp" where
  "bst_destroy t h =
     (if m_size t \<noteq> 0
      then and_then (bst_clear h (m_root t)) (\<lambda>h. Some (Done (t\<lparr>m_root := 0, m_size := 0\<rparr>, h)))
      else Some (Done (t, h)))"

partial_function (option) bst_copy ::
  "'a link_node alloc \<Rightarrow> 'a link_node store \<Rightarrow> addr \<Rightarrow> (addr \<times> 'a link_node store) comp" where
  "bst_copy new h root =
     (if root = 0 then Some (Done (0, h))
      else and_then (node_at h root) (\<lambda>n.
        and_then (new_node new \<lparr>node_data = node_data n, left_link = 0, right_link = 0\<rparr> h) (\<lambda>(node, h).
        and_then (bst_copy new h (left_link n)) (\<lambda>(l, h).
        and_then (change node (\<lambda>m. m\<lparr>left_link := l\<rparr>) h) (\<lambda>h.
        and_then (node_at h root) (\<lambda>n.
        and_then (bst_copy new h (right_link n)) (\<lambda>(r, h).
        and_then (change node (\<lambda>m. m\<lparr>right_link := r\<rparr>) h) (\<lambda>h.
          Some (Done (node, h))))))))))"

definition bst_copy_of :: "'a link_node alloc \<Rightarrow> bst \<Rightarrow> 'a link_node store \<Rightarrow> (bst \<times> 'a link_node store) comp" where
  "bst_copy_of new original h =
     (let t = \<lparr>m_root = 0, m_size = m_size original\<rparr> in
      if bst_size original \<noteq> 0
      then and_then (bst_copy new h (m_root original)) (\<lambda>(root, h). Some (Done (t\<lparr>m_root := root\<rparr>, h)))
      else Some (Done (t, h)))"

definition bst_swap :: "bst \<Rightarrow> bst \<Rightarrow> bst \<times> bst" where
  "bst_swap t rhs = (t\<lparr>m_root := m_root rhs, m_size := m_size rhs\<rparr>, rhs\<lparr>m_root := m_root t, m_size := m_size t\<rparr>)"

text \<open>The assignment makes a copy, swaps, and the copy is destroyed with what the tree was before.\<close>

definition bst_assign ::
  "'a link_node alloc \<Rightarrow> bst \<Rightarrow> bst \<Rightarrow> 'a link_node store \<Rightarrow> (bst \<times> 'a link_node store) comp" where
  "bst_assign new t rhs h =
     and_then (bst_copy_of new rhs h) (\<lambda>(rhs, h).
       let (t, rhs) = bst_swap t rhs in
       and_then (bst_destroy rhs h) (\<lambda>(rhs, h). Some (Done (t, h))))"

lemma bst_clear_tree:
  "in_store h T \<Longrightarrow> distinct (addrs T) \<Longrightarrow>
     bst_clear h (root_of T) = Some (Done (\<lambda>a. if a \<in> fst ` set_tree T then None else h a))"
proof (induction T arbitrary: h)
  case Leaf
  then show ?case by (simp add: bst_clear.simps)
next
  case (Node l n r)
  obtain a x where n: "n = (a, x)" by force
  let ?hl = "\<lambda>b. if b \<in> fst ` set_tree l then None else h b"
  let ?hr = "\<lambda>b. if b \<in> fst ` set_tree r then None else ?hl b"
  have a: "h a = Some \<lparr>node_data = x, left_link = root_of l, right_link = root_of r\<rparr>" "a \<noteq> 0"
    "a \<notin> fst ` set_tree l" "a \<notin> fst ` set_tree r" and lr: "fst ` set_tree l \<inter> fst ` set_tree r = {}"
    using Node.prems by (auto simp: n)
  have "in_store ?hl r = in_store h r" by (rule in_store_cong) (use lr in auto)
  with Node.prems Node.IH have "bst_clear h (root_of l) = Some (Done ?hl)" "bst_clear ?hl (root_of r) = Some (Done ?hr)"
    by simp_all
  then have "bst_clear h a = Some (Done (?hr(a := None)))"
    using a by (simp add: bst_clear.simps [of h a])
  moreover have "?hr(a := None) = (\<lambda>b. if b \<in> fst ` set_tree \<langle>l, n, r\<rangle> then None else h b)"
    by (auto simp: n fun_eq_iff)
  ultimately show ?case by (simp add: n)
qed


text \<open>A copy has the shape and the elements of the original, in nodes that were not in use; nothing else changes.\<close>

definition copied :: "'a link_node store \<Rightarrow> (addr \<times> 'a) tree \<Rightarrow> addr \<Rightarrow> 'a link_node store \<Rightarrow> (addr \<times> 'a) tree \<Rightarrow> bool" where
  "copied h T p h' T' \<longleftrightarrow> p = root_of T' \<and> in_store h' T' \<and> distinct (addrs T') \<and> map_tree snd T' = map_tree snd T \<and>
     (\<forall>a \<in> fst ` set_tree T'. h a = None) \<and> (\<forall>a. a \<notin> fst ` set_tree T' \<longrightarrow> h' a = h a)"

lemma bst_copy_tree:
  assumes "allocator new"
  shows "in_store h T \<Longrightarrow> bst_copy new h (root_of T) = Some Aborted \<or>
    (\<exists>p h' T'. bst_copy new h (root_of T) = Some (Done (p, h')) \<and> copied h T p h' T')"
proof (induction T arbitrary: h)
  case Leaf
  then show ?case by (auto simp: bst_copy.simps copied_def intro!: exI [of _ "\<langle>\<rangle>"])
next
  case (Node l n r)
  obtain p x where n: "n = (p, x)" by force
  have p: "h p = Some \<lparr>node_data = x, left_link = root_of l, right_link = root_of r\<rparr>" "p \<noteq> 0"
    and lr: "in_store h l" "in_store h r" using Node.prems by (auto simp: n)
  note step = bst_copy.simps [of new h p]
  show ?case
  proof (cases "new h")
    case None
    then show ?thesis using p by (simp add: n step new_node_def)
  next
    case (Some a)
    have a: "a \<noteq> 0" "h a = None" using allocatorD [OF assms Some] by simp_all
    have al: "a \<notin> fst ` set_tree l" "a \<notin> fst ` set_tree r" "a \<noteq> p"
      using in_store_addrs [OF lr(1), of a] in_store_addrs [OF lr(2), of a] a(2) p(1) by auto
    let ?n = "\<lparr>node_data = x, left_link = 0, right_link = 0\<rparr>"
    let ?h1 = "h(a \<mapsto> ?n)"
    have copy: "bst_copy new h p = and_then (bst_copy new ?h1 (root_of l)) (\<lambda>(q, h).
        and_then (change a (\<lambda>m. m\<lparr>left_link := q\<rparr>) h) (\<lambda>h.
        and_then (node_at h p) (\<lambda>n.
        and_then (bst_copy new h (right_link n)) (\<lambda>(q, h).
        and_then (change a (\<lambda>m. m\<lparr>right_link := q\<rparr>) h) (\<lambda>h. Some (Done (a, h)))))))"
      using p Some by (simp add: step new_node_def)
    have l1: "in_store ?h1 l" using lr(1) al by simp
    show ?thesis
    proof (cases "bst_copy new ?h1 (root_of l) = Some Aborted")
      case True
      then show ?thesis by (simp add: n copy)
    next
      case False
      with Node.IH(1) [OF l1] obtain q h2 L where
        2: "bst_copy new ?h1 (root_of l) = Some (Done (q, h2))" "copied ?h1 l q h2 L"
        by blast
      have L: "a \<notin> fst ` set_tree L" "p \<notin> fst ` set_tree L" using 2(2) p(1) al(3) by (auto simp: copied_def)
      let ?h3 = "h2(a \<mapsto> \<lparr>node_data = x, left_link = root_of L, right_link = 0\<rparr>)"
      have "h2 a = Some ?n" "h2 p = h p" using 2(2) L al by (auto simp: copied_def)
      have r3: "in_store ?h3 r"
      proof -
        have "h2 b = h b" if "b \<in> fst ` set_tree r" for b
        proof -
          have "h b \<noteq> None" "b \<noteq> a" using in_store_addrs [OF lr(2), of b] that al by auto
          then have "b \<notin> fst ` set_tree L" using 2(2) by (auto simp: copied_def)
          then show ?thesis using 2(2) \<open>b \<noteq> a\<close> by (simp add: copied_def)
        qed
        then have "in_store h2 r = in_store h r" by (intro in_store_cong) simp
        then show ?thesis using lr(2) al by simp
      qed
      have q: "q = root_of L" using 2(2) by (simp add: copied_def)
      have copy2: "bst_copy new h p = and_then (bst_copy new ?h3 (root_of r)) (\<lambda>(q, h).
        and_then (change a (\<lambda>m. m\<lparr>right_link := q\<rparr>) h) (\<lambda>h. Some (Done (a, h))))"
        using p al(3) \<open>h2 a = _\<close> \<open>h2 p = h p\<close> by (simp add: copy 2(1) q)
      show ?thesis
      proof (cases "bst_copy new ?h3 (root_of r) = Some Aborted")
        case True
        then show ?thesis by (simp add: n copy2)
      next
        case False
        with Node.IH(2) [OF r3] obtain s h4 R where
          4: "bst_copy new ?h3 (root_of r) = Some (Done (s, h4))" "copied ?h3 r s h4 R"
          by blast
        have R: "a \<notin> fst ` set_tree R" "fst ` set_tree L \<inter> fst ` set_tree R = {}"
        proof -
          show "a \<notin> fst ` set_tree R" using 4(2) by (auto simp: copied_def)
          have "?h3 b \<noteq> None" if "b \<in> fst ` set_tree L" for b
            using in_store_addrs [of h2 L b] 2(2) that by (auto simp: copied_def)
          then show "fst ` set_tree L \<inter> fst ` set_tree R = {}" using 4(2) unfolding copied_def by blast
        qed
        let ?m = "\<lparr>node_data = x, left_link = root_of L, right_link = root_of R\<rparr>"
        have h4: "h4 b = ?h3 b" if "b \<notin> fst ` set_tree R" for b using 4(2) that by (simp add: copied_def)
        have s: "s = root_of R" using 4(2) by (simp add: copied_def)
        have "h4 a = Some \<lparr>node_data = x, left_link = root_of L, right_link = 0\<rparr>" using h4 [OF R(1)] by simp
        then have "bst_copy new h p = Some (Done (a, h4(a \<mapsto> ?m)))" by (simp add: copy2 4(1) s)
        moreover have "copied h \<langle>l, n, r\<rangle> a (h4(a \<mapsto> ?m)) \<langle>L, (a, x), R\<rangle>"
        proof -
          have "in_store h4 L = in_store h2 L"
          proof (rule in_store_cong)
            fix b
            assume "b \<in> set (addrs L)"
            then have "b \<in> fst ` set_tree L" by simp
            then have "b \<notin> fst ` set_tree R" "b \<noteq> a" using R(2) L(1) by blast+
            then show "h4 b = h2 b" using h4 by simp
          qed
          then have "in_store (h4(a \<mapsto> ?m)) \<langle>L, (a, x), R\<rangle>"
            using 2(2) 4(2) L(1) R(1) a(1) by (simp add: copied_def)
          moreover have "h b = None" if "b \<in> fst ` set_tree R" for b
          proof -
            have "?h3 b = None" using 4(2) that by (auto simp: copied_def)
            then have "b \<noteq> a" "h2 b = None" by (auto split: if_splits)
            then show ?thesis using 2(2) by (cases "b \<in> fst ` set_tree L") (auto simp: copied_def)
          qed
          moreover have "h b = None" if "b \<in> fst ` set_tree L" for b
            using 2(2) that by (auto simp: copied_def split: if_splits)
          moreover have "h4 b = h b" if "b \<noteq> a" "b \<notin> fst ` set_tree L" "b \<notin> fst ` set_tree R" for b
            using h4 [OF that(3)] 2(2) that by (simp add: copied_def)
          ultimately have "in_store (h4(a \<mapsto> ?m)) \<langle>L, (a, x), R\<rangle>"
            "\<forall>b \<in> fst ` set_tree \<langle>L, (a, x), R\<rangle>. h b = None"
            "\<forall>b. b \<notin> fst ` set_tree \<langle>L, (a, x), R\<rangle> \<longrightarrow> (h4(a \<mapsto> ?m)) b = h b"
            using a(2) by (auto simp: image_Un)
          moreover have "distinct (addrs \<langle>L, (a, x), R\<rangle>)" "map_tree snd \<langle>L, (a, x), R\<rangle> = map_tree snd \<langle>l, n, r\<rangle>"
            using 2(2) 4(2) L(1) R by (simp_all add: copied_def n)
          ultimately show ?thesis unfolding copied_def by simp
        qed
        ultimately show ?thesis by (auto simp: n)
      qed
    qed
  qed
qed


lemma copied_keys: "copied h T p h' T' \<Longrightarrow> keys T' = keys T \<and> size T' = size T"
  unfolding copied_def by (metis inorder_map size_map_tree)

lemma bst_copy_of_ok:
  assumes "allocator new" and "bst_ok s h S" and "size S < 2 ^ 32"
  shows "bst_copy_of new s h = Some Aborted \<or> (\<exists>t' h' T'. bst_copy_of new s h = Some (Done (t', h')) \<and>
    bst_ok t' h' T' \<and> keys T' = keys S \<and> size T' = size S \<and> (\<forall>a \<in> fst ` set_tree T'. h a = None) \<and>
    (\<forall>a. a \<notin> fst ` set_tree T' \<longrightarrow> h' a = h a))"
proof (cases "S = \<langle>\<rangle>")
  case True
  with assms(2) have "bst_copy_of new s h = Some (Done (\<lparr>m_root = 0, m_size = 0\<rparr>, h))"
    by (simp add: bst_copy_of_def bst_size_def bst_ok_def)
  moreover have "bst_ok \<lparr>m_root = 0, m_size = 0\<rparr> h \<langle>\<rangle>" by (simp add: bst_ok_def)
  ultimately show ?thesis using True by auto
next
  case False
  then have "m_size s \<noteq> 0" using m_size_0 [OF assms(2,3)] by simp
  then have eq: "bst_copy_of new s h = and_then (bst_copy new h (root_of S)) (\<lambda>(root, h).
      Some (Done (\<lparr>m_root = root, m_size = m_size s\<rparr>, h)))"
    using assms(2) by (simp add: bst_copy_of_def bst_size_def bst_ok_def)
  have "in_store h S" using assms(2) by (simp add: bst_ok_def)
  from bst_copy_tree [OF assms(1) this]
  consider "bst_copy new h (root_of S) = Some Aborted"
    | p h' T' where "bst_copy new h (root_of S) = Some (Done (p, h'))" "copied h S p h' T'" by blast
  then show ?thesis
  proof cases
    case 2
    have "bst_ok \<lparr>m_root = p, m_size = m_size s\<rparr> h' T'"
      using 2(2) copied_keys [OF 2(2)] assms(2) by (simp add: bst_ok_def copied_def)
    with 2 copied_keys [OF 2(2)] show ?thesis by (auto simp: eq copied_def)
  qed (simp add: eq)
qed

text \<open>
  (C22) Assignment: the target becomes a search tree with the elements of the source in nodes of its own, every
  node it had before is given back, and no other node changes, the source's among them (unless both are one
  object). The process ends only when memory is exhausted, before anything is given back.
\<close>

theorem bst_assign_copies:
  assumes "allocator new" and "bst_ok t h T" and "bst_ok s h S" and "size T < 2 ^ 32" and "size S < 2 ^ 32"
  shows "bst_assign new t s h = Some Aborted \<or> (\<exists>t' h' T'. bst_assign new t s h = Some (Done (t', h')) \<and>
    bst_ok t' h' T' \<and> keys T' = keys S \<and> (\<forall>a \<in> fst ` set_tree T'. h a = None) \<and>
    (\<forall>a \<in> fst ` set_tree T. h' a = None) \<and>
    (\<forall>a. a \<notin> fst ` set_tree T' \<union> fst ` set_tree T \<longrightarrow> h' a = h a))"
proof -
  from bst_copy_of_ok [OF assms(1,3,5)]
  consider "bst_copy_of new s h = Some Aborted"
    | u h1 U where "bst_copy_of new s h = Some (Done (u, h1))" "bst_ok u h1 U" "keys U = keys S"
      "\<forall>a \<in> fst ` set_tree U. h a = None" "\<forall>a. a \<notin> fst ` set_tree U \<longrightarrow> h1 a = h a" by blast
  then show ?thesis
  proof cases
    case 1
    then show ?thesis by (simp add: bst_assign_def)
  next
    case 2
    have T: "m_root t = root_of T" "in_store h T" "distinct (addrs T)" using assms(2) by (simp_all add: bst_ok_def)
    have disj: "a \<notin> fst ` set_tree U" if "a \<in> fst ` set_tree T" for a
      using in_store_addrs [OF T(2), of a] 2(4) that by auto
    let ?h = "\<lambda>a. if a \<in> fst ` set_tree T then None else h1 a"
    have T1: "in_store h1 T = in_store h T" by (rule in_store_cong) (use 2(5) disj in auto)
    have "\<exists>v. bst_destroy (u\<lparr>m_root := m_root t, m_size := m_size t\<rparr>) h1 = Some (Done (v, ?h))"
    proof (cases "T = \<langle>\<rangle>")
      case True
      then show ?thesis using m_size_0 [OF assms(2,4)] by (simp add: bst_destroy_def)
    next
      case False
      then have "m_size t \<noteq> 0" using m_size_0 [OF assms(2,4)] by simp
      with bst_clear_tree [of h1 T] T T1 show ?thesis by (simp add: bst_destroy_def)
    qed
    then have "bst_assign new t s h = Some (Done (t\<lparr>m_root := m_root u, m_size := m_size u\<rparr>, ?h))"
      by (auto simp: bst_assign_def 2(1) bst_swap_def)
    moreover have "in_store ?h U = in_store h1 U" by (rule in_store_cong) (use disj in auto)
    then have "bst_ok (t\<lparr>m_root := m_root u, m_size := m_size u\<rparr>) ?h U" using 2(2) by (simp add: bst_ok_def)
    ultimately show ?thesis using 2 by auto
  qed
qed

section \<open>Removal\<close>

text \<open>The least node of a subtree, and the node above it.\<close>

partial_function (option) min_walk :: "'a link_node store \<Rightarrow> addr \<Rightarrow> addr \<Rightarrow> (addr \<times> addr) comp" where
  "min_walk h parent pos = and_then (node_at h pos) (\<lambda>n.
     if left_link n \<noteq> 0 then min_walk h pos (left_link n) else Some (Done (parent, pos)))"

definition remove_min :: "'a link_node store \<Rightarrow> addr \<Rightarrow> (addr \<times> 'a link_node store) comp" where
  "remove_min h root =
     (if root = 0 then Some (Done (0, h))
      else and_then (min_walk h root root) (\<lambda>(parent, pos).
        and_then (node_at h pos) (\<lambda>n.
        and_then (change parent (\<lambda>m. m\<lparr>left_link := right_link n\<rparr>) h) (\<lambda>h.
        and_then (change pos (\<lambda>m. m\<lparr>right_link := 0\<rparr>) h) (\<lambda>h. Some (Done (pos, h)))))))"

text \<open>What takes the place of the removed node.\<close>

definition replacement :: "'a link_node store \<Rightarrow> addr \<Rightarrow> (addr \<times> 'a link_node store) comp" where
  "replacement h pos = and_then (node_at h pos) (\<lambda>n.
     if left_link n = 0 then Some (Done (right_link n, h))
     else if right_link n = 0 then Some (Done (left_link n, h))
     else and_then (remove_min h (right_link n)) (\<lambda>(tmp, h).
       and_then (node_at h pos) (\<lambda>n.
       and_then (change tmp (\<lambda>m. m\<lparr>left_link := left_link n\<rparr>) h) (\<lambda>h.
       and_then (node_at h pos) (\<lambda>n.
       and_then (change tmp (\<lambda>m. m\<lparr>right_link := right_link n\<rparr>) h) (\<lambda>h. Some (Done (tmp, h))))))))"

definition bst_remove ::
  "bst \<Rightarrow> 'a::linorder link_node store \<Rightarrow> 'a \<Rightarrow> (bool \<times> bst \<times> 'a link_node store) comp" where
  "bst_remove t h elem =
     and_then (bst_walk h elem (m_root t) (m_root t)) (\<lambda>(parent, pos).
     if pos = 0 then Some (Done (False, t, h))
     else and_then (replacement h pos) (\<lambda>(tmp, h).
       and_then (node_at h parent) (\<lambda>n.
       and_then (if node_data n < elem then and_then (change parent (\<lambda>m. m\<lparr>right_link := tmp\<rparr>) h) (\<lambda>h. Some (Done (t, h)))
           else if elem < node_data n then and_then (change parent (\<lambda>m. m\<lparr>left_link := tmp\<rparr>) h) (\<lambda>h. Some (Done (t, h)))
           else Some (Done (t\<lparr>m_root := tmp\<rparr>, h))) (\<lambda>(t, h).
       and_then (release pos h) (\<lambda>h. Some (Done (True, t\<lparr>m_size := m_size t - 1\<rparr>, h)))))))"


text \<open>The same on trees.\<close>

fun split_min :: "'b tree \<Rightarrow> 'b \<times> 'b tree" where
  "split_min \<langle>\<rangle> = undefined"
| "split_min \<langle>l, n, r\<rangle> = (if l = \<langle>\<rangle> then (n, r) else (fst (split_min l), \<langle>snd (split_min l), n, r\<rangle>))"

fun min_path :: "addr \<Rightarrow> (addr \<times> 'a) tree \<Rightarrow> addr \<times> addr" where
  "min_path p \<langle>\<rangle> = (p, 0)"
| "min_path p \<langle>l, n, r\<rangle> = (if l = \<langle>\<rangle> then (p, fst n) else min_path (fst n) l)"

definition join_tree :: "'b tree \<Rightarrow> 'b tree \<Rightarrow> 'b tree" where
  "join_tree l r = (if l = \<langle>\<rangle> then r else if r = \<langle>\<rangle> then l else \<langle>l, fst (split_min r), snd (split_min r)\<rangle>)"

fun tree_remove :: "'a::linorder \<Rightarrow> (addr \<times> 'a) tree \<Rightarrow> (addr \<times> 'a) tree" where
  "tree_remove x \<langle>\<rangle> = \<langle>\<rangle>"
| "tree_remove x \<langle>l, (a, y), r\<rangle> = (if y = x then join_tree l r
     else if y < x then \<langle>l, (a, y), tree_remove x r\<rangle> else \<langle>tree_remove x l, (a, y), r\<rangle>)"

text \<open>
  The situation that \<^verbatim>\<open>remove\<close> gets right: the node of the element lacks a child, or its right child has a left child.
\<close>

fun removable :: "'a::linorder \<Rightarrow> (addr \<times> 'a) tree \<Rightarrow> bool" where
  "removable x \<langle>\<rangle> = True"
| "removable x \<langle>l, (a, y), r\<rangle> = (if y = x then l = \<langle>\<rangle> \<or> r = \<langle>\<rangle> \<or> left r \<noteq> \<langle>\<rangle>
     else removable x (if y < x then r else l))"

lemma inorder_split_min: "T \<noteq> \<langle>\<rangle> \<Longrightarrow> fst (split_min T) # inorder (snd (split_min T)) = inorder T"
proof (induction T rule: split_min.induct)
  case (2 l n r)
  then show ?case by (cases "l = \<langle>\<rangle>") (auto simp flip: append_Cons)
qed simp

lemma inorder_join: "inorder (join_tree l r) = inorder l @ inorder r"
  using inorder_split_min [of r] by (auto simp: join_tree_def)

lemma inorder_tree_remove: "sorted_wrt (<) (keys T) \<Longrightarrow> inorder (tree_remove x T) = filter (\<lambda>n. snd n \<noteq> x) (inorder T)"
proof (induction x T rule: tree_remove.induct)
  case (2 x l a y r)
  have all: "filter (\<lambda>n. snd n \<noteq> x) (inorder u) = inorder u" if "\<forall>z \<in> set_tree u. snd z \<noteq> x" for u :: "(addr \<times> 'a) tree"
    using that by (simp add: filter_id_conv)
  from 2(3) have lr: "\<forall>z \<in> set_tree l. snd z < y" "\<forall>z \<in> set_tree r. y < snd z"
    and s: "sorted_wrt (<) (keys l)" "sorted_wrt (<) (keys r)" by (simp_all add: sorted_keys_node)
  consider "y = x" | "y < x" | "x < y" by fastforce
  then show ?case
  proof cases
    case 1
    with lr have "\<forall>z \<in> set_tree l. snd z \<noteq> x" "\<forall>z \<in> set_tree r. snd z \<noteq> x" by fastforce+
    with 1 show ?thesis by (simp add: inorder_join all)
  next
    case 2
    with lr have "\<forall>z \<in> set_tree l. snd z \<noteq> x" by fastforce
    with 2 "2.IH" s show ?thesis by (auto simp: all)
  next
    case 3
    with lr have "\<forall>z \<in> set_tree r. snd z \<noteq> x" by fastforce
    with 3 "2.IH" s show ?thesis by (auto simp: all)
  qed
qed simp

lemma min_walk_tree: "in_store h T \<Longrightarrow> T \<noteq> \<langle>\<rangle> \<Longrightarrow> min_walk h p (root_of T) = Some (Done (min_path p T))"
proof (induction p T rule: min_path.induct)
  case (2 p l n r)
  then have "left_link \<lparr>node_data = snd n, left_link = root_of l, right_link = root_of r\<rparr> \<noteq> 0 \<longleftrightarrow> l \<noteq> \<langle>\<rangle>"
    using root_of_0 [of h l] by auto
  with 2 show ?case by (simp add: min_walk.simps [of h p "fst n"])
qed simp

text \<open>Taking the least node out of a tree whose root has a left child.\<close>

lemma unlink_min:
  assumes "in_store h \<langle>l, n, r\<rangle>" and "distinct (addrs \<langle>l, n, r\<rangle>)" and "l \<noteq> \<langle>\<rangle>"
  shows "\<exists>q m np nm. min_path p \<langle>l, n, r\<rangle> = (q, m) \<and> h q = Some np \<and> h m = Some nm \<and> q \<noteq> m \<and>
    q \<in> set (addrs \<langle>l, n, r\<rangle>) \<and> m \<in> set (addrs \<langle>l, n, r\<rangle>) \<and>
    in_store (h(q \<mapsto> np\<lparr>left_link := right_link nm\<rparr>, m \<mapsto> nm\<lparr>right_link := 0\<rparr>)) (snd (split_min \<langle>l, n, r\<rangle>)) \<and>
    m = fst (fst (split_min \<langle>l, n, r\<rangle>)) \<and> node_data nm = snd (fst (split_min \<langle>l, n, r\<rangle>)) \<and> left_link nm = 0"
  using assms
proof (induction l arbitrary: p n r)
  case (Node ll ln lr)
  let ?n = "\<lparr>node_data = snd n, left_link = fst ln, right_link = root_of r\<rparr>"
  have n: "h (fst n) = Some ?n" "fst n \<noteq> 0" "in_store h \<langle>ll, ln, lr\<rangle>" "in_store h r" using Node.prems(1) by simp_all
  have dist: "fst n \<notin> set (addrs \<langle>ll, ln, lr\<rangle>)" "fst n \<notin> set (addrs r)"
    "set (addrs \<langle>ll, ln, lr\<rangle>) \<inter> set (addrs r) = {}" "distinct (addrs \<langle>ll, ln, lr\<rangle>)"
    using Node.prems(2) by auto
  show ?case
  proof (cases "ll = \<langle>\<rangle>")
    case True
    let ?m = "\<lparr>node_data = snd ln, left_link = 0, right_link = root_of lr\<rparr>"
    have m: "h (fst ln) = Some ?m" "in_store h lr" using n(3) True by simp_all
    have "fst ln \<noteq> fst n" "fst ln \<notin> set (addrs lr)" "fst n \<notin> set (addrs lr)" "fst ln \<notin> set (addrs r)"
      using dist by auto
    then have "in_store (h(fst n \<mapsto> ?n\<lparr>left_link := right_link ?m\<rparr>, fst ln \<mapsto> ?m\<lparr>right_link := 0\<rparr>)) \<langle>lr, n, r\<rangle>"
      using m n dist(2) by simp
    with True n(1) m(1) \<open>fst ln \<noteq> fst n\<close> show ?thesis
      by - (rule exI [of _ "fst n"], rule exI [of _ "fst ln"], rule exI [of _ ?n], rule exI [of _ ?m], simp del: fun_upd_apply)
  next
    case False
    from Node.IH(1) [OF n(3) dist(4) False, of "fst n"] obtain q m np nm where
      ih: "min_path (fst n) \<langle>ll, ln, lr\<rangle> = (q, m)" "h q = Some np" "h m = Some nm" "q \<noteq> m"
        "q \<in> set (addrs \<langle>ll, ln, lr\<rangle>)" "m \<in> set (addrs \<langle>ll, ln, lr\<rangle>)"
        "in_store (h(q \<mapsto> np\<lparr>left_link := right_link nm\<rparr>, m \<mapsto> nm\<lparr>right_link := 0\<rparr>)) (snd (split_min \<langle>ll, ln, lr\<rangle>))"
        "m = fst (fst (split_min \<langle>ll, ln, lr\<rangle>))" "node_data nm = snd (fst (split_min \<langle>ll, ln, lr\<rangle>))" "left_link nm = 0"
      by blast
    let ?h = "h(q \<mapsto> np\<lparr>left_link := right_link nm\<rparr>, m \<mapsto> nm\<lparr>right_link := 0\<rparr>)"
    have "q \<notin> set (addrs r)" "m \<notin> set (addrs r)" "q \<noteq> fst n" "m \<noteq> fst n" using ih(5,6) dist by blast+
    then have "in_store ?h r" "?h (fst n) = Some ?n" using n by simp_all
    moreover have "root_of (snd (split_min \<langle>ll, ln, lr\<rangle>)) = fst ln" using False by simp
    ultimately have inst: "in_store ?h (snd (split_min \<langle>\<langle>ll, ln, lr\<rangle>, n, r\<rangle>))" using ih(7) n(2) by simp
    have mem: "q \<in> set (addrs \<langle>\<langle>ll, ln, lr\<rangle>, n, r\<rangle>)" "m \<in> set (addrs \<langle>\<langle>ll, ln, lr\<rangle>, n, r\<rangle>)" using ih(5,6) by auto
    have sp: "fst (split_min \<langle>\<langle>ll, ln, lr\<rangle>, n, r\<rangle>) = fst (split_min \<langle>ll, ln, lr\<rangle>)"
      and path: "min_path p \<langle>\<langle>ll, ln, lr\<rangle>, n, r\<rangle> = (q, m)" using ih(1) by simp_all
    show ?thesis using path ih(2,3,4) mem inst ih(8,9,10) unfolding sp by blast
  qed
qed simp

lemma remove_min_tree:
  assumes "in_store h T" and "distinct (addrs T)" and "T \<noteq> \<langle>\<rangle>" and "left T \<noteq> \<langle>\<rangle>"
  shows "\<exists>h'. remove_min h (root_of T) = Some (Done (fst (fst (split_min T)), h')) \<and> in_store h' (snd (split_min T)) \<and>
    h' (fst (fst (split_min T))) = Some \<lparr>node_data = snd (fst (split_min T)), left_link = 0, right_link = 0\<rparr> \<and>
    root_of (snd (split_min T)) = root_of T \<and> (\<forall>a. a \<notin> set (addrs T) \<longrightarrow> h' a = h a)"
proof -
  obtain l n r where T: "T = \<langle>l, n, r\<rangle>" using assms(3) by (cases T) auto
  then have l: "l \<noteq> \<langle>\<rangle>" using assms(4) by simp
  let ?p = "root_of T"
  have walk: "min_walk h ?p ?p = Some (Done (min_path ?p T))" by (rule min_walk_tree [OF assms(1,3)])
  from unlink_min [of h l n r ?p] assms(1,2) l obtain q m np nm where
    u: "min_path ?p T = (q, m)" "h q = Some np" "h m = Some nm" "q \<noteq> m" "q \<in> set (addrs T)" "m \<in> set (addrs T)"
      "in_store (h(q \<mapsto> np\<lparr>left_link := right_link nm\<rparr>, m \<mapsto> nm\<lparr>right_link := 0\<rparr>)) (snd (split_min T))"
      "m = fst (fst (split_min T))" "node_data nm = snd (fst (split_min T))" "left_link nm = 0"
    unfolding T by blast
  let ?h = "h(q \<mapsto> np\<lparr>left_link := right_link nm\<rparr>, m \<mapsto> nm\<lparr>right_link := 0\<rparr>)"
  have "?p \<noteq> 0" using assms(1) T by simp
  then have "remove_min h ?p = Some (Done (m, ?h))"
    using u(2,3,4) by (simp add: remove_min_def walk u(1))
  moreover have "?h m = Some \<lparr>node_data = snd (fst (split_min T)), left_link = 0, right_link = 0\<rparr>"
    using u(9,10) by simp
  moreover have "root_of (snd (split_min T)) = ?p" using l by (simp add: T)
  moreover have "?h a = h a" if "a \<notin> set (addrs T)" for a
  proof -
    have "a \<noteq> q" "a \<noteq> m" using u(5,6) that by metis+
    then show ?thesis by simp
  qed
  ultimately show ?thesis using u(7,8) by (intro exI [of _ ?h]) simp
qed

lemma replacement_tree:
  assumes "in_store h \<langle>l, (a, x), r\<rangle>" and "distinct (addrs \<langle>l, (a, x), r\<rangle>)" and "l = \<langle>\<rangle> \<or> r = \<langle>\<rangle> \<or> left r \<noteq> \<langle>\<rangle>"
  shows "\<exists>h'. replacement h a = Some (Done (root_of (join_tree l r), h')) \<and> in_store h' (join_tree l r) \<and>
    (\<forall>b. b \<notin> set (addrs r) \<longrightarrow> h' b = h b)"
proof -
  let ?n = "\<lparr>node_data = x, left_link = root_of l, right_link = root_of r\<rparr>"
  have n: "h a = Some ?n" and lr: "in_store h l" "in_store h r" using assms(1) by simp_all
  note z = root_of_0 [OF lr(1)] root_of_0 [OF lr(2)]
  show ?thesis
  proof (cases "l = \<langle>\<rangle> \<or> r = \<langle>\<rangle>")
    case True
    then show ?thesis using n lr z by (auto simp: replacement_def join_tree_def)
  next
    case False
    then have ne: "l \<noteq> \<langle>\<rangle>" "r \<noteq> \<langle>\<rangle>" "left r \<noteq> \<langle>\<rangle>" using assms(3) by simp_all
    have "distinct (addrs r)" using assms(2) by simp
    from remove_min_tree [OF lr(2) this ne(2,3)] obtain h1 where
      h1: "remove_min h (root_of r) = Some (Done (fst (fst (split_min r)), h1))" "in_store h1 (snd (split_min r))"
        "h1 (fst (fst (split_min r))) = Some \<lparr>node_data = snd (fst (split_min r)), left_link = 0, right_link = 0\<rparr>"
        "root_of (snd (split_min r)) = root_of r" "\<forall>b. b \<notin> set (addrs r) \<longrightarrow> h1 b = h b" by blast
    let ?m = "fst (split_min r)"
    let ?h = "h1(fst ?m \<mapsto> \<lparr>node_data = snd ?m, left_link = root_of l, right_link = root_of r\<rparr>)"
    have inr: "addrs r = fst ?m # addrs (snd (split_min r))"
      using arg_cong [OF inorder_split_min [OF ne(2)], of "map fst"] by simp
    have "a \<notin> set (addrs r)" "set (addrs l) \<inter> set (addrs r) = {}" using assms(2) by auto
    then have am: "a \<noteq> fst ?m" "h1 a = Some ?n" and lm: "fst ?m \<notin> set (addrs l)"
      using inr h1(5) n by auto
    have "replacement h a = Some (Done (fst ?m, ?h))"
      using n ne z h1(1,3) am by (simp add: replacement_def)
    moreover have "in_store ?h (join_tree l r)"
    proof -
      have "in_store h1 l = in_store h l"
      proof (rule in_store_cong)
        fix b
        assume "b \<in> set (addrs l)"
        then have "b \<notin> set (addrs r)" using \<open>set (addrs l) \<inter> set (addrs r) = {}\<close> by blast
        then show "h1 b = h b" using h1(5) by blast
      qed
      moreover have "fst ?m \<notin> set (addrs (snd (split_min r)))" using inr assms(2) by (metis distinct.simps(2) \<open>distinct (addrs r)\<close>)
      moreover have "fst ?m \<noteq> 0" using in_store_addrs [OF lr(2)] inr by (metis list.set_intros(1))
      ultimately show ?thesis using lr(1) h1(2,4) lm ne by (simp add: join_tree_def)
    qed
    moreover have "?h b = h b" if "b \<notin> set (addrs r)" for b
    proof -
      have "b \<noteq> fst ?m" using that inr by (metis list.set_intros(1))
      then show ?thesis using h1(5) that by simp
    qed
    moreover have "root_of (join_tree l r) = fst ?m" using ne by (simp add: join_tree_def)
    ultimately show ?thesis by (intro exI [of _ ?h]) simp
  qed
qed


text \<open>The link from above: what \<^verbatim>\<open>remove\<close> does after the replacement is found.\<close>

definition relink :: "addr \<Rightarrow> 'a::linorder \<Rightarrow> 'a link_node \<Rightarrow> 'a link_node" where
  "relink tmp x n = (if node_data n < x then n\<lparr>right_link := tmp\<rparr> else n\<lparr>left_link := tmp\<rparr>)"

definition unlinked :: "'a::linorder link_node store \<Rightarrow> 'a \<Rightarrow> addr \<Rightarrow> (addr \<times> 'a) tree \<Rightarrow>
    addr \<Rightarrow> addr \<Rightarrow> addr \<Rightarrow> 'a link_node store \<Rightarrow> bool" where
  "unlinked h x p T parent pos tmp h1 \<longleftrightarrow> walk_tree x p T = (parent, pos) \<and> pos \<in> set (addrs T) \<and>
     pos \<notin> set (addrs (tree_remove x T)) \<and> replacement h pos = Some (Done (tmp, h1)) \<and>
     (\<exists>n. h1 pos = Some n \<and> node_data n = x) \<and>
     (\<forall>b. b \<notin> set (addrs T) \<longrightarrow> h1 b = h b) \<and>
     (pos = root_of T \<and> parent = p \<and> in_store h1 (tree_remove x T) \<and> tmp = root_of (tree_remove x T) \<or>
      pos \<noteq> root_of T \<and> parent \<in> set (addrs T) \<and> parent \<noteq> pos \<and> root_of (tree_remove x T) = root_of T \<and>
      (\<exists>n. h1 parent = Some n \<and> node_data n \<noteq> x \<and> in_store (h1(parent \<mapsto> relink tmp x n)) (tree_remove x T)))"

lemma addrs_tree_remove: "sorted_wrt (<) (keys T) \<Longrightarrow> set (addrs (tree_remove x T)) \<subseteq> set (addrs T)"
  by (auto simp: inorder_tree_remove simp flip: set_inorder)

lemma remove_unlinks:
  assumes "in_store h T" and "distinct (addrs T)" and "sorted_wrt (<) (keys T)" and "x \<in> set (keys T)" and "removable x T"
  shows "\<exists>parent pos tmp h1. unlinked h x p T parent pos tmp h1"
  using assms
proof (induction x p T rule: walk_tree.induct)
  case (2 x p l a y r)
  have a: "h a = Some \<lparr>node_data = y, left_link = root_of l, right_link = root_of r\<rparr>" "a \<noteq> 0" using "2.prems" by simp_all
  show ?case
  proof (cases "y = x")
    case True
    then have "l = \<langle>\<rangle> \<or> r = \<langle>\<rangle> \<or> left r \<noteq> \<langle>\<rangle>" using "2.prems"(5) by simp
    from replacement_tree [OF "2.prems"(1,2) this] obtain h1 where
      h1: "replacement h a = Some (Done (root_of (join_tree l r), h1))" "in_store h1 (join_tree l r)"
        "\<forall>b. b \<notin> set (addrs r) \<longrightarrow> h1 b = h b" by blast
    have "a \<notin> set (addrs l)" "a \<notin> set (addrs r)" using "2.prems"(2) by auto
    moreover have "set (addrs (join_tree l r)) = set (addrs l) \<union> set (addrs r)" by (simp add: inorder_join flip: set_inorder)
    ultimately have "a \<notin> set (addrs (join_tree l r))" "h1 a = h a" using h1(3) by blast+
    moreover have "\<forall>b. b \<notin> set (addrs \<langle>l, (a, y), r\<rangle>) \<longrightarrow> h1 b = h b" using h1(3) by auto
    ultimately have "unlinked h x p \<langle>l, (a, y), r\<rangle> p a (root_of (join_tree l r)) h1"
      using True h1(1,2) a by (simp add: unlinked_def)
    then show ?thesis by blast
  next
    case False
    let ?c = "if y < x then r else l" and ?d = "if y < x then l else r"
    let ?T = "\<langle>l, (a, y), r\<rangle>"
    have s: "sorted_wrt (<) (keys ?c)" "\<forall>z \<in> set_tree l. snd z < y" "\<forall>z \<in> set_tree r. y < snd z"
      using "2.prems"(3) by (simp_all add: sorted_keys_node)
    have c: "in_store h ?c" "in_store h ?d" "distinct (addrs ?c)" "removable x ?c"
      using "2.prems" False by auto
    have x: "x \<in> set (keys ?c)"
    proof (cases "y < x")
      case True
      have "x \<notin> set (keys l)" using True s(2) by auto
      then show ?thesis using "2.prems"(4) False True by auto
    next
      case f: False
      then have "x < y" using False by simp
      then have "x \<notin> set (keys r)" using s(3) by auto
      then show ?thesis using "2.prems"(4) False f by auto
    qed
    have dist: "a \<notin> set (addrs ?c)" "a \<notin> set (addrs ?d)" "set (addrs ?c) \<inter> set (addrs ?d) = {}"
      using "2.prems"(2) by auto
    from "2.IH" [OF False c(1,3) s(1) x c(4)] obtain parent pos tmp h1 where u: "unlinked h x a ?c parent pos tmp h1" by blast
    then have pos: "walk_tree x a ?c = (parent, pos)" "pos \<in> set (addrs ?c)" "pos \<notin> set (addrs (tree_remove x ?c))"
      "replacement h pos = Some (Done (tmp, h1))" "\<exists>n. h1 pos = Some n \<and> node_data n = x"
      "\<forall>b. b \<notin> set (addrs ?c) \<longrightarrow> h1 b = h b" by (simp_all add: unlinked_def)
    let ?T' = "if y < x then \<langle>l, (a, y), tree_remove x r\<rangle> else \<langle>tree_remove x l, (a, y), r\<rangle>"
    have T': "tree_remove x ?T = ?T'" using False by simp
    have h1: "h1 a = h a" using pos(6) dist(1) by blast
    have d1: "in_store h1 ?d"
    proof -
      have "in_store h1 ?d = in_store h ?d"
      proof (rule in_store_cong)
        fix b
        assume "b \<in> set (addrs ?d)"
        then have "b \<notin> set (addrs ?c)" using dist(3) by blast
        then show "h1 b = h b" using pos(6) by blast
      qed
      with c(2) show ?thesis by simp
    qed
    have sub: "set (addrs (tree_remove x ?c)) \<subseteq> set (addrs ?c)" by (rule addrs_tree_remove [OF s(1)])
    have ne: "pos \<noteq> a" "a \<notin> set (addrs (tree_remove x ?c))" using pos(2) dist(1) sub by blast+
    have inT: "set (addrs ?c) \<subseteq> set (addrs ?T)" "a \<in> set (addrs ?T)" by auto
    have notin: "pos \<notin> set (addrs ?T')"
    proof -
      have "pos \<notin> set (addrs ?d)" using pos(2) dist(3) by blast
      then show ?thesis using pos(3) ne(1) by (cases "y < x") auto
    qed
    have link: "parent \<in> set (addrs ?T) \<and> parent \<noteq> pos \<and>
      (\<exists>n. h1 parent = Some n \<and> node_data n \<noteq> x \<and> in_store (h1(parent \<mapsto> relink tmp x n)) ?T')"
    proof (cases "pos = root_of ?c")
      case True
      then have root: "parent = a" "in_store h1 (tree_remove x ?c)" "tmp = root_of (tree_remove x ?c)"
        using u by (simp_all add: unlinked_def)
      let ?n = "\<lparr>node_data = y, left_link = root_of l, right_link = root_of r\<rparr>"
      let ?h = "h1(a \<mapsto> relink tmp x ?n)"
      have f: "in_store ?h (tree_remove x ?c)" "in_store ?h ?d" "?h a = Some (relink tmp x ?n)"
        using root(2) d1 ne(2) dist(2) by simp_all
      have "in_store ?h ?T'"
      proof (cases "y < x")
        case True
        then have "relink tmp x ?n = ?n\<lparr>right_link := tmp\<rparr>" by (simp add: relink_def)
        then show ?thesis using f a(2) root(3) True by (simp del: fun_upd_apply)
      next
        case False
        then have "relink tmp x ?n = ?n\<lparr>left_link := tmp\<rparr>" by (simp add: relink_def)
        then show ?thesis using f a(2) root(3) False by (simp del: fun_upd_apply)
      qed
      with root(1) ne(1) h1 a False inT(2) show ?thesis by auto
    next
      case deep: False
      then obtain n where n: "parent \<in> set (addrs ?c)" "parent \<noteq> pos" "root_of (tree_remove x ?c) = root_of ?c"
        "h1 parent = Some n" "node_data n \<noteq> x" "in_store (h1(parent \<mapsto> relink tmp x n)) (tree_remove x ?c)"
        using u by (auto simp: unlinked_def simp del: set_inorder set_map split: if_splits)
      let ?h = "h1(parent \<mapsto> relink tmp x n)"
      have "parent \<notin> set (addrs ?d)" "parent \<noteq> a" using n(1) dist(1,3) by blast+
      then have "in_store ?h ?d" "?h a = Some \<lparr>node_data = y, left_link = root_of l, right_link = root_of r\<rparr>"
        using d1 h1 a(1) by simp_all
      with n(3,6) a(2) have "in_store ?h ?T'" by (cases "y < x") (simp_all del: fun_upd_apply)
      with n inT(1) show ?thesis by blast
    qed
    have "unlinked h x p ?T parent pos tmp h1"
    proof -
      have "walk_tree x p ?T = (parent, pos)" using pos(1) False by simp
      moreover have "pos \<in> set (addrs ?T)" using pos(2) inT(1) by blast
      moreover have "\<forall>b. b \<notin> set (addrs ?T) \<longrightarrow> h1 b = h b" using pos(6) inT(1) by blast
      moreover have "root_of ?T' = root_of ?T" "pos \<noteq> root_of ?T" using ne(1) by (simp_all split: if_splits)
      ultimately show ?thesis unfolding unlinked_def T' using pos(4,5) notin link by blast
    qed
    then show ?thesis by blast
  qed
qed simp

lemma filter_one:
  "distinct (map snd xs) \<Longrightarrow> x \<in> snd ` set xs \<Longrightarrow> length xs = Suc (length (filter (\<lambda>n. snd n \<noteq> x) xs))"
proof (induction xs)
  case (Cons n xs)
  show ?case
  proof (cases "snd n = x")
    case True
    then have "filter (\<lambda>n. snd n \<noteq> x) xs = xs" using Cons.prems(1) by (auto simp: filter_id_conv rev_image_eqI)
    with True show ?thesis by simp
  qed (use Cons in auto)
qed simp

lemma size_tree_remove:
  assumes "sorted_wrt (<) (keys T)" and "x \<in> set (keys T)"
  shows "size T = Suc (size (tree_remove x T))"
proof -
  have "distinct (keys T)" using assms(1) by (simp add: strict_sorted_iff)
  then have "length (inorder T) = Suc (length (inorder (tree_remove x T)))"
    using filter_one [of "inorder T" x] assms by (simp add: inorder_tree_remove)
  then show ?thesis by simp
qed

text \<open>Exactly one node leaves the tree; what the call does to its parent.\<close>

lemma tree_remove_only:
  assumes "distinct (addrs T)" and "sorted_wrt (<) (keys T)" and "x \<in> set (keys T)"
    and "pos \<in> set (addrs T)" "pos \<notin> set (addrs (tree_remove x T))"
  shows "set (addrs T) - set (addrs (tree_remove x T)) = {pos}"
proof -
  let ?A = "set (addrs T)" and ?B = "set (addrs (tree_remove x T))"
  have "distinct (addrs (tree_remove x T))"
    unfolding inorder_tree_remove [OF assms(2)] using assms(1) by (simp add: distinct_map_filter)
  then have "card (?A - ?B) = length (addrs T) - length (addrs (tree_remove x T))"
    using addrs_tree_remove [OF assms(2)] assms(1)
    by (simp add: card_Diff_subset distinct_card del: set_map set_inorder)
  then have "card (?A - ?B) = 1" using size_tree_remove [OF assms(2,3)] by simp
  then obtain a where "?A - ?B = {a}" by (rule card_1_singletonE)
  moreover have "pos \<in> ?A - ?B" using assms(4,5) by (rule DiffI)
  ultimately show ?thesis by (simp only: singleton_iff)
qed

lemma remove_relinks:
  assumes "m_root t = root_of T" and "in_store h T" and u: "unlinked h x (root_of T) T parent pos tmp h1"
  shows "\<exists>t' h2. bst_remove t h x = Some (Done (True, t', h2(pos := None))) \<and> m_root t' = root_of (tree_remove x T) \<and>
    m_size t' = m_size t - 1 \<and> in_store h2 (tree_remove x T) \<and> (\<forall>b. b \<notin> set (addrs T) \<longrightarrow> h2 b = h b)"
proof -
  let ?T = "tree_remove x T"
  note walk = bst_walk_tree [OF assms(2), of x "root_of T"]
  obtain n where n: "h1 pos = Some n" "node_data n = x" using u by (auto simp: unlinked_def)
  have w: "walk_tree x (root_of T) T = (parent, pos)" and rep: "replacement h pos = Some (Done (tmp, h1))"
    and pos: "pos \<in> set (addrs T)" and same: "\<forall>b. b \<notin> set (addrs T) \<longrightarrow> h1 b = h b"
    using u by (simp_all add: unlinked_def)
  have pos0: "pos \<noteq> 0" using in_store_addrs [OF assms(2) pos(1)] by simp
  show ?thesis
  proof (cases "pos = root_of T")
    case root: True
    then have "parent = pos" "in_store h1 ?T" "tmp = root_of ?T" using u by (auto simp: unlinked_def)
    moreover have "bst_remove t h x = Some (Done (True, t\<lparr>m_root := tmp, m_size := m_size t - 1\<rparr>, h1(pos := None)))"
      using n pos0 \<open>parent = pos\<close> by (simp add: bst_remove_def assms(1) walk w rep)
    ultimately show ?thesis using same by (intro exI [of _ "t\<lparr>m_root := tmp, m_size := m_size t - 1\<rparr>"] exI [of _ h1]) simp_all
  next
    case deep: False
    then obtain m where m: "h1 parent = Some m" "node_data m \<noteq> x" "in_store (h1(parent \<mapsto> relink tmp x m)) ?T"
      "parent \<noteq> pos" "root_of ?T = root_of T" "parent \<in> set (addrs T)"
      using u unfolding unlinked_def by blast
    let ?h = "h1(parent \<mapsto> relink tmp x m)"
    consider "node_data m < x" | "x < node_data m" "\<not> node_data m < x" using m(2) by fastforce
    then have "bst_remove t h x = Some (Done (True, t\<lparr>m_size := m_size t - 1\<rparr>, ?h(pos := None)))"
      using m(1,2,4) n pos0 by cases (simp_all add: bst_remove_def assms(1) walk w rep relink_def)
    moreover have "\<forall>b. b \<notin> set (addrs T) \<longrightarrow> ?h b = h b" using same m(6) by (metis fun_upd_other)
    ultimately show ?thesis
      using m(3,5) assms(1) by (intro exI [of _ "t\<lparr>m_size := m_size t - 1\<rparr>"] exI [of _ ?h]) simp_all
  qed
qed

text \<open>
  (C21) Removal of an element whose node lacks a child or whose right child has a left child: exactly the element
  leaves the search tree, its node is given back, and no other node outside the tree changes; an element that is
  not there is reported and nothing changes.
\<close>

theorem bst_remove_deletes:
  assumes "bst_ok t h T" and "x \<in> set (keys T) \<longrightarrow> removable x T"
  shows "\<exists>t' h' T'. bst_remove t h x = Some (Done (x \<in> set (keys T), t', h')) \<and> bst_ok t' h' T' \<and>
    set (keys T') = set (keys T) - {x} \<and>
    set (addrs T') \<subseteq> set (addrs T) \<and> (\<forall>a \<in> set (addrs T) - set (addrs T'). h' a = None) \<and>
    (\<forall>a. a \<notin> set (addrs T) \<longrightarrow> h' a = h a)"
proof -
  have T: "m_root t = root_of T" "in_store h T" "distinct (addrs T)" "sorted_wrt (<) (keys T)"
    "m_size t = of_nat (size T)" using assms(1) by (simp_all add: bst_ok_def)
  note walk = bst_walk_tree [OF T(2), of x "root_of T"]
  show ?thesis
  proof (cases "x \<in> set (keys T)")
    case False
    then have w: "snd (walk_tree x (root_of T) T) = 0" using walk_tree_found [OF T(4,2)] by blast
    then have "bst_remove t h x = Some (Done (False, t, h))" by (simp add: bst_remove_def T(1) walk split_def)
    with False assms(1) show ?thesis by (intro exI [of _ t] exI [of _ h] exI [of _ T]) simp
  next
    case True
    from remove_unlinks [OF T(2,3,4) True, of "root_of T"] assms(2) True
    obtain parent pos tmp h1 where u: "unlinked h x (root_of T) T parent pos tmp h1" by blast
    let ?T = "tree_remove x T" and ?t = "t\<lparr>m_size := m_size t - 1\<rparr>"
    have pos: "pos \<in> set (addrs T)" "pos \<notin> set (addrs ?T)" 
      using u by (simp_all add: unlinked_def)
    have keys: "inorder ?T = filter (\<lambda>n. snd n \<noteq> x) (inorder T)" by (rule inorder_tree_remove [OF T(4)])
    have size: "size T = Suc (size ?T)" by (rule size_tree_remove [OF T(4) True])
    have dist: "distinct (addrs ?T)" "sorted_wrt (<) (keys ?T)"
      unfolding keys using T(3,4) by (simp_all add: distinct_map_filter sorted_wrt_map sorted_wrt_filter)
    have sub: "set (addrs ?T) \<subseteq> set (addrs T)" by (rule addrs_tree_remove [OF T(4)])
    have only_pos: "a = pos" if "a \<in> set (addrs T) - set (addrs ?T)" for a
      using that tree_remove_only [OF T(3,4) True pos] by blast
    from remove_relinks [OF T(1,2) u] obtain t' h2 where r: "bst_remove t h x = Some (Done (True, t', h2(pos := None)))"
      "m_root t' = root_of ?T" "m_size t' = m_size t - 1" "in_store h2 ?T" "\<forall>b. b \<notin> set (addrs T) \<longrightarrow> h2 b = h b" by blast
    have "in_store (h2(pos := None)) ?T" using r(4) pos(2) by simp
    then have "bst_ok t' (h2(pos := None)) ?T" using r(2,3) dist T(5) size by (simp add: bst_ok_def)
    moreover have "set (keys ?T) = set (keys T) - {x}" by (auto simp: keys simp flip: set_inorder)
    moreover have "(h2(pos := None)) a = None" if "a \<in> set (addrs T) - set (addrs ?T)" for a using only_pos [OF that] by simp
    moreover have "(h2(pos := None)) a = h a" if "a \<notin> set (addrs T)" for a
      using r(5) pos(1) that by (metis fun_upd_other)
    moreover have "bst_remove t h x = Some (Done (x \<in> set (keys T), t', h2(pos := None)))" using r(1) True by simp
    ultimately show ?thesis
      by (intro exI [of _ t'] exI [of _ "h2(pos := None)"] exI [of _ ?T] conjI ballI allI impI sub)
  qed
qed


section \<open>The other case of removal\<close>

lemma walk_no_cycle:
  assumes "bst_walk h y p b = Some r"
  shows "h b = Some n \<Longrightarrow> b \<noteq> 0 \<Longrightarrow> node_data n < y \<Longrightarrow> right_link n \<noteq> b"
proof (rule bst_walk.raw_induct [where P = "\<lambda>h y p b r. h b = Some n \<longrightarrow> b \<noteq> 0 \<longrightarrow>
    node_data n < y \<longrightarrow> right_link n \<noteq> b", OF _ assms, rule_format], goal_cases)
  case (1 walk h y p b r)
  show ?case
  proof
    assume *: "right_link n = b"
    then have "walk h y b b = Some r" using 1 less_imp_neq [of "node_data n" y] by simp
    with 1 * show False by blast
  qed
qed

lemma walk_cycle:
  "h b = Some n \<Longrightarrow> right_link n = b \<Longrightarrow> node_data n < y \<Longrightarrow> b \<noteq> 0 \<Longrightarrow> bst_walk h y p b = None"
  using walk_no_cycle [of h y p b] by (cases "bst_walk h y p b") auto


section \<open>Examples\<close>

text \<open>The tree with root 2 and children 1 and 3, at addresses 1, 2 and 3.\<close>

definition bst_example :: "(addr \<times> int) tree" where
  "bst_example = \<langle>\<langle>\<langle>\<rangle>, (2, 1), \<langle>\<rangle>\<rangle>, (1, 2), \<langle>\<langle>\<rangle>, (3, 3), \<langle>\<rangle>\<rangle>\<rangle>"

definition bst_example_store :: "int link_node store" where
  "bst_example_store = [1 \<mapsto> \<lparr>node_data = 2, left_link = 2, right_link = 3\<rparr>,
     2 \<mapsto> \<lparr>node_data = 1, left_link = 0, right_link = 0\<rparr>, 3 \<mapsto> \<lparr>node_data = 3, left_link = 0, right_link = 0\<rparr>]"

definition bst_example_tree :: bst where "bst_example_tree = \<lparr>m_root = 1, m_size = 3\<rparr>"

lemma bst_example_ok: "bst_ok bst_example_tree bst_example_store bst_example"
  by (simp add: bst_ok_def bst_example_tree_def bst_example_store_def bst_example_def)

theorem bst_find_member_witness:
  "bst_find bst_example_tree bst_example_store 3 = Some (Done True)"
  using bst_find_member [OF bst_example_ok, of 3] by (simp add: bst_example_def)

theorem bst_insert_adds_witness:
  "\<exists>t h T. bst_insert first_of_nine bst_example_tree bst_example_store 5 = Some (Done (True, t, h)) \<and> bst_ok t h T \<and>
     set (keys T) = {1, 2, 3, 5}"
proof -
  have four: "first_of_nine bst_example_store = Some 4" by (simp add: first_of_nine_def bst_example_store_def)
  have "5 \<notin> set (keys bst_example)" "set (keys bst_example) = {1, 2, 3}" by (auto simp: bst_example_def)
  with bst_insert_adds [OF allocator_first bst_example_ok, of 5] four show ?thesis
    by (auto split: option.splits outcome.splits simp: insert_commute simp del: set_map set_inorder)
qed

theorem bst_traverse_sorted_witness:
  "bst_traverse (\<lambda>n. if n = 1 then ''1'' else if n = 2 then ''2'' else ''3'') bst_example_tree bst_example_store =
     Some (Done ''{ [lxy::BST] 1 2 3 }'')"
proof -
  have "sorted_list_of_set (set (keys bst_example)) = [1, 2, 3]"
    using sorted_list_of_set.idem_if_sorted_distinct [of "[1, 2, 3 :: int]"] by (simp add: bst_example_def insert_commute)
  then show ?thesis
    using bst_traverse_sorted [OF bst_example_ok, of "\<lambda>n. if n = 1 then ''1'' else if n = 2 then ''2'' else ''3''"]
    by (simp add: bst_example_def)
qed

theorem bst_assign_copies_witness:
  "\<exists>t h T. bst_assign first_of_nine bst_empty bst_example_tree bst_example_store = Some (Done (t, h)) \<and> bst_ok t h T \<and>
     keys T = [1, 2, 3]"
proof -
  have e: "bst_ok bst_empty bst_example_store \<langle>\<rangle>" by (simp add: bst_ok_def bst_empty_def)
  have "bst_assign first_of_nine bst_empty bst_example_tree bst_example_store \<noteq> Some Aborted"
    by (simp add: bst_assign_def bst_copy_of_def bst_size_def bst_example_tree_def bst_copy.simps bst_example_store_def
        new_node_def first_of_nine_def bst_swap_def bst_destroy_def bst_empty_def)
  moreover have "size bst_example < 2 ^ 32" and keys: "keys bst_example = [1, 2, 3]" by (simp_all add: bst_example_def)
  ultimately obtain t h T where "bst_assign first_of_nine bst_empty bst_example_tree bst_example_store = Some (Done (t, h))"
    "bst_ok t h T" "keys T = keys bst_example" using bst_assign_copies [OF allocator_first e bst_example_ok] by auto
  with keys show ?thesis by metis
qed

theorem bst_remove_deletes_witness:
  "\<exists>t h T. bst_remove bst_example_tree bst_example_store 1 = Some (Done (True, t, h)) \<and> bst_ok t h T \<and>
     set (keys T) = {2, 3}"
  using bst_remove_deletes [OF bst_example_ok, of 1] by (auto simp: bst_example_def)


end
