(* ===== verification/Linked_Queue.thy ===== *)
theory Linked_Queue
  imports Linked_Store "HOL-Library.Word"
begin

text \<open>
  The queue of \<^verbatim>\<open>data_structure/queue.h\<close>: a circular list of nodes known by its last node, whose link leads
  to the first. Every member function is related to the list of the elements.
\<close>

section \<open>The member functions\<close>

record 'a queue_node =
  q_data :: 'a
  q_next :: addr

record link_queue =
  q_tail :: addr
  q_count :: "32 word"

definition queue_init :: link_queue where "queue_init = \<lparr>q_tail = 0, q_count = 0\<rparr>"

definition queue_empty :: "link_queue \<Rightarrow> bool" where "queue_empty q \<longleftrightarrow> q_tail q = 0"

definition queue_size :: "link_queue \<Rightarrow> 32 word" where "queue_size q = q_count q"

definition queue_front :: "link_queue \<Rightarrow> 'a queue_node store \<Rightarrow> 'a comp" where
  "queue_front q h = and_then (node_at h (q_tail q)) (\<lambda>t. and_then (node_at h (q_next t)) (\<lambda>n. Some (Done (q_data n))))"

definition queue_back :: "link_queue \<Rightarrow> 'a queue_node store \<Rightarrow> 'a comp" where
  "queue_back q h = and_then (node_at h (q_tail q)) (\<lambda>t. Some (Done (q_data t)))"

text \<open>Appending a node behind the last one: shared text of \<^verbatim>\<open>push\<close> and of the copy constructor.\<close>

definition append_node ::
  "'a queue_node alloc \<Rightarrow> addr \<Rightarrow> 'a \<Rightarrow> 'a queue_node store \<Rightarrow> (addr \<times> 'a queue_node store) comp" where
  "append_node new tail elem h =
     and_then (node_at h tail) (\<lambda>t.
     and_then (new_node new \<lparr>q_data = elem, q_next = q_next t\<rparr> h) (\<lambda>(n, h).
     and_then (change tail (\<lambda>t. t\<lparr>q_next := n\<rparr>) h) (\<lambda>h.
     and_then (node_at h tail) (\<lambda>t. Some (Done (q_next t, h))))))"

text \<open>A first node, linked to itself.\<close>

definition lone_node ::
  "'a queue_node alloc \<Rightarrow> 'a \<Rightarrow> 'a queue_node store \<Rightarrow> (addr \<times> 'a queue_node store) comp" where
  "lone_node new elem h =
     and_then (new_node new \<lparr>q_data = elem, q_next = 0\<rparr> h) (\<lambda>(n, h).
     and_then (change n (\<lambda>t. t\<lparr>q_next := n\<rparr>) h) (\<lambda>h. Some (Done (n, h))))"

definition queue_push ::
  "'a queue_node alloc \<Rightarrow> link_queue \<Rightarrow> 'a queue_node store \<Rightarrow> 'a \<Rightarrow> (link_queue \<times> 'a queue_node store) comp" where
  "queue_push new q h elem =
     and_then (if queue_empty q then lone_node new elem h else append_node new (q_tail q) elem h) (\<lambda>(tail, h).
       Some (Done (q\<lparr>q_tail := tail, q_count := q_count q + 1\<rparr>, h)))"

definition queue_pop ::
  "link_queue \<Rightarrow> 'a queue_node store \<Rightarrow> (bool \<times> link_queue \<times> 'a queue_node store) comp" where
  "queue_pop q h =
     (if \<not> queue_empty q then
        and_then (node_at h (q_tail q)) (\<lambda>t.
        let head = q_next t in
        and_then (if head = q_tail q then Some (Done (q\<lparr>q_tail := 0\<rparr>, h))
          else and_then (node_at h head) (\<lambda>n.
            and_then (change (q_tail q) (\<lambda>t. t\<lparr>q_next := q_next n\<rparr>) h) (\<lambda>h. Some (Done (q, h))))) (\<lambda>(q, h).
        and_then (release head h) (\<lambda>h. Some (Done (True, q\<lparr>q_count := q_count q - 1\<rparr>, h)))))
      else Some (Done (False, q, h)))"

partial_function (option) destroy_loop :: "'a queue_node store \<Rightarrow> addr \<Rightarrow> addr \<Rightarrow> 'a queue_node store comp" where
  "destroy_loop h tail head =
     (if head = tail then Some (Done h)
      else and_then (node_at h head) (\<lambda>n.
        and_then (change tail (\<lambda>t. t\<lparr>q_next := q_next n\<rparr>) h) (\<lambda>h.
        and_then (release head h) (\<lambda>h.
        and_then (node_at h tail) (\<lambda>t. destroy_loop h tail (q_next t))))))"

definition queue_destroy :: "link_queue \<Rightarrow> 'a queue_node store \<Rightarrow> (link_queue \<times> 'a queue_node store) comp" where
  "queue_destroy q h =
     (if \<not> queue_empty q then
        and_then (node_at h (q_tail q)) (\<lambda>t.
        and_then (destroy_loop h (q_tail q) (q_next t)) (\<lambda>h.
        and_then (release (q_tail q) h) (\<lambda>h. Some (Done (\<lparr>q_tail = 0, q_count = 0\<rparr>, h)))))
      else Some (Done (q, h)))"

partial_function (option) copy_loop ::
  "'a queue_node alloc \<Rightarrow> 'a queue_node store \<Rightarrow> addr \<Rightarrow> addr \<Rightarrow> addr \<Rightarrow> (addr \<times> 'a queue_node store) comp" where
  "copy_loop new h tail cur orig_head =
     (if cur \<noteq> orig_head then
        and_then (node_at h cur) (\<lambda>n.
        and_then (append_node new tail (q_data n) h) (\<lambda>(tail, h).
        and_then (node_at h cur) (\<lambda>n. copy_loop new h tail (q_next n) orig_head)))
      else Some (Done (tail, h)))"

definition queue_copy ::
  "'a queue_node alloc \<Rightarrow> link_queue \<Rightarrow> 'a queue_node store \<Rightarrow> (link_queue \<times> 'a queue_node store) comp" where
  "queue_copy new original h =
     (if \<not> queue_empty original then
        and_then (queue_front original h) (\<lambda>x.
        and_then (lone_node new x h) (\<lambda>(tail, h).
        and_then (node_at h (q_tail original)) (\<lambda>t.
        and_then (node_at h (q_next t)) (\<lambda>n.
        and_then (copy_loop new h tail (q_next n) (q_next t)) (\<lambda>(tail, h).
          Some (Done (\<lparr>q_tail = tail, q_count = q_count original\<rparr>, h)))))))
      else Some (Done (\<lparr>q_tail = 0, q_count = q_count original\<rparr>, h)))"

definition queue_swap :: "link_queue \<Rightarrow> link_queue \<Rightarrow> link_queue \<times> link_queue" where
  "queue_swap q rhs = (let tmp = q_tail q in
     (q\<lparr>q_tail := q_tail rhs, q_count := q_count rhs\<rparr>, rhs\<lparr>q_tail := tmp, q_count := q_count q\<rparr>))"

definition queue_assign ::
  "'a queue_node alloc \<Rightarrow> link_queue \<Rightarrow> link_queue \<Rightarrow> 'a queue_node store \<Rightarrow> (link_queue \<times> 'a queue_node store) comp" where
  "queue_assign new q original h =
     and_then (queue_copy new original h) (\<lambda>(rhs, h).
       let (q, rhs) = queue_swap q rhs in
       and_then (queue_destroy rhs h) (\<lambda>(rhs, h). Some (Done (q, h))))"

text \<open>\<^verbatim>\<open>out << data\<close> is a parameter: what it prints for an element.\<close>

partial_function (option) print_loop ::
  "('a \<Rightarrow> string) \<Rightarrow> 'a queue_node store \<Rightarrow> addr \<Rightarrow> addr \<Rightarrow> string \<Rightarrow> string comp" where
  "print_loop shw h tail head out =
     (if head \<noteq> tail then
        and_then (node_at h head) (\<lambda>n.
        and_then (node_at h (q_next n)) (\<lambda>m. print_loop shw h tail (q_next n) (out @ '' '' @ shw (q_data m))))
      else Some (Done out))"

definition queue_traverse :: "('a \<Rightarrow> string) \<Rightarrow> link_queue \<Rightarrow> 'a queue_node store \<Rightarrow> string comp" where
  "queue_traverse shw q h =
     and_then (if \<not> queue_empty q then
         and_then (node_at h (q_tail q)) (\<lambda>t.
         and_then (node_at h (q_next t)) (\<lambda>n.
           print_loop shw h (q_tail q) (q_next t) (''{ [lxy::Queue]'' @ '' '' @ shw (q_data n))))
       else Some (Done ''{ [lxy::Queue]'')) (\<lambda>out. Some (Done (out @ '' }'')))"

section \<open>Circular lists\<close>

primrec first_of :: "(addr \<times> 'a) list \<Rightarrow> addr \<Rightarrow> addr" where
  "first_of [] z = z"
| "first_of (n # ns) z = fst n"

primrec chain :: "'a queue_node store \<Rightarrow> (addr \<times> 'a) list \<Rightarrow> addr \<Rightarrow> bool" where
  "chain h [] z = True"
| "chain h (n # ns) z = (fst n \<noteq> 0 \<and> h (fst n) = Some \<lparr>q_data = snd n, q_next = first_of ns z\<rparr> \<and> chain h ns z)"

definition circle :: "'a queue_node store \<Rightarrow> (addr \<times> 'a) list \<Rightarrow> bool" where
  "circle h ns \<longleftrightarrow> chain h ns (first_of ns 0) \<and> distinct (map fst ns)"

text \<open>The queue holds the nodes \<open>ns\<close>, first to last.\<close>

definition queue_ok :: "link_queue \<Rightarrow> 'a queue_node store \<Rightarrow> (addr \<times> 'a) list \<Rightarrow> bool" where
  "queue_ok q h ns \<longleftrightarrow> circle h ns \<and> q_tail q = (if ns = [] then 0 else fst (last ns)) \<and> q_count q = of_nat (length ns)"

lemma first_of_append [simp]: "first_of (xs @ ys) z = first_of xs (first_of ys z)"
  by (cases xs) auto

lemma chain_append [simp]: "chain h (xs @ ys) z \<longleftrightarrow> chain h xs (first_of ys z) \<and> chain h ys z"
  by (induction xs) auto

lemma chain_cong: "(\<And>a. a \<in> fst ` set xs \<Longrightarrow> h' a = h a) \<Longrightarrow> chain h' xs z = chain h xs z"
  by (induction xs) auto

lemma chain_upd [simp]: "a \<notin> fst ` set xs \<Longrightarrow> chain (h(a := v)) xs z = chain h xs z"
  by (rule chain_cong) auto

lemma chain_addr: "chain h xs z \<Longrightarrow> a \<in> fst ` set xs \<Longrightarrow> a \<noteq> 0 \<and> (\<exists>n. h a = Some n)"
  by (induction xs) auto

lemma circle_cong: "(\<And>a. a \<in> fst ` set xs \<Longrightarrow> h' a = h a) \<Longrightarrow> circle h' xs = circle h xs"
  using chain_cong [of xs h' h] by (simp add: circle_def)

lemma queue_empty_ok: "queue_ok q h ns \<Longrightarrow> queue_empty q \<longleftrightarrow> ns = []"
  using chain_addr [of h ns _ "fst (last ns)"] by (auto simp: queue_ok_def queue_empty_def circle_def)

text \<open>Of a circle that is not empty: the last node leads to the first.\<close>

lemma circle_last:
  assumes "circle h (xs @ [(t, y)])"
  shows "t \<noteq> 0" "h t = Some \<lparr>q_data = y, q_next = first_of xs t\<rparr>" "t \<notin> fst ` set xs"
  using assms by (auto simp: circle_def)

lemma queue_nodes:
  assumes "queue_ok q h ns" and "ns \<noteq> []"
  obtains xs t y where "ns = xs @ [(t, y)]" "q_tail q = t" "circle h (xs @ [(t, y)])"
  using assms by (cases ns rule: rev_exhaust) (auto simp: queue_ok_def)

section \<open>Pushing\<close>

lemma lone_node_circle:
  assumes "allocator new"
  shows "case new h of None \<Rightarrow> lone_node new x h = Some Aborted
    | Some a \<Rightarrow> h a = None \<and> (\<exists>h'. lone_node new x h = Some (Done (a, h')) \<and> circle h' [(a, x)] \<and> (\<forall>b. b \<noteq> a \<longrightarrow> h' b = h b))"
  using allocatorD [OF assms, of h] by (auto simp: lone_node_def new_node_def circle_def split: option.split)

lemma append_node_circle:
  assumes "allocator new" and "circle h (xs @ [(t, y)])"
  shows "case new h of None \<Rightarrow> append_node new t x h = Some Aborted
    | Some a \<Rightarrow> h a = None \<and> (\<exists>h'. append_node new t x h = Some (Done (a, h')) \<and> circle h' (xs @ [(t, y), (a, x)]) \<and>
        (\<forall>b. b \<noteq> a \<longrightarrow> b \<noteq> t \<longrightarrow> h' b = h b))"
proof (cases "new h")
  case None
  then show ?thesis using circle_last [OF assms(2)] by (simp add: append_node_def new_node_def)
next
  case (Some a)
  note t = circle_last [OF assms(2)]
  have a: "a \<noteq> 0" "h a = None" using allocatorD [OF assms(1) Some] by auto
  then have ne: "a \<noteq> t" "a \<notin> fst ` set xs" using t(2) assms(2) chain_addr [where a = a and h = h and xs = xs] by (auto simp: circle_def)
  let ?h = "h(a \<mapsto> \<lparr>q_data = x, q_next = first_of xs t\<rparr>, t \<mapsto> \<lparr>q_data = y, q_next = a\<rparr>)"
  have "append_node new t x h = Some (Done (a, ?h))"
    using t ne a Some by (simp add: append_node_def new_node_def fun_upd_twist)
  moreover have "first_of xs t = first_of xs (first_of [(t, y)] 0)" by simp
  then have "circle ?h (xs @ [(t, y), (a, x)])"
    using assms(2) t ne a by (auto simp: circle_def) 
  ultimately show ?thesis using Some a(2) by (auto intro!: exI [of _ ?h])
qed

lemma queue_push_step:
  assumes "allocator new" and "queue_ok q h ns"
  shows "case new h of None \<Rightarrow> queue_push new q h x = Some Aborted
    | Some a \<Rightarrow> h a = None \<and> (\<exists>q' h'. queue_push new q h x = Some (Done (q', h')) \<and> queue_ok q' h' (ns @ [(a, x)]) \<and>
        (\<forall>b. b \<noteq> a \<longrightarrow> b \<noteq> q_tail q \<longrightarrow> h' b = h b))"
proof (cases "ns = []")
  case True
  then have q: "queue_empty q" "q_count q = 0" using queue_empty_ok [OF assms(2)] assms(2) by (auto simp: queue_ok_def)
  show ?thesis using lone_node_circle [OF assms(1), where h = h and x = x] True q
    by (auto simp: queue_push_def queue_ok_def split: option.splits)
next
  case False
  then obtain xs t y where ns: "ns = xs @ [(t, y)]" "q_tail q = t" "circle h (xs @ [(t, y)])"
    using queue_nodes [OF assms(2)] by blast
  have q: "\<not> queue_empty q" "q_count q = of_nat (Suc (length xs))"
    using False queue_empty_ok [OF assms(2)] assms(2) ns(1) by (auto simp: queue_ok_def)
  show ?thesis using append_node_circle [OF assms(1) ns(3), of x] q ns(1,2)
    by (auto simp: queue_push_def queue_ok_def split: option.splits)
qed

text \<open>
  \<^verbatim>\<open>push\<close> adds the element behind the last one, in a new node; no other node changes but the last. It ends
  the process when memory is exhausted, before any change.
\<close>

theorem queue_push_appends:
  assumes "allocator new" and "queue_ok q h ns"
  shows "case new h of None \<Rightarrow> queue_push new q h x = Some Aborted
    | Some a \<Rightarrow> h a = None \<and> (\<exists>q' h'. queue_push new q h x = Some (Done (q', h')) \<and> queue_ok q' h' (ns @ [(a, x)]) \<and>
        (\<forall>b. b \<noteq> a \<longrightarrow> b \<noteq> q_tail q \<longrightarrow> h' b = h b))"
  by (rule queue_push_step [OF assms])

section \<open>Popping\<close>

lemma queue_pop_step:
  assumes "queue_ok q h ns" and "h 0 = None"
  shows "case ns of
      [] \<Rightarrow> queue_pop q h = Some (Done (False, q, h)) \<and> queue_front q h = Some Undefined \<and> queue_back q h = Some Undefined
    | n # ms \<Rightarrow> queue_front q h = Some (Done (snd n)) \<and> queue_back q h = Some (Done (snd (last ns))) \<and>
        (\<exists>q' h'. queue_pop q h = Some (Done (True, q', h')) \<and> queue_ok q' h' ms \<and> h' (fst n) = None \<and>
          (\<forall>b. b \<noteq> fst n \<longrightarrow> b \<noteq> q_tail q \<longrightarrow> h' b = h b))"
proof (cases ns)
  case Nil
  then show ?thesis using assms by (simp add: queue_ok_def queue_pop_def queue_empty_def queue_front_def queue_back_def)
next
  case (Cons n ms)
  then have q: "\<not> queue_empty q" using queue_empty_ok [OF assms(1)] by simp
  show ?thesis
  proof (cases ms rule: rev_exhaust)
    case Nil
    then show ?thesis using Cons assms q
      by (auto simp: queue_ok_def circle_def queue_pop_def queue_front_def queue_back_def)
  next
    case (snoc ks l)
    obtain a x t y where [simp]: "n = (a, x)" "l = (t, y)" by fastforce
    have ok: "q_tail q = t" "circle h ((a, x) # ks @ [(t, y)])" "q_count q = of_nat (Suc (Suc (length ks)))"
      using assms(1) Cons snoc by (auto simp: queue_ok_def)
    note t = circle_last [of h "(a, x) # ks" t y, simplified, OF ok(2)]
    have a: "h a = Some \<lparr>q_data = x, q_next = first_of ks t\<rparr>" "a \<noteq> t" "a \<notin> fst ` set ks" "a \<noteq> 0"
      using ok(2) by (auto simp: circle_def)
    let ?h = "(h(t \<mapsto> \<lparr>q_data = y, q_next = first_of ks t\<rparr>))(a := None)"
    have "queue_pop q h = Some (Done (True, q\<lparr>q_count := q_count q - 1\<rparr>, ?h))"
      using q t a ok(1) by (simp add: queue_pop_def)
    moreover have "circle ?h (ks @ [(t, y)])"
      using ok(2) t a by (auto simp: circle_def)
    then have "queue_ok (q\<lparr>q_count := q_count q - 1\<rparr>) ?h ms" using ok snoc by (simp add: queue_ok_def)
    ultimately show ?thesis using Cons snoc t a ok(1)
      by (auto simp: queue_front_def queue_back_def intro!: exI [of _ "q\<lparr>q_count := q_count q - 1\<rparr>"] exI [of _ ?h])
  qed
qed

text \<open>
  \<^verbatim>\<open>pop\<close> takes the first element away and gives its node back, or returns false and changes nothing when
  the queue is empty; \<^verbatim>\<open>front\<close> and \<^verbatim>\<open>back\<close> are the first and the last element, and have no meaning on an
  empty queue.
\<close>

theorem queue_pop_removes:
  assumes "queue_ok q h ns" and "h 0 = None"
  shows "case ns of
      [] \<Rightarrow> queue_pop q h = Some (Done (False, q, h)) \<and> queue_front q h = Some Undefined \<and> queue_back q h = Some Undefined
    | n # ms \<Rightarrow> queue_front q h = Some (Done (snd n)) \<and> queue_back q h = Some (Done (snd (last ns))) \<and>
        (\<exists>q' h'. queue_pop q h = Some (Done (True, q', h')) \<and> queue_ok q' h' ms \<and> h' (fst n) = None \<and>
          (\<forall>b. b \<noteq> fst n \<longrightarrow> b \<noteq> q_tail q \<longrightarrow> h' b = h b))"
  by (rule queue_pop_step [OF assms])

section \<open>Destruction\<close>

lemma destroy_loop_circle:
  assumes "circle h (xs @ [(t, y)])"
  shows "\<exists>h'. destroy_loop h t (first_of xs t) = Some (Done h') \<and> h' t \<noteq> None \<and> (\<forall>a \<in> fst ` set xs. h' a = None) \<and>
    (\<forall>a. a \<noteq> t \<longrightarrow> a \<notin> fst ` set xs \<longrightarrow> h' a = h a)"
  using assms
proof (induction xs arbitrary: h)
  case Nil
  then show ?case using circle_last [OF Nil] by (simp add: destroy_loop.simps)
next
  case (Cons n xs)
  obtain a x where n [simp]: "n = (a, x)" by force
  note t = circle_last [of h "(a, x) # xs" t y, simplified, OF Cons.prems [simplified]]
  have a: "h a = Some \<lparr>q_data = x, q_next = first_of xs t\<rparr>" "a \<noteq> t" "a \<notin> fst ` set xs"
    using Cons.prems by (auto simp: circle_def)
  let ?h = "(h(t \<mapsto> \<lparr>q_data = y, q_next = first_of xs t\<rparr>))(a := None)"
  have "circle ?h (xs @ [(t, y)])" using Cons.prems t a by (auto simp: circle_def)
  from Cons.IH [OF this] obtain h' where h': "destroy_loop ?h t (first_of xs t) = Some (Done h')" "h' t \<noteq> None"
    "\<forall>a \<in> fst ` set xs. h' a = None" "\<forall>b. b \<noteq> t \<longrightarrow> b \<notin> fst ` set xs \<longrightarrow> h' b = ?h b" by blast
  have "destroy_loop h t (first_of (n # xs) t) = destroy_loop ?h t (first_of xs t)"
    using t a by (simp add: destroy_loop.simps [of h t a])
  with h' a show ?case by auto
qed

lemma queue_destroy_ok:
  assumes "queue_ok q h ns"
  shows "\<exists>q'. queue_destroy q h = Some (Done (q', \<lambda>a. if a \<in> fst ` set ns then None else h a))"
proof (cases "ns = []")
  case True
  then show ?thesis using queue_empty_ok [OF assms] by (simp add: queue_destroy_def)
next
  case False
  then obtain xs t y where ns: "ns = xs @ [(t, y)]" "q_tail q = t" "circle h (xs @ [(t, y)])"
    using queue_nodes [OF assms] by blast
  note t = circle_last [OF ns(3)]
  from destroy_loop_circle [OF ns(3)] obtain h' where h': "destroy_loop h t (first_of xs t) = Some (Done h')"
    "h' t \<noteq> None" "\<forall>a \<in> fst ` set xs. h' a = None" "\<forall>a. a \<noteq> t \<longrightarrow> a \<notin> fst ` set xs \<longrightarrow> h' a = h a" by blast
  have "h'(t := None) = (\<lambda>a. if a \<in> fst ` set ns then None else h a)"
    using h' ns(1) by (auto simp: fun_eq_iff)
  then show ?thesis using h' t ns(2) queue_empty_ok [OF assms] False
    by (auto simp: queue_destroy_def release_def)
qed

section \<open>Copying and assignment\<close>

lemma copy_loop_circle:
  assumes "allocator new" and "circle h (xs @ [(t, y)])" and "chain h zs z" and "z \<notin> fst ` set zs"
    and "fst ` set (xs @ [(t, y)]) \<inter> fst ` set zs = {}"
  shows "copy_loop new h t (first_of zs z) z = Some Aborted \<or> (\<exists>vs h'.
    copy_loop new h t (first_of zs z) z = Some (Done (fst (last ((t, y) # vs)), h')) \<and> circle h' (xs @ (t, y) # vs) \<and>
    map snd vs = map snd zs \<and> (\<forall>a \<in> fst ` set vs. h a = None) \<and> (\<forall>a. a \<noteq> t \<longrightarrow> a \<notin> fst ` set vs \<longrightarrow> h' a = h a))"
  using assms(2-5)
proof (induction zs arbitrary: h xs t y)
  case Nil
  then show ?case by (auto simp: copy_loop.simps intro!: exI [of _ "[]"])
next
  case (Cons n zs)
  obtain c x where n [simp]: "n = (c, x)" by force
  have c: "h c = Some \<lparr>q_data = x, q_next = first_of zs z\<rparr>" "c \<noteq> z" "chain h zs z" using Cons.prems by auto
  note app = append_node_circle [OF assms(1) Cons.prems(1), of x]
  have loop: "copy_loop new h t (first_of (n # zs) z) z = and_then (append_node new t x h) (\<lambda>(tail, h).
      and_then (node_at h c) (\<lambda>n. copy_loop new h tail (q_next n) z))"
    using c by (simp add: copy_loop.simps [of new h t c])
  show ?case
  proof (cases "new h")
    case None
    then show ?thesis using app by (simp only: loop) simp
  next
    case (Some a)
    with app obtain h1 where a: "h a = None" and h1: "append_node new t x h = Some (Done (a, h1))"
      "circle h1 (xs @ [(t, y), (a, x)])" "\<And>b. b \<noteq> a \<Longrightarrow> b \<noteq> t \<Longrightarrow> h1 b = h b" by auto
    have zs: "a \<notin> fst ` set zs" "t \<notin> fst ` set zs" "c \<noteq> t" "c \<noteq> a"
      using chain_addr [OF c(3), of a] a c(1) Cons.prems(4) by auto
    have h1c: "h1 c = h c" by (rule h1(3)) (use zs in auto)
    have eq: "copy_loop new h t (first_of (n # zs) z) z = copy_loop new h1 a (first_of zs z) z"
      by (simp only: loop) (simp add: h1(1) h1c c(1))
    have "chain h1 zs z = chain h zs z" by (rule chain_cong, rule h1(3)) (use zs in auto)
    then have "copy_loop new h1 a (first_of zs z) z = Some Aborted \<or> (\<exists>vs h'.
        copy_loop new h1 a (first_of zs z) z = Some (Done (fst (last ((a, x) # vs)), h')) \<and>
        circle h' ((xs @ [(t, y)]) @ (a, x) # vs) \<and> map snd vs = map snd zs \<and> (\<forall>b \<in> fst ` set vs. h1 b = None) \<and>
        (\<forall>b. b \<noteq> a \<longrightarrow> b \<notin> fst ` set vs \<longrightarrow> h' b = h1 b))"
      by (intro Cons.IH) (use Cons.prems h1(2) c(3) zs in auto)
    then show ?thesis
    proof (elim disjE exE conjE)
      fix vs h'
      assume vs: "copy_loop new h1 a (first_of zs z) z = Some (Done (fst (last ((a, x) # vs)), h'))"
        "circle h' ((xs @ [(t, y)]) @ (a, x) # vs)" "map snd vs = map snd zs" "\<forall>b \<in> fst ` set vs. h1 b = None"
        "\<forall>b. b \<noteq> a \<longrightarrow> b \<notin> fst ` set vs \<longrightarrow> h' b = h1 b"
      have "t \<notin> fst ` set vs" "a \<notin> fst ` set vs" using vs(2) by (auto simp: circle_def)
      then have "\<forall>b \<in> fst ` set vs. h b = None" using vs(4) h1(3) by metis
      then show ?thesis unfolding eq using vs a h1(3) by (intro disjI2 exI [of _ "(a, x) # vs"] exI [of _ h']) auto
    qed (rule disjI1, simp only: eq)
  qed
qed

lemma queue_copy_ok:
  assumes "allocator new" and "queue_ok s h ns"
  shows "queue_copy new s h = Some Aborted \<or> (\<exists>q h' ms. queue_copy new s h = Some (Done (q, h')) \<and> queue_ok q h' ms \<and>
    map snd ms = map snd ns \<and> (\<forall>a \<in> fst ` set ms. h a = None) \<and> (\<forall>a. a \<notin> fst ` set ms \<longrightarrow> h' a = h a))"
proof (cases ns)
  case Nil
  then show ?thesis using queue_empty_ok [OF assms(2)] assms(2)
    by (auto simp: queue_copy_def queue_ok_def circle_def)
next
  case (Cons n zs)
  obtain z x where n [simp]: "n = (z, x)" by force
  have s: "\<not> queue_empty s" "chain h ns z" "z \<notin> fst ` set zs" "q_count s = of_nat (length ns)"
    using queue_empty_ok [OF assms(2)] assms(2) Cons by (auto simp: queue_ok_def circle_def)
  have t: "\<exists>d. h (q_tail s) = Some \<lparr>q_data = d, q_next = z\<rparr>" and z: "h z = Some \<lparr>q_data = x, q_next = first_of zs z\<rparr>"
    using assms(2) Cons by (cases zs rule: rev_exhaust; force simp: queue_ok_def circle_def)+
  show ?thesis
  proof (cases "new h")
    case None
    then show ?thesis using lone_node_circle [OF assms(1), where h = h and x = x] s(1) t z
      by (auto simp: queue_copy_def queue_front_def)
  next
    case (Some a)
    with lone_node_circle [OF assms(1), where h = h and x = x] obtain h1 where a: "h a = None"
      and h1: "lone_node new x h = Some (Done (a, h1))" "circle h1 [(a, x)]" "\<forall>b. b \<noteq> a \<longrightarrow> h1 b = h b" by auto
    have ne: "a \<noteq> q_tail s" "a \<noteq> z" "a \<notin> fst ` set zs" using a t z s(2) chain_addr [of h ns z a] Cons by auto
    have eq: "queue_copy new s h = and_then (copy_loop new h1 a (first_of zs z) z) (\<lambda>(tail, h).
        Some (Done (\<lparr>q_tail = tail, q_count = q_count s\<rparr>, h)))"
      using s(1) t z h1 ne by (auto simp: queue_copy_def queue_front_def)
    have "chain h1 zs z = chain h zs z" by (rule chain_cong) (use h1(3) ne in auto)
    then have "copy_loop new h1 a (first_of zs z) z = Some Aborted \<or> (\<exists>vs h'.
        copy_loop new h1 a (first_of zs z) z = Some (Done (fst (last ((a, x) # vs)), h')) \<and> circle h' ([] @ (a, x) # vs) \<and>
        map snd vs = map snd zs \<and> (\<forall>b \<in> fst ` set vs. h1 b = None) \<and> (\<forall>b. b \<noteq> a \<longrightarrow> b \<notin> fst ` set vs \<longrightarrow> h' b = h1 b))"
      by (intro copy_loop_circle [OF assms(1)]) (use h1(2) s Cons ne in auto)
    then show ?thesis
    proof (elim disjE exE conjE)
      fix vs h'
      assume vs: "copy_loop new h1 a (first_of zs z) z = Some (Done (fst (last ((a, x) # vs)), h'))"
        "circle h' ([] @ (a, x) # vs)" "map snd vs = map snd zs" "\<forall>b \<in> fst ` set vs. h1 b = None"
        "\<forall>b. b \<noteq> a \<longrightarrow> b \<notin> fst ` set vs \<longrightarrow> h' b = h1 b"
      have "length vs = length zs" using arg_cong [OF vs(3), of length] by simp
      moreover have "a \<notin> fst ` set vs" using vs(2) by (auto simp: circle_def)
      then have "\<forall>b \<in> fst ` set vs. h b = None" using vs(4) h1(3) by metis
      ultimately show ?thesis using vs a h1(3) s(4) Cons
        by (intro disjI2 exI [of _ "\<lparr>q_tail = fst (last ((a, x) # vs)), q_count = q_count s\<rparr>"] exI [of _ h']
            exI [of _ "(a, x) # vs"]) (auto simp: eq queue_ok_def)
    qed (simp add: eq)
  qed
qed

text \<open>
  Assignment: the target holds the elements of the source in the same order, in nodes of its own; all nodes it
  had are given back and no other node changes. It ends the process only when memory is exhausted.
\<close>

theorem queue_assign_copies:
  assumes "allocator new" and "queue_ok q h ns" and "queue_ok s h ms"
  shows "queue_assign new q s h = Some Aborted \<or> (\<exists>q' h' vs. queue_assign new q s h = Some (Done (q', h')) \<and>
    queue_ok q' h' vs \<and> map snd vs = map snd ms \<and> (\<forall>a \<in> fst ` set vs. h a = None) \<and>
    (\<forall>a \<in> fst ` set ns. h' a = None) \<and> (\<forall>a. a \<notin> fst ` set vs \<union> fst ` set ns \<longrightarrow> h' a = h a))"
  using queue_copy_ok [OF assms(1,3)]
proof (elim disjE exE conjE)
  fix u h1 vs
  assume u: "queue_copy new s h = Some (Done (u, h1))" "queue_ok u h1 vs" "map snd vs = map snd ms"
    "\<forall>a \<in> fst ` set vs. h a = None" "\<forall>a. a \<notin> fst ` set vs \<longrightarrow> h1 a = h a"
  have disj: "a \<notin> fst ` set ns" if "a \<in> fst ` set vs" for a
  proof -
    have "h a = None" using u(4) that by (rule bspec)
    then show ?thesis using chain_addr [of h ns "first_of ns 0" a] assms(2) by (auto simp only: queue_ok_def circle_def)
  qed
  have "circle h1 ns = circle h ns" by (rule circle_cong) (use u(5) disj in blast)
  then have "queue_ok (u\<lparr>q_tail := q_tail q, q_count := q_count q\<rparr>) h1 ns" using assms(2) by (simp add: queue_ok_def)
  from queue_destroy_ok [OF this] obtain q' where
    d: "queue_destroy (u\<lparr>q_tail := q_tail q, q_count := q_count q\<rparr>) h1 =
      Some (Done (q', \<lambda>a. if a \<in> fst ` set ns then None else h1 a))" (is "_ = Some (Done (_, ?h))") by blast
  have "circle ?h vs = circle h1 vs" by (rule circle_cong) (use disj in auto)
  then have "queue_ok (q\<lparr>q_tail := q_tail u, q_count := q_count u\<rparr>) ?h vs" using u(2) by (simp add: queue_ok_def)
  moreover have "queue_assign new q s h = Some (Done (q\<lparr>q_tail := q_tail u, q_count := q_count u\<rparr>, ?h))"
    by (simp add: queue_assign_def u(1) queue_swap_def d)
  ultimately show ?thesis using u by (intro disjI2) auto
qed (simp add: queue_assign_def)

section \<open>Printing\<close>

lemma print_loop_circle:
  "chain h xs t \<Longrightarrow> h t = Some \<lparr>q_data = y, q_next = z\<rparr> \<Longrightarrow> t \<notin> fst ` set xs \<Longrightarrow>
     print_loop shw h t (first_of xs t) out =
       Some (Done (out @ (if xs = [] then [] else concat (map (\<lambda>x. '' '' @ shw x) (map snd (tl xs) @ [y])))))"
proof (induction xs arbitrary: out)
  case Nil
  then show ?case by (simp add: print_loop.simps)
next
  case (Cons n xs)
  have step: "print_loop shw h t (fst n) out =
      and_then (node_at h (first_of xs t)) (\<lambda>m. print_loop shw h t (first_of xs t) (out @ '' '' @ shw (q_data m)))"
    using Cons.prems by (auto simp: print_loop.simps [of shw h t "fst n"])
  show ?case
  proof (cases xs)
    case Nil
    then show ?thesis using Cons.prems by (simp add: step print_loop.simps)
  next
    case (Cons m ys)
    then show ?thesis using Cons.prems Cons.IH by (simp add: step)
  qed
qed

text \<open>
  \<^verbatim>\<open>traverse\<close> prints the elements first to last, each exactly once, although the list is circular.
\<close>

theorem queue_traverse_fifo:
  assumes "queue_ok q h ns"
  shows "queue_traverse shw q h =
    Some (Done (''{ [lxy::Queue]'' @ concat (map (\<lambda>x. '' '' @ shw x) (map snd ns)) @ '' }''))"
proof (cases "ns = []")
  case True
  then show ?thesis using queue_empty_ok [OF assms] by (simp add: queue_traverse_def)
next
  case False
  then obtain xs t y where ns: "ns = xs @ [(t, y)]" "q_tail q = t" "circle h (xs @ [(t, y)])"
    using queue_nodes [OF assms] by blast
  note t = circle_last [OF ns(3)]
  have "chain h xs t" using ns(3) by (simp add: circle_def)
  note loop = print_loop_circle [OF this t(2,3)]
  show ?thesis
  proof (cases xs)
    case Nil
    then show ?thesis using t ns queue_empty_ok [OF assms] False loop by (simp add: queue_traverse_def)
  next
    case (Cons n zs)
    have n: "h (fst n) = Some \<lparr>q_data = snd n, q_next = first_of zs t\<rparr>" using ns(3) Cons by (simp add: circle_def)
    show ?thesis using t ns queue_empty_ok [OF assms] False loop Cons n by (simp add: queue_traverse_def)
  qed
qed

section \<open>Any sequence of calls\<close>

datatype 'a queue_call = Push 'a | Pop | Front | Back
datatype 'a queue_answer = Pushed | Popped bool | Element 'a

fun queue_calls ::
  "'a queue_node alloc \<Rightarrow> 'a queue_call list \<Rightarrow> link_queue \<Rightarrow> 'a queue_node store \<Rightarrow> 'a queue_answer list \<Rightarrow>
   ('a queue_answer list \<times> link_queue \<times> 'a queue_node store) comp" where
  "queue_calls new [] q h as = Some (Done (as, q, h))"
| "queue_calls new (Push x # cs) q h as =
     and_then (queue_push new q h x) (\<lambda>(q, h). queue_calls new cs q h (as @ [Pushed]))"
| "queue_calls new (Pop # cs) q h as =
     and_then (queue_pop q h) (\<lambda>(b, q, h). queue_calls new cs q h (as @ [Popped b]))"
| "queue_calls new (Front # cs) q h as =
     and_then (queue_front q h) (\<lambda>x. queue_calls new cs q h (as @ [Element x]))"
| "queue_calls new (Back # cs) q h as =
     and_then (queue_back q h) (\<lambda>x. queue_calls new cs q h (as @ [Element x]))"

text \<open>What the calls mean for a list of elements; no element to return means no meaning.\<close>

fun fifo_calls :: "'a queue_call list \<Rightarrow> 'a list \<Rightarrow> 'a queue_answer list \<Rightarrow> ('a queue_answer list \<times> 'a list) option" where
  "fifo_calls [] xs as = Some (as, xs)"
| "fifo_calls (Push x # cs) xs as = fifo_calls cs (xs @ [x]) (as @ [Pushed])"
| "fifo_calls (Pop # cs) xs as = fifo_calls cs (tl xs) (as @ [Popped (xs \<noteq> [])])"
| "fifo_calls (Front # cs) xs as = (if xs = [] then None else fifo_calls cs xs (as @ [Element (hd xs)]))"
| "fifo_calls (Back # cs) xs as = (if xs = [] then None else fifo_calls cs xs (as @ [Element (last xs)]))"

definition fifo_result ::
  "('a queue_answer list \<times> link_queue \<times> 'a queue_node store) comp \<Rightarrow> ('a queue_answer list \<times> 'a list) option \<Rightarrow> bool" where
  "fifo_result r s \<longleftrightarrow> (case s of
     None \<Rightarrow> r = Some Undefined
   | Some (as, xs) \<Rightarrow> \<exists>q h ns. r = Some (Done (as, q, h)) \<and> queue_ok q h ns \<and> map snd ns = xs)"

lemma queue_ok_null:
  assumes "queue_push new q h x = Some (Done (q', h'))" and "allocator new" and "queue_ok q h ns" and "h 0 = None"
  shows "h' 0 = None"
proof (cases "new h")
  case None
  then show ?thesis using queue_push_step [OF assms(2,3), of x] assms(1) by simp
next
  case (Some a)
  then have "a \<noteq> 0" using allocatorD [OF assms(2)] by blast
  show ?thesis
  proof (cases "q_tail q = 0")
    case True
    then have "queue_empty q" by (simp add: queue_empty_def)
    then show ?thesis using Some assms(1,4) \<open>a \<noteq> 0\<close> by (auto simp: queue_push_def lone_node_def new_node_def)
  next
    case False
    then show ?thesis using queue_push_step [OF assms(2,3), of x] Some assms(1,4) \<open>a \<noteq> 0\<close> by auto
  qed
qed

lemma queue_calls_fifo:
  assumes "allocator new" and "queue_ok q h ns" and "h 0 = None"
  shows "queue_calls new cs q h as = Some Aborted \<or> fifo_result (queue_calls new cs q h as) (fifo_calls cs (map snd ns) as)"
  using assms(2,3)
proof (induction cs arbitrary: q h ns as)
  case Nil
  then show ?case by (auto simp: fifo_result_def)
next
  case (Cons c cs)
  note pop = queue_pop_step [OF Cons.prems]
  show ?case
  proof (cases c)
    case (Push x)
    show ?thesis
    proof (cases "new h")
      case None
      then show ?thesis using queue_push_step [OF assms(1) Cons.prems(1), of x] Push by simp
    next
      case (Some a)
      with queue_push_step [OF assms(1) Cons.prems(1), of x] obtain q' h' where
        p: "queue_push new q h x = Some (Done (q', h'))" "queue_ok q' h' (ns @ [(a, x)])" by auto
      have "h' 0 = None" by (rule queue_ok_null [OF p(1) assms(1) Cons.prems])
      from Cons.IH [OF p(2) this, of "as @ [Pushed]"] p(1) Push show ?thesis by simp
    qed
  next
    case Pop
    show ?thesis
    proof (cases ns)
      case Nil
      then show ?thesis using pop Pop Cons.IH [OF Cons.prems, of "as @ [Popped False]"] by simp
    next
      case (Cons n ms)
      with pop obtain q' h' where p: "queue_pop q h = Some (Done (True, q', h'))" "queue_ok q' h' ms"
        "\<forall>b. b \<noteq> fst n \<longrightarrow> b \<noteq> q_tail q \<longrightarrow> h' b = h b" by auto
      have "0 \<noteq> fst n" "0 \<noteq> q_tail q"
        using \<open>queue_ok q h ns\<close> Cons queue_empty_ok [of q h ns] by (auto simp: queue_ok_def circle_def queue_empty_def)
      then have "h' 0 = None" using p(3) \<open>h 0 = None\<close> by metis
      from Cons.IH [OF p(2) this, of "as @ [Popped True]"] p(1) Pop Cons show ?thesis by simp
    qed
  next
    case Front
    show ?thesis
    proof (cases ns)
      case Nil
      then show ?thesis using pop Front by (simp add: fifo_result_def)
    next
      case (Cons n ms)
      then show ?thesis using pop Front Cons.IH [OF Cons.prems, of "as @ [Element (snd n)]"] by simp
    qed
  next
    case Back
    show ?thesis
    proof (cases ns)
      case Nil
      then show ?thesis using pop Back by (simp add: fifo_result_def)
    next
      case (Cons n ms)
      then have "map snd ns \<noteq> []" "last (map snd ns) = snd (last ns)" by (simp_all add: last_map del: last.simps list.map)
      then show ?thesis using pop Back Cons Cons.IH [OF Cons.prems, of "as @ [Element (snd (last ns))]"]
        by (simp del: last.simps list.map)
    qed
  qed
qed

text \<open>
  (C18) The queue is a first-in first-out list: any sequence of calls on a new queue gives the answers of the list
  to which elements are appended at the end and removed at the beginning, has no meaning exactly when \<^verbatim>\<open>front\<close>
  or \<^verbatim>\<open>back\<close> is called on an empty queue, and leaves a well-formed circle with the elements of that list; or the
  process ends because memory is exhausted.
\<close>

theorem queue_is_fifo:
  assumes "allocator new" and "h 0 = None"
  shows "queue_calls new cs queue_init h [] = Some Aborted \<or>
    fifo_result (queue_calls new cs queue_init h []) (fifo_calls cs [] [])"
  using queue_calls_fifo [of new queue_init h "[]"] assms by (simp add: queue_ok_def circle_def queue_init_def)

section \<open>Examples\<close>

theorem queue_is_fifo_witness:
  "\<exists>q h ns. queue_calls first_of_nine [Push 3, Push (5 :: int), Front, Pop, Back, Pop, Pop] queue_init Map.empty [] =
     Some (Done ([Pushed, Pushed, Element 3, Popped True, Element 5, Popped True, Popped False], q, h)) \<and> queue_ok q h ns"
proof -
  let ?cs = "[Push 3, Push (5 :: int), Front, Pop, Back, Pop, Pop]"
  have "queue_calls first_of_nine ?cs queue_init Map.empty [] \<noteq> Some Aborted"
    by (simp add: queue_push_def queue_pop_def queue_front_def queue_back_def lone_node_def append_node_def new_node_def
        first_of_nine_def queue_init_def queue_empty_def)
  moreover have "fifo_calls ?cs [] [] =
      Some ([Pushed, Pushed, Element 3, Popped True, Element 5, Popped True, Popped False], [])" by simp
  ultimately show ?thesis
    using queue_is_fifo [OF allocator_first, of Map.empty ?cs] by (auto simp: fifo_result_def)
qed

definition queue_example :: "(addr \<times> int) list" where "queue_example = [(1, 3), (2, 5)]"

definition queue_example_store :: "int queue_node store" where
  "queue_example_store = [1 \<mapsto> \<lparr>q_data = 3, q_next = 2\<rparr>, 2 \<mapsto> \<lparr>q_data = 5, q_next = 1\<rparr>]"

definition queue_example_queue :: link_queue where "queue_example_queue = \<lparr>q_tail = 2, q_count = 2\<rparr>"

lemma queue_example_ok: "queue_ok queue_example_queue queue_example_store queue_example"
  by (simp add: queue_ok_def circle_def queue_example_def queue_example_store_def queue_example_queue_def)

theorem queue_push_appends_witness:
  "\<exists>q h. queue_push first_of_nine queue_example_queue queue_example_store 7 = Some (Done (q, h)) \<and>
     queue_ok q h [(1, 3), (2, 5), (3, 7)]"
proof -
  have "first_of_nine queue_example_store = Some 3" by (simp add: first_of_nine_def queue_example_store_def)
  with queue_push_appends [OF allocator_first queue_example_ok, of 7] show ?thesis by (auto simp: queue_example_def)
qed

theorem queue_pop_removes_witness:
  "\<exists>q h. queue_pop queue_example_queue queue_example_store = Some (Done (True, q, h)) \<and> queue_ok q h [(2, 5)]"
proof -
  have "queue_example_store 0 = None" by (simp add: queue_example_store_def)
  from queue_pop_removes [OF queue_example_ok this] show ?thesis by (auto simp: queue_example_def)
qed

theorem queue_traverse_fifo_witness:
  "queue_traverse (\<lambda>n. if n = 3 then ''3'' else ''5'') queue_example_queue queue_example_store =
     Some (Done ''{ [lxy::Queue] 3 5 }'')"
  using queue_traverse_fifo [OF queue_example_ok, of "\<lambda>n. if n = 3 then ''3'' else ''5''"] by (simp add: queue_example_def)

theorem queue_assign_copies_witness:
  "\<exists>q h vs. queue_assign first_of_nine queue_init queue_example_queue queue_example_store = Some (Done (q, h)) \<and>
     queue_ok q h vs \<and> map snd vs = [3, 5]"
proof -
  have e: "queue_ok queue_init queue_example_store []" by (simp add: queue_ok_def circle_def queue_init_def)
  show ?thesis using queue_assign_copies [OF allocator_first e queue_example_ok]
  proof (elim disjE exE conjE)
    fix q h and vs :: "(addr \<times> int) list"
    assume "queue_assign first_of_nine queue_init queue_example_queue queue_example_store = Some (Done (q, h))"
      "queue_ok q h vs" "map snd vs = map snd queue_example"
    then show ?thesis by (intro exI conjI) (simp_all add: queue_example_def)
  qed (simp add: queue_assign_def queue_copy_def queue_front_def queue_empty_def lone_node_def append_node_def new_node_def
      copy_loop.simps first_of_nine_def queue_init_def queue_example_queue_def queue_example_store_def queue_swap_def
      queue_destroy_def)
qed

end
