(* ===== verification/Web_Threads.thy ===== *)
theory Web_Threads
  imports Ring_Servers
begin

text \<open>
  The web client with threads, \<^verbatim>\<open>threads/web03.c\<close>: the main thread starts one thread per file, at most
  \<^verbatim>\<open>maxnconn\<close> at a time, waits on a condition variable until one has finished and joins every thread whose
  file says \<^verbatim>\<open>F_DONE\<close>. The program is a step relation whose steps are its accesses to what the threads share. What the
  network answers is left open: each call may succeed with any result, or fail and end the process.
\<close>

section \<open>The state\<close>

definition FL_CONNECTING :: int where "FL_CONNECTING = 1"
definition FL_READING :: int where "FL_READING = 2"
definition FL_DONE :: int where "FL_DONE = 4"
definition FL_JOINED :: int where "FL_JOINED = 8"

lemmas fl_defs = FL_CONNECTING_def FL_READING_def FL_DONE_def FL_JOINED_def

text \<open>Where the main thread is: at a loop test, at an access to shared memory, or inside a call.\<close>

datatype web_main_pc = MW_loop | MW_conn | MW_created nat | MW_lock | MW_test | MW_wait | MW_relock
  | MW_scan nat | MW_join nat | MW_unlock

text \<open>Where the thread of a file is; \<open>TW_return p\<close>: it has ended and returned the file \<open>p\<close>.\<close>

datatype web_thr_pc = TW_none | TW_start | TW_connected fd | TW_write fd | TW_flag fd | TW_read fd | TW_close fd | TW_done
  | TW_lock | TW_incr | TW_signal | TW_unlock | TW_return nat | TW_gone

datatype web_agent = Web_main | Web_thread nat

datatype web_end = Exit_ok | Call_failed | Nothing_found | Wrong_file

record web_thr =
  w_main :: web_main_pc
  w_pc :: "nat \<Rightarrow> web_thr_pc"
  w_flags :: "nat \<Rightarrow> int"
  w_tid :: "nat \<Rightarrow> nat option"
  w_nconn :: int
  w_toconn :: int
  w_toread :: int
  w_ndone :: int
  w_mutex :: "web_agent option"
  w_end :: "web_end option"

definition web_thr_init :: "nat \<Rightarrow> web_thr" where
  "web_thr_init n = \<lparr>w_main = MW_loop, w_pc = (\<lambda>i. TW_none), w_flags = (\<lambda>i. 0), w_tid = (\<lambda>i. None), w_nconn = 0,
     w_toconn = int n, w_toread = int n, w_ndone = 0, w_mutex = None, w_end = None\<rparr>"

section \<open>The steps\<close>

text \<open>The main thread, with \<open>n\<close> files and at most \<open>mx\<close> connections.\<close>

inductive web_main_step :: "nat \<Rightarrow> int \<Rightarrow> web_thr \<Rightarrow> web_thr \<Rightarrow> bool" for n mx where
  again: "w_main s = MW_loop \<Longrightarrow> 0 < w_toread s \<Longrightarrow> web_main_step n mx s (s\<lparr>w_main := MW_conn\<rparr>)"
| finish: "w_main s = MW_loop \<Longrightarrow> \<not> 0 < w_toread s \<Longrightarrow> web_main_step n mx s (s\<lparr>w_end := Some Exit_ok\<rparr>)"
| create: "w_main s = MW_conn \<Longrightarrow> w_nconn s < mx \<and> 0 < w_toconn s \<Longrightarrow>
     find (\<lambda>i. w_flags s i = 0) [0..<n] = Some i \<Longrightarrow>
     web_main_step n mx s (s\<lparr>w_main := MW_created i, w_flags := (w_flags s)(i := FL_CONNECTING),
       w_pc := (w_pc s)(i := TW_start)\<rparr>)"
| create_fails: "w_main s = MW_conn \<Longrightarrow> w_nconn s < mx \<and> 0 < w_toconn s \<Longrightarrow>
     find (\<lambda>i. w_flags s i = 0) [0..<n] = Some i \<Longrightarrow> web_main_step n mx s (s\<lparr>w_end := Some Call_failed\<rparr>)"
| not_found: "w_main s = MW_conn \<Longrightarrow> w_nconn s < mx \<and> 0 < w_toconn s \<Longrightarrow>
     find (\<lambda>i. w_flags s i = 0) [0..<n] = None \<Longrightarrow> web_main_step n mx s (s\<lparr>w_end := Some Nothing_found\<rparr>)"
| counted: "w_main s = MW_created i \<Longrightarrow>
     web_main_step n mx s (s\<lparr>w_main := MW_conn, w_tid := (w_tid s)(i := Some i), w_nconn := w_nconn s + 1,
       w_toconn := w_toconn s - 1\<rparr>)"
| enough: "w_main s = MW_conn \<Longrightarrow> \<not> (w_nconn s < mx \<and> 0 < w_toconn s) \<Longrightarrow> web_main_step n mx s (s\<lparr>w_main := MW_lock\<rparr>)"
| lock: "w_main s = MW_lock \<Longrightarrow> w_mutex s = None \<Longrightarrow>
     web_main_step n mx s (s\<lparr>w_main := MW_test, w_mutex := Some Web_main\<rparr>)"
| wait: "w_main s = MW_test \<Longrightarrow> w_ndone s = 0 \<Longrightarrow>
     web_main_step n mx s (s\<lparr>w_main := MW_wait, w_mutex := None\<rparr>)"
| relock: "w_main s = MW_relock \<Longrightarrow> w_mutex s = None \<Longrightarrow>
     web_main_step n mx s (s\<lparr>w_main := MW_test, w_mutex := Some Web_main\<rparr>)"
| some_done: "w_main s = MW_test \<Longrightarrow> w_ndone s \<noteq> 0 \<Longrightarrow> web_main_step n mx s (s\<lparr>w_main := MW_scan 0\<rparr>)"
| skip: "w_main s = MW_scan i \<Longrightarrow> i < n \<Longrightarrow> w_flags s i AND FL_DONE = 0 \<Longrightarrow>
     web_main_step n mx s (s\<lparr>w_main := MW_scan (Suc i)\<rparr>)"
| seen: "w_main s = MW_scan i \<Longrightarrow> i < n \<Longrightarrow> w_flags s i AND FL_DONE \<noteq> 0 \<Longrightarrow>
     web_main_step n mx s (s\<lparr>w_main := MW_join i\<rparr>)"
| join: "w_main s = MW_join i \<Longrightarrow> w_tid s i = Some j \<Longrightarrow> w_pc s j = TW_return p \<Longrightarrow> p = i \<Longrightarrow>
     web_main_step n mx s (s\<lparr>w_main := MW_scan (Suc i), w_pc := (w_pc s)(j := TW_gone),
       w_flags := (w_flags s)(p := FL_JOINED), w_ndone := w_ndone s - 1, w_nconn := w_nconn s - 1,
       w_toread := w_toread s - 1\<rparr>)"
| join_other: "w_main s = MW_join i \<Longrightarrow> w_tid s i = Some j \<Longrightarrow> w_pc s j = TW_return p \<Longrightarrow> p \<noteq> i \<Longrightarrow>
     web_main_step n mx s (s\<lparr>w_end := Some Wrong_file\<rparr>)"
| scanned: "w_main s = MW_scan i \<Longrightarrow> \<not> i < n \<Longrightarrow> web_main_step n mx s (s\<lparr>w_main := MW_unlock\<rparr>)"
| unlock: "w_main s = MW_unlock \<Longrightarrow> web_main_step n mx s (s\<lparr>w_main := MW_loop, w_mutex := None\<rparr>)"

text \<open>
  The thread of file \<open>i\<close>, \<^verbatim>\<open>do_get_read\<close>. The signal wakes the main thread if it waits.
\<close>

inductive web_thr_step :: "nat \<Rightarrow> web_thr \<Rightarrow> web_thr \<Rightarrow> bool" for i where
  connect: "w_pc s i = TW_start \<Longrightarrow> web_thr_step i s (s\<lparr>w_pc := (w_pc s)(i := TW_connected fd)\<rparr>)"
| said: "w_pc s i = TW_connected fd \<Longrightarrow> web_thr_step i s (s\<lparr>w_pc := (w_pc s)(i := TW_write fd)\<rparr>)"
| wrote: "w_pc s i = TW_write fd \<Longrightarrow> web_thr_step i s (s\<lparr>w_pc := (w_pc s)(i := TW_flag fd)\<rparr>)"
| flag: "w_pc s i = TW_flag fd \<Longrightarrow>
     web_thr_step i s (s\<lparr>w_pc := (w_pc s)(i := TW_read fd), w_flags := (w_flags s)(i := FL_READING)\<rparr>)"
| read: "w_pc s i = TW_read fd \<Longrightarrow> web_thr_step i s s"
| eof: "w_pc s i = TW_read fd \<Longrightarrow> web_thr_step i s (s\<lparr>w_pc := (w_pc s)(i := TW_close fd)\<rparr>)"
| close: "w_pc s i = TW_close fd \<Longrightarrow> web_thr_step i s (s\<lparr>w_pc := (w_pc s)(i := TW_done)\<rparr>)"
| fail: "w_pc s i \<in> {TW_start} \<union> range TW_write \<union> range TW_read \<union> range TW_close \<Longrightarrow>
     web_thr_step i s (s\<lparr>w_end := Some Call_failed\<rparr>)"
| set_done: "w_pc s i = TW_done \<Longrightarrow>
     web_thr_step i s (s\<lparr>w_pc := (w_pc s)(i := TW_lock), w_flags := (w_flags s)(i := FL_DONE)\<rparr>)"
| lock: "w_pc s i = TW_lock \<Longrightarrow> w_mutex s = None \<Longrightarrow>
     web_thr_step i s (s\<lparr>w_pc := (w_pc s)(i := TW_incr), w_mutex := Some (Web_thread i)\<rparr>)"
| incr: "w_pc s i = TW_incr \<Longrightarrow>
     web_thr_step i s (s\<lparr>w_pc := (w_pc s)(i := TW_signal), w_ndone := w_ndone s + 1\<rparr>)"
| signal: "w_pc s i = TW_signal \<Longrightarrow>
     web_thr_step i s (s\<lparr>w_pc := (w_pc s)(i := TW_unlock),
       w_main := if w_main s = MW_wait then MW_relock else w_main s\<rparr>)"
| unlock: "w_pc s i = TW_unlock \<Longrightarrow>
     web_thr_step i s (s\<lparr>w_pc := (w_pc s)(i := TW_return i), w_mutex := None\<rparr>)"

text \<open>
  A step of the program, while the process runs; besides, the condition variable may wake the main thread without a
  signal.
\<close>

definition web_thr_next :: "nat \<Rightarrow> int \<Rightarrow> web_thr \<Rightarrow> web_thr \<Rightarrow> bool" where
  "web_thr_next n mx s t \<longleftrightarrow> w_end s = None \<and> (web_main_step n mx s t \<or> (\<exists>i < n. web_thr_step i s t))"

definition web_wakes :: "web_thr \<Rightarrow> web_thr \<Rightarrow> bool" where
  "web_wakes s t \<longleftrightarrow> w_end s = None \<and> w_main s = MW_wait \<and> t = s\<lparr>w_main := MW_relock\<rparr>"

inductive web_runs :: "nat \<Rightarrow> int \<Rightarrow> web_thr \<Rightarrow> web_thr \<Rightarrow> bool" for n mx where
  refl: "web_runs n mx s s"
| next_step: "web_runs n mx s t \<Longrightarrow> web_thr_next n mx t u \<Longrightarrow> web_runs n mx s u"
| wakes: "web_runs n mx s t \<Longrightarrow> web_wakes t u \<Longrightarrow> web_runs n mx s u"

inductive_cases web_thr_stepE: "web_thr_step i s t"
inductive_cases web_main_stepE: "web_main_step n mx s t"

section \<open>Invariants\<close>

text \<open>The flags of a file follow its thread.\<close>

fun flag_of :: "web_thr_pc \<Rightarrow> int" where
  "flag_of TW_none = 0"
| "flag_of TW_start = FL_CONNECTING" | "flag_of (TW_connected fd) = FL_CONNECTING"
| "flag_of (TW_write fd) = FL_CONNECTING" | "flag_of (TW_flag fd) = FL_CONNECTING"
| "flag_of (TW_read fd) = FL_READING" | "flag_of (TW_close fd) = FL_READING" | "flag_of TW_done = FL_READING"
| "flag_of TW_lock = FL_DONE" | "flag_of TW_incr = FL_DONE" | "flag_of TW_signal = FL_DONE"
| "flag_of TW_unlock = FL_DONE" | "flag_of (TW_return p) = FL_DONE"
| "flag_of TW_gone = FL_JOINED"

fun main_inside :: "web_main_pc \<Rightarrow> bool" where
  "main_inside MW_test = True" | "main_inside (MW_scan i) = True" | "main_inside (MW_join i) = True"
| "main_inside MW_unlock = True" | "main_inside _ = False"

fun thr_inside :: "web_thr_pc \<Rightarrow> bool" where
  "thr_inside TW_incr = True" | "thr_inside TW_signal = True" | "thr_inside TW_unlock = True" | "thr_inside _ = False"

text \<open>Threads that have increased \<^verbatim>\<open>ndone\<close> and have not been joined.\<close>

fun thr_counted :: "web_thr_pc \<Rightarrow> bool" where
  "thr_counted TW_signal = True" | "thr_counted TW_unlock = True" | "thr_counted (TW_return p) = True"
| "thr_counted _ = False"

definition thr_live :: "web_thr_pc \<Rightarrow> bool" where
  "thr_live p \<longleftrightarrow> p \<noteq> TW_none \<and> p \<noteq> TW_gone"

text \<open>A thread between its creation and the end of its connection.\<close>

fun thr_connection :: "web_thr_pc \<Rightarrow> bool" where
  "thr_connection (TW_connected fd) = True" | "thr_connection (TW_write fd) = True" | "thr_connection (TW_flag fd) = True"
| "thr_connection (TW_read fd) = True" | "thr_connection (TW_close fd) = True" | "thr_connection _ = False"

definition tally :: "(web_thr_pc \<Rightarrow> bool) \<Rightarrow> nat \<Rightarrow> (nat \<Rightarrow> web_thr_pc) \<Rightarrow> int" where
  "tally P n pc = (\<Sum>i < n. of_bool (P (pc i)))"

lemma tally_upd [simp]:
  "i < n \<Longrightarrow> tally P n (pc(i := x)) = tally P n pc - of_bool (P (pc i)) + of_bool (P x)"
  using sum_upd [of i n "\<lambda>p. of_bool (P p) :: int" pc x] by (simp add: tally_def algebra_simps)

lemma tally_nonneg [simp]: "0 \<le> tally P n pc"
  by (simp add: tally_def sum_nonneg)

lemma tally_le_0 [simp]: "tally P n pc \<le> 0 \<longleftrightarrow> tally P n pc = 0"
  using tally_nonneg [of P n pc] by (metis order.antisym order.refl)

lemma tally_0: "tally P n pc = 0 \<longleftrightarrow> (\<forall>i < n. \<not> P (pc i))"
  by (auto simp: tally_def sum_nonneg_eq_0_iff)

lemma tally_pos: "0 < tally P n pc \<longleftrightarrow> (\<exists>i < n. P (pc i))"
  using tally_0 [of P n pc] tally_nonneg [of P n pc] by (metis less_le)

lemma tally_mono: "(\<And>p. P p \<Longrightarrow> Q p) \<Longrightarrow> tally P n pc \<le> tally Q n pc"
  unfolding tally_def by (rule sum_mono) auto

definition fresh :: "web_thr \<Rightarrow> int" where
  "fresh s = (case w_main s of MW_created i \<Rightarrow> 1 | _ \<Rightarrow> 0)"

definition web_mutex_ok :: "web_thr \<Rightarrow> bool" where
  "web_mutex_ok s \<longleftrightarrow> (w_mutex s = Some Web_main \<longleftrightarrow> main_inside (w_main s)) \<and>
     (\<forall>i. w_mutex s = Some (Web_thread i) \<longleftrightarrow> thr_inside (w_pc s i))"

definition web_files_ok :: "nat \<Rightarrow> web_thr \<Rightarrow> bool" where
  "web_files_ok n s \<longleftrightarrow> (\<forall>i. w_flags s i = flag_of (w_pc s i)) \<and> (\<forall>i \<ge> n. w_pc s i = TW_none) \<and>
     (\<forall>i p. w_pc s i = TW_return p \<longrightarrow> p = i) \<and>
     (\<forall>i. w_pc s i \<noteq> TW_none \<longrightarrow> w_main s \<noteq> MW_created i \<longrightarrow> w_tid s i = Some i) \<and>
     (\<forall>i. w_main s = MW_created i \<longrightarrow> i < n \<and> thr_live (w_pc s i)) \<and>
     (\<forall>i. w_main s = MW_join i \<longrightarrow> i < n \<and> flag_of (w_pc s i) = FL_DONE)"

definition web_counts_ok :: "nat \<Rightarrow> int \<Rightarrow> web_thr \<Rightarrow> bool" where
  "web_counts_ok n mx s \<longleftrightarrow> w_nconn s + fresh s = tally thr_live n (w_pc s) \<and>
     w_toconn s - fresh s = tally (\<lambda>p. p = TW_none) n (w_pc s) \<and>
     w_toread s = tally (\<lambda>p. p \<noteq> TW_gone) n (w_pc s) \<and> w_ndone s = tally thr_counted n (w_pc s) \<and>
     w_nconn s + fresh s \<le> max mx 0"

definition web_wait_ok :: "nat \<Rightarrow> int \<Rightarrow> web_thr \<Rightarrow> bool" where
  "web_wait_ok n mx s \<longleftrightarrow>
     (w_main s = MW_wait \<longrightarrow> 0 < w_ndone s \<longrightarrow> 0 < tally (\<lambda>p. p = TW_signal) n (w_pc s)) \<and>
     (w_main s \<in> {MW_conn, MW_lock, MW_test, MW_wait, MW_relock} \<longrightarrow> 0 < w_toread s) \<and>
     (\<forall>i. w_main s = MW_created i \<longrightarrow> 0 < w_toread s) \<and>
     (w_main s \<in> {MW_lock, MW_test, MW_wait, MW_relock} \<longrightarrow> mx \<le> w_nconn s \<or> w_toconn s \<le> 0)"

definition web_end_ok :: "web_thr \<Rightarrow> bool" where
  "web_end_ok s \<longleftrightarrow> w_end s \<noteq> Some Nothing_found \<and> w_end s \<noteq> Some Wrong_file \<and>
     (w_end s = Some Exit_ok \<longrightarrow> w_toread s \<le> 0)"

lemma flag_of_0 [simp]: "flag_of p = 0 \<longleftrightarrow> p = TW_none" "0 = flag_of p \<longleftrightarrow> p = TW_none"
  by (cases p; simp add: fl_defs)+

lemma mutex_main: "web_main_step n mx s t \<Longrightarrow> web_mutex_ok s \<Longrightarrow> web_files_ok n s \<Longrightarrow> web_mutex_ok t"
proof (induction rule: web_main_step.induct)
  case (create s i)
  then have "w_pc s i = TW_none" by (auto simp: find_Some_iff web_files_ok_def)
  with create show ?case by (auto simp: web_mutex_ok_def)
qed (auto simp: web_mutex_ok_def web_files_ok_def fl_defs split: if_splits)

lemma mutex_thr:
  assumes "web_thr_step i s t" and "web_mutex_ok s"
  shows "web_mutex_ok t"
proof -
  have "w_mutex s = Some (Web_thread i) \<longleftrightarrow> thr_inside (w_pc s i)" "w_mutex s = Some Web_main \<longleftrightarrow> main_inside (w_main s)"
    "\<forall>j. j \<noteq> i \<longrightarrow> (w_mutex s = Some (Web_thread j) \<longleftrightarrow> thr_inside (w_pc s j))" using assms(2) by (auto simp: web_mutex_ok_def)
  with assms(1) show ?thesis
  proof (induction rule: web_thr_step.induct)
    case (read s fd)
    then show ?case unfolding web_mutex_ok_def by metis
  qed (auto simp: web_mutex_ok_def split: if_splits)
qed

lemma flag_of_done: "flag_of p AND FL_DONE \<noteq> 0 \<longleftrightarrow> flag_of p = FL_DONE"
  by (cases p) (auto simp: fl_defs)

lemma files_main: "web_main_step n mx s t \<Longrightarrow> web_files_ok n s \<Longrightarrow> web_files_ok n t"
proof (induction rule: web_main_step.induct)
  case (create s i)
  then have "i < n" "w_pc s i = TW_none" by (auto simp: find_Some_iff web_files_ok_def)
  with create show ?case by (auto simp: web_files_ok_def thr_live_def)
next
  case (seen s i)
  then show ?case by (auto simp: web_files_ok_def flag_of_done)
next
  case (join s i j p)
  then have "j = i" by (auto simp: web_files_ok_def)
  with join show ?case by (auto simp: web_files_ok_def)
qed (auto simp: web_files_ok_def split: if_splits)

lemma files_thr: "web_thr_step i s t \<Longrightarrow> i < n \<Longrightarrow> web_files_ok n s \<Longrightarrow> web_files_ok n t"
  by (induction rule: web_thr_step.induct)
     (auto simp: web_files_ok_def thr_live_def fl_defs split: if_splits)

lemma web_counts_main:
  "web_main_step n mx s t \<Longrightarrow> web_files_ok n s \<Longrightarrow> web_counts_ok n mx s \<Longrightarrow> web_counts_ok n mx t"
proof (induction rule: web_main_step.induct)
  case (create s i)
  then have "i < n" "w_pc s i = TW_none" by (auto simp: find_Some_iff web_files_ok_def)
  with create show ?case by (auto simp: web_counts_ok_def fresh_def thr_live_def)
next
  case (join s i j p)
  then have "j = i" "i < n" by (auto simp: web_files_ok_def)
  with join show ?case by (auto simp: web_counts_ok_def fresh_def thr_live_def)
qed (auto simp: web_counts_ok_def fresh_def split: web_main_pc.splits)

lemma web_counts_thr: "web_thr_step i s t \<Longrightarrow> i < n \<Longrightarrow> web_counts_ok n mx s \<Longrightarrow> web_counts_ok n mx t"
  by (induction rule: web_thr_step.induct)
     (auto simp: web_counts_ok_def fresh_def thr_live_def split: web_main_pc.splits if_splits)

lemma wait_main:
  "web_main_step n mx s t \<Longrightarrow> web_files_ok n s \<Longrightarrow> web_counts_ok n mx s \<Longrightarrow> web_wait_ok n mx s \<Longrightarrow> web_wait_ok n mx t"
proof (induction rule: web_main_step.induct)
  case (create s i)
  then have "i < n" "w_pc s i = TW_none" by (auto simp: find_Some_iff web_files_ok_def)
  with create show ?case by (auto simp: web_wait_ok_def)
qed (auto simp: web_wait_ok_def)

lemma wait_thr: "web_thr_step i s t \<Longrightarrow> i < n \<Longrightarrow> web_wait_ok n mx s \<Longrightarrow> web_wait_ok n mx t"
  by (induction rule: web_thr_step.induct) (auto simp: web_wait_ok_def split: if_splits)

lemma end_main:
  assumes "web_main_step n mx s t" and "web_files_ok n s" and "web_counts_ok n mx s" and "w_end s = None"
  shows "web_end_ok t"
  using assms
proof (induction rule: web_main_step.induct)
  case (not_found s)
  then have "tally (\<lambda>p. p = TW_none) n (w_pc s) = 0" by (auto simp: tally_0 find_None_iff web_files_ok_def)
  with not_found show ?case by (auto simp: web_counts_ok_def fresh_def)
next
  case (join_other s i j p)
  then have "w_pc s i \<noteq> TW_none" by (auto simp: web_files_ok_def fl_defs)
  with join_other have "j = i" "p = j" by (auto simp: web_files_ok_def)
  with join_other show ?case by simp
qed (auto simp: web_end_ok_def)

lemma end_thr: "web_thr_step i s t \<Longrightarrow> w_end s = None \<Longrightarrow> web_end_ok t"
  by (induction rule: web_thr_step.induct) (auto simp: web_end_ok_def)

definition web_thr_inv :: "nat \<Rightarrow> int \<Rightarrow> web_thr \<Rightarrow> bool" where
  "web_thr_inv n mx s \<longleftrightarrow> web_mutex_ok s \<and> web_files_ok n s \<and> web_counts_ok n mx s \<and> web_wait_ok n mx s \<and> web_end_ok s"

lemma web_thr_inv_next: "web_thr_next n mx s t \<Longrightarrow> web_thr_inv n mx s \<Longrightarrow> web_thr_inv n mx t"
  unfolding web_thr_next_def web_thr_inv_def
  by (auto intro: mutex_main mutex_thr files_main files_thr web_counts_main web_counts_thr wait_main wait_thr end_main end_thr)

lemma web_thr_inv_wakes: "web_wakes s t \<Longrightarrow> web_thr_inv n mx s \<Longrightarrow> web_thr_inv n mx t"
  by (auto simp: web_wakes_def web_thr_inv_def web_mutex_ok_def web_files_ok_def web_counts_ok_def web_wait_ok_def
      web_end_ok_def fresh_def)

lemma web_thr_inv_init: "web_thr_inv n mx (web_thr_init n)"
  by (simp add: web_thr_inv_def web_thr_init_def web_mutex_ok_def web_files_ok_def web_counts_ok_def web_wait_ok_def
      web_end_ok_def fresh_def tally_def thr_live_def)

lemma web_thr_inv_runs: "web_runs n mx s t \<Longrightarrow> web_thr_inv n mx s \<Longrightarrow> web_thr_inv n mx t"
  by (induction rule: web_runs.induct) (auto intro: web_thr_inv_next web_thr_inv_wakes)

section \<open>Properties\<close>

text \<open>
  (C40) At any moment at most \<^verbatim>\<open>maxnconn\<close> threads have a connection; \<^verbatim>\<open>nconn\<close> counts the threads that
  run or wait to be joined, \<^verbatim>\<open>ndone\<close> those of them that have reported their end; neither of the two internal errors ever
  happens; and when the program exits normally it has joined the thread of every file.
\<close>

theorem web_threads_bounded:
  assumes "web_runs n mx (web_thr_init n) s"
  shows "tally thr_connection n (w_pc s) \<le> max mx 0 \<and>
    w_nconn s + fresh s = tally thr_live n (w_pc s) \<and> w_ndone s = tally thr_counted n (w_pc s) \<and>
    w_end s \<noteq> Some Nothing_found \<and> w_end s \<noteq> Some Wrong_file \<and>
    (w_end s = Some Exit_ok \<longrightarrow> (\<forall>i < n. w_pc s i = TW_gone))"
proof -
  have inv: "web_counts_ok n mx s" "web_end_ok s"
    using web_thr_inv_runs [OF assms web_thr_inv_init] by (simp_all add: web_thr_inv_def)
  have "tally thr_connection n (w_pc s) \<le> tally thr_live n (w_pc s)"
    by (rule tally_mono) (auto simp: thr_live_def elim: thr_connection.elims)
  moreover have "\<forall>i < n. w_pc s i = TW_gone" if "w_toread s \<le> 0"
    using inv(1) that tally_nonneg [of "\<lambda>p. p \<noteq> TW_gone" n "w_pc s"] tally_0 [of "\<lambda>p. p \<noteq> TW_gone" n "w_pc s"]
    by (simp add: web_counts_ok_def)
  ultimately show ?thesis using inv by (auto simp: web_counts_ok_def web_end_ok_def)
qed

text \<open>The main thread waits for a thread to end that waits for the mutex the main thread holds.\<close>

definition web_deadlocked :: "nat \<Rightarrow> web_thr \<Rightarrow> bool" where
  "web_deadlocked i s \<longleftrightarrow> w_main s = MW_join i \<and> w_pc s i = TW_lock \<and> w_mutex s = Some Web_main"

lemma thr_next: "i < n \<Longrightarrow> w_end s = None \<Longrightarrow> web_thr_step i s t \<Longrightarrow> \<exists>t. web_thr_next n mx s t"
  by (auto simp: web_thr_next_def)

lemma main_next: "w_end s = None \<Longrightarrow> web_main_step n mx s t \<Longrightarrow> \<exists>t. web_thr_next n mx s t"
  by (auto simp: web_thr_next_def)

text \<open>A thread that has not ended can go on unless it waits for the mutex.\<close>

lemma thr_can_step:
  assumes "i < n" and "w_end s = None" and "thr_live (w_pc s i)" and "\<nexists>p. w_pc s i = TW_return p"
    and "w_pc s i = TW_lock \<Longrightarrow> w_mutex s = None"
  shows "\<exists>t. web_thr_next n mx s t"
  using assms
  by (cases "w_pc s i") (auto simp: thr_live_def intro: thr_next [of i n s] web_thr_step.intros)

text \<open>Whoever holds the mutex can go on, except in the one situation.\<close>

lemma holder_can_step:
  assumes "web_thr_inv n mx s" and "w_end s = None" and "w_mutex s \<noteq> None"
  shows "(\<exists>t. web_thr_next n mx s t) \<or> (\<exists>i < n. web_deadlocked i s)"
proof (cases "w_mutex s")
  case (Some a)
  note inv = assms(1) [unfolded web_thr_inv_def]
  show ?thesis
  proof (cases a)
    case (Web_thread i)
    then have "thr_inside (w_pc s i)" using Some inv unfolding web_mutex_ok_def by metis
    moreover have "i < n"
    proof (rule ccontr)
      assume "\<not> i < n"
      then have "w_pc s i = TW_none" using inv by (simp add: web_files_ok_def)
      with calculation show False by simp
    qed
    ultimately have "\<exists>t. web_thr_next n mx s t"
      using assms(2) by (intro thr_can_step [of i]) (auto simp: thr_live_def)
    then show ?thesis ..
  next
    case Web_main
    then have "main_inside (w_main s)" using Some inv by (simp add: web_mutex_ok_def)
    then consider "w_main s = MW_test" | i where "w_main s = MW_scan i" | i where "w_main s = MW_join i" | "w_main s = MW_unlock"
      by (auto elim: main_inside.elims)
    then show ?thesis
    proof cases
      case 1
      then show ?thesis using assms(2) by (cases "w_ndone s = 0") (blast intro: main_next web_main_step.intros)+
    next
      case 2
      then show ?thesis using assms(2)
        by (cases "i < n"; cases "w_flags s i AND FL_DONE = 0") (blast intro: main_next web_main_step.intros)+
    next
      case 3
      then have i: "i < n" "flag_of (w_pc s i) = FL_DONE" "w_tid s i = Some i"
        using inv by (auto simp: web_files_ok_def fl_defs) (metis flag_of_0(1) zero_neq_numeral)
      show ?thesis
      proof (cases "\<exists>p. w_pc s i = TW_return p")
        case True
        then obtain p where p: "w_pc s i = TW_return p" ..
        show ?thesis using 3 i(3) p assms(2)
          by (cases "p = i") (blast intro: main_next web_main_step.intros)+
      next
        case False
        show ?thesis
        proof (cases "w_pc s i = TW_lock")
          case True
          then show ?thesis using 3 i(1) Some Web_main by (auto simp: web_deadlocked_def)
        next
          case False
          then have "\<exists>t. web_thr_next n mx s t"
            using i \<open>\<nexists>p. w_pc s i = TW_return p\<close> assms(2)
            by (intro thr_can_step [of i]) (auto simp: thr_live_def fl_defs)
          then show ?thesis ..
        qed
      qed
    next
      case 4
      then show ?thesis using assms(2) by (blast intro: main_next web_main_step.intros)
    qed
  qed
qed (use assms in simp)

text \<open>While the main thread waits, some thread can go on.\<close>

lemma waiting_can_step:
  assumes "web_thr_inv n mx s" and mx: "0 < mx" and e: "w_end s = None" and None: "w_mutex s = None"
    and wait: "w_main s = MW_wait"
  shows "\<exists>t. web_thr_next n mx s t"
proof -
  have inv: "web_mutex_ok s" "web_files_ok n s" "web_counts_ok n mx s" "web_wait_ok n mx s"
    using assms(1) by (simp_all add: web_thr_inv_def)
  have full: "0 < w_toread s" "mx \<le> w_nconn s \<or> w_toconn s \<le> 0" and f: "fresh s = 0"
    using wait inv(4) by (auto simp: web_wait_ok_def fresh_def)
  have nl: "\<And>i. i < n \<Longrightarrow> thr_live (w_pc s i) \<Longrightarrow> \<nexists>p. w_pc s i = TW_return p \<Longrightarrow> \<exists>t. web_thr_next n mx s t"
    using None e by (blast intro: thr_can_step)
  show ?thesis
  proof (cases "0 < w_ndone s")
    case True
    with wait have "0 < tally (\<lambda>p. p = TW_signal) n (w_pc s)" using inv(4) by (simp add: web_wait_ok_def)
    then obtain i where "i < n" "w_pc s i = TW_signal" by (auto simp: tally_pos)
    then show ?thesis using nl [of i] by (simp add: thr_live_def)
  next
    case False
    then have none: "\<forall>i < n. \<not> thr_counted (w_pc s i)"
      using inv(3) by (auto simp: web_counts_ok_def tally_pos)
    have "tally thr_live n (w_pc s) \<noteq> 0"
    proof
      assume 0: "tally thr_live n (w_pc s) = 0"
      then have "w_nconn s = 0" using inv(3) f by (simp add: web_counts_ok_def)
      then have "tally (\<lambda>p. p = TW_none) n (w_pc s) = 0"
        using full(2) mx inv(3) f tally_nonneg [of "\<lambda>p. p = TW_none" n "w_pc s"] by (simp add: web_counts_ok_def)
      with 0 have "\<forall>i < n. w_pc s i = TW_gone" by (auto simp: tally_0 thr_live_def)
      then have "w_toread s = 0" using inv(3) by (simp add: web_counts_ok_def tally_0)
      with full(1) show False by simp
    qed
    then obtain i where "i < n" "thr_live (w_pc s i)" by (auto simp: tally_0)
    then show ?thesis using nl [of i] none by fastforce
  qed
qed


text \<open>Nothing gets it out of the deadlock, except that another thread's failing call ends the process.\<close>

lemma deadlock_next:
  assumes "web_thr_next n mx s t" and "web_thr_inv n mx s" and "web_deadlocked i s"
  shows "web_deadlocked i t \<and> w_end t \<noteq> Some Exit_ok"
proof -
  have tid: "w_tid s i = Some i" using assms(2,3) by (auto simp: web_thr_inv_def web_files_ok_def web_deadlocked_def)
  have idle: "\<not> thr_inside (w_pc s j)" for j
    using assms(2,3) unfolding web_thr_inv_def web_mutex_ok_def web_deadlocked_def
    by (metis option.inject web_agent.distinct(1))
  have e: "w_end s = None" using assms(1) by (simp add: web_thr_next_def)
  from assms(1) consider "web_main_step n mx s t" | j where "web_thr_step j s t" by (auto simp: web_thr_next_def)
  then show ?thesis
  proof cases
    case 1
    then show ?thesis using assms(3) tid by (auto simp: web_deadlocked_def elim!: web_main_stepE)
  next
    case 2
    then show ?thesis using assms(3) idle [of j] e
      by (induction rule: web_thr_step.induct) (auto simp: web_deadlocked_def)
  qed
qed

lemma deadlock_stays:
  "web_runs n mx s t \<Longrightarrow> web_thr_inv n mx s \<Longrightarrow> web_deadlocked i s \<Longrightarrow> w_end s \<noteq> Some Exit_ok \<Longrightarrow>
     web_deadlocked i t \<and> w_end t \<noteq> Some Exit_ok"
proof (induction rule: web_runs.induct)
  case (next_step s t u)
  then show ?case using deadlock_next [OF next_step.hyps(2) web_thr_inv_runs] by blast
next
  case (wakes s t u)
  then show ?case by (auto simp: web_wakes_def web_deadlocked_def)
qed simp

text \<open>A thread on its way to the mutex, and from there to its end while the main thread does not wait.\<close>

lemma thr_run: "web_runs n mx r s \<Longrightarrow> web_thr_step i s t \<Longrightarrow> i < n \<Longrightarrow> w_end s = None \<Longrightarrow> web_runs n mx r t"
  by (erule web_runs.next_step) (auto simp: web_thr_next_def)

lemma main_run: "web_runs n mx r s \<Longrightarrow> web_main_step n mx s t \<Longrightarrow> w_end s = None \<Longrightarrow> web_runs n mx r t"
  by (erule web_runs.next_step) (simp add: web_thr_next_def)

lemma thr_eq: "web_thr_step i s t \<Longrightarrow> t = u \<Longrightarrow> web_thr_step i s u"
  by simp

lemma thread_to_lock:
  assumes "web_runs n mx r s" and i: "i < n" and "w_end s = None" and "w_pc s i = TW_start"
  shows "web_runs n mx r (s\<lparr>w_pc := (w_pc s)(i := TW_lock), w_flags := (w_flags s)(i := FL_DONE)\<rparr>)"
proof -
  let ?S = "\<lambda>p f. s\<lparr>w_pc := (w_pc s)(i := p), w_flags := (w_flags s)(i := f)\<rparr>"
  let ?f = "w_flags s i"
  have e: "w_end (?S p f) = None" for p f using assms(3) by simp
  have eq: "?S TW_start ?f = s" using assms(4) by (simp add: fun_upd_idem)
  note go = thr_run [OF _ _ i e]
  have "web_runs n mx r (?S TW_start ?f)" using assms(1) eq by simp
  then have "web_runs n mx r (?S (TW_connected 7) ?f)" by (rule go) (rule thr_eq [OF web_thr_step.connect [of _ i 7]], simp_all)
  then have "web_runs n mx r (?S (TW_write 7) ?f)" by (rule go) (rule thr_eq [OF web_thr_step.said [of _ i 7]], simp_all)
  then have "web_runs n mx r (?S (TW_flag 7) ?f)" by (rule go) (rule thr_eq [OF web_thr_step.wrote [of _ i 7]], simp_all)
  then have "web_runs n mx r (?S (TW_read 7) FL_READING)" by (rule go) (rule thr_eq [OF web_thr_step.flag [of _ i 7]], simp_all)
  then have "web_runs n mx r (?S (TW_close 7) FL_READING)" by (rule go) (rule thr_eq [OF web_thr_step.eof [of _ i 7]], simp_all)
  then have "web_runs n mx r (?S TW_done FL_READING)" by (rule go) (rule thr_eq [OF web_thr_step.close [of _ i 7]], simp_all)
  then have "web_runs n mx r (?S TW_lock FL_DONE)" by (rule go) (rule thr_eq [OF web_thr_step.set_done], simp_all)
  then show ?thesis .
qed

lemma thread_to_end:
  assumes "web_runs n mx r s" and i: "i < n" and "w_end s = None" and "w_pc s i = TW_lock" and "w_mutex s = None"
    and "w_main s \<noteq> MW_wait"
  shows "web_runs n mx r (s\<lparr>w_pc := (w_pc s)(i := TW_return i), w_ndone := w_ndone s + 1\<rparr>)"
proof -
  let ?S = "\<lambda>p d mu. s\<lparr>w_pc := (w_pc s)(i := p), w_ndone := d, w_mutex := mu\<rparr>"
  let ?d = "w_ndone s" and ?me = "Some (Web_thread i)"
  have e: "w_end (?S p d mu) = None" for p d mu using assms(3) by simp
  have eq: "?S TW_lock ?d None = s" using assms(4,5) by (simp add: fun_upd_idem)
  note go = thr_run [OF _ _ i e]
  have "web_runs n mx r (?S TW_lock ?d None)" using assms(1) eq by simp
  then have "web_runs n mx r (?S TW_incr ?d ?me)" by (rule go) (rule thr_eq [OF web_thr_step.lock], simp_all add: assms(6))
  then have "web_runs n mx r (?S TW_signal (?d + 1) ?me)" by (rule go) (rule thr_eq [OF web_thr_step.incr], simp_all add: assms(6))
  then have "web_runs n mx r (?S TW_unlock (?d + 1) ?me)" by (rule go) (rule thr_eq [OF web_thr_step.signal], simp_all add: assms(6))
  then have "web_runs n mx r (?S (TW_return i) (?d + 1) None)" by (rule go) (rule thr_eq [OF web_thr_step.unlock], simp_all add: assms(6))
  moreover have "?S (TW_return i) (?d + 1) None = s\<lparr>w_pc := (w_pc s)(i := TW_return i), w_ndone := ?d + 1\<rparr>"
    using assms(5) by simp
  ultimately show ?thesis by simp
qed

lemma main_eq: "web_main_step n mx s t \<Longrightarrow> t = u \<Longrightarrow> web_main_step n mx s u"
  by simp

lemma deadlock_reached: "\<exists>s. web_runs 2 2 (web_thr_init 2) s \<and> web_deadlocked 1 s \<and> w_end s = None"
proof -
  let ?S = "\<lambda>m pc fl tid nc tc tr nd mu. \<lparr>w_main = m, w_pc = pc, w_flags = fl, w_tid = tid, w_nconn = nc, w_toconn = tc,
     w_toread = tr, w_ndone = nd, w_mutex = mu, w_end = None\<rparr>"
  let ?R = "web_runs 2 2 (web_thr_init 2)"
  have "?R (web_thr_init 2)" by (rule web_runs.refl)
  then have "?R (?S MW_conn ((\<lambda>i. TW_none)) ((\<lambda>i. 0)) ((\<lambda>i. None)) 0 2 2 0 None)"
    by (rule main_run) (rule main_eq [OF web_main_step.again], simp_all add: web_thr_init_def upt_rec fl_defs)
  then have "?R (?S (MW_created 0) ((\<lambda>i. TW_none)(0 := TW_start)) ((\<lambda>i. 0)(0 := FL_CONNECTING)) ((\<lambda>i. None)) 0 2 2 0 None)"
    by (rule main_run) (rule main_eq [OF web_main_step.create [of _ _ _ 0]], simp_all add: web_thr_init_def upt_rec fl_defs)
  then have "?R (?S MW_conn ((\<lambda>i. TW_none)(0 := TW_start)) ((\<lambda>i. 0)(0 := FL_CONNECTING)) ((\<lambda>i. None)(0 := Some 0)) 1 1 2 0 None)"
    by (rule main_run) (rule main_eq [OF web_main_step.counted], simp_all add: web_thr_init_def upt_rec fl_defs)
  then have "?R (?S (MW_created 1) ((\<lambda>i. TW_none)(0 := TW_start, 1 := TW_start)) ((\<lambda>i. 0)(0 := FL_CONNECTING, 1 := FL_CONNECTING)) ((\<lambda>i. None)(0 := Some 0)) 1 1 2 0 None)"
    by (rule main_run) (rule main_eq [OF web_main_step.create [of _ _ _ 1]], simp_all add: web_thr_init_def upt_rec fl_defs)
  then have "?R (?S MW_conn ((\<lambda>i. TW_none)(0 := TW_start, 1 := TW_start)) ((\<lambda>i. 0)(0 := FL_CONNECTING, 1 := FL_CONNECTING)) ((\<lambda>i. None)(0 := Some 0, 1 := Some 1)) 2 0 2 0 None)"
    by (rule main_run) (rule main_eq [OF web_main_step.counted], simp_all add: web_thr_init_def upt_rec fl_defs)
  then have "?R (?S MW_lock ((\<lambda>i. TW_none)(0 := TW_start, 1 := TW_start)) ((\<lambda>i. 0)(0 := FL_CONNECTING, 1 := FL_CONNECTING)) ((\<lambda>i. None)(0 := Some 0, 1 := Some 1)) 2 0 2 0 None)"
    by (rule main_run) (rule main_eq [OF web_main_step.enough], simp_all add: web_thr_init_def upt_rec fl_defs)
  from thread_to_lock [OF this, of 0] have "?R (?S MW_lock ((\<lambda>i. TW_none)(0 := TW_lock, 1 := TW_start)) ((\<lambda>i. 0)(0 := FL_DONE, 1 := FL_CONNECTING)) ((\<lambda>i. None)(0 := Some 0, 1 := Some 1)) 2 0 2 0 None)" by (simp add: fun_upd_twist)
  from thread_to_end [OF this, of 0] have "?R (?S MW_lock ((\<lambda>i. TW_none)(0 := TW_return 0, 1 := TW_start)) ((\<lambda>i. 0)(0 := FL_DONE, 1 := FL_CONNECTING)) ((\<lambda>i. None)(0 := Some 0, 1 := Some 1)) 2 0 2 1 None)" by (simp add: fun_upd_twist)
  from thread_to_lock [OF this, of 1] have "?R (?S MW_lock ((\<lambda>i. TW_none)(0 := TW_return 0, 1 := TW_lock)) ((\<lambda>i. 0)(0 := FL_DONE, 1 := FL_DONE)) ((\<lambda>i. None)(0 := Some 0, 1 := Some 1)) 2 0 2 1 None)" by simp
  then have "?R (?S MW_test ((\<lambda>i. TW_none)(0 := TW_return 0, 1 := TW_lock)) ((\<lambda>i. 0)(0 := FL_DONE, 1 := FL_DONE)) ((\<lambda>i. None)(0 := Some 0, 1 := Some 1)) 2 0 2 1 (Some Web_main))"
    by (rule main_run) (rule main_eq [OF web_main_step.lock], simp_all add: fl_defs fun_upd_twist)
  then have "?R (?S (MW_scan 0) ((\<lambda>i. TW_none)(0 := TW_return 0, 1 := TW_lock)) ((\<lambda>i. 0)(0 := FL_DONE, 1 := FL_DONE)) ((\<lambda>i. None)(0 := Some 0, 1 := Some 1)) 2 0 2 1 (Some Web_main))"
    by (rule main_run) (rule main_eq [OF web_main_step.some_done], simp_all add: fl_defs fun_upd_twist)
  then have "?R (?S (MW_join 0) ((\<lambda>i. TW_none)(0 := TW_return 0, 1 := TW_lock)) ((\<lambda>i. 0)(0 := FL_DONE, 1 := FL_DONE)) ((\<lambda>i. None)(0 := Some 0, 1 := Some 1)) 2 0 2 1 (Some Web_main))"
    by (rule main_run) (rule main_eq [OF web_main_step.seen], simp_all add: fl_defs fun_upd_twist)
  then have "?R (?S (MW_scan 1) ((\<lambda>i. TW_none)(0 := TW_gone, 1 := TW_lock)) ((\<lambda>i. 0)(0 := FL_JOINED, 1 := FL_DONE)) ((\<lambda>i. None)(0 := Some 0, 1 := Some 1)) 1 0 1 0 (Some Web_main))"
    by (rule main_run) (rule main_eq [OF web_main_step.join [of _ 0 0 0]], simp_all add: fl_defs fun_upd_twist)
  then have "?R (?S (MW_join 1) ((\<lambda>i. TW_none)(0 := TW_gone, 1 := TW_lock)) ((\<lambda>i. 0)(0 := FL_JOINED, 1 := FL_DONE)) ((\<lambda>i. None)(0 := Some 0, 1 := Some 1)) 1 0 1 0 (Some Web_main))"
    by (rule main_run) (rule main_eq [OF web_main_step.seen], simp_all add: fl_defs fun_upd_twist)
  then show ?thesis by (intro exI conjI) (assumption, simp_all add: web_deadlocked_def)
qed

text \<open>
  (C10) The client can deadlock, already with two files: a thread sets \<^verbatim>\<open>F_DONE\<close> before it takes the mutex to increase
  \<^verbatim>\<open>ndone\<close>, so that the main thread, woken by another one, can find the flag set and join the thread while it
  holds the mutex the thread needs. From then on the program never exits, whatever happens.
\<close>

theorem web_threads_deadlock:
  "\<exists>s. web_runs 2 2 (web_thr_init 2) s \<and> w_end s = None \<and>
     (\<forall>t. web_runs 2 2 s t \<longrightarrow> web_deadlocked 1 t \<and> w_end t \<noteq> Some Exit_ok)"
proof -
  obtain s where s: "web_runs 2 2 (web_thr_init 2) s" "web_deadlocked 1 s" "w_end s = None"
    using deadlock_reached by blast
  have "web_thr_inv 2 2 s" by (rule web_thr_inv_runs [OF s(1) web_thr_inv_init])
  with s show ?thesis by (intro exI [of _ s]) (auto dest: deadlock_stays)
qed

text \<open>With \<^verbatim>\<open>maxnconn\<close> 0 the main thread waits forever, because nobody is there to wake it.\<close>

lemma no_connections_hangs:
  assumes "0 < n"
  shows "\<exists>s. web_runs n 0 (web_thr_init n) s \<and> w_end s = None \<and> (\<nexists>t. web_thr_next n 0 s t)"
proof -
  let ?S = "\<lambda>m mu. (web_thr_init n)\<lparr>w_main := m, w_mutex := mu\<rparr>"
  have "web_runs n 0 (web_thr_init n) (web_thr_init n)" by (rule web_runs.refl)
  then have "web_runs n 0 (web_thr_init n) (?S MW_conn None)"
    by (rule main_run) (rule main_eq [OF web_main_step.again], use assms in \<open>simp_all add: web_thr_init_def\<close>)
  then have "web_runs n 0 (web_thr_init n) (?S MW_lock None)"
    by (rule main_run) (rule main_eq [OF web_main_step.enough], simp_all add: web_thr_init_def)
  then have "web_runs n 0 (web_thr_init n) (?S MW_test (Some Web_main))"
    by (rule main_run) (rule main_eq [OF web_main_step.lock], simp_all add: web_thr_init_def)
  then have "web_runs n 0 (web_thr_init n) (?S MW_wait None)"
    by (rule main_run) (rule main_eq [OF web_main_step.wait], simp_all add: web_thr_init_def)
  moreover have "\<nexists>t. web_thr_next n 0 (?S MW_wait None) t"
    by (auto simp: web_thr_next_def web_thr_init_def elim!: web_main_stepE web_thr_stepE)
  moreover have "w_end (?S MW_wait None) = None" by (simp add: web_thr_init_def)
  ultimately show ?thesis by blast
qed

section \<open>Examples\<close>

lemma one_connects: "web_runs 1 1 (web_thr_init 1) ((web_thr_init 1)\<lparr>w_main := MW_conn\<rparr>)"
  by (rule main_run [OF web_runs.refl], rule main_eq [OF web_main_step.again]) (simp_all add: web_thr_init_def)

theorem web_threads_bounded_witness:
  "web_runs 1 1 (web_thr_init 1) ((web_thr_init 1)\<lparr>w_main := MW_conn\<rparr>) \<and>
   tally thr_connection 1 (w_pc ((web_thr_init 1)\<lparr>w_main := MW_conn\<rparr>)) \<le> 1"
  using web_threads_bounded [OF one_connects] one_connects by simp


theorem web_threads_deadlock_witness:
  "\<exists>s. web_runs 2 2 (web_thr_init 2) s \<and> web_deadlocked 1 s"
  using web_threads_deadlock web_runs.refl by blast

end
