(* ===== verification/Prefork.thy ===== *)
theory Prefork
  imports Ring_Servers
begin

text \<open>
  The preforked server with descriptor passing, \<^verbatim>\<open>server/serv05.c\<close> and \<^verbatim>\<open>server/child05.c\<close>: the parent waits in
  \<^verbatim>\<open>select\<close> for connections and for children that are ready again, accepts, and passes the descriptor to an
  available child over a stream pipe; the child serves it and writes one byte back. Parent and children are a step relation
  over what is in flight in the pipes. What happens on a connection is left open: serving it ends, or it ends the child.
\<close>

section \<open>The state\<close>

text \<open>The parent: at \<^verbatim>\<open>select\<close>, with its result at the test of the listening socket, or at child \<open>i\<close> of the loop.\<close>

datatype parent_pc = Pa_select | Pa_listen "nat set" int | Pa_scan nat "nat set" int

datatype child_pc = Ch_recv | Ch_serve fd | Ch_close fd | Ch_tell | Ch_dead

datatype serv05_end = No_available | Child_terminated nat | Call_error

text \<open>
  \<open>sent i\<close> are the descriptors on their way to child \<open>i\<close>, \<open>to_parent i\<close> the bytes on their way back;
  \<open>accepted\<close> and \<open>served\<close> record the connections accepted and the ones a child has taken.
\<close>

record serv05 =
  s5_parent :: parent_pc
  child_status :: "nat \<Rightarrow> int"
  child_count :: "nat \<Rightarrow> nat"
  navail :: int
  child_at :: "nat \<Rightarrow> child_pc"
  sent :: "nat \<Rightarrow> fd list"
  to_parent :: "nat \<Rightarrow> nat"
  accepted :: "(nat \<times> fd) list"
  served :: "(nat \<times> fd) list"
  s5_end :: "serv05_end option"

definition serv05_init :: "nat \<Rightarrow> serv05" where
  "serv05_init n = \<lparr>s5_parent = Pa_select, child_status = (\<lambda>i. 0), child_count = (\<lambda>i. 0), navail = int n,
     child_at = (\<lambda>i. Ch_recv), sent = (\<lambda>i. []), to_parent = (\<lambda>i. 0), accepted = [], served = [], s5_end = None\<rparr>"

section \<open>The steps\<close>

text \<open>
  A pipe is readable when a byte is in it or when its child has died. \<^verbatim>\<open>select\<close> reports some of what it was asked for and is
  ready; that may include the listening socket only while a child is available.
\<close>

definition pipe_ready :: "serv05 \<Rightarrow> nat \<Rightarrow> bool" where
  "pipe_ready s i \<longleftrightarrow> 0 < to_parent s i \<or> child_at s i = Ch_dead"

inductive parent_step :: "nat \<Rightarrow> serv05 \<Rightarrow> serv05 \<Rightarrow> bool" for n where
  select_listen: "s5_parent s = Pa_select \<Longrightarrow> \<not> navail s \<le> 0 \<Longrightarrow> \<forall>i \<in> R. i < n \<and> pipe_ready s i \<Longrightarrow>
     parent_step n s (s\<lparr>s5_parent := Pa_listen R (int (card R) + 1)\<rparr>)"
| select_pipes: "s5_parent s = Pa_select \<Longrightarrow> \<forall>i \<in> R. i < n \<and> pipe_ready s i \<Longrightarrow> R \<noteq> {} \<Longrightarrow>
     parent_step n s (s\<lparr>s5_parent := Pa_scan 0 R (int (card R))\<rparr>)"
| accept: "s5_parent s = Pa_listen R nsel \<Longrightarrow> find (\<lambda>i. child_status s i = 0) [0..<n] = Some i \<Longrightarrow>
     parent_step n s (s\<lparr>child_status := (child_status s)(i := 1),
       child_count := (child_count s)(i := child_count s i + 1), navail := navail s - 1,
       sent := (sent s)(i := sent s i @ [connfd]), accepted := accepted s @ [(i, connfd)],
       s5_parent := (if nsel - 1 = 0 then Pa_select else Pa_scan 0 R (nsel - 1))\<rparr>)"
| no_child: "s5_parent s = Pa_listen R nsel \<Longrightarrow> find (\<lambda>i. child_status s i = 0) [0..<n] = None \<Longrightarrow>
     parent_step n s (s\<lparr>s5_end := Some No_available\<rparr>)"
| fails: "parent_step n s (s\<lparr>s5_end := Some Call_error\<rparr>)"
| not_ready: "s5_parent s = Pa_scan i R nsel \<Longrightarrow> i < n \<Longrightarrow> i \<notin> R \<Longrightarrow>
     parent_step n s (s\<lparr>s5_parent := Pa_scan (Suc i) R nsel\<rparr>)"
| ready: "s5_parent s = Pa_scan i R nsel \<Longrightarrow> i < n \<Longrightarrow> i \<in> R \<Longrightarrow> 0 < to_parent s i \<Longrightarrow>
     parent_step n s (s\<lparr>to_parent := (to_parent s)(i := to_parent s i - 1), child_status := (child_status s)(i := 0),
       navail := navail s + 1,
       s5_parent := (if nsel - 1 = 0 then Pa_select else Pa_scan (Suc i) R (nsel - 1))\<rparr>)"
| terminated: "s5_parent s = Pa_scan i R nsel \<Longrightarrow> i < n \<Longrightarrow> i \<in> R \<Longrightarrow> to_parent s i = 0 \<Longrightarrow> child_at s i = Ch_dead \<Longrightarrow>
     parent_step n s (s\<lparr>s5_end := Some (Child_terminated i)\<rparr>)"
| scanned: "s5_parent s = Pa_scan i R nsel \<Longrightarrow> \<not> i < n \<Longrightarrow> parent_step n s (s\<lparr>s5_parent := Pa_select\<rparr>)"

text \<open>A child, \<^verbatim>\<open>child_main\<close>; whatever fails ends it.\<close>

inductive child_step :: "nat \<Rightarrow> serv05 \<Rightarrow> serv05 \<Rightarrow> bool" for i where
  recv: "child_at s i = Ch_recv \<Longrightarrow> sent s i = c # cs \<Longrightarrow>
     child_step i s (s\<lparr>child_at := (child_at s)(i := Ch_serve c), sent := (sent s)(i := cs), served := served s @ [(i, c)]\<rparr>)"
| serve: "child_at s i = Ch_serve c \<Longrightarrow> child_step i s (s\<lparr>child_at := (child_at s)(i := Ch_close c)\<rparr>)"
| close: "child_at s i = Ch_close c \<Longrightarrow> child_step i s (s\<lparr>child_at := (child_at s)(i := Ch_tell)\<rparr>)"
| tell: "child_at s i = Ch_tell \<Longrightarrow>
     child_step i s (s\<lparr>child_at := (child_at s)(i := Ch_recv), to_parent := (to_parent s)(i := to_parent s i + 1)\<rparr>)"
| dies: "child_at s i \<noteq> Ch_recv \<or> sent s i \<noteq> [] \<Longrightarrow> child_step i s (s\<lparr>child_at := (child_at s)(i := Ch_dead)\<rparr>)"

definition serv05_step :: "nat \<Rightarrow> serv05 \<Rightarrow> serv05 \<Rightarrow> bool" where
  "serv05_step n s t \<longleftrightarrow> s5_end s = None \<and> (parent_step n s t \<or> (\<exists>i < n. child_step i s t))"

section \<open>Invariants\<close>

text \<open>
  What a child still owes: a descriptor in flight, one it has, or the byte that tells it is ready; a dead child owes
  that byte forever.
\<close>

definition owed :: "serv05 \<Rightarrow> nat \<Rightarrow> nat" where
  "owed s i = to_parent s i +
     (if child_at s i = Ch_dead then 1 else length (sent s i) + of_bool (child_at s i \<noteq> Ch_recv))"

definition idle_children :: "nat \<Rightarrow> (nat \<Rightarrow> int) \<Rightarrow> int" where
  "idle_children n st = (\<Sum>i < n. of_bool (st i = 0))"

definition children_ok :: "nat \<Rightarrow> serv05 \<Rightarrow> bool" where
  "children_ok n s \<longleftrightarrow> navail s = idle_children n (child_status s) \<and>
     (\<forall>i < n. child_status s i = 0 \<and> owed s i = 0 \<or> child_status s i = 1 \<and> owed s i = 1)"

text \<open>The pipes \<^verbatim>\<open>select\<close> reported and the loop has not come to yet are still ready.\<close>

definition scan_ok :: "nat \<Rightarrow> serv05 \<Rightarrow> bool" where
  "scan_ok n s \<longleftrightarrow> (case s5_parent s of Pa_select \<Rightarrow> True
     | Pa_listen R k \<Rightarrow> 0 < navail s \<and> (\<forall>i \<in> R. i < n \<and> pipe_ready s i)
     | Pa_scan j R k \<Rightarrow> \<forall>i \<in> R. j \<le> i \<longrightarrow> i < n \<and> pipe_ready s i)"

definition given :: "nat \<Rightarrow> (nat \<times> fd) list \<Rightarrow> fd list" where
  "given i xs = map snd (filter (\<lambda>p. fst p = i) xs)"

definition passed_ok :: "serv05 \<Rightarrow> bool" where
  "passed_ok s \<longleftrightarrow> (\<forall>i. given i (accepted s) = given i (served s) @ sent s i \<and> child_count s i = length (given i (accepted s)))"

lemma idle_upd [simp]:
  "i < n \<Longrightarrow> idle_children n (st(i := x)) = idle_children n st - of_bool (st i = 0) + of_bool (x = 0)"
  using sum_upd [of i n "\<lambda>v. of_bool (v = 0) :: int" st x] by (simp add: idle_children_def)

lemma given_append [simp]: "given i (xs @ ys) = given i xs @ given i ys"
  by (simp add: given_def)

lemma given_single [simp]: "given i [(j, c)] = (if j = i then [c] else [])"
  by (simp add: given_def)

lemma children_parent: "parent_step n s t \<Longrightarrow> children_ok n s \<Longrightarrow> children_ok n t"
proof (induction rule: parent_step.induct)
  case (accept s R nsel i connfd)
  then have i: "i < n" "child_status s i = 0" by (auto simp: find_Some_iff)
  moreover from this accept have "owed s i = 0" by (auto simp: children_ok_def)
  ultimately show ?case using accept(3) by (auto simp: children_ok_def owed_def split: if_splits)
next
  case (ready s i R nsel)
  then have "child_status s i = 0 \<and> owed s i = 0 \<or> child_status s i = 1 \<and> owed s i = 1" by (simp add: children_ok_def)
  with ready(4) have st: "child_status s i = 1" and o: "owed s i = 1" by (auto simp: owed_def)
  have "child_at s i \<noteq> Ch_dead" using o ready(4) by (auto simp: owed_def)
  then have "to_parent s i + length (sent s i) + of_bool (child_at s i \<noteq> Ch_recv) = 1" using o by (simp add: owed_def)
  then have "to_parent s i = 1 \<and> length (sent s i) = 0 \<and> of_bool (child_at s i \<noteq> Ch_recv) = (0 :: nat)"
    using ready(4) by linarith
  then have "to_parent s i = 1" "child_at s i = Ch_recv" "sent s i = []" by simp_all
  then have owed: "owed (s\<lparr>to_parent := (to_parent s)(i := to_parent s i - Suc 0), child_status := (child_status s)(i := 0),
      navail := k, s5_parent := p\<rparr>) j = (if j = i then 0 else owed s j)" for j k p
    by (simp add: owed_def)
  show ?case using ready(2,5) st by (simp add: children_ok_def owed)
qed (auto simp: children_ok_def owed_def)

lemma children_child:
  assumes "child_step i s t" and "i < n" and "children_ok n s"
  shows "children_ok n t"
proof -
  have "owed s i \<le> 1" using assms(2,3) by (auto simp: children_ok_def)
  with assms(1) have "owed t j = owed s j" for j
  proof (induction rule: child_step.induct)
    case (dies s)
    then show ?case by (cases "child_at s i = Ch_dead"; cases "child_at s i = Ch_recv"; cases "sent s i") (auto simp: owed_def)
  qed (auto simp: owed_def)
  moreover have "child_status t = child_status s" "navail t = navail s" using assms(1) by (cases; simp)+
  ultimately show ?thesis using assms(3) by (simp add: children_ok_def)
qed

lemma scan_parent:
  assumes "parent_step n s t" and "scan_ok n s" and "children_ok n s"
  shows "scan_ok n t"
  using assms
proof (induction rule: parent_step.induct)
  case (accept s R nsel i connfd)
  then have "i < n" "child_status s i = 0" by (auto simp: find_Some_iff)
  with accept(4) have "owed s i = 0" by (auto simp: children_ok_def)
  then have "i \<notin> R" using accept(1,3) by (auto simp: scan_ok_def pipe_ready_def owed_def split: if_splits)
  with accept show ?case by (auto simp: scan_ok_def pipe_ready_def)
next
  case (not_ready s i R nsel)
  then have "Suc i \<le> j \<Longrightarrow> i \<le> j" for j by simp
  with not_ready show ?case by (simp add: scan_ok_def pipe_ready_def)
next
  case (ready s i R nsel)
  then show ?case by (auto simp: scan_ok_def pipe_ready_def)
qed (auto simp: scan_ok_def pipe_ready_def split: parent_pc.splits)

lemma scan_child: "child_step i s t \<Longrightarrow> scan_ok n s \<Longrightarrow> scan_ok n t"
  by (induction rule: child_step.induct) (auto simp: scan_ok_def pipe_ready_def split: parent_pc.splits)

lemma passed_parent: "parent_step n s t \<Longrightarrow> passed_ok s \<Longrightarrow> passed_ok t"
  by (induction rule: parent_step.induct) (auto simp: passed_ok_def)

lemma passed_child: "child_step i s t \<Longrightarrow> passed_ok s \<Longrightarrow> passed_ok t"
  by (induction rule: child_step.induct) (auto simp: passed_ok_def)

lemma idle_pos: "0 < idle_children n st \<longleftrightarrow> (\<exists>i < n. st i = 0)"
proof -
  have "idle_children n st = 0 \<longleftrightarrow> (\<forall>i < n. st i \<noteq> 0)" by (auto simp: idle_children_def sum_nonneg_eq_0_iff)
  moreover have "0 \<le> idle_children n st" by (simp add: idle_children_def sum_nonneg)
  ultimately show ?thesis by (metis less_le)
qed

lemma end_parent:
  assumes "parent_step n s t" and "s5_end s = None" and "children_ok n s" and "scan_ok n s"
  shows "s5_end t \<noteq> Some No_available \<and> (\<forall>i. s5_end t = Some (Child_terminated i) \<longrightarrow> child_at t i = Ch_dead)"
  using assms
proof (induction rule: parent_step.induct)
  case (no_child s R nsel)
  then have "\<exists>i < n. child_status s i = 0" by (auto simp: scan_ok_def children_ok_def idle_pos)
  with no_child(2) show ?case by (auto simp: find_None_iff)
qed auto

definition serv05_inv :: "nat \<Rightarrow> serv05 \<Rightarrow> bool" where
  "serv05_inv n s \<longleftrightarrow> children_ok n s \<and> scan_ok n s \<and> passed_ok s \<and> s5_end s \<noteq> Some No_available \<and>
     (\<forall>i. s5_end s = Some (Child_terminated i) \<longrightarrow> child_at s i = Ch_dead)"

lemma serv05_inv_step:
  assumes "serv05_step n s t" and "serv05_inv n s"
  shows "serv05_inv n t"
proof -
  have e: "s5_end s = None" using assms(1) by (simp add: serv05_step_def)
  from assms(1) consider "parent_step n s t" | i where "i < n" "child_step i s t" by (auto simp: serv05_step_def)
  then show ?thesis
  proof cases
    case 1
    with assms(2) e show ?thesis
      using children_parent scan_parent passed_parent end_parent unfolding serv05_inv_def by blast
  next
    case 2
    then have "s5_end t = None" using e by (auto elim: child_step.cases)
    with 2 assms(2) show ?thesis
      using children_child scan_child passed_child unfolding serv05_inv_def by fastforce
  qed
qed

lemma serv05_inv: "(serv05_step n)\<^sup>*\<^sup>* (serv05_init n) s \<Longrightarrow> serv05_inv n s"
proof (induction rule: rtranclp_induct)
  case base
  show ?case by (simp add: serv05_inv_def serv05_init_def children_ok_def scan_ok_def passed_ok_def owed_def given_def idle_children_def)
next
  case (step s t)
  then show ?case using serv05_inv_step by blast
qed

section \<open>Properties\<close>



text \<open>
  One child that ends, as \<^verbatim>\<open>web_child\<close> makes it do when a client asks for too many bytes, can end the whole server: from any
  state in which the parent is at \<^verbatim>\<open>select\<close>.
\<close>

lemma scan_to:
  "s5_end s = None \<Longrightarrow> s5_parent s = Pa_scan 0 {i} k \<Longrightarrow> j \<le> i \<Longrightarrow> i < n \<Longrightarrow>
     (serv05_step n)\<^sup>*\<^sup>* s (s\<lparr>s5_parent := Pa_scan j {i} k\<rparr>)"
proof (induction j)
  case 0
  then have "s\<lparr>s5_parent := Pa_scan 0 {i} k\<rparr> = s" by (cases s) simp
  then show ?case by simp
next
  case (Suc j)
  let ?s = "s\<lparr>s5_parent := Pa_scan j {i} k\<rparr>"
  have "parent_step n ?s (?s\<lparr>s5_parent := Pa_scan (Suc j) {i} k\<rparr>)"
    by (rule parent_step.not_ready) (use Suc.prems in auto)
  then have "serv05_step n ?s (s\<lparr>s5_parent := Pa_scan (Suc j) {i} k\<rparr>)" using Suc.prems by (simp add: serv05_step_def)
  with Suc show ?case by (auto intro: rtranclp.rtrancl_into_rtrancl)
qed

theorem serv05_child_ends_server:
  assumes "(serv05_step n)\<^sup>*\<^sup>* (serv05_init n) s" and "s5_parent s = Pa_select" and "s5_end s = None"
    and "i < n" and "child_at s i = Ch_dead"
  shows "\<exists>t. (serv05_step n)\<^sup>*\<^sup>* s t \<and> s5_end t = Some (Child_terminated i)"
proof -
  have "owed s i \<le> 1" using serv05_inv [OF assms(1)] assms(4) by (auto simp: serv05_inv_def children_ok_def)
  then have empty: "to_parent s i = 0" using assms(5) by (simp add: owed_def)
  let ?s = "s\<lparr>s5_parent := Pa_scan 0 {i} 1\<rparr>" and ?t = "s\<lparr>s5_parent := Pa_scan i {i} 1\<rparr>"
  have "parent_step n s (s\<lparr>s5_parent := Pa_scan 0 {i} (int (card {i}))\<rparr>)"
    by (rule parent_step.select_pipes) (use assms in \<open>auto simp: pipe_ready_def\<close>)
  then have "serv05_step n s ?s" using assms(3) by (simp add: serv05_step_def)
  moreover have "(serv05_step n)\<^sup>*\<^sup>* ?s ?t" using scan_to [of ?s i 1 i n] assms(3,4) by simp
  moreover have "parent_step n ?t (?t\<lparr>s5_end := Some (Child_terminated i)\<rparr>)"
    by (rule parent_step.terminated) (use assms empty in auto)
  then have "serv05_step n ?t (?t\<lparr>s5_end := Some (Child_terminated i)\<rparr>)" using assms(3) by (simp add: serv05_step_def)
  ultimately have "(serv05_step n)\<^sup>*\<^sup>* s (?t\<lparr>s5_end := Some (Child_terminated i)\<rparr>)"
    by (meson converse_rtranclp_into_rtranclp rtranclp.rtrancl_into_rtrancl)
  then show ?thesis by (intro exI conjI) (assumption, simp)
qed

section \<open>Examples\<close>

text \<open>One child and one connection: accepted, passed on, and the child dies while it serves it.\<close>

definition serv05_passed :: serv05 where
  "serv05_passed = (serv05_init 1)\<lparr>child_status := (\<lambda>i. 0)(0 := 1), child_count := (\<lambda>i. 0)(0 := 1), navail := 0,
     sent := (\<lambda>i. [])(0 := [7]), accepted := [(0, 7)]\<rparr>"

lemma serv05_passed_reached: "(serv05_step 1)\<^sup>*\<^sup>* (serv05_init 1) serv05_passed"
proof -
  let ?s = "(serv05_init 1)\<lparr>s5_parent := Pa_listen {} (int (card ({} :: nat set)) + 1)\<rparr>"
  have "parent_step 1 (serv05_init 1) ?s"
    by (rule parent_step.select_listen) (simp_all add: serv05_init_def)
  moreover have "parent_step 1 ?s serv05_passed"
    using parent_step.accept [of ?s "{}" 1 1 0 7] by (simp add: serv05_init_def serv05_passed_def upt_rec)
  ultimately have "serv05_step 1 (serv05_init 1) ?s" "serv05_step 1 ?s serv05_passed"
    by (simp_all add: serv05_step_def serv05_init_def)
  then show ?thesis by (meson converse_rtranclp_into_rtranclp r_into_rtranclp)
qed



theorem serv05_child_ends_server_witness:
  "\<exists>t. (serv05_step 1)\<^sup>*\<^sup>* (serv05_init 1) t \<and> s5_end t = Some (Child_terminated 0)"
proof -
  let ?s = "serv05_passed\<lparr>child_at := (child_at serv05_passed)(0 := Ch_dead)\<rparr>"
  have "child_step 0 serv05_passed ?s" by (rule child_step.dies) (simp add: serv05_passed_def)
  then have "serv05_step 1 serv05_passed ?s" by (auto simp: serv05_step_def serv05_passed_def serv05_init_def)
  with serv05_passed_reached have r: "(serv05_step 1)\<^sup>*\<^sup>* (serv05_init 1) ?s" by (rule rtranclp.rtrancl_into_rtrancl)
  have "\<exists>t. (serv05_step 1)\<^sup>*\<^sup>* ?s t \<and> s5_end t = Some (Child_terminated 0)"
    by (rule serv05_child_ends_server [OF r]) (simp_all add: serv05_passed_def serv05_init_def)
  with r show ?thesis by (meson rtranclp_trans)
qed

end
