(* ===== verification/Spec2Isabelle.thy ===== *)
theory Spec2Isabelle
  imports Sigio_Server Ping Gai Select_Server Poll_Server Stream_Clients Web_Client Icmpd Traceroute
    Rw_Ring Quick_Sort Nth_Select Linked_Tree Linked_Queue
    Web_Threads Prefork
begin

text \<open>
  A verification development for the C network programming library and its programs under
  \<^verbatim>\<open>src/unp/unpv13e\<close>, and for the C++ headers of the same repository that hold algorithms of their own:
  \<^verbatim>\<open>src/recv_engine/rw_ring.h\<close>, \<^verbatim>\<open>src/algorithm\<close> and \<^verbatim>\<open>src/data_structure\<close>. Paths below without a
  directory of their own are relative to \<^verbatim>\<open>src/unp/unpv13e\<close>.

  \<^bold>\<open>How a C function becomes a definition.\<close> A function without system calls is a HOL function on bytes,
  words and records. A function that makes system calls is a function of a \<^verbatim>\<open>world\<close>: the kernel's answers
  that are still to come, the calls made so far, and \<^verbatim>\<open>errno\<close>. Its result is a \<^verbatim>\<open>run\<close>: it returned, the
  process ended, or it waits in a call for which the kernel has no answer yet. A theorem about every world is a
  theorem about every behaviour of the kernel. Every loop that makes a call uses up an answer; the length of
  the remaining answers is the measure of its termination proof, so that there is no fuel anywhere, and an
  endless server is a function that never returns. Loops without calls recurse on their data, on a
  lexicographic measure (quick sort), or are \<^verbatim>\<open>partial_function\<close>s where they may really not end (walks in
  a store of nodes, selection); that they return is then part of the theorem. Programs with several threads
  or with signal handlers are step relations whose steps are the accesses to shared memory. The delivery of a
  signal to a single-threaded program is the answer \<^verbatim>\<open>EINTR\<close> of the call it interrupts. Integers have the
  width of the platform where it can matter (\<^verbatim>\<open>word\<close>), and are unbounded where the code cannot reach the
  bound. Constants are those of x86_64 Linux, little endian, as the checked-in \<^verbatim>\<open>config.h\<close> selects.

  \<^bold>\<open>Foundations.\<close> \<^verbatim>\<open>Unp_Prelude\<close>: types, constants, socket addresses, lemmas on lists and words.
  \<^verbatim>\<open>Unp_World\<close>: worlds, runs, system calls with the contracts of POSIX, and \<^verbatim>\<open>lib/error.c\<close>.
  \<^verbatim>\<open>Unp_Wrap\<close>: the wrapper functions of \<^verbatim>\<open>lib/wrap*.c\<close> and the locale \<^verbatim>\<open>wrapper\<close>, with one
  interpretation per wrapper that the later proofs use. \<^verbatim>\<open>Run_Logic\<close>: rules for what holds of a trace
  wherever a run stops, the bytes a descriptor received and sent. \<^verbatim>\<open>C_Float\<close>: rounding of \<^verbatim>\<open>float\<close> and
  \<^verbatim>\<open>double\<close>.

  \<^bold>\<open>The library.\<close> \<^verbatim>\<open>Stream_IO\<close> (\<^verbatim>\<open>readn\<close>, \<^verbatim>\<open>writen\<close> and three versions of \<^verbatim>\<open>readline\<close>; the locales
  \<^verbatim>\<open>byte_source\<close> and \<^verbatim>\<open>line_buffer\<close> make one proof of the three): no byte is lost, repeated or reordered.
  \<^verbatim>\<open>Inet_Addr\<close> (\<^verbatim>\<open>inet_pton\<close>, \<^verbatim>\<open>inet_ntop\<close>, \<^verbatim>\<open>inet_aton\<close>; locale \<^verbatim>\<open>address_codec\<close>): printing and
  parsing are inverse, within the size of the buffers. \<^verbatim>\<open>Sockaddr\<close> (\<^verbatim>\<open>lib/sock_*.c\<close>). \<^verbatim>\<open>Net_Helpers\<close>
  (\<^verbatim>\<open>tcp_connect\<close>, \<^verbatim>\<open>tcp_listen\<close> and the other set-up functions, time limits, signals, descriptor
  passing, daemons; locale \<^verbatim>\<open>socket_setup\<close>): no descriptor leaks on any path. \<^verbatim>\<open>Gai\<close>
  (\<^verbatim>\<open>libgai\<close>: \<^verbatim>\<open>getaddrinfo\<close>, \<^verbatim>\<open>getnameinfo\<close>): what is returned is usable and is all that stays allocated;
  the locale \<^verbatim>\<open>address_lookup\<close> is what the set-up functions assume of it and is interpreted on it.
  \<^verbatim>\<open>Rtt\<close> (\<^verbatim>\<open>lib/rtt.c\<close>, \<^verbatim>\<open>rtt/\<close>): the retransmission timer in floating point and the reliable exchange.
  \<^verbatim>\<open>In_Cksum\<close> (\<^verbatim>\<open>libfree/in_cksum.c\<close>): it is the one's complement sum, and its packets verify.

  \<^bold>\<open>Clients and servers.\<close> \<^verbatim>\<open>Echo\<close> (\<^verbatim>\<open>str_echo\<close>, \<^verbatim>\<open>str_cli\<close>, \<^verbatim>\<open>dg_echo\<close>, \<^verbatim>\<open>dg_cli\<close>).
  \<^verbatim>\<open>Fd_Table\<close>: the table of connections of a single-process server; the locale \<^verbatim>\<open>fd_table\<close> relates it to
  the descriptors the trace shows open. \<^verbatim>\<open>Select_Server\<close> and \<^verbatim>\<open>Poll_Server\<close> (\<^verbatim>\<open>tcpcliserv\<close>) interpret
  it: table, descriptor set and open connections agree in every reachable state, and every client gets back
  what it sent. \<^verbatim>\<open>Stream_Clients\<close> (\<^verbatim>\<open>nonblock/strclinonb.c\<close>, \<^verbatim>\<open>select/strcliselect02.c\<close>): two
  directions at once, without loss inside the buffers. \<^verbatim>\<open>Web_Client\<close> (\<^verbatim>\<open>nonblock/web.c\<close> and its parts):
  never more connections than allowed, all files finished at the end. \<^verbatim>\<open>Ring_Servers\<close>
  (\<^verbatim>\<open>server/serv08.c\<close>, \<^verbatim>\<open>server/pthread08.c\<close>) and \<^verbatim>\<open>Sigio_Server\<close> (\<^verbatim>\<open>sigio/dgecho01.c\<close>): work handed over
  through a ring, between threads and from a signal handler, in every interleaving; both rings interpret
  the locale \<^verbatim>\<open>bounded_queue\<close>. \<^verbatim>\<open>Web_Threads\<close> (\<^verbatim>\<open>threads/web03.c\<close>): the client with a thread per file never has
  more connections than allowed and never loses a wake-up, but can deadlock; that deadlock is the only state in
  which it is stuck. \<^verbatim>\<open>Prefork\<close> (\<^verbatim>\<open>server/serv05.c\<close>, \<^verbatim>\<open>server/child05.c\<close>): every accepted connection is passed to one idle
  child, and the parent accepts only when there is one; a child that dies ends the server.

  \<^bold>\<open>Programs on raw sockets.\<close> \<^verbatim>\<open>Icmp\<close>: what they share. \<^verbatim>\<open>Ping\<close> (\<^verbatim>\<open>ping/\<close>): a request's reply is
  reported, with its sequence number. \<^verbatim>\<open>Traceroute\<close> (\<^verbatim>\<open>traceroute/\<close>): the probes sent follow the plan,
  and the message that returns a probe is found. \<^verbatim>\<open>Icmpd\<close> (\<^verbatim>\<open>icmpd/\<close>): an error reaches exactly the
  registered sender of the datagram.

  \<^bold>\<open>C++ headers.\<close> \<^verbatim>\<open>Rw_Ring\<close> (\<^verbatim>\<open>src/recv_engine/rw_ring.h\<close>): for one thread a bounded queue (the
  locale of the C rings, interpreted once more), and between two threads the exact situations in which it is not.
  \<^verbatim>\<open>Vec\<close>: checked vectors and the partition loop. \<^verbatim>\<open>Quick_Sort\<close> and \<^verbatim>\<open>Nth_Select\<close>
  (\<^verbatim>\<open>src/algorithm/qsort.h\<close>, \<^verbatim>\<open>qselect.h\<close>): they sort and select, with the inputs on which they do not.
  \<^verbatim>\<open>Linked_Store\<close>: nodes in a store, with use of freed nodes, exhausted memory and endless walks as
  results. \<^verbatim>\<open>Linked_Tree\<close> and \<^verbatim>\<open>Linked_Queue\<close> (\<^verbatim>\<open>src/data_structure/BST.h\<close>, \<^verbatim>\<open>queue.h\<close>): every member
  function does on the store what it does on a tree or a list, and frees exactly what it must; removal from the tree
  has one case that makes it cyclic.

  \<^bold>\<open>Not modelled.\<close> \<^verbatim>\<open>libfree/getaddrinfo.c\<close> is a second implementation of what \<^verbatim>\<open>Gai\<close> covers, from
  another project. The remaining programs of the book are variants of the modelled ones (a process or thread per
  client, other transports), demonstrations of one system call (broadcast, multicast, out-of-band data,
  socket options, names), or depend on systems other than the modelled one (routing and key sockets, XTI,
  SCTP). \<^verbatim>\<open>ping/bsdping.c\<close> is the program the modelled ping was derived from. \<^verbatim>\<open>Pthread_once\<close> runs a
  function that only the library knows. Of the prethreaded and the preforked server the start-up, what is
  exchanged with a client and the statistics at the end are left out, of the threaded web client the bytes exchanged and the
  messages. The remaining C++ code calls packet capture, Parquet and other libraries, or consists of
  textbook exercises.
\<close>

end
